(* ===== verification/Fishy_Prelude.thy ===== *)
theory Fishy_Prelude
  imports Main "HOL-Library.Word"
begin

text \<open>
  Vocabulary shared by the component theories: the machine types of
  \<^verbatim>\<open>CORE/TYPES/pod_types.h\<close> as words of their width, the error codes of
  \<^verbatim>\<open>CORE/BASE/status.h\<close>, the ways a call can fail to return, and generic lemmas
  on lists, options and words that the component proofs use.

  The model is of the release configuration: \<^verbatim>\<open>ASSERT\<close> and \<^verbatim>\<open>IF_ASSERTS\<close>
  expand to nothing there (\<^verbatim>\<open>CORE/BASE/asserts.h\<close>), so a condition that is only
  asserted is not a branch of a definition but, where a result needs it, a hypothesis.
  \<^verbatim>\<open>CHECK\<close> stays in release builds and is modelled by the fault \<open>CheckFailed\<close>.
\<close>

unbundle bit_operations_syntax

named_theorems fishy_simps \<open>defining equations a component unfolds in its own proofs\<close>
named_theorems fishy_intros \<open>preservation facts a component exports\<close>

section \<open>Machine types\<close>

type_synonym u8 = "8 word"
type_synonym u32 = "32 word"
type_synonym s32 = "32 word"
type_synonym u64 = "64 word"

section \<open>Results\<close>

text \<open>
  How a call can end other than by returning: a \<^verbatim>\<open>CHECK\<close> that fails, a read or
  write outside its object or of an object that was never initialised, a recursion or a
  loop that does not end, the conversion of a number to a type that cannot hold it, another
  operation that C++ leaves undefined, an exception of the standard library
  (\<^verbatim>\<open>out_of_range\<close>, \<^verbatim>\<open>length_error\<close>) that nothing catches.
\<close>

datatype fault =
    CheckFailed
  | OutOfBounds
  | Diverges
  | NotRepresentable
  | Undefined
  | Exception

text \<open>Running a call that may fault after another.\<close>

definition bind_result :: "'e + 'a \<Rightarrow> ('a \<Rightarrow> 'e + 'b) \<Rightarrow> 'e + 'b" where
  "bind_result m f = (case m of Inl e \<Rightarrow> Inl e | Inr x \<Rightarrow> f x)"

lemma bind_result_simps [simp]:
  "bind_result (Inl e) f = Inl e"
  "bind_result (Inr x) f = f x"
  by (simp_all add: bind_result_def)

lemma bind_result_cong [fundef_cong]:
  "m = m' \<Longrightarrow> (\<And>x. m' = Inr x \<Longrightarrow> f x = g x) \<Longrightarrow> bind_result m f = bind_result m' g"
  by (cases m') simp_all

lemma bind_result_eq_Inr:
  "bind_result m f = Inr y \<longleftrightarrow> (\<exists>x. m = Inr x \<and> f x = Inr y)"
  by (cases m) simp_all

text \<open>
  Partial correctness with exceptions: a call returns a value with property \<open>P\<close>, or ends with
  one of the faults \<open>F\<close>. With \<open>F\<close> empty this is total correctness.
\<close>

definition result_ok :: "'e set \<Rightarrow> ('a \<Rightarrow> bool) \<Rightarrow> 'e + 'a \<Rightarrow> bool" where
  "result_ok F P m = (case m of Inl e \<Rightarrow> e \<in> F | Inr x \<Rightarrow> P x)"

lemma result_ok_simps [simp]:
  "result_ok F P (Inl e) \<longleftrightarrow> e \<in> F"
  "result_ok F P (Inr x) \<longleftrightarrow> P x"
  by (simp_all add: result_ok_def)

lemma result_ok_bind:
  "result_ok F P m \<Longrightarrow> (\<And>x. P x \<Longrightarrow> m = Inr x \<Longrightarrow> result_ok F Q (f x)) \<Longrightarrow> result_ok F Q (bind_result m f)"
  by (cases m) simp_all

lemma result_ok_mono:
  "result_ok F P m \<Longrightarrow> (\<And>x. P x \<Longrightarrow> m = Inr x \<Longrightarrow> Q x) \<Longrightarrow> result_ok F Q m"
  by (cases m) simp_all

lemma result_ok_InrD: "result_ok F P m \<Longrightarrow> m = Inr x \<Longrightarrow> P x"
  by simp

text \<open>The codes of \<^verbatim>\<open>Status::eError\<close>.\<close>

datatype status =
    OK
  | GENERIC_ERROR
  | BAD_ARGUMENT
  | NOT_FOUND
  | TIMEOUT
  | CANCELED
  | OUT_OF_BOUNDS
  | BAD_INPUT
  | BAD_STATE
  | UNSUPPORTED

definition status_of_bool :: "bool \<Rightarrow> status" where
  "status_of_bool ok = (if ok then OK else GENERIC_ERROR)"

definition status_ok :: "status \<Rightarrow> bool" where
  "status_ok s \<longleftrightarrow> s = OK"

section \<open>Characters and bytes\<close>

definition byte_of :: "char \<Rightarrow> u8" where
  "byte_of c = of_char c"

definition bytes_of :: "string \<Rightarrow> u8 list" where
  "bytes_of s = map byte_of s"

definition char_of_byte :: "u8 \<Rightarrow> char" where
  "char_of_byte b = char_of (unat b)"

definition string_of_bytes :: "u8 list \<Rightarrow> string" where
  "string_of_bytes bs = map char_of_byte bs"

lemma unat_byte_of: "unat (byte_of c) = of_char c"
proof -
  have "unat (of_nat (of_char c) :: u8) = (of_char c :: nat)"
    by (simp only: unat_of_nat) simp
  then show ?thesis by (simp add: byte_of_def of_nat_of_char)
qed

lemma char_of_byte_of [simp]: "char_of_byte (byte_of c) = c"
  by (simp add: char_of_byte_def unat_byte_of)

lemma string_of_bytes_of [simp]: "string_of_bytes (bytes_of s) = s"
  by (simp add: string_of_bytes_def bytes_of_def comp_def)

lemma length_bytes_of [simp]: "length (bytes_of s) = length s"
  by (simp add: bytes_of_def)

section \<open>Lists\<close>

text \<open>Reading an element by index; \<open>None\<close> is a read out of range.\<close>

definition nth_opt :: "'a list \<Rightarrow> nat \<Rightarrow> 'a option" where
  "nth_opt xs i = (if i < length xs then Some (xs ! i) else None)"

lemma nth_opt_Some [simp]: "i < length xs \<Longrightarrow> nth_opt xs i = Some (xs ! i)"
  by (simp add: nth_opt_def)

lemma nth_opt_eq_Some_iff: "nth_opt xs i = Some x \<longleftrightarrow> i < length xs \<and> xs ! i = x"
  by (auto simp: nth_opt_def)

lemma nth_opt_append_left: "i < length xs \<Longrightarrow> nth_opt (xs @ ys) i = nth_opt xs i"
  by (simp add: nth_opt_def nth_append)

lemma length_filter_update:
  "i < length xs \<Longrightarrow>
   length (filter P (xs[i := y])) + (if P (xs ! i) then 1 else 0) =
   length (filter P xs) + (if P y then 1 else 0)"
proof (induction xs arbitrary: i)
  case Nil
  then show ?case by simp
next
  case (Cons x xs)
  then show ?case by (cases i) auto
qed

end
