(* ===== verification/Strings.thy ===== *)
theory Strings
  imports Fishy_Prelude "HOL-Library.Sublist"
begin

text \<open>
  The operations of \<^verbatim>\<open>std::string\<close> that several components call, on lists of characters:
  \<^verbatim>\<open>substr\<close>, \<^verbatim>\<open>at\<close>, and the searches, whose \<^verbatim>\<open>npos\<close> is \<open>None\<close>. Positions are natural
  numbers; no string in memory lets them wrap.
\<close>

definition substr :: "string \<Rightarrow> nat \<Rightarrow> nat \<Rightarrow> string" where
  "substr v pos n = take n (drop pos v)"

text \<open>\<^verbatim>\<open>v.at(i)\<close>, which throws when the index is out of range.\<close>

definition str_at :: "string \<Rightarrow> nat \<Rightarrow> fault + char" where
  "str_at v i = (if i < length v then Inr (v ! i) else Inl Exception)"

text \<open>The first position of a character, its last position, and the first one of a string.\<close>

fun find_char :: "char \<Rightarrow> string \<Rightarrow> nat option" where
  "find_char c [] = None"
| "find_char c (x # xs) = (if x = c then Some 0 else map_option Suc (find_char c xs))"

fun find_last_of :: "char \<Rightarrow> string \<Rightarrow> nat option" where
  "find_last_of c [] = None"
| "find_last_of c (x # xs) =
     (case find_last_of c xs of Some i \<Rightarrow> Some (Suc i) | None \<Rightarrow> if x = c then Some 0 else None)"

fun find_str :: "string \<Rightarrow> string \<Rightarrow> nat option" where
  "find_str m [] = (if m = [] then Some 0 else None)"
| "find_str m (x # xs) =
     (if take (length m) (x # xs) = m then Some 0 else map_option Suc (find_str m xs))"

lemma find_char_less: "find_char c xs = Some i \<Longrightarrow> i < length xs"
  by (induction xs arbitrary: i) (auto split: if_splits)

lemma find_char_None: "find_char c xs = None \<longleftrightarrow> c \<notin> set xs"
  by (induction xs) auto

lemma find_char_Some:
  "find_char c xs = Some i \<Longrightarrow> xs = take i xs @ c # drop (i + 1) xs \<and> c \<notin> set (take i xs)"
  by (induction xs arbitrary: i) (auto split: if_splits)

lemma find_last_of_None: "find_last_of c xs = None \<longleftrightarrow> c \<notin> set xs"
  by (induction xs) (auto split: option.splits)

lemma find_last_of_append:
  "c \<notin> set ys \<Longrightarrow> find_last_of c (xs @ c # ys) = Some (length xs)"
  by (induction xs) (auto simp: find_last_of_None split: option.splits)

lemma find_last_of_less: "find_last_of c xs = Some i \<Longrightarrow> i < length xs"
  by (induction xs arbitrary: i) (auto split: option.splits if_splits)

lemma find_last_of_Some:
  "find_last_of c xs = Some i \<Longrightarrow> xs = take i xs @ c # drop (Suc i) xs \<and> c \<notin> set (drop (Suc i) xs)"
  by (induction xs arbitrary: i) (auto simp: find_last_of_None split: option.splits if_splits)

lemma take_eq_prefix: "take (length m) s = m \<longleftrightarrow> prefix m s"
  by (metis append_take_drop_id prefix_def append_eq_conv_conj)

lemma find_str_le: "find_str m xs = Some i \<Longrightarrow> i + length m \<le> length xs"
proof (induction xs arbitrary: i)
  case (Cons x xs)
  show ?case
  proof (cases "take (length m) (x # xs) = m")
    case True
    then have "length m \<le> length (x # xs)" by (metis length_take min.cobounded1)
    with True Cons.prems show ?thesis by simp
  next
    case False
    with Cons show ?thesis by auto
  qed
qed (auto split: if_splits)

lemma find_str_prefix: "find_str m xs = Some 0 \<longleftrightarrow> prefix m xs"
  by (cases xs) (auto simp: take_eq_prefix)

lemma find_str_None: "find_str m xs = None \<longleftrightarrow> \<not> sublist m xs"
proof (induction xs)
  case (Cons x xs)
  have "find_str m (x # xs) = None \<longleftrightarrow> \<not> prefix m (x # xs) \<and> find_str m xs = None"
    by (simp only: find_str.simps take_eq_prefix) simp
  with Cons show ?case by (simp add: sublist_Cons_right)
qed simp

end
