(* ===== verification/Crc32.thy ===== *)
theory Crc32
  imports Fishy_Prelude
begin

text \<open>
  \<^verbatim>\<open>CORE/HASH/crc32.h\<close> and \<^verbatim>\<open>crc32.cpp\<close>: the table driven CRC-32, its
  case insensitive variant and the incremental interface. A buffer is the list of its
  bytes. The specification is the bitwise division by the reflected polynomial; the table
  is proved to hold eight steps of it per byte value.
\<close>

section \<open>The code\<close>

definition crc_table :: "u32 list" where
  "crc_table = [
   0x00000000, 0x77073096, 0xEE0E612C, 0x990951BA, 0x076DC419, 0x706AF48F,
   0xE963A535, 0x9E6495A3, 0x0EDB8832, 0x79DCB8A4, 0xE0D5E91E, 0x97D2D988,
   0x09B64C2B, 0x7EB17CBD, 0xE7B82D07, 0x90BF1D91, 0x1DB71064, 0x6AB020F2,
   0xF3B97148, 0x84BE41DE, 0x1ADAD47D, 0x6DDDE4EB, 0xF4D4B551, 0x83D385C7,
   0x136C9856, 0x646BA8C0, 0xFD62F97A, 0x8A65C9EC, 0x14015C4F, 0x63066CD9,
   0xFA0F3D63, 0x8D080DF5, 0x3B6E20C8, 0x4C69105E, 0xD56041E4, 0xA2677172,
   0x3C03E4D1, 0x4B04D447, 0xD20D85FD, 0xA50AB56B, 0x35B5A8FA, 0x42B2986C,
   0xDBBBC9D6, 0xACBCF940, 0x32D86CE3, 0x45DF5C75, 0xDCD60DCF, 0xABD13D59,
   0x26D930AC, 0x51DE003A, 0xC8D75180, 0xBFD06116, 0x21B4F4B5, 0x56B3C423,
   0xCFBA9599, 0xB8BDA50F, 0x2802B89E, 0x5F058808, 0xC60CD9B2, 0xB10BE924,
   0x2F6F7C87, 0x58684C11, 0xC1611DAB, 0xB6662D3D, 0x76DC4190, 0x01DB7106,
   0x98D220BC, 0xEFD5102A, 0x71B18589, 0x06B6B51F, 0x9FBFE4A5, 0xE8B8D433,
   0x7807C9A2, 0x0F00F934, 0x9609A88E, 0xE10E9818, 0x7F6A0DBB, 0x086D3D2D,
   0x91646C97, 0xE6635C01, 0x6B6B51F4, 0x1C6C6162, 0x856530D8, 0xF262004E,
   0x6C0695ED, 0x1B01A57B, 0x8208F4C1, 0xF50FC457, 0x65B0D9C6, 0x12B7E950,
   0x8BBEB8EA, 0xFCB9887C, 0x62DD1DDF, 0x15DA2D49, 0x8CD37CF3, 0xFBD44C65,
   0x4DB26158, 0x3AB551CE, 0xA3BC0074, 0xD4BB30E2, 0x4ADFA541, 0x3DD895D7,
   0xA4D1C46D, 0xD3D6F4FB, 0x4369E96A, 0x346ED9FC, 0xAD678846, 0xDA60B8D0,
   0x44042D73, 0x33031DE5, 0xAA0A4C5F, 0xDD0D7CC9, 0x5005713C, 0x270241AA,
   0xBE0B1010, 0xC90C2086, 0x5768B525, 0x206F85B3, 0xB966D409, 0xCE61E49F,
   0x5EDEF90E, 0x29D9C998, 0xB0D09822, 0xC7D7A8B4, 0x59B33D17, 0x2EB40D81,
   0xB7BD5C3B, 0xC0BA6CAD, 0xEDB88320, 0x9ABFB3B6, 0x03B6E20C, 0x74B1D29A,
   0xEAD54739, 0x9DD277AF, 0x04DB2615, 0x73DC1683, 0xE3630B12, 0x94643B84,
   0x0D6D6A3E, 0x7A6A5AA8, 0xE40ECF0B, 0x9309FF9D, 0x0A00AE27, 0x7D079EB1,
   0xF00F9344, 0x8708A3D2, 0x1E01F268, 0x6906C2FE, 0xF762575D, 0x806567CB,
   0x196C3671, 0x6E6B06E7, 0xFED41B76, 0x89D32BE0, 0x10DA7A5A, 0x67DD4ACC,
   0xF9B9DF6F, 0x8EBEEFF9, 0x17B7BE43, 0x60B08ED5, 0xD6D6A3E8, 0xA1D1937E,
   0x38D8C2C4, 0x4FDFF252, 0xD1BB67F1, 0xA6BC5767, 0x3FB506DD, 0x48B2364B,
   0xD80D2BDA, 0xAF0A1B4C, 0x36034AF6, 0x41047A60, 0xDF60EFC3, 0xA867DF55,
   0x316E8EEF, 0x4669BE79, 0xCB61B38C, 0xBC66831A, 0x256FD2A0, 0x5268E236,
   0xCC0C7795, 0xBB0B4703, 0x220216B9, 0x5505262F, 0xC5BA3BBE, 0xB2BD0B28,
   0x2BB45A92, 0x5CB36A04, 0xC2D7FFA7, 0xB5D0CF31, 0x2CD99E8B, 0x5BDEAE1D,
   0x9B64C2B0, 0xEC63F226, 0x756AA39C, 0x026D930A, 0x9C0906A9, 0xEB0E363F,
   0x72076785, 0x05005713, 0x95BF4A82, 0xE2B87A14, 0x7BB12BAE, 0x0CB61B38,
   0x92D28E9B, 0xE5D5BE0D, 0x7CDCEFB7, 0x0BDBDF21, 0x86D3D2D4, 0xF1D4E242,
   0x68DDB3F8, 0x1FDA836E, 0x81BE16CD, 0xF6B9265B, 0x6FB077E1, 0x18B74777,
   0x88085AE6, 0xFF0F6A70, 0x66063BCA, 0x11010B5C, 0x8F659EFF, 0xF862AE69,
   0x616BFFD3, 0x166CCF45, 0xA00AE278, 0xD70DD2EE, 0x4E048354, 0x3903B3C2,
   0xA7672661, 0xD06016F7, 0x4969474D, 0x3E6E77DB, 0xAED16A4A, 0xD9D65ADC,
   0x40DF0B66, 0x37D83BF0, 0xA9BCAE53, 0xDEBB9EC5, 0x47B2CF7F, 0x30B5FFE9,
   0xBDBDF21C, 0xCABAC28A, 0x53B39330, 0x24B4A3A6, 0xBAD03605, 0xCDD70693,
   0x54DE5729, 0x23D967BF, 0xB3667A2E, 0xC4614AB8, 0x5D681B02, 0x2A6F2B94,
   0xB40BBE37, 0xC30C8EA1, 0x5A05DF1B, 0x2D02EF8D
   ]"

text \<open>One turn of the loop of \<^verbatim>\<open>CRC32(buff, sz)\<close>.\<close>

definition crc_loop_step :: "u32 \<Rightarrow> u8 \<Rightarrow> u32" where
  "crc_loop_step crc ch =
     (let iTable = (ucast ch XOR crc) AND 0xFF;
          crc = drop_bit 8 crc
      in crc XOR crc_table ! unat iTable)"

definition CRC32 :: "u8 list \<Rightarrow> u32" where
  "CRC32 buff =
     (let crc = 0xFFFFFFFF;
          crc = foldl crc_loop_step crc buff
      in crc XOR 0xFFFFFFFF)"

text \<open>The folding of a byte done by \<^verbatim>\<open>CiCRC32\<close>: letters to capitals, slash to backslash.\<close>

definition ci_byte :: "u8 \<Rightarrow> u8" where
  "ci_byte ch =
     (let ch = (if ch \<ge> 97 \<and> ch \<le> 122 then ch - (97 - 65) else ch)
      in if ch = 47 then 92 else ch)"

definition CiCRC32 :: "u8 list \<Rightarrow> u32" where
  "CiCRC32 buff =
     (let crc = 0xFFFFFFFF;
          crc = foldl (\<lambda>crc ch. crc_loop_step crc (ci_byte ch)) crc buff
      in crc XOR 0xFFFFFFFF)"

text \<open>The incremental interface.\<close>

definition CRC32_byte :: "u32 \<Rightarrow> u8 \<Rightarrow> u32" where
  "CRC32_byte start byte =
     (let crc = start;
          iTable = (ucast byte XOR crc) AND 0xFF;
          crc = drop_bit 8 crc
      in crc XOR crc_table ! unat iTable)"

text \<open>Here \<^verbatim>\<open>ch\<close> is a \<^verbatim>\<open>u32\<close>.\<close>

definition CiCRC32_byte :: "u32 \<Rightarrow> u8 \<Rightarrow> u32" where
  "CiCRC32_byte start byte =
     (let crc = start;
          ch = (ucast byte :: u32);
          ch = (if ch \<ge> 97 \<and> ch \<le> 122 then ch - (97 - 65) else ch);
          ch = (if ch = 47 then 92 else ch);
          iTable = (ch XOR crc) AND 0xFF;
          crc = drop_bit 8 crc
      in crc XOR crc_table ! unat iTable)"

definition StartCRC :: "u32 \<Rightarrow> u32" where
  "StartCRC sig = 0xFFFFFFFF"

definition FinalizeCRC :: "u32 \<Rightarrow> u32" where
  "FinalizeCRC sig = sig XOR 0xFFFFFFFF"

text \<open>
  The iterator wrappers of the header. The signature they declare is not initialised
  before \<^verbatim>\<open>StartCRC\<close> writes it; \<open>sig0\<close> stands for what it held.
\<close>

definition CRC32_iter :: "u32 \<Rightarrow> u8 list \<Rightarrow> u32" where
  "CRC32_iter sig0 bytes = FinalizeCRC (foldl CRC32_byte (StartCRC sig0) bytes)"

definition CiCRC32_iter :: "u32 \<Rightarrow> u8 list \<Rightarrow> u32" where
  "CiCRC32_iter sig0 bytes = FinalizeCRC (foldl CiCRC32_byte (StartCRC sig0) bytes)"

section \<open>Specification\<close>

text \<open>One step of the division by the reflected polynomial of CRC-32.\<close>

definition crc_bit :: "u32 \<Rightarrow> u32" where
  "crc_bit x = (if bit x 0 then drop_bit 1 x XOR 0xEDB88320 else drop_bit 1 x)"

definition crc_byte_spec :: "u32 \<Rightarrow> u8 \<Rightarrow> u32" where
  "crc_byte_spec crc ch = (crc_bit ^^ 8) (crc XOR ucast ch)"

definition crc_spec :: "u8 list \<Rightarrow> u32" where
  "crc_spec bytes = foldl crc_byte_spec 0xFFFFFFFF bytes XOR 0xFFFFFFFF"

section \<open>The division step is linear\<close>

lemma crc_bit_xor: "crc_bit (x XOR y) = crc_bit x XOR crc_bit y"
  by (simp add: crc_bit_def bit_simps drop_bit_xor xor.assoc xor.left_commute xor.commute)

lemma crc_bit_pow_xor: "(crc_bit ^^ n) (x XOR y) = (crc_bit ^^ n) x XOR (crc_bit ^^ n) y"
  by (induction n) (simp_all add: crc_bit_xor)

lemma crc_bit_pow_high:
  "n \<le> 8 \<Longrightarrow> (crc_bit ^^ n) (push_bit 8 (drop_bit 8 x)) = drop_bit n (push_bit 8 (drop_bit 8 x))"
proof (induction n)
  case 0
  then show ?case by simp
next
  case (Suc n)
  have "\<not> bit (drop_bit n (push_bit 8 (drop_bit 8 x))) 0"
    using Suc.prems by (simp add: bit_simps)
  with Suc show ?case
    by (simp add: crc_bit_def)
qed

lemma mask_byte: "(0xFF :: u32) = mask 8"
  by (simp add: mask_eq_exp_minus_1)

lemma split_low_byte: "(x :: u32) = push_bit 8 (drop_bit 8 x) XOR (x AND 0xFF)"
proof (rule bit_word_eqI)
  fix n assume n: "n < LENGTH(32)"
  show "bit x n = bit (push_bit 8 (drop_bit 8 x) XOR (x AND 0xFF)) n"
    unfolding mask_byte using n by (auto simp: bit_simps)
qed

section \<open>The table\<close>

definition crc_entry :: "nat \<Rightarrow> u32" where
  "crc_entry i = (crc_bit ^^ 8) (of_nat i)"

lemma crc_entry_add:
  assumes "j < 2 ^ k"
  shows "crc_entry (2 ^ k + j) = crc_entry (2 ^ k) XOR crc_entry j"
proof -
  have "(of_nat (2 ^ k) :: u32) AND of_nat j = 0"
  proof (rule bit_word_eqI)
    fix n
    have "\<not> bit j k" using assms by (metis bit_take_bit_iff less_irrefl take_bit_nat_eq_self)
    then show "bit ((of_nat (2 ^ k) :: u32) AND of_nat j) n = bit (0 :: u32) n"
      by (auto simp: bit_simps)
  qed
  then have "(of_nat (2 ^ k + j) :: u32) = of_nat (2 ^ k) XOR of_nat j"
    by (simp add: disjunctive_add_eq_xor)
  then show ?thesis by (simp add: crc_entry_def crc_bit_pow_xor)
qed

text \<open>The entries at the powers of two, one division step apart.\<close>

lemma crc_entry_double:
  assumes "k < 7"
  shows "crc_entry (2 ^ k) = crc_bit (crc_entry (2 ^ Suc k))"
proof -
  have "(of_nat (2 ^ Suc k) :: u32) = push_bit (Suc k) 1" by (simp add: push_bit_eq_mult)
  moreover have "drop_bit 1 (push_bit (Suc k) (1 :: u32)) = push_bit k 1"
    using assms by (intro bit_word_eqI) (auto simp: bit_simps)
  ultimately have "crc_bit (of_nat (2 ^ Suc k)) = of_nat (2 ^ k)"
    by (simp add: crc_bit_def bit_simps push_bit_eq_mult)
  then show ?thesis
    by (simp add: crc_entry_def funpow_swap1)
qed

lemma funpow_8: "(f ^^ 8) x = f (f (f (f (f (f (f (f x)))))))"
  by (simp add: numeral_eq_Suc)

lemma crc_entry_128: "crc_entry 128 = 0xEDB88320"
  by (simp add: crc_entry_def funpow_8 crc_bit_def)

lemma crc_entry_64: "crc_entry 64 = 0x76DC4190"
  using crc_entry_double [of 6] crc_entry_128 by (simp add: crc_bit_def)

lemma crc_entry_32: "crc_entry 32 = 0x3B6E20C8"
  using crc_entry_double [of 5] crc_entry_64 by (simp add: crc_bit_def)

lemma crc_entry_16: "crc_entry 16 = 0x1DB71064"
  using crc_entry_double [of 4] crc_entry_32 by (simp add: crc_bit_def)

lemma crc_entry_8: "crc_entry 8 = 0x0EDB8832"
  using crc_entry_double [of 3] crc_entry_16 by (simp add: crc_bit_def)

lemma crc_entry_4: "crc_entry 4 = 0x076DC419"
  using crc_entry_double [of 2] crc_entry_8 by (simp add: crc_bit_def)

lemma crc_entry_2: "crc_entry 2 = 0xEE0E612C"
  using crc_entry_double [of 1] crc_entry_4 by (simp add: crc_bit_def)

lemma crc_entry_1: "crc_entry 1 = 0x77073096"
  using crc_entry_double [of 0] crc_entry_2 by (simp add: crc_bit_def)

lemmas crc_entry_powers =
  crc_entry_1 crc_entry_2 crc_entry_4 crc_entry_8 crc_entry_16 crc_entry_32 crc_entry_64
  crc_entry_128

text \<open>The table doubles: the upper half is the lower half xor the entry at the power.\<close>

lemma crc_entries_double:
  "map crc_entry [0..<2 ^ Suc k] =
     map crc_entry [0..<2 ^ k] @ map (\<lambda>x. crc_entry (2 ^ k) XOR x) (map crc_entry [0..<2 ^ k])"
proof -
  have "[0..<2 ^ Suc k] = [0..<2 ^ k] @ map (\<lambda>j. 2 ^ k + j) [0..<2 ^ k]"
    using upt_add_eq_append [of 0 "2 ^ k" "2 ^ k"]
    by (simp add: map_add_upt [of "2 ^ k" "2 ^ k", symmetric] mult_2 add.commute del: upt_Suc)
  then show ?thesis by (simp add: crc_entry_add)
qed

lemma crc_entry_0: "crc_entry 0 = 0"
  by (simp add: crc_entry_def funpow_8 crc_bit_def)

fun crc_entries :: "nat \<Rightarrow> u32 list" where
  "crc_entries 0 = [0]"
| "crc_entries (Suc k) = crc_entries k @ map (\<lambda>x. crc_entry (2 ^ k) XOR x) (crc_entries k)"

lemma crc_entries_eq: "crc_entries k = map crc_entry [0..<2 ^ k]"
proof (induction k)
  case 0
  then show ?case by (simp add: crc_entry_0)
next
  case (Suc k)
  then show ?case by (simp add: crc_entries_double del: power_Suc upt_Suc)
qed

lemma crc_table_eq: "crc_table = map crc_entry [0..<256]"
proof -
  have "crc_entries (Suc (Suc (Suc (Suc (Suc (Suc (Suc (Suc 0)))))))) = crc_table"
    by (simp add: crc_entry_powers crc_table_def del: One_nat_def)
  then show ?thesis
    by (simp add: crc_entries_eq del: upt_Suc crc_entries.simps)
qed

lemma crc_table_nth: "i < 256 \<Longrightarrow> crc_table ! i = crc_entry i"
  by (simp add: crc_table_eq del: upt_Suc)

section \<open>The table driven step is eight division steps\<close>

lemma low_byte_lt: "unat ((x :: u32) AND 0xFF) < 256"
proof -
  have "unat (x AND mask 8) = take_bit 8 (unat x)"
    by (simp add: unsigned_take_bit_eq flip: take_bit_eq_mask)
  then show ?thesis by (simp add: mask_byte take_bit_eq_mod)
qed

lemma crc_entry_unat: "crc_entry (unat x) = (crc_bit ^^ 8) x"
  by (simp add: crc_entry_def)

lemma crc_loop_step_spec: "crc_loop_step crc ch = crc_byte_spec crc ch"
proof -
  let ?y = "ucast ch XOR crc"
  have high: "drop_bit 8 ?y = drop_bit 8 crc"
    by (intro bit_word_eqI) (auto simp: bit_simps dest: bit_imp_le_length)
  have "(crc_bit ^^ 8) ?y =
      (crc_bit ^^ 8) (push_bit 8 (drop_bit 8 ?y)) XOR (crc_bit ^^ 8) (?y AND 0xFF)"
    by (subst split_low_byte) (rule crc_bit_pow_xor)
  also have "(crc_bit ^^ 8) (push_bit 8 (drop_bit 8 ?y)) = drop_bit 8 (push_bit 8 (drop_bit 8 ?y))"
    by (rule crc_bit_pow_high) simp
  also have "drop_bit 8 (push_bit 8 (drop_bit 8 ?y)) = drop_bit 8 crc"
    unfolding high by (intro bit_word_eqI) (auto simp: bit_simps dest: bit_imp_le_length)
  also have "(crc_bit ^^ 8) (?y AND 0xFF) = crc_table ! unat (?y AND 0xFF)"
    by (simp add: crc_table_nth low_byte_lt crc_entry_unat)
  finally show ?thesis
    by (simp add: crc_loop_step_def crc_byte_spec_def Let_def xor.commute)
qed

lemma CRC32_byte_step: "CRC32_byte = crc_loop_step"
  by (simp add: fun_eq_iff CRC32_byte_def crc_loop_step_def Let_def)

lemma unat_ucast_u32: "unat (ucast (b :: u8) :: u32) = unat b"
proof -
  have "unat b < 2 ^ 32"
    using unsigned_less [of b, where 'a = nat] by simp
  then show ?thesis
    by (simp add: unsigned_ucast_eq take_bit_nat_eq_self)
qed

lemma ucast_ci_byte:
  "(let ch = (ucast byte :: u32);
        ch = (if ch \<ge> 97 \<and> ch \<le> 122 then ch - (97 - 65) else ch)
    in if ch = 47 then 92 else ch) = ucast (ci_byte byte)"
proof -
  have ge: "(97 \<le> (ucast byte :: u32)) = (97 \<le> byte)" "((ucast byte :: u32) \<le> 122) = (byte \<le> 122)"
    by (simp_all add: word_le_nat_alt unat_ucast_u32)
  have eq: "((ucast b :: u32) = 47) = (b = 47)" for b :: u8
    by (simp add: word_unat_eq_iff unat_ucast_u32)
  have sub: "(ucast byte :: u32) - 32 = ucast (byte - 32)" if "97 \<le> byte"
  proof -
    have "32 \<le> byte" "32 \<le> (ucast byte :: u32)"
      using that by (simp_all add: word_le_nat_alt unat_ucast_u32)
    then show ?thesis
      by (simp add: word_unat_eq_iff unat_ucast_u32 unat_sub)
  qed
  show ?thesis
    by (auto simp: ci_byte_def Let_def ge sub eq)
qed

lemma CiCRC32_byte_step: "CiCRC32_byte start byte = crc_loop_step start (ci_byte byte)"
  using ucast_ci_byte [of byte] by (simp add: CiCRC32_byte_def crc_loop_step_def Let_def)

section \<open>Properties\<close>

text \<open>
  C8. The table driven \<^verbatim>\<open>CRC32\<close> computes, on every buffer, the bitwise CRC-32:
  the remainder of the division by the reflected polynomial \<^verbatim>\<open>0xEDB88320\<close> from the
  all-ones state, complemented. The 256 entries of the table are part of the statement.
\<close>

theorem CRC32_is_bitwise_crc: "CRC32 buff = crc_spec buff"
proof -
  have "crc_loop_step = crc_byte_spec" by (simp add: fun_eq_iff crc_loop_step_spec)
  then show ?thesis by (simp add: CRC32_def crc_spec_def)
qed

text \<open>
  C28. The incremental interface agrees with the buffer functions: starting, appending the
  bytes one by one and finalizing gives the signature of the whole buffer, whatever the
  signature variable held before, for the plain and the case insensitive form; and the
  case insensitive signature is the plain signature of the folded bytes.
\<close>

theorem incremental_crc_agrees:
  "CRC32_iter sig0 bs = CRC32 bs \<and> CiCRC32_iter sig0 bs = CiCRC32 bs \<and>
   CiCRC32 bs = CRC32 (map ci_byte bs)"
  by (simp add: CRC32_iter_def CiCRC32_iter_def CRC32_def CiCRC32_def StartCRC_def
      FinalizeCRC_def CRC32_byte_step CiCRC32_byte_step foldl_map
      CiCRC32_byte_step [abs_def])

end
