(* ===== verification/BitSet.thy ===== *)
theory BitSet
  imports Fishy_Prelude
begin

text \<open>
  \<^verbatim>\<open>CORE/TYPES/bitset.h\<close> and \<^verbatim>\<open>bitset.inl\<close>: \<^verbatim>\<open>BitSet< eEnumType >\<close> as
  the list of its bytes \<^verbatim>\<open>m_bits\<close>. The enumeration is its \<^verbatim>\<open>COUNT\<close>, its values
  are numbers. A byte outside \<^verbatim>\<open>m_bits\<close> is the fault \<open>OutOfBounds\<close> (the code only
  asserts the index). The contract \<open>enum_set\<close> is a set of enumeration values; the
  model of the code interprets it.
\<close>

section \<open>The code\<close>

type_synonym bitset = "u8 list"

definition bytes_needed :: "nat \<Rightarrow> nat" where
  "bytes_needed bits =
     (if bits AND 7 \<noteq> 0 then drop_bit 3 bits + 1 else drop_bit 3 bits)"

definition bs_index :: "nat \<Rightarrow> nat" where
  "bs_index val = drop_bit 3 val"

definition bs_shift :: "nat \<Rightarrow> nat" where
  "bs_shift val = val AND 7"

definition bs_new :: "nat \<Rightarrow> bitset" where
  "bs_new count = replicate (bytes_needed count) 0"

definition bs_set :: "bitset \<Rightarrow> nat \<Rightarrow> fault + bitset" where
  "bs_set m_bits val =
     (case nth_opt m_bits (bs_index val) of
        None \<Rightarrow> Inl OutOfBounds
      | Some b \<Rightarrow> Inr (m_bits[bs_index val := b OR push_bit (bs_shift val) 1]))"

definition bs_unset :: "bitset \<Rightarrow> nat \<Rightarrow> fault + bitset" where
  "bs_unset m_bits val =
     (case nth_opt m_bits (bs_index val) of
        None \<Rightarrow> Inl OutOfBounds
      | Some b \<Rightarrow> Inr (m_bits[bs_index val := b AND NOT (push_bit (bs_shift val) 1)]))"

definition bs_isSet :: "bitset \<Rightarrow> nat \<Rightarrow> fault + bool" where
  "bs_isSet m_bits val =
     (case nth_opt m_bits (bs_index val) of
        None \<Rightarrow> Inl OutOfBounds
      | Some b \<Rightarrow> Inr (b AND push_bit (bs_shift val) 1 \<noteq> 0))"

text \<open>The binary operators combine two sets of the same type, so of the same length.\<close>

definition bs_and :: "bitset \<Rightarrow> bitset \<Rightarrow> bitset" where
  "bs_and m_bits other = map2 (AND) m_bits other"

definition bs_and_assign :: "bitset \<Rightarrow> bitset \<Rightarrow> bitset" where
  "bs_and_assign m_bits other = map2 (AND) m_bits other"

definition bs_and_bit :: "bitset \<Rightarrow> nat \<Rightarrow> fault + bool" where
  "bs_and_bit m_bits val = bs_isSet m_bits val"

definition bs_or :: "bitset \<Rightarrow> bitset \<Rightarrow> bitset" where
  "bs_or m_bits other = map2 (OR) m_bits other"

definition bs_or_assign :: "bitset \<Rightarrow> bitset \<Rightarrow> bitset" where
  "bs_or_assign m_bits other = map2 (OR) m_bits other"

definition bs_or_bit :: "bitset \<Rightarrow> nat \<Rightarrow> fault + bitset" where
  "bs_or_bit m_bits val = bs_set m_bits val"

definition bs_or_bit_assign :: "bitset \<Rightarrow> nat \<Rightarrow> fault + bitset" where
  "bs_or_bit_assign m_bits val = bs_set m_bits val"

definition bs_not :: "bitset \<Rightarrow> bitset" where
  "bs_not m_bits = map NOT m_bits"

fun bs_eq :: "bitset \<Rightarrow> bitset \<Rightarrow> bool" where
  "bs_eq (b # bs) (c # cs) = (if c \<noteq> b then False else bs_eq bs cs)"
| "bs_eq _ _ = True"

section \<open>The contract\<close>

text \<open>
  A set of enumeration values below a bound: the operations, an abstraction to a set and
  an invariant; inside, what follows for any provider.
\<close>

locale enum_set =
  fixes bound :: nat
    and add :: "'s \<Rightarrow> nat \<Rightarrow> fault + 's"
    and remove :: "'s \<Rightarrow> nat \<Rightarrow> fault + 's"
    and member :: "'s \<Rightarrow> nat \<Rightarrow> fault + bool"
    and elems :: "'s \<Rightarrow> nat set"
    and inv :: "'s \<Rightarrow> bool"
  assumes add_spec: "inv s \<Longrightarrow> v < bound \<Longrightarrow> \<exists>t. add s v = Inr t \<and> inv t \<and> elems t = insert v (elems s)"
    and remove_spec: "inv s \<Longrightarrow> v < bound \<Longrightarrow> \<exists>t. remove s v = Inr t \<and> inv t \<and> elems t = elems s - {v}"
    and member_spec: "inv s \<Longrightarrow> v < bound \<Longrightarrow> member s v = Inr (v \<in> elems s)"
begin

lemma add_then_member:
  "inv s \<Longrightarrow> v < bound \<Longrightarrow> w < bound \<Longrightarrow> add s v = Inr t \<Longrightarrow>
   member t w = Inr (w = v \<or> w \<in> elems s)"
  using add_spec [of s v] member_spec [of t w] by auto

lemma remove_then_member:
  "inv s \<Longrightarrow> v < bound \<Longrightarrow> w < bound \<Longrightarrow> remove s v = Inr t \<Longrightarrow>
   member t w = Inr (w \<noteq> v \<and> w \<in> elems s)"
  using remove_spec [of s v] member_spec [of t w] by auto

end

section \<open>Proofs\<close>

definition bs_inv :: "nat \<Rightarrow> bitset \<Rightarrow> bool" where
  "bs_inv count m_bits \<longleftrightarrow> length m_bits = bytes_needed count"

definition bs_elems :: "bitset \<Rightarrow> nat set" where
  "bs_elems m_bits = {v. v div 8 < length m_bits \<and> bit (m_bits ! (v div 8)) (v mod 8)}"

lemma and_seven: "(n :: nat) AND 7 = n mod 8"
  using take_bit_eq_mask [of 3 n] by (simp add: take_bit_eq_mod mask_eq_exp_minus_1)

lemma bs_index_eq [simp]: "bs_index v = v div 8"
  by (simp add: bs_index_def drop_bit_eq_div)

lemma bs_shift_eq [simp]: "bs_shift v = v mod 8"
  by (simp add: bs_shift_def and_seven)

lemma bytes_needed_eq: "bytes_needed n = (n + 7) div 8"
  unfolding bytes_needed_def and_seven drop_bit_eq_div by simp presburger

lemma index_in_range: "v < count \<Longrightarrow> bs_inv count m_bits \<Longrightarrow> v div 8 < length m_bits"
  by (simp add: bs_inv_def bytes_needed_eq)

lemma div_mod_eq_iff: "(v :: nat) div 8 = w div 8 \<Longrightarrow> (v mod 8 = w mod 8) = (v = w)"
  by (metis div_mult_mod_eq)

lemma bit_exp_u8: "bit (2 ^ k :: u8) j \<longleftrightarrow> j = k \<and> k < 8"
  by (auto simp: bit_simps)

lemma bs_elems_update:
  assumes "v div 8 < length m"
    and "\<And>k. k < 8 \<Longrightarrow> bit b k = (if k = v mod 8 then on else bit (m ! (v div 8)) k)"
  shows "bs_elems (m[v div 8 := b]) = (if on then insert v (bs_elems m) else bs_elems m - {v})"
proof (rule set_eqI)
  fix w
  show "w \<in> bs_elems (m[v div 8 := b]) \<longleftrightarrow>
    w \<in> (if on then insert v (bs_elems m) else bs_elems m - {v})"
  proof (cases "w div 8 = v div 8")
    case True
    with assms div_mod_eq_iff [OF True] show ?thesis
      by (auto simp: bs_elems_def)
  next
    case False
    then show ?thesis by (auto simp: bs_elems_def)
  qed
qed

lemma bs_set_spec:
  assumes "bs_inv count m" "v < count"
  shows "\<exists>t. bs_set m v = Inr t \<and> bs_inv count t \<and> bs_elems t = insert v (bs_elems m)"
proof -
  have r: "v div 8 < length m" using assms index_in_range by blast
  then have "bs_elems (m[v div 8 := m ! (v div 8) OR 2 ^ (v mod 8)]) = insert v (bs_elems m)"
    by (subst bs_elems_update [where on = True]) (auto simp: bit_or_iff bit_exp_u8)
  with r assms(1) show ?thesis
    by (simp add: bs_set_def bs_inv_def push_bit_of_1)
qed

lemma bs_unset_spec:
  assumes "bs_inv count m" "v < count"
  shows "\<exists>t. bs_unset m v = Inr t \<and> bs_inv count t \<and> bs_elems t = bs_elems m - {v}"
proof -
  have r: "v div 8 < length m" using assms index_in_range by blast
  then have "bs_elems (m[v div 8 := m ! (v div 8) AND NOT (2 ^ (v mod 8))]) = bs_elems m - {v}"
    by (subst bs_elems_update [where on = False])
      (auto simp: bit_and_iff bit_not_iff bit_exp_u8)
  with r assms(1) show ?thesis
    by (simp add: bs_unset_def bs_inv_def push_bit_of_1)
qed

lemma bs_isSet_spec:
  assumes "bs_inv count m" "v < count"
  shows "bs_isSet m v = Inr (v \<in> bs_elems m)"
proof -
  have "v div 8 < length m" using assms index_in_range by blast
  then show ?thesis
    by (simp add: bs_isSet_def bs_elems_def push_bit_of_1 and_exp_eq_0_iff_not_bit)
qed

interpretation bs: enum_set count bs_set bs_unset bs_isSet bs_elems "bs_inv count" for count
  by unfold_locales (auto intro: bs_set_spec bs_unset_spec bs_isSet_spec)

lemma bs_new_spec [simp]: "bs_inv count (bs_new count)" "bs_elems (bs_new count) = {}"
  by (auto simp: bs_inv_def bs_new_def bs_elems_def)

lemma bs_and_elems: "length m = length n \<Longrightarrow> bs_elems (bs_and m n) = bs_elems m \<inter> bs_elems n"
  by (auto simp: bs_elems_def bs_and_def bit_and_iff)

lemma bs_or_elems: "length m = length n \<Longrightarrow> bs_elems (bs_or m n) = bs_elems m \<union> bs_elems n"
  by (auto simp: bs_elems_def bs_or_def bit_or_iff)

lemma bs_not_elems: "bs_elems (bs_not m) = {v. v div 8 < length m} - bs_elems m"
  by (auto simp: bs_elems_def bs_not_def bit_not_iff)

lemma bs_eq_iff: "length m = length n \<Longrightarrow> bs_eq m n \<longleftrightarrow> m = n"
  by (induction m n rule: bs_eq.induct) auto

lemma bs_elems_inj: "length m = length n \<Longrightarrow> bs_elems m = bs_elems n \<Longrightarrow> m = n"
proof (rule nth_equalityI)
  fix i assume len: "length m = length n" and el: "bs_elems m = bs_elems n" and i: "i < length m"
  show "m ! i = n ! i"
  proof (rule bit_word_eqI)
    fix k assume "k < LENGTH(8)"
    then have "(8 * i + k) div 8 = i" "(8 * i + k) mod 8 = k" by auto
    moreover have "8 * i + k \<in> bs_elems m \<longleftrightarrow> 8 * i + k \<in> bs_elems n" using el by simp
    ultimately show "bit (m ! i) k = bit (n ! i) k"
      using i len unfolding bs_elems_def mem_Collect_eq by (simp only: simp_thms)
  qed
qed simp

section \<open>Properties\<close>



text \<open>
  The operators of \<^verbatim>\<open>BitSet\<close> are the set operations (intersection, union, and the
  complement within all the bits of the array, those past \<^verbatim>\<open>COUNT\<close> included), and
  \<^verbatim>\<open>operator==\<close> decides equality of the sets of bits.
\<close>

theorem bitset_operators:
  assumes "bs_inv count m" "bs_inv count n"
  shows "bs_elems (bs_and m n) = bs_elems m \<inter> bs_elems n \<and>
     bs_elems (bs_or m n) = bs_elems m \<union> bs_elems n \<and>
     bs_elems (bs_not m) = {v. v < 8 * bytes_needed count} - bs_elems m \<and>
     (bs_eq m n \<longleftrightarrow> bs_elems m = bs_elems n)"
proof -
  have len: "length m = length n" using assms by (simp add: bs_inv_def)
  have "{v. v div 8 < length m} = {v. v < 8 * bytes_needed count}"
    using assms(1) by (auto simp: bs_inv_def less_mult_imp_div_less mult.commute div_less_iff_less_mult)
  then show ?thesis
    using bs_and_elems [OF len] bs_or_elems [OF len] bs_not_elems [of m] bs_eq_iff [OF len]
      bs_elems_inj [OF len] by auto
qed

theorem bitset_operators_witness:
  "bs_elems (bs_and [5] [1]) = bs_elems [5] \<inter> bs_elems [1] \<and> (bs_eq [5] [1] \<longleftrightarrow> bs_elems [5] = bs_elems [1])"
proof -
  have "bs_inv 3 [5]" "bs_inv 3 [1]" by (simp_all add: bs_inv_def bytes_needed_eq)
  from bitset_operators [OF this] show ?thesis by blast
qed

text \<open>
  \<^verbatim>\<open>operator~\<close> also flips the padding bits of the last byte: over an enumeration of
  three values, the complement of the empty set and the set of all three values answer
  \<^verbatim>\<open>isSet\<close> alike for every value, and \<^verbatim>\<open>operator==\<close> says they differ.
\<close>

theorem bitset_complement_not_equal:
  "bs_isSet (bs_not (bs_new 3)) 0 = bs_isSet [7] 0 \<and>
   bs_isSet (bs_not (bs_new 3)) 1 = bs_isSet [7] 1 \<and>
   bs_isSet (bs_not (bs_new 3)) 2 = bs_isSet [7] 2 \<and>
   bs_set (bs_new 3) 0 = Inr [1] \<and> bs_set [1] 1 = Inr [3] \<and> bs_set [3] 2 = Inr [7] \<and>
   \<not> bs_eq (bs_not (bs_new 3)) [7]"
  by (simp add: bs_isSet_def bs_set_def bs_not_def bs_new_def bytes_needed_eq)

end
