(* ===== verification/ConcurrentQueue.thy ===== *)
theory ConcurrentQueue
  imports Fishy_Prelude
begin

text \<open>
  \<^verbatim>\<open>CORE/TYPES/concurrent_queue.h\<close> and \<^verbatim>\<open>.inl\<close>: a bounded queue under one mutex
  with two condition variables. Every operation runs under the mutex from its entry, or
  from its wake-up, until it returns or waits; that run is one atomic step, a function of
  the queue and the call. Threads are a list; the step relation interleaves them, wakes
  the ones a step notifies and allows the spurious wake-ups of
  \<^verbatim>\<open>std::condition_variable\<close>.
\<close>

section \<open>The code\<close>

record 'a cqueue =
  m_maxSize :: nat
  m_open :: bool
  m_queue :: "'a list"

datatype cv = ConsumerCV | ProducerCV

datatype notify = NotifyOne cv | NotifyAll cv

text \<open>A call in progress: the operation with what is left of its arguments.\<close>

datatype 'a call =
    Push 'a
  | Pop
  | PushN "'a list"
  | PopN nat "'a list"
  | WaitEmpty
  | Close

datatype 'a ret =
    Unit
  | Popped status "'a option"
  | PoppedN status "'a list"

datatype 'a outcome = Returned "'a ret" | WaitOn cv "'a call"

type_synonym 'a segment = "'a cqueue \<times> notify list \<times> 'a outcome"

definition cq_new :: "nat \<Rightarrow> 'a cqueue" where
  "cq_new maxSize = \<lparr>m_maxSize = maxSize, m_open = True, m_queue = []\<rparr>"

definition cq_push :: "'a cqueue \<Rightarrow> 'a \<Rightarrow> 'a segment" where
  "cq_push q val =
     (if m_open q
      then if length (m_queue q) < m_maxSize q
           then (q\<lparr>m_queue := m_queue q @ [val]\<rparr>, [NotifyOne ConsumerCV], Returned Unit)
           else (q, [], WaitOn ProducerCV (Push val))
      else (q, [], Returned Unit))"

definition cq_pop :: "'a cqueue \<Rightarrow> 'a segment" where
  "cq_pop q =
     (if m_open q \<and> m_queue q = [] then (q, [], WaitOn ConsumerCV Pop)
      else if \<not> m_open q then (q, [NotifyAll ProducerCV], Returned (Popped CANCELED None))
      else (let out = hd (m_queue q); q' = q\<lparr>m_queue := tl (m_queue q)\<rparr>
            in (q', if m_queue q' = [] then [NotifyAll ProducerCV] else [],
                Returned (Popped OK (Some out)))))"

fun cq_pushN :: "'a cqueue \<Rightarrow> 'a list \<Rightarrow> 'a segment" where
  "cq_pushN q [] = (q, [NotifyAll ConsumerCV], Returned Unit)"
| "cq_pushN q (x # xs) =
     (if m_open q
      then if length (m_queue q) < m_maxSize q
           then cq_pushN (q\<lparr>m_queue := m_queue q @ [x]\<rparr>) xs
           else (q, [NotifyAll ConsumerCV], WaitOn ProducerCV (PushN (x # xs)))
      else (q, [NotifyAll ConsumerCV], Returned Unit))"

text \<open>The transfer loop of \<^verbatim>\<open>popN\<close>, on the queue's elements and the output vector.\<close>

fun popN_loop :: "nat \<Rightarrow> 'a list \<Rightarrow> 'a list \<Rightarrow> 'a list \<times> 'a list" where
  "popN_loop count [] out = ([], out)"
| "popN_loop count (x # xs) out =
     (if length out < count then popN_loop count xs (out @ [x]) else (x # xs, out))"

definition cq_popN :: "'a cqueue \<Rightarrow> nat \<Rightarrow> 'a list \<Rightarrow> 'a segment" where
  "cq_popN q count out =
     (if m_open q \<and> m_queue q = [] then (q, [], WaitOn ConsumerCV (PopN count out))
      else if \<not> m_open q then (q, [NotifyAll ProducerCV], Returned (PoppedN CANCELED out))
      else (case popN_loop count (m_queue q) out of (rest, out) \<Rightarrow>
             (q\<lparr>m_queue := rest\<rparr>, if rest = [] then [NotifyAll ProducerCV] else [],
              Returned (PoppedN OK out))))"

definition cq_size :: "'a cqueue \<Rightarrow> nat" where
  "cq_size q = length (m_queue q)"

definition cq_waitEmpty :: "'a cqueue \<Rightarrow> 'a segment" where
  "cq_waitEmpty q =
     (if m_queue q \<noteq> [] \<and> m_open q then (q, [], WaitOn ProducerCV WaitEmpty)
      else (q, [], Returned Unit))"

definition cq_close :: "'a cqueue \<Rightarrow> 'a segment" where
  "cq_close q = (q\<lparr>m_open := False\<rparr>, [NotifyAll ConsumerCV], Returned Unit)"

definition cq_isOpen :: "'a cqueue \<Rightarrow> bool" where
  "cq_isOpen q = m_open q"

fun cq_exec :: "'a cqueue \<Rightarrow> 'a call \<Rightarrow> 'a segment" where
  "cq_exec q (Push v) = cq_push q v"
| "cq_exec q Pop = cq_pop q"
| "cq_exec q (PushN vs) = cq_pushN q vs"
| "cq_exec q (PopN n out) = cq_popN q n out"
| "cq_exec q WaitEmpty = cq_waitEmpty q"
| "cq_exec q Close = cq_close q"

section \<open>Threads\<close>

datatype 'a thread =
    Idle
  | Ready "'a call"
  | Waiting cv "'a call"
  | Done "'a ret"

fun wake :: "cv \<Rightarrow> 'a thread \<Rightarrow> 'a thread" where
  "wake c (Waiting d k) = (if c = d then Ready k else Waiting d k)"
| "wake c t = t"

fun waits_on :: "cv \<Rightarrow> 'a thread \<Rightarrow> bool" where
  "waits_on c (Waiting d k) = (c = d)"
| "waits_on c t = False"

text \<open>
  A notification: all the waiting threads, or one of them if there is any (the choice is
  the scheduler's).
\<close>

inductive notified :: "notify list \<Rightarrow> 'a thread list \<Rightarrow> 'a thread list \<Rightarrow> bool" where
  notified_Nil: "notified [] ts ts"
| notified_All: "notified ns (map (wake c) ts) us \<Longrightarrow> notified (NotifyAll c # ns) ts us"
| notified_None: "\<forall>t \<in> set ts. \<not> waits_on c t \<Longrightarrow> notified ns ts us \<Longrightarrow>
     notified (NotifyOne c # ns) ts us"
| notified_One: "i < length ts \<Longrightarrow> waits_on c (ts ! i) \<Longrightarrow>
     notified ns (ts[i := wake c (ts ! i)]) us \<Longrightarrow> notified (NotifyOne c # ns) ts us"

text \<open>
  The system, with two ghost lists: the elements the queue accepted, and the elements its
  pops returned, both in the order it happened.
\<close>

record 'a world =
  queue :: "'a cqueue"
  threads :: "'a thread list"
  accepted :: "'a list"
  delivered :: "'a list"

fun accepted_of :: "'a cqueue \<Rightarrow> 'a call \<Rightarrow> 'a outcome \<Rightarrow> 'a list" where
  "accepted_of q (Push v) (Returned r) = (if m_open q then [v] else [])"
| "accepted_of q (PushN vs) (Returned r) = (if m_open q then vs else [])"
| "accepted_of q (PushN vs) (WaitOn c (PushN rest)) = take (length vs - length rest) vs"
| "accepted_of q k out = []"

fun delivered_of :: "'a call \<Rightarrow> 'a outcome \<Rightarrow> 'a list" where
  "delivered_of Pop (Returned (Popped s (Some x))) = [x]"
| "delivered_of (PopN n out) (Returned (PoppedN s out')) = drop (length out) out'"
| "delivered_of k out = []"

fun thread_after :: "'a outcome \<Rightarrow> 'a thread" where
  "thread_after (Returned r) = Done r"
| "thread_after (WaitOn c k) = Waiting c k"

inductive cq_step :: "('a call \<Rightarrow> bool) \<Rightarrow> 'a world \<Rightarrow> 'a world \<Rightarrow> bool" for allowed where
  step_call: "i < length (threads w) \<Longrightarrow> threads w ! i = Idle \<Longrightarrow> allowed k \<Longrightarrow>
     cq_step allowed w (w\<lparr>threads := (threads w)[i := Ready k]\<rparr>)"
| step_run: "i < length (threads w) \<Longrightarrow> threads w ! i = Ready k \<Longrightarrow>
     cq_exec (queue w) k = (q', ns, out) \<Longrightarrow>
     notified ns ((threads w)[i := thread_after out]) ts' \<Longrightarrow>
     cq_step allowed w
       \<lparr>queue = q', threads = ts',
        accepted = accepted w @ accepted_of (queue w) k out,
        delivered = delivered w @ delivered_of k out\<rparr>"
| step_spurious: "i < length (threads w) \<Longrightarrow> threads w ! i = Waiting c k \<Longrightarrow>
     cq_step allowed w (w\<lparr>threads := (threads w)[i := Ready k]\<rparr>)"
| step_return: "i < length (threads w) \<Longrightarrow> threads w ! i = Done r \<Longrightarrow>
     cq_step allowed w (w\<lparr>threads := (threads w)[i := Idle]\<rparr>)"

definition cq_init :: "nat \<Rightarrow> nat \<Rightarrow> 'a world" where
  "cq_init maxSize n =
     \<lparr>queue = cq_new maxSize, threads = replicate n Idle, accepted = [], delivered = []\<rparr>"

inductive cq_reach :: "('a call \<Rightarrow> bool) \<Rightarrow> nat \<Rightarrow> nat \<Rightarrow> 'a world \<Rightarrow> bool" for allowed maxSize n where
  reach_init: "cq_reach allowed maxSize n (cq_init maxSize n)"
| reach_step: "cq_reach allowed maxSize n w \<Longrightarrow> cq_step allowed w w' \<Longrightarrow>
     cq_reach allowed maxSize n w'"

section \<open>One segment\<close>

lemma cq_pushN_spec:
  assumes "cq_pushN q xs = (q', ns, out)"
  shows "ns = [NotifyAll ConsumerCV] \<and> (\<exists>ys zs. xs = ys @ zs \<and> q' = q\<lparr>m_queue := m_queue q @ ys\<rparr> \<and>
     (ys \<noteq> [] \<longrightarrow> length (m_queue q') \<le> m_maxSize q) \<and>
     (if m_open q
      then (out = Returned Unit \<and> zs = []) \<or>
           (out = WaitOn ProducerCV (PushN zs) \<and> zs \<noteq> [] \<and> m_maxSize q \<le> length (m_queue q'))
      else out = Returned Unit \<and> ys = []))"
  using assms
proof (induction xs arbitrary: q)
  case Nil
  then show ?case by auto
next
  case (Cons x xs)
  show ?case
  proof (cases "m_open q \<and> length (m_queue q) < m_maxSize q")
    case True
    let ?q = "q\<lparr>m_queue := m_queue q @ [x]\<rparr>"
    from Cons.prems True have "cq_pushN ?q xs = (q', ns, out)" by simp
    from Cons.IH [OF this] obtain ys zs where
      ih: "xs = ys @ zs" "q' = ?q\<lparr>m_queue := m_queue ?q @ ys\<rparr>" "ns = [NotifyAll ConsumerCV]"
        "ys \<noteq> [] \<longrightarrow> length (m_queue q') \<le> m_maxSize ?q"
        "(out = Returned Unit \<and> zs = []) \<or>
         (out = WaitOn ProducerCV (PushN zs) \<and> zs \<noteq> [] \<and> m_maxSize ?q \<le> length (m_queue q'))"
      using True by auto
    then show ?thesis using True
      by (intro conjI exI [of _ "x # ys"] exI [of _ zs]) auto
  next
    case False
    with Cons.prems show ?thesis
      by (intro conjI exI [of _ "[]"] exI [of _ "x # xs"]) (auto split: if_splits)
  qed
qed

lemma popN_loop_spec:
  "popN_loop count xs out = (rest, out') \<Longrightarrow>
   \<exists>ys. xs = ys @ rest \<and> out' = out @ ys \<and> (length out < count \<longrightarrow> xs \<noteq> [] \<longrightarrow> ys \<noteq> [])"
proof (induction count xs out rule: popN_loop.induct)
  case (1 count out)
  then show ?case by simp
next
  case (2 count x xs out)
  then show ?case by (auto split: if_splits)
qed

lemma cq_exec_config:
  assumes "cq_exec q k = (q', ns, out)" "length (m_queue q) \<le> m_maxSize q"
  shows "m_maxSize q' = m_maxSize q \<and> length (m_queue q') \<le> m_maxSize q"
proof (cases k)
  case (PushN xs)
  with assms(1) have "cq_pushN q xs = (q', ns, out)" by simp
  from cq_pushN_spec [OF this] assms(2) show ?thesis by auto
next
  case (PopN n out0)
  with assms show ?thesis
    by (auto simp: cq_popN_def split: if_splits prod.splits dest!: popN_loop_spec)
next
  case Pop
  with assms show ?thesis
    by (auto simp: cq_pop_def Let_def split: if_splits)
qed (use assms in \<open>auto simp: cq_push_def cq_waitEmpty_def cq_close_def split: if_splits\<close>)

lemma cq_exec_fifo:
  assumes "cq_exec q k = (q', ns, out)"
  shows "m_queue q @ accepted_of q k out = delivered_of k out @ m_queue q'"
proof (cases k)
  case (PushN xs)
  with assms have "cq_pushN q xs = (q', ns, out)" by simp
  from cq_pushN_spec [OF this] PushN show ?thesis by (auto split: if_splits)
next
  case (PopN n out0)
  with assms show ?thesis
    by (auto simp: cq_popN_def split: if_splits prod.splits dest!: popN_loop_spec)
next
  case Pop
  with assms show ?thesis
    by (cases "m_queue q") (auto simp: cq_pop_def Let_def split: if_splits)
qed (use assms in \<open>auto simp: cq_push_def cq_waitEmpty_def cq_close_def split: if_splits\<close>)

section \<open>The queue is a bounded first-in first-out buffer\<close>

definition cq_safe :: "nat \<Rightarrow> 'a world \<Rightarrow> bool" where
  "cq_safe maxSize w \<longleftrightarrow>
     m_maxSize (queue w) = maxSize \<and> length (m_queue (queue w)) \<le> maxSize \<and>
     accepted w = delivered w @ m_queue (queue w)"

lemma cq_safe_init: "cq_safe maxSize (cq_init maxSize n)"
  by (simp add: cq_safe_def cq_init_def cq_new_def)

lemma cq_safe_step: "cq_step allowed w w' \<Longrightarrow> cq_safe maxSize w \<Longrightarrow> cq_safe maxSize w'"
proof (induction rule: cq_step.induct)
  case (step_run i w k q' ns out ts')
  with cq_exec_config [OF step_run(3)] cq_exec_fifo [OF step_run(3)] show ?case
    by (simp add: cq_safe_def)
qed (simp_all add: cq_safe_def)

text \<open>
  C2. In every state the system can reach, whatever the threads call and however they are
  scheduled and woken, the queue holds at most \<^verbatim>\<open>m_maxSize\<close> elements, and the elements
  the queue accepted from its producers are, in order, those its pops have returned
  followed by those it still holds: nothing is lost, duplicated or reordered, the multi
  element operations and the closing of the queue included.
\<close>

theorem queue_is_bounded_fifo:
  assumes "cq_reach allowed maxSize n w"
  shows "length (m_queue (queue w)) \<le> maxSize \<and>
     accepted w = delivered w @ m_queue (queue w)"
proof -
  from assms have "cq_safe maxSize w"
    by (induction rule: cq_reach.induct) (auto intro: cq_safe_init cq_safe_step)
  then show ?thesis by (simp add: cq_safe_def)
qed

text \<open>A run used by the witnesses: one thread has pushed 5 into a queue of capacity 2.\<close>

lemma reach_pushed:
  "cq_reach (\<lambda>_. True) 2 1
     \<lparr>queue = \<lparr>m_maxSize = 2, m_open = True, m_queue = [5 :: nat]\<rparr>, threads = [Done Unit],
      accepted = [5], delivered = []\<rparr>"
proof -
  let ?w0 = "cq_init 2 1 :: nat world"
  let ?w1 = "?w0\<lparr>threads := (threads ?w0)[0 := Ready (Push 5)]\<rparr>"
  have "cq_step (\<lambda>_. True) ?w0 ?w1"
    by (rule step_call) (simp_all add: cq_init_def)
  with reach_init have r1: "cq_reach (\<lambda>_. True) 2 1 ?w1" by (rule reach_step)
  have "cq_step (\<lambda>_. True) ?w1
     \<lparr>queue = \<lparr>m_maxSize = 2, m_open = True, m_queue = [5]\<rparr>, threads = [Done Unit],
      accepted = accepted ?w1 @ accepted_of (queue ?w1) (Push 5) (Returned Unit),
      delivered = delivered ?w1 @ delivered_of (Push 5) (Returned Unit)\<rparr>"
    by (rule step_run [where i = 0 and ns = "[NotifyOne ConsumerCV]"])
      (auto simp: cq_init_def cq_new_def cq_push_def intro!: notified_None notified_Nil)
  with r1 show ?thesis
    by (auto dest: reach_step simp: cq_init_def cq_new_def)
qed

theorem queue_is_bounded_fifo_witness:
  "length [5 :: nat] \<le> 2 \<and> [5 :: nat] = [] @ [5]"
  using queue_is_bounded_fifo [OF reach_pushed] by simp

section \<open>Wake-ups\<close>

fun is_consumer :: "'a call \<Rightarrow> bool" where
  "is_consumer Pop = True"
| "is_consumer (PopN n out) = True"
| "is_consumer k = False"

text \<open>A \<^verbatim>\<open>popN\<close> that asks for more elements than its vector already holds.\<close>

fun fruitful :: "'a call \<Rightarrow> bool" where
  "fruitful (PopN n out) = (length out < n)"
| "fruitful k = True"

fun ready_consumer :: "'a thread \<Rightarrow> bool" where
  "ready_consumer (Ready k) = is_consumer k"
| "ready_consumer t = False"

text \<open>A thread waits on the variable of its kind of call, with a fruitful call.\<close>

fun thread_ok :: "'a thread \<Rightarrow> bool" where
  "thread_ok (Ready k) = fruitful k"
| "thread_ok (Waiting c k) = (fruitful k \<and> (c = ConsumerCV \<longleftrightarrow> is_consumer k))"
| "thread_ok t = True"

definition ready_consumers :: "'a thread list \<Rightarrow> nat" where
  "ready_consumers ts = length (filter ready_consumer ts)"

definition waiters :: "cv \<Rightarrow> 'a thread list \<Rightarrow> bool" where
  "waiters c ts \<longleftrightarrow> (\<exists>t \<in> set ts. waits_on c t)"

lemma waits_on_wake [simp]: "waits_on c (wake d t) \<longleftrightarrow> waits_on c t \<and> c \<noteq> d"
  by (cases t) auto

lemma thread_ok_wake: "thread_ok t \<Longrightarrow> thread_ok (wake c t)"
  by (cases t) auto

lemma ready_consumer_wake: "ready_consumer t \<Longrightarrow> ready_consumer (wake c t)"
  by (cases t) auto

lemma ready_consumer_woken: "thread_ok t \<Longrightarrow> waits_on ConsumerCV t \<Longrightarrow> ready_consumer (wake ConsumerCV t)"
  by (cases t) auto

lemma ready_consumers_map_wake: "ready_consumers ts \<le> ready_consumers (map (wake c) ts)"
  unfolding ready_consumers_def by (induction ts) (auto simp: ready_consumer_wake)

lemma ready_consumers_update:
  "i < length ts \<Longrightarrow>
   ready_consumers (ts[i := t]) + (if ready_consumer (ts ! i) then 1 else 0) =
   ready_consumers ts + (if ready_consumer t then 1 else 0)"
  unfolding ready_consumers_def by (rule length_filter_update)

lemma waiters_update:
  "waiters c (ts[i := t]) \<Longrightarrow> waiters c ts \<or> waits_on c t"
  unfolding waiters_def by (auto dest: set_update_subset_insert [THEN subsetD])

text \<open>What every notification does: it only wakes.\<close>

lemma notified_mono:
  "notified ns ts us \<Longrightarrow> (\<forall>t \<in> set ts. thread_ok t) \<Longrightarrow>
   (\<forall>t \<in> set us. thread_ok t) \<and> ready_consumers ts \<le> ready_consumers us \<and>
   (waiters c us \<longrightarrow> waiters c ts) \<and> (NotifyAll c \<in> set ns \<longrightarrow> \<not> waiters c us)"
proof (induction rule: notified.induct)
  case (notified_Nil ts)
  then show ?case by simp
next
  case (notified_All ns d ts us)
  have "\<forall>t \<in> set (map (wake d) ts). thread_ok t"
    using notified_All.prems by (auto intro: thread_ok_wake)
  with notified_All.IH ready_consumers_map_wake [of ts d] show ?case
    by (auto simp: waiters_def)
next
  case (notified_None ts d ns us)
  then show ?case by auto
next
  case (notified_One i ts d ns us)
  let ?ts = "ts[i := wake d (ts ! i)]"
  have ok: "\<forall>t \<in> set ?ts. thread_ok t"
    using notified_One.prems notified_One.hyps
    by (auto dest!: set_update_subset_insert [THEN subsetD] intro: thread_ok_wake)
  have "ready_consumers ts \<le> ready_consumers ?ts"
    using ready_consumers_update [OF notified_One.hyps(1), of "wake d (ts ! i)"]
      ready_consumer_wake [of "ts ! i" d] by (auto split: if_splits)
  moreover have "waiters c ?ts \<Longrightarrow> waiters c ts"
    using notified_One.hyps waiters_update [of c ts i "wake d (ts ! i)"]
    by (auto simp: waiters_def)
  ultimately show ?case
    using notified_One.IH [OF ok] by auto
qed

text \<open>A single notification leaves no consumer waiting or makes one ready.\<close>

lemma notify_one_consumer:
  assumes "notified [NotifyOne ConsumerCV] ts us" "\<forall>t \<in> set ts. thread_ok t"
  shows "waiters ConsumerCV us \<Longrightarrow> ready_consumers us = Suc (ready_consumers ts)"
  using assms(1)
proof cases
  case notified_None
  assume "waiters ConsumerCV us"
  with notified_None show ?thesis by (auto simp: waiters_def elim: notified.cases)
next
  case (notified_One i)
  have "thread_ok (ts ! i)" using notified_One(1) assms(2) by simp
  then have "ready_consumer (wake ConsumerCV (ts ! i))"
    using notified_One(2) by (rule ready_consumer_woken)
  moreover have "\<not> ready_consumer (ts ! i)"
    using notified_One(2) by (cases "ts ! i") auto
  moreover have "us = ts[i := wake ConsumerCV (ts ! i)]"
    using notified_One(3) by (auto elim: notified.cases)
  ultimately show ?thesis
    using ready_consumers_update [OF notified_One(1), of "wake ConsumerCV (ts ! i)"] by simp
qed


text \<open>The effect of one segment on the waiting threads' condition.\<close>

lemma consumer_segment:
  assumes "cq_exec q k = (q', ns, out)" "is_consumer k" "fruitful k" "m_open q'"
  shows "m_open q \<and>
     ((out = WaitOn ConsumerCV k \<and> ns = [] \<and> q' = q \<and> m_queue q = []) \<or>
      ((\<exists>r. out = Returned r) \<and> length (m_queue q') < length (m_queue q) \<and>
       ns = (if m_queue q' = [] then [NotifyAll ProducerCV] else [])))"
proof (cases k)
  case Pop
  with assms show ?thesis
    by (cases "m_queue q") (auto simp: cq_pop_def Let_def split: if_splits)
next
  case (PopN n out0)
  then have "length out0 < n" using assms by simp
  with PopN assms show ?thesis
    by (auto simp: cq_popN_def split: if_splits prod.splits dest!: popN_loop_spec)
qed (use assms in auto)

lemma producer_segment:
  assumes "cq_exec q k = (q', ns, out)" "\<not> is_consumer k" "m_open q'" "0 < m_maxSize q"
  shows "m_open q \<and> length (m_queue q) \<le> length (m_queue q') \<and>
     (\<forall>c k'. out = WaitOn c k' \<longrightarrow> c = ProducerCV \<and> \<not> is_consumer k' \<and> fruitful k' \<and> m_queue q' \<noteq> []) \<and>
     (ns = [] \<and> q' = q \<or>
      ns = [NotifyOne ConsumerCV] \<and> length (m_queue q') = Suc (length (m_queue q)) \<or>
      ns = [NotifyAll ConsumerCV])"
proof (cases k)
  case (PushN xs)
  with assms have "cq_pushN q xs = (q', ns, out)" by simp
  from cq_pushN_spec [OF this] assms(3,4) show ?thesis
    by (auto split: if_splits)
qed (use assms in \<open>auto simp: cq_push_def cq_waitEmpty_def cq_close_def split: if_splits\<close>)

definition wake_inv :: "'a world \<Rightarrow> bool" where
  "wake_inv w \<longleftrightarrow> (\<forall>t \<in> set (threads w). thread_ok t) \<and>
     (m_open (queue w) \<longrightarrow>
       (waiters ConsumerCV (threads w) \<longrightarrow>
          length (m_queue (queue w)) \<le> ready_consumers (threads w)) \<and>
       (waiters ProducerCV (threads w) \<longrightarrow> m_queue (queue w) \<noteq> []))"

lemma wake_inv_init: "wake_inv (cq_init maxSize n)"
  by (auto simp: wake_inv_def cq_init_def cq_new_def waiters_def)

lemma exec_thread_ok:
  assumes "cq_exec q k = (q', ns, out)" "fruitful k"
  shows "thread_ok (thread_after out)"
proof (cases k)
  case (PushN xs)
  with assms have "cq_pushN q xs = (q', ns, out)" by simp
  from cq_pushN_spec [OF this] show ?thesis by (auto split: if_splits)
next
  case (PopN n out0)
  with assms show ?thesis by (auto simp: cq_popN_def split: if_splits prod.splits)
qed (use assms in \<open>auto simp: cq_push_def cq_pop_def cq_waitEmpty_def cq_close_def Let_def split: if_splits\<close>)

lemma wake_inv_replace:
  assumes "wake_inv w" "i < length (threads w)" "thread_ok t"
    "\<not> ready_consumer (threads w ! i) \<or> ready_consumer t" "\<not> waits_on ConsumerCV t" "\<not> waits_on ProducerCV t"
  shows "wake_inv (w\<lparr>threads := (threads w)[i := t]\<rparr>)"
  using assms ready_consumers_update [OF assms(2), of t]
    waiters_update [of ConsumerCV "threads w" i t] waiters_update [of ProducerCV "threads w" i t]
  by (auto simp: wake_inv_def dest!: set_update_subset_insert [THEN subsetD] split: if_splits)

lemma wake_inv_run:
  assumes inv: "wake_inv w" and size: "0 < m_maxSize (queue w)"
    and i: "i < length (threads w)" "threads w ! i = Ready k"
    and ex: "cq_exec (queue w) k = (q', ns, out)"
    and nt: "notified ns ((threads w)[i := thread_after out]) ts'"
  shows "wake_inv \<lparr>queue = q', threads = ts', accepted = a, delivered = d\<rparr>"
proof -
  let ?ts1 = "(threads w)[i := thread_after out]"
  have k: "fruitful k" using inv i nth_mem [OF i(1)] by (auto simp: wake_inv_def)
  have ok1: "\<forall>t \<in> set ?ts1. thread_ok t"
    using inv exec_thread_ok [OF ex k]
    by (auto simp: wake_inv_def dest!: set_update_subset_insert [THEN subsetD])
  have mono: "\<And>c. (\<forall>t \<in> set ts'. thread_ok t) \<and> ready_consumers ?ts1 \<le> ready_consumers ts' \<and>
      (waiters c ts' \<longrightarrow> waiters c ?ts1) \<and> (NotifyAll c \<in> set ns \<longrightarrow> \<not> waiters c ts')"
    using notified_mono [OF nt ok1] .
  have cnt: "ready_consumers ?ts1 + (if is_consumer k then 1 else 0) = ready_consumers (threads w)"
    using ready_consumers_update [OF i(1), of "thread_after out"] i(2) by (cases out) auto
  have wt: "\<And>c. waiters c ?ts1 \<Longrightarrow> waiters c (threads w) \<or> waits_on c (thread_after out)"
    by (rule waiters_update)
  have "m_open q' \<Longrightarrow>
       (waiters ConsumerCV ts' \<longrightarrow> length (m_queue q') \<le> ready_consumers ts') \<and>
       (waiters ProducerCV ts' \<longrightarrow> m_queue q' \<noteq> [])"
  proof (cases "is_consumer k")
    case True
    assume op: "m_open q'"
    from consumer_segment [OF ex True k op] show ?thesis
      using inv mono [of ConsumerCV] mono [of ProducerCV] cnt True wt [of ConsumerCV] wt [of ProducerCV]
      by (auto simp: wake_inv_def split: if_splits)
  next
    case False
    assume op: "m_open q'"
    note seg = producer_segment [OF ex False op size]
    have "waiters ConsumerCV ts' \<Longrightarrow> length (m_queue q') \<le> ready_consumers ts'"
    proof -
      assume c: "waiters ConsumerCV ts'"
      then have "waiters ConsumerCV (threads w)"
        using mono [of ConsumerCV] wt [of ConsumerCV] seg by (cases out) auto
      then have "length (m_queue (queue w)) \<le> ready_consumers ?ts1"
        using inv seg cnt False by (auto simp: wake_inv_def)
      then show ?thesis
        using seg c mono [of ConsumerCV] notify_one_consumer [OF _ ok1, of ts'] nt by auto
    qed
    moreover have "waiters ProducerCV ts' \<Longrightarrow> m_queue q' \<noteq> []"
      using seg mono [of ProducerCV] wt [of ProducerCV] inv
      by (cases out) (auto simp: wake_inv_def)
    ultimately show ?thesis by blast
  qed
  with mono show ?thesis by (simp add: wake_inv_def)
qed

lemma wake_inv_step:
  "cq_step fruitful w w' \<Longrightarrow> wake_inv w \<Longrightarrow> 0 < m_maxSize (queue w) \<Longrightarrow> wake_inv w'"
proof (induction rule: cq_step.induct)
  case (step_call i w k)
  then show ?case by (intro wake_inv_replace) auto
next
  case (step_run i w k q' ns out ts')
  then show ?case by (intro wake_inv_run)
next
  case (step_spurious i w c k)
  then have "thread_ok (threads w ! i)" using nth_mem unfolding wake_inv_def by blast
  with step_spurious show ?case by (intro wake_inv_replace) auto
next
  case (step_return i w r)
  then show ?case by (intro wake_inv_replace) auto
qed

text \<open>
  C5. Provided every \<^verbatim>\<open>popN\<close> asks for more than its output vector holds already, no
  wake-up is lost: in a reachable state of an open queue of positive capacity, while some
  thread waits to consume there are at least as many woken consumers as elements in the
  queue (an element never lies in the queue with everybody asleep), and while some thread
  waits to produce, or for the queue to be empty, the queue is not empty.
\<close>

theorem no_lost_wakeup:
  assumes "cq_reach fruitful maxSize n w" "0 < maxSize" "m_open (queue w)"
  shows "(waiters ConsumerCV (threads w) \<longrightarrow>
            length (m_queue (queue w)) \<le> ready_consumers (threads w)) \<and>
         (waiters ProducerCV (threads w) \<longrightarrow> m_queue (queue w) \<noteq> [])"
proof -
  from assms(1) have "cq_safe maxSize w \<and> wake_inv w"
  proof (induction rule: cq_reach.induct)
    case (reach_step w w')
    with assms(2) cq_safe_step wake_inv_step show ?case by (auto simp: cq_safe_def)
  qed (simp add: cq_safe_init wake_inv_init)
  with assms(3) show ?thesis by (simp add: wake_inv_def)
qed

text \<open>A run used by the witnesses: a producer waits on a full queue of capacity 1.\<close>

definition one_full :: "nat world" where
  "one_full = \<lparr>queue = \<lparr>m_maxSize = 1, m_open = True, m_queue = [5]\<rparr>,
     threads = [Waiting ProducerCV (Push 6), Idle], accepted = [5], delivered = []\<rparr>"

lemma step_run_eq:
  assumes "i < length (threads w)" "threads w ! i = Ready k"
    "cq_exec (queue w) k = (q', ns, out)" "notified ns ((threads w)[i := thread_after out]) ts'"
    "w' = \<lparr>queue = q', threads = ts', accepted = accepted w @ accepted_of (queue w) k out,
           delivered = delivered w @ delivered_of k out\<rparr>"
  shows "cq_step allowed w w'"
  unfolding assms(5) using assms(1-4) by (rule step_run)

lemma reach_one_full: "cq_reach fruitful 1 2 one_full"
proof -
  let ?w = "\<lambda>q ts a. \<lparr>queue = \<lparr>m_maxSize = 1, m_open = True, m_queue = q\<rparr>, threads = ts,
              accepted = a, delivered = []\<rparr> :: nat world"
  have "cq_init 1 2 = ?w [] [Idle, Idle] []"
    by (simp add: cq_init_def cq_new_def numeral_2_eq_2)
  with reach_init have "cq_reach fruitful 1 2 (?w [] [Idle, Idle] [])" by metis
  moreover have "cq_step fruitful (?w [] [Idle, Idle] []) (?w [] [Ready (Push 5), Idle] [])"
    using step_call [of 0 "?w [] [Idle, Idle] []" fruitful "Push 5"] by simp
  moreover have "cq_step fruitful (?w [] [Ready (Push 5), Idle] []) (?w [5] [Done Unit, Idle] [5])"
    by (rule step_run_eq [where i = 0 and ns = "[NotifyOne ConsumerCV]"])
      (auto simp: cq_push_def intro!: notified_None notified_Nil)
  moreover have "cq_step fruitful (?w [5] [Done Unit, Idle] [5]) (?w [5] [Idle, Idle] [5])"
    using step_return [of 0 "?w [5] [Done Unit, Idle] [5]" Unit fruitful] by simp
  moreover have "cq_step fruitful (?w [5] [Idle, Idle] [5]) (?w [5] [Ready (Push 6), Idle] [5])"
    using step_call [of 0 "?w [5] [Idle, Idle] [5]" fruitful "Push 6"] by simp
  moreover have "cq_step fruitful (?w [5] [Ready (Push 6), Idle] [5]) one_full"
    by (rule step_run_eq [where i = 0 and ns = "[]"])
      (auto simp: cq_push_def one_full_def intro!: notified_Nil)
  ultimately show ?thesis by (meson reach_step)
qed

theorem no_lost_wakeup_witness:
  "waiters ProducerCV (threads one_full) \<and> m_queue (queue one_full) \<noteq> []"
  using no_lost_wakeup [OF reach_one_full] by (simp add: one_full_def waiters_def)

section \<open>Closing does not release the producers\<close>

text \<open>
  C29. Closing the queue does not release a blocked producer, although the class promises
  that it releases all blocking operations: there is a reachable state in which the queue
  is closed, no call is running and a producer still waits; \<^verbatim>\<open>close\<close> notifies only the
  consumers' variable, so without a spurious wake-up or a later \<^verbatim>\<open>pop\<close> that producer
  never returns.
\<close>

theorem close_strands_producer:
  "\<exists>w :: nat world. cq_reach fruitful 1 2 w \<and> \<not> m_open (queue w) \<and>
     threads w = [Waiting ProducerCV (Push 6), Done Unit]"
proof -
  let ?w = "\<lambda>open t. \<lparr>queue = \<lparr>m_maxSize = 1, m_open = open, m_queue = [5]\<rparr>,
              threads = [Waiting ProducerCV (Push 6), t], accepted = [5], delivered = []\<rparr> :: nat world"
  have "cq_step fruitful one_full (?w True (Ready Close))"
    using step_call [of 1 one_full fruitful Close] by (simp add: one_full_def)
  moreover have "cq_step fruitful (?w True (Ready Close)) (?w False (Done Unit))"
    by (rule step_run_eq [where i = 1 and ns = "[NotifyAll ConsumerCV]"])
      (auto simp: cq_close_def intro!: notified_All notified_Nil)
  ultimately have "cq_reach fruitful 1 2 (?w False (Done Unit))"
    using reach_one_full by (meson reach_step)
  then show ?thesis by (intro exI [of _ "?w False (Done Unit)"]) simp
qed

end
