(* ===== verification/Endian.thy ===== *)
theory Endian
  imports Fishy_Prelude
begin

text \<open>
  \<^verbatim>\<open>CORE/ARCH/endian.h\<close>: byte swaps and the conversions to and from a fixed byte order.
  A host is \<open>True\<close> when it stores the least significant byte first.
\<close>

section \<open>The code\<close>

definition endianSwapBytes1 :: "8 word \<Rightarrow> 8 word" where
  "endianSwapBytes1 x = x"

definition endianSwapBytes2 :: "16 word \<Rightarrow> 16 word" where
  "endianSwapBytes2 x = (push_bit 8 x AND 0xFF00) OR (drop_bit 8 x AND 0x00FF)"

definition endianSwapBytes4 :: "32 word \<Rightarrow> 32 word" where
  "endianSwapBytes4 x =
     (push_bit 24 x AND 0xFF000000) OR (push_bit 8 x AND 0x00FF0000) OR
     (drop_bit 8 x AND 0x0000FF00) OR (drop_bit 24 x AND 0x000000FF)"

definition endianSwapBytes8 :: "64 word \<Rightarrow> 64 word" where
  "endianSwapBytes8 x =
     (push_bit 56 x AND 0xff00000000000000) OR (push_bit 40 x AND 0x00ff000000000000) OR
     (push_bit 24 x AND 0x0000ff0000000000) OR (push_bit 8 x AND 0x000000ff00000000) OR
     (drop_bit 8 x AND 0x00000000ff000000) OR (drop_bit 24 x AND 0x0000000000ff0000) OR
     (drop_bit 40 x AND 0x000000000000ff00) OR (drop_bit 56 x AND 0x00000000000000ff)"

text \<open>
  The conversions, on the host's endianness (\<^verbatim>\<open>FISHY_IS_LITTLE_ENDIAN\<close>) and the swap of the
  type's size.
\<close>

definition endian_little :: "bool \<Rightarrow> ('a word \<Rightarrow> 'a word) \<Rightarrow> 'a word \<Rightarrow> 'a word" where
  "endian_little isLittle swap value = (if isLittle then value else swap value)"

definition endian_big :: "bool \<Rightarrow> ('a word \<Rightarrow> 'a word) \<Rightarrow> 'a word \<Rightarrow> 'a word" where
  "endian_big isLittle swap value = (if isLittle then swap value else value)"

section \<open>Bytes in memory\<close>

text \<open>The bytes of a value, least significant first, and the value of such bytes.\<close>

definition le_bytes :: "'a :: len word \<Rightarrow> u8 list" where
  "le_bytes w = map (\<lambda>i. ucast (drop_bit (8 * i) w)) [0..<LENGTH('a) div 8]"

fun of_le_bytes :: "u8 list \<Rightarrow> 'a :: len word" where
  "of_le_bytes [] = 0"
| "of_le_bytes (b # bs) = ucast b OR push_bit 8 (of_le_bytes bs)"

text \<open>The bytes at the address of a variable on a host.\<close>

definition mem_bytes :: "bool \<Rightarrow> 'a :: len word \<Rightarrow> u8 list" where
  "mem_bytes host w = (if host then le_bytes w else rev (le_bytes w))"

text \<open>The macro's run-time test, of the first byte of the 32-bit constant 1.\<close>

definition runtime_endian_check :: "bool \<Rightarrow> bool" where
  "runtime_endian_check host \<longleftrightarrow> hd (mem_bytes host (1 :: u32)) = 0"

lemma length_le_bytes [simp]: "length (le_bytes (w :: 'a :: len word)) = LENGTH('a) div 8"
  by (simp add: le_bytes_def)

lemma bit_of_le_bytes:
  "bit (of_le_bytes bs :: 'a :: len word) n \<longleftrightarrow>
   n < LENGTH('a) \<and> n div 8 < length bs \<and> bit (bs ! (n div 8)) (n mod 8)"
proof (induction bs arbitrary: n)
  case Nil
  then show ?case by simp
next
  case (Cons b bs)
  show ?case
  proof (cases "n < 8")
    case True
    then show ?thesis by (simp add: bit_or_iff bit_push_bit_iff bit_unsigned_iff)
  next
    case False
    then obtain m where m: "n = m + 8" by (metis add.commute le_Suc_ex not_less)
    have "\<not> bit b (m + 8)" using bit_imp_le_length [of b "m + 8"] by auto
    moreover have "(m + 8) div 8 = Suc (m div 8)" "(m + 8) mod 8 = m mod 8" by simp_all
    ultimately show ?thesis using m Cons.IH [of m]
      by (auto simp: bit_or_iff bit_push_bit_iff bit_unsigned_iff)
  qed
qed

lemma bit_le_bytes:
  "i < LENGTH('a) div 8 \<Longrightarrow> bit (le_bytes (w :: 'a :: len word) ! i) j \<longleftrightarrow> j < 8 \<and> bit w (8 * i + j)"
  by (simp add: le_bytes_def bit_unsigned_iff bit_drop_bit_eq)

lemma of_le_bytes_le_bytes:
  "8 dvd LENGTH('a) \<Longrightarrow> of_le_bytes (le_bytes (w :: 'a :: len word)) = w"
  by (rule bit_word_eqI) (auto simp: bit_of_le_bytes bit_le_bytes elim!: dvdE)


section \<open>Swapping reverses the bytes\<close>

lemma bit_byte_mask: "bit (push_bit (8 * k) 0xFF :: 'a :: len word) n \<longleftrightarrow>
    n < LENGTH('a) \<and> n div 8 = k"
proof -
  have m: "(0xFF :: 'a word) = mask 8" by (simp add: mask_eq_exp_minus_1)
  have "n div 8 = k \<longleftrightarrow> 8 * k \<le> n \<and> n < 8 * k + 8" by auto
  then show ?thesis unfolding m by (auto simp: bit_push_bit_iff bit_mask_iff)
qed

text \<open>The masks of the swaps, as shifted bytes.\<close>

lemma byte_masks:
  "(0xFF :: 'a :: len word) = push_bit (8 * 0) 0xFF"
  "(0xFF00 :: 'a :: len word) = push_bit (8 * 1) 0xFF"
  "(0xFF0000 :: 'a :: len word) = push_bit (8 * 2) 0xFF"
  "(0xFF000000 :: 'a :: len word) = push_bit (8 * 3) 0xFF"
  "(0xFF00000000 :: 'a :: len word) = push_bit (8 * 4) 0xFF"
  "(0xFF0000000000 :: 'a :: len word) = push_bit (8 * 5) 0xFF"
  "(0xFF000000000000 :: 'a :: len word) = push_bit (8 * 6) 0xFF"
  "(0xFF00000000000000 :: 'a :: len word) = push_bit (8 * 7) 0xFF"
  by (simp_all add: push_bit_eq_mult)

lemma bit_mask_bytes:
  "bit (0xFF :: 'a :: len word) n \<longleftrightarrow> n < LENGTH('a) \<and> n div 8 = 0"
  "bit (0xFF00 :: 'a :: len word) n \<longleftrightarrow> n < LENGTH('a) \<and> n div 8 = 1"
  "bit (0xFF0000 :: 'a :: len word) n \<longleftrightarrow> n < LENGTH('a) \<and> n div 8 = 2"
  "bit (0xFF000000 :: 'a :: len word) n \<longleftrightarrow> n < LENGTH('a) \<and> n div 8 = 3"
  "bit (0xFF00000000 :: 'a :: len word) n \<longleftrightarrow> n < LENGTH('a) \<and> n div 8 = 4"
  "bit (0xFF0000000000 :: 'a :: len word) n \<longleftrightarrow> n < LENGTH('a) \<and> n div 8 = 5"
  "bit (0xFF000000000000 :: 'a :: len word) n \<longleftrightarrow> n < LENGTH('a) \<and> n div 8 = 6"
  "bit (0xFF00000000000000 :: 'a :: len word) n \<longleftrightarrow> n < LENGTH('a) \<and> n div 8 = 7"
  subgoal by (subst byte_masks(1), rule bit_byte_mask)
  subgoal by (subst byte_masks(2), rule bit_byte_mask)
  subgoal by (subst byte_masks(3), rule bit_byte_mask)
  subgoal by (subst byte_masks(4), rule bit_byte_mask)
  subgoal by (subst byte_masks(5), rule bit_byte_mask)
  subgoal by (subst byte_masks(6), rule bit_byte_mask)
  subgoal by (subst byte_masks(7), rule bit_byte_mask)
  subgoal by (subst byte_masks(8), rule bit_byte_mask)
  done

text \<open>The bits of the swapped values: bit \<open>j\<close> of byte \<open>k\<close> is bit \<open>j\<close> of the mirrored byte.\<close>

lemma bit_swap2:
  assumes "k < 2" "j < 8"
  shows "bit (endianSwapBytes2 x) (8 * k + j) \<longleftrightarrow> bit x (8 * (1 - k) + j)"
proof -
  have d: "(8 * k + j) div 8 = k" using assms(2) by simp
  from assms(1) consider "k = 0" | "k = 1" by linarith
  then show ?thesis using assms(2)
    unfolding endianSwapBytes2_def bit_or_iff bit_and_iff bit_push_bit_iff bit_drop_bit_eq
      bit_mask_bytes d
    by cases (simp_all add: algebra_simps)
qed

lemma bit_swap4:
  assumes "k < 4" "j < 8"
  shows "bit (endianSwapBytes4 x) (8 * k + j) \<longleftrightarrow> bit x (8 * (3 - k) + j)"
proof -
  have d: "(8 * k + j) div 8 = k" using assms(2) by simp
  from assms(1) consider "k = 0" | "k = 1" | "k = 2" | "k = 3" by linarith
  then show ?thesis using assms(2)
    unfolding endianSwapBytes4_def bit_or_iff bit_and_iff bit_push_bit_iff bit_drop_bit_eq
      bit_mask_bytes d
    by cases (simp_all add: algebra_simps)
qed

lemma bit_swap8:
  assumes "k < 8" "j < 8"
  shows "bit (endianSwapBytes8 x) (8 * k + j) \<longleftrightarrow> bit x (8 * (7 - k) + j)"
proof -
  have d: "(8 * k + j) div 8 = k" using assms(2) by simp
  from assms(1) consider "k = 0" | "k = 1" | "k = 2" | "k = 3" | "k = 4" | "k = 5" | "k = 6" | "k = 7"
    by linarith
  then show ?thesis using assms(2)
    unfolding endianSwapBytes8_def bit_or_iff bit_and_iff bit_push_bit_iff bit_drop_bit_eq
      bit_mask_bytes d
    by cases (simp_all add: algebra_simps)
qed

lemma nth_le_bytes_bit:
  "k < LENGTH('a) div 8 \<Longrightarrow> j < 8 \<Longrightarrow> bit (le_bytes (w :: 'a :: len word) ! k) j \<longleftrightarrow> bit w (8 * k + j)"
  by (simp add: le_bytes_def bit_unsigned_iff bit_drop_bit_eq)

lemma le_bytes_rev:
  assumes "\<And>k j. k < LENGTH('a) div 8 \<Longrightarrow> j < 8 \<Longrightarrow>
     bit v (8 * k + j) \<longleftrightarrow> bit (w :: 'a word) (8 * (LENGTH('a) div 8 - 1 - k) + j)"
  shows "le_bytes (v :: 'a :: len word) = rev (le_bytes w)"
proof (rule nth_equalityI)
  fix k assume "k < length (le_bytes v)"
  then have k: "k < LENGTH('a) div 8" by simp
  show "le_bytes v ! k = rev (le_bytes w) ! k"
  proof (rule bit_word_eqI)
    fix j assume j: "j < LENGTH(8)"
    have "rev (le_bytes w) ! k = le_bytes w ! (LENGTH('a) div 8 - 1 - k)"
      using k by (subst rev_nth) simp_all
    moreover have "LENGTH('a) div 8 - 1 - k < LENGTH('a) div 8" using k by linarith
    ultimately show "bit (le_bytes v ! k) j = bit (rev (le_bytes w) ! k) j"
      using k j assms [OF k, of j] by (simp add: nth_le_bytes_bit)
  qed
qed simp

lemma swap_reverses:
  "le_bytes (endianSwapBytes2 x) = rev (le_bytes x)"
  "le_bytes (endianSwapBytes4 y) = rev (le_bytes y)"
  "le_bytes (endianSwapBytes8 z) = rev (le_bytes z)"
  by (rule le_bytes_rev; simp add: bit_swap2 bit_swap4 bit_swap8)+

lemma le_bytes_inject:
  assumes "8 dvd LENGTH('a)" "le_bytes v = le_bytes (w :: 'a :: len word)"
  shows "v = w"
  using assms of_le_bytes_le_bytes by metis

lemma swap_involution:
  "endianSwapBytes2 (endianSwapBytes2 x) = x"
  "endianSwapBytes4 (endianSwapBytes4 y) = y"
  "endianSwapBytes8 (endianSwapBytes8 z) = z"
  by (rule le_bytes_inject; simp add: swap_reverses)+

text \<open>
  C30. The bytes in memory of a value converted with \<^verbatim>\<open>little\<close> are the value's bytes from
  the least to the most significant one, and with \<^verbatim>\<open>big\<close> from the most to the least
  significant one, on a host of either endianness whose \<^verbatim>\<open>FISHY_IS_LITTLE_ENDIAN\<close> is right;
  and converting twice gives the value back, so the same function reads what it wrote.
\<close>

theorem endian_host_independent:
  "mem_bytes host (endian_little host endianSwapBytes1 v) = le_bytes v \<and>
   mem_bytes host (endian_little host endianSwapBytes2 w) = le_bytes w \<and>
   mem_bytes host (endian_little host endianSwapBytes4 x) = le_bytes x \<and>
   mem_bytes host (endian_little host endianSwapBytes8 y) = le_bytes y \<and>
   mem_bytes host (endian_big host endianSwapBytes2 w) = rev (le_bytes w) \<and>
   mem_bytes host (endian_big host endianSwapBytes4 x) = rev (le_bytes x) \<and>
   mem_bytes host (endian_big host endianSwapBytes8 y) = rev (le_bytes y) \<and>
   endian_little host endianSwapBytes2 (endian_little host endianSwapBytes2 w) = w \<and>
   endian_little host endianSwapBytes4 (endian_little host endianSwapBytes4 x) = x \<and>
   endian_little host endianSwapBytes8 (endian_little host endianSwapBytes8 y) = y \<and>
   endian_big host endianSwapBytes4 (endian_big host endianSwapBytes4 x) = x \<and>
   endian_big host endianSwapBytes8 (endian_big host endianSwapBytes8 y) = y"
proof -
  have one: "rev (le_bytes v) = le_bytes v" by (simp add: le_bytes_def)
  show ?thesis
    by (simp add: mem_bytes_def endian_little_def endian_big_def swap_reverses swap_involution
        endianSwapBytes1_def one)
qed

text \<open>
  The run-time variant of \<^verbatim>\<open>FISHY_IS_LITTLE_ENDIAN\<close> (with
  \<^verbatim>\<open>FISHY_USE_RUNTIME_ENDIAN_CHECK\<close>) is inverted: it is true exactly on the hosts that store
  the most significant byte first, because it compares the first byte of the constant 1
  with 0.
\<close>

theorem runtime_endian_check_inverted: "runtime_endian_check host \<longleftrightarrow> \<not> host"
  by (simp add: runtime_endian_check_def mem_bytes_def le_bytes_def upt_rec)

end
