(* ===== verification/Serializer.thy ===== *)
theory Serializer
  imports Endian
begin

text \<open>
  The binary serialization of \<^verbatim>\<open>CORE/BASE\<close>: the sinks of \<^verbatim>\<open>serializer_basesinks.h\<close>, the
  operators of \<^verbatim>\<open>serializer_podtypes.h\<close> and \<^verbatim>\<open>serializer_strings.h\<close>, and the zigzag
  functions of \<^verbatim>\<open>CORE/TYPES/varint_types.h\<close>. A sink is a value of the type \<open>sink\<close>, one
  constructor per class, with the \<^verbatim>\<open>m_fail\<close> flag of the base class; a \<^verbatim>\<open>RangeSink\<close> owns the
  state of the sink it refers to. Multi-byte values are written with \<^verbatim>\<open>endian::little\<close>, so
  their bytes are those of \<open>le_bytes\<close> on every host (theory \<open>Endian\<close>).
\<close>

section \<open>Sinks\<close>

datatype sink =
    FakeSink nat bool
  | RangeSink sink nat bool
  | BlobSink "u8 list" nat bool
  | ConstBlobSink "u8 list" nat bool

fun fail :: "sink \<Rightarrow> bool" where
  "fail (FakeSink n f) = f"
| "fail (RangeSink s n f) = f"
| "fail (BlobSink d p f) = f"
| "fail (ConstBlobSink d p f) = f"

fun set_fail :: "sink \<Rightarrow> sink" where
  "set_fail (FakeSink n f) = FakeSink n True"
| "set_fail (RangeSink s n f) = RangeSink s n True"
| "set_fail (BlobSink d p f) = BlobSink d p True"
| "set_fail (ConstBlobSink d p f) = ConstBlobSink d p True"

text \<open>
  \<^verbatim>\<open>write\<close> with the bytes of the blob, giving the count written; \<^verbatim>\<open>read\<close> with the size of
  the blob, giving the bytes it was overwritten with from its start (the count read is
  their number).
\<close>

fun sink_write :: "sink \<Rightarrow> u8 list \<Rightarrow> fault + sink \<times> nat" where
  "sink_write (FakeSink n f) b = Inr (FakeSink ((n + length b) mod 2 ^ 64) f, length b)"
| "sink_write (RangeSink s n f) b =
     (let sz = min (length b) n
      in bind_result (sink_write s (take sz b)) (\<lambda>(s', w). Inr (RangeSink s' (n - sz) f, w)))"
| "sink_write (BlobSink d p f) b =
     (let writeable = min (length b) (length d - p)
      in Inr (BlobSink (take p d @ take writeable b @ drop (p + writeable) d) (p + writeable) f,
              writeable))"
| "sink_write (ConstBlobSink d p f) b = Inl CheckFailed"

fun sink_read :: "sink \<Rightarrow> nat \<Rightarrow> fault + sink \<times> u8 list" where
  "sink_read (FakeSink n f) k = Inl CheckFailed"
| "sink_read (RangeSink s n f) k =
     (let sz = min k n
      in bind_result (sink_read s sz) (\<lambda>(s', bs). Inr (RangeSink s' (n - sz) f, bs)))"
| "sink_read (BlobSink d p f) k =
     (let readable = min k (length d - p)
      in Inr (BlobSink d (p + readable) f, take readable (drop p d)))"
| "sink_read (ConstBlobSink d p f) k =
     (let readable = min k (length d - p)
      in Inr (ConstBlobSink d (p + readable) f, take readable (drop p d)))"

fun sink_seek :: "sink \<Rightarrow> nat \<Rightarrow> sink" where
  "sink_seek (FakeSink n f) dist = FakeSink ((n + dist) mod 2 ^ 64) f"
| "sink_seek (RangeSink s n f) dist =
     (let sz = min dist n in RangeSink (sink_seek s sz) (n - sz) f)"
| "sink_seek (BlobSink d p f) dist =
     (if length d - p < dist then BlobSink d (length d) f else BlobSink d (p + dist) f)"
| "sink_seek (ConstBlobSink d p f) dist =
     (if length d - p < dist then ConstBlobSink d (length d) f else ConstBlobSink d (p + dist) f)"

fun sink_avail :: "sink \<Rightarrow> nat" where
  "sink_avail (FakeSink n f) = 0"
| "sink_avail (RangeSink s n f) = n"
| "sink_avail (BlobSink d p f) = length d - p"
| "sink_avail (ConstBlobSink d p f) = length d - p"

text \<open>\<^verbatim>\<open>reset\<close> and \<^verbatim>\<open>size\<close>, on the classes that have them.\<close>

fun sink_reset :: "sink \<Rightarrow> sink" where
  "sink_reset (BlobSink d p f) = BlobSink d 0 f"
| "sink_reset (ConstBlobSink d p f) = ConstBlobSink d 0 f"
| "sink_reset s = s"

fun sink_size :: "sink \<Rightarrow> nat option" where
  "sink_size (FakeSink n f) = Some n"
| "sink_size (BlobSink d p f) = Some p"
| "sink_size s = None"

section \<open>Basic types\<close>

text \<open>
  Writing a fixed number of bytes, and reading them over the bytes of a variable: both fail
  the sink when the count is short.
\<close>

definition put_bytes :: "sink \<Rightarrow> u8 list \<Rightarrow> fault + sink" where
  "put_bytes s bs =
     bind_result (sink_write s bs) (\<lambda>(s', n). Inr (if n \<noteq> length bs then set_fail s' else s'))"

definition get_bytes :: "sink \<Rightarrow> u8 list \<Rightarrow> fault + sink \<times> u8 list" where
  "get_bytes s old =
     bind_result (sink_read s (length old)) (\<lambda>(s', bs).
       Inr (if length bs \<noteq> length old then set_fail s' else s', bs @ drop (length bs) old))"

definition oser_bool :: "sink \<Rightarrow> bool \<Rightarrow> fault + sink" where
  "oser_bool s obj = put_bytes s [if obj then 1 else 0]"

definition iser_bool :: "sink \<Rightarrow> bool \<Rightarrow> fault + sink \<times> bool" where
  "iser_bool s obj = bind_result (get_bytes s [0]) (\<lambda>(s', value). Inr (s', hd value \<noteq> 0))"

definition oser_u8 :: "sink \<Rightarrow> u8 \<Rightarrow> fault + sink" where
  "oser_u8 s obj = put_bytes s [obj]"

definition iser_u8 :: "sink \<Rightarrow> u8 \<Rightarrow> fault + sink \<times> u8" where
  "iser_u8 s obj = bind_result (get_bytes s [obj]) (\<lambda>(s', value). Inr (s', hd value))"

text \<open>The wider types, whose bytes are little endian (signed types are their words).\<close>

definition oser_pod :: "sink \<Rightarrow> 'a :: len word \<Rightarrow> fault + sink" where
  "oser_pod s obj = put_bytes s (le_bytes obj)"

definition iser_pod :: "sink \<Rightarrow> 'a :: len word \<Rightarrow> fault + sink \<times> 'a word" where
  "iser_pod s obj =
     bind_result (get_bytes s (le_bytes obj)) (\<lambda>(s', value). Inr (s', of_le_bytes value))"

section \<open>Variable length integers\<close>

lemma unat_drop_7: "unat (drop_bit 7 (w :: u64)) = unat w div 128"
  by (simp add: unat_drop_bit_eq drop_bit_nat_def)

lemma drop_bit_less: "drop_bit 7 (w :: u64) \<noteq> 0 \<Longrightarrow> unat (drop_bit 7 w) < unat w"
  unfolding unat_drop_7 by (metis div_less_dividend div_0 drop_bit_of_0 neq0_conv one_less_numeral_iff
      semiring_norm(76) unat_eq_zero)

function varuint_bits :: "u64 \<Rightarrow> u8 list" where
  "varuint_bits value =
     (if drop_bit 7 value \<noteq> 0
      then (ucast (value AND 0x7F) OR 0x80) # varuint_bits (drop_bit 7 value)
      else [ucast (value AND 0x7F)])"
  by auto

termination
  by (relation "measure unat") (simp_all add: drop_bit_less)

declare varuint_bits.simps [simp del]

definition oser_VarUInt :: "sink \<Rightarrow> u64 \<Rightarrow> fault + sink" where
  "oser_VarUInt s obj = put_bytes s (varuint_bits obj)"

text \<open>
  The reading loop. \<^verbatim>\<open>fragment\<close> is not initialised before the first read, so its first value
  is an argument; a shift by 64 or more is undefined.
\<close>

function get_varuint :: "sink \<Rightarrow> u64 \<Rightarrow> nat \<Rightarrow> u8 \<Rightarrow> fault + sink \<times> u64" where
  "get_varuint s nv shift fragment =
     bind_result (iser_u8 s fragment) (\<lambda>(s', fragment').
       if 64 \<le> shift then Inl Undefined
       else let nv' = nv OR push_bit shift (ucast fragment' AND 0x7F)
            in if \<not> fail s' \<and> fragment' AND 0x80 \<noteq> 0
               then get_varuint s' nv' (shift + 7) fragment'
               else Inr (s', nv'))"
  by auto

termination
  by (relation "measure (\<lambda>(s, nv, shift, fragment). 64 - shift)") auto

declare get_varuint.simps [simp del]

text \<open>\<open>junk\<close> is what memory holds before it is initialised.\<close>

definition iser_VarUInt :: "(nat \<Rightarrow> u8) \<Rightarrow> sink \<Rightarrow> u64 \<Rightarrow> fault + sink \<times> u64" where
  "iser_VarUInt junk s obj = get_varuint s 0 0 (junk 0)"

definition encode_zigzag :: "u64 \<Rightarrow> u64" where
  "encode_zigzag u = (push_bit 1 u) XOR (signed_drop_bit 63 u)"

definition decode_zigzag :: "u64 \<Rightarrow> u64" where
  "decode_zigzag u = (drop_bit 1 u) XOR (NOT (u AND 1) + 1)"

definition oser_VarInt :: "sink \<Rightarrow> u64 \<Rightarrow> fault + sink" where
  "oser_VarInt s obj = oser_VarUInt s ((push_bit 1 obj) XOR (signed_drop_bit 63 obj))"

definition iser_VarInt :: "(nat \<Rightarrow> u8) \<Rightarrow> sink \<Rightarrow> u64 \<Rightarrow> fault + sink \<times> u64" where
  "iser_VarInt junk s obj =
     bind_result (iser_VarUInt junk s 0) (\<lambda>(s', nv).
       Inr (s', (drop_bit 1 nv) XOR (NOT (nv AND 1) + 1)))"

section \<open>Strings\<close>

definition oser_string :: "sink \<Rightarrow> string \<Rightarrow> fault + sink" where
  "oser_string s obj =
     bind_result (oser_VarUInt s (word_of_nat (length obj))) (\<lambda>s'.
       if fail s' then Inr s' else put_bytes s' (bytes_of obj))"

definition iser_string :: "(nat \<Rightarrow> u8) \<Rightarrow> sink \<Rightarrow> string \<Rightarrow> fault + sink \<times> string" where
  "iser_string junk s obj =
     bind_result (iser_VarUInt junk s 0) (\<lambda>(s', sz).
       if fail s' \<or> 0xFFFFFFFF \<le> sz then Inr (s', obj)
       else bind_result (get_bytes s' (map junk [0..<unat sz])) (\<lambda>(s'', tmpStr).
              Inr (s'', string_of_bytes tmpStr)))"

section \<open>The interface of the sinks\<close>

text \<open>
  What the operators rely on. A source gives out, in order, the bytes it still has; a
  destination takes, in order, the bytes it has room for.
\<close>

locale byte_source =
  fixes rd :: "'s \<Rightarrow> nat \<Rightarrow> fault + 's \<times> u8 list"
    and ok :: "'s \<Rightarrow> bool"
    and rest :: "'s \<Rightarrow> u8 list"
    and failed :: "'s \<Rightarrow> bool"
  assumes rd_takes: "ok s \<Longrightarrow> \<exists>s'. rd s n = Inr (s', take n (rest s)) \<and> ok s' \<and>
      rest s' = drop n (rest s) \<and> failed s' = failed s"
begin

lemma rd_exact:
  assumes "ok s" "rest s = bs @ r" "n = length bs"
  obtains s' where "rd s n = Inr (s', bs)" "ok s'" "rest s' = r" "failed s' = failed s"
  using rd_takes [OF assms(1), of n] assms(2,3) by auto

lemma rd_short:
  assumes "ok s" "length (rest s) < n" "rd s n = Inr (s', bs)"
  shows "length bs < n \<and> bs = rest s \<and> rest s' = []"
  using rd_takes [OF assms(1), of n] assms(2,3) by auto

lemma rd_twice:
  assumes "ok s" "rd s m = Inr (s1, as)" "rd s1 n = Inr (s2, bs)"
  shows "\<exists>s3. rd s (m + n) = Inr (s3, as @ bs) \<and> rest s3 = rest s2"
  using rd_takes [OF assms(1), of m] rd_takes [OF assms(1), of "m + n"] rd_takes [of s1 n] assms(2,3)
  by (auto simp: take_add add.commute)

end

locale byte_dest =
  fixes wr :: "'s \<Rightarrow> u8 list \<Rightarrow> fault + 's \<times> nat"
    and ok :: "'s \<Rightarrow> bool"
    and room :: "'s \<Rightarrow> nat"
    and written :: "'s \<Rightarrow> u8 list \<Rightarrow> 's"
    and failed :: "'s \<Rightarrow> bool"
  assumes wr_fits: "ok s \<Longrightarrow> length bs \<le> room s \<Longrightarrow> wr s bs = Inr (written s bs, length bs)"
    and written_ok: "ok s \<Longrightarrow> length bs \<le> room s \<Longrightarrow>
      ok (written s bs) \<and> room (written s bs) = room s - length bs \<and>
      failed (written s bs) = failed s"
    and written_app: "ok s \<Longrightarrow> length as + length bs \<le> room s \<Longrightarrow>
      written (written s as) bs = written s (as @ bs)"
begin

lemma wr_twice:
  assumes "ok s" "length as + length bs \<le> room s"
  shows "\<exists>s'. wr s as = Inr (s', length as) \<and> wr s' bs = Inr (written s (as @ bs), length bs)"
  using assms wr_fits [of s as] wr_fits [of "written s as" bs] written_ok [of s as]
    written_app [of s as bs] by auto

end

text \<open>The bytes a sink can still give, and the ones it can still take.\<close>

fun sink_rest :: "sink \<Rightarrow> u8 list" where
  "sink_rest (FakeSink n f) = []"
| "sink_rest (RangeSink s n f) = take n (sink_rest s)"
| "sink_rest (BlobSink d p f) = drop p d"
| "sink_rest (ConstBlobSink d p f) = drop p d"

fun readable :: "sink \<Rightarrow> bool" where
  "readable (FakeSink n f) = False"
| "readable (RangeSink s n f) = readable s"
| "readable (BlobSink d p f) = (p \<le> length d)"
| "readable (ConstBlobSink d p f) = (p \<le> length d)"

fun writable :: "sink \<Rightarrow> bool" where
  "writable (FakeSink n f) = (n < 2 ^ 64)"
| "writable (RangeSink s n f) = writable s"
| "writable (BlobSink d p f) = (p \<le> length d)"
| "writable (ConstBlobSink d p f) = False"

fun sink_room :: "sink \<Rightarrow> nat" where
  "sink_room (FakeSink n f) = 2 ^ 64 - 1 - n"
| "sink_room (RangeSink s n f) = min n (sink_room s)"
| "sink_room (BlobSink d p f) = length d - p"
| "sink_room (ConstBlobSink d p f) = 0"

fun sink_written :: "sink \<Rightarrow> u8 list \<Rightarrow> sink" where
  "sink_written (FakeSink n f) b = FakeSink (n + length b) f"
| "sink_written (RangeSink s n f) b = RangeSink (sink_written s b) (n - length b) f"
| "sink_written (BlobSink d p f) b =
     BlobSink (take p d @ b @ drop (p + length b) d) (p + length b) f"
| "sink_written (ConstBlobSink d p f) b = ConstBlobSink d p f"


lemma sink_read_takes:
  "readable s \<Longrightarrow> \<exists>s'. sink_read s n = Inr (s', take n (sink_rest s)) \<and> readable s' \<and>
     sink_rest s' = drop n (sink_rest s) \<and> fail s' = fail s"
proof (induction s arbitrary: n)
  case (RangeSink s k f)
  then obtain s' where s': "sink_read s (min n k) = Inr (s', take (min n k) (sink_rest s))"
      "readable s'" "sink_rest s' = drop (min n k) (sink_rest s)" by auto
  then show ?case
    by (auto simp: Let_def min_def drop_take)
qed (auto simp: Let_def min_def add.commute)

interpretation src: byte_source sink_read readable sink_rest fail
  by unfold_locales (rule sink_read_takes)

lemma sink_write_fits:
  "writable s \<Longrightarrow> length bs \<le> sink_room s \<Longrightarrow>
   sink_write s bs = Inr (sink_written s bs, length bs)"
proof (induction s)
  case (RangeSink s n f)
  then show ?case by (simp add: Let_def)
qed (auto simp: Let_def min_def)

lemma sink_written_ok:
  "writable s \<Longrightarrow> length bs \<le> sink_room s \<Longrightarrow>
   writable (sink_written s bs) \<and> sink_room (sink_written s bs) = sink_room s - length bs \<and>
   fail (sink_written s bs) = fail s"
  by (induction s) auto

lemma sink_written_app:
  "writable s \<Longrightarrow> length as + length bs \<le> sink_room s \<Longrightarrow>
   sink_written (sink_written s as) bs = sink_written s (as @ bs)"
proof (induction s)
  case (RangeSink s n f)
  then show ?case by (auto split: if_splits)
qed (auto simp: ac_simps)

interpretation dst: byte_dest sink_write writable sink_room sink_written fail
  by unfold_locales (simp_all add: sink_write_fits sink_written_ok sink_written_app)

section \<open>What the operators write and read\<close>

text \<open>
  \<open>writes s m bs\<close>: the call \<open>m\<close>, started on a sink \<open>s\<close> with room for them, writes exactly
  the bytes \<open>bs\<close> and does not fail. \<open>parses f v bs\<close>: the reader \<open>f\<close> consumes the bytes
  \<open>bs\<close>, whatever follows them, and returns \<open>v\<close>, whatever was in its variable.
\<close>

definition writes :: "(sink \<Rightarrow> fault + sink) \<Rightarrow> u8 list \<Rightarrow> bool" where
  "writes f bs \<longleftrightarrow> (\<forall>s. writable s \<longrightarrow> \<not> fail s \<longrightarrow> length bs \<le> sink_room s \<longrightarrow>
     f s = Inr (sink_written s bs))"

definition parses :: "(sink \<Rightarrow> 'a \<Rightarrow> fault + sink \<times> 'a) \<Rightarrow> 'a \<Rightarrow> u8 list \<Rightarrow> bool" where
  "parses f v bs \<longleftrightarrow> (\<forall>s old r. readable s \<longrightarrow> \<not> fail s \<longrightarrow> sink_rest s = bs @ r \<longrightarrow>
     (\<exists>s'. f s old = Inr (s', v) \<and> readable s' \<and> \<not> fail s' \<and> sink_rest s' = r))"

lemma writesD:
  "writes f bs \<Longrightarrow> writable s \<Longrightarrow> \<not> fail s \<Longrightarrow> length bs \<le> sink_room s \<Longrightarrow>
   f s = Inr (sink_written s bs)"
  by (simp add: writes_def)

lemma parsesE:
  assumes "parses f v bs" "readable s" "\<not> fail s" "sink_rest s = bs @ r"
  obtains s' where "f s old = Inr (s', v)" "readable s'" "\<not> fail s'" "sink_rest s' = r"
  using assms unfolding parses_def by blast

lemma writes_put_bytes: "writes (\<lambda>s. put_bytes s bs) bs"
  by (simp add: writes_def put_bytes_def dst.wr_fits)

lemma writes_bind:
  assumes "writes f as" "writes g bs"
  shows "writes (\<lambda>s. bind_result (f s) g) (as @ bs)"
  unfolding writes_def
proof (intro allI impI)
  fix s assume s: "writable s" "\<not> fail s" "length (as @ bs) \<le> sink_room s"
  then have "f s = Inr (sink_written s as)" by (intro writesD [OF assms(1)]) auto
  moreover have "g (sink_written s as) = Inr (sink_written (sink_written s as) bs)"
    using s sink_written_ok [of s as] by (intro writesD [OF assms(2)]) auto
  ultimately show "bind_result (f s) g = Inr (sink_written s (as @ bs))"
    using s by (simp add: dst.written_app)
qed

lemma writes_return: "writes Inr []"
proof -
  have "writable s \<Longrightarrow> sink_written s [] = s" for s by (induction s) auto
  then show ?thesis by (simp add: writes_def)
qed

lemma get_bytes_exact:
  assumes "readable s" "\<not> fail s" "sink_rest s = bs @ r" "length old = length bs"
  obtains s' where "get_bytes s old = Inr (s', bs)" "readable s'" "\<not> fail s'" "sink_rest s' = r"
proof -
  obtain s' where "sink_read s (length bs) = Inr (s', bs)" "readable s'" "sink_rest s' = r" "fail s' = fail s"
    by (rule src.rd_exact [OF assms(1,3)]) simp_all
  with assms(2,4) that show ?thesis by (simp add: get_bytes_def)
qed

lemma writes_bool: "writes (\<lambda>s. oser_bool s b) [if b then 1 else 0]"
  and writes_u8: "writes (\<lambda>s. oser_u8 s v) [v]"
  and writes_pod: "writes (\<lambda>s. oser_pod s w) (le_bytes w)"
  and writes_VarUInt: "writes (\<lambda>s. oser_VarUInt s u) (varuint_bits u)"
  by (simp_all only: oser_bool_def oser_u8_def oser_pod_def oser_VarUInt_def writes_put_bytes)

lemma parses_bool: "parses iser_bool b [if b then 1 else 0]"
  unfolding parses_def
proof (intro allI impI)
  fix s old r assume s: "readable s" "\<not> fail s" "sink_rest s = [if b then 1 else 0] @ r"
  obtain s' where "get_bytes s [0] = Inr (s', [if b then 1 else 0])" "readable s'" "\<not> fail s'" "sink_rest s' = r"
    by (rule get_bytes_exact [OF s, of "[0]"]) simp_all
  then show "\<exists>s'. iser_bool s old = Inr (s', b) \<and> readable s' \<and> \<not> fail s' \<and> sink_rest s' = r"
    by (simp add: iser_bool_def)
qed

lemma parses_u8: "parses iser_u8 v [v]"
  unfolding parses_def
proof (intro allI impI)
  fix s old r assume s: "readable s" "\<not> fail s" "sink_rest s = [v] @ r"
  obtain s' where "get_bytes s [old] = Inr (s', [v])" "readable s'" "\<not> fail s'" "sink_rest s' = r"
    by (rule get_bytes_exact [OF s, of "[old]"]) simp_all
  then show "\<exists>s'. iser_u8 s old = Inr (s', v) \<and> readable s' \<and> \<not> fail s' \<and> sink_rest s' = r"
    by (simp add: iser_u8_def)
qed

lemma parses_pod: "8 dvd LENGTH('a) \<Longrightarrow> parses iser_pod (w :: 'a :: len word) (le_bytes w)"
  unfolding parses_def
proof (intro allI impI)
  fix s r and old :: "'a word"
  assume l: "8 dvd LENGTH('a)" and s: "readable s" "\<not> fail s" "sink_rest s = le_bytes w @ r"
  obtain s' where "get_bytes s (le_bytes old) = Inr (s', le_bytes w)" "readable s'" "\<not> fail s'" "sink_rest s' = r"
    by (rule get_bytes_exact [OF s, of "le_bytes old"]) simp_all
  then show "\<exists>s'. iser_pod s old = Inr (s', w) \<and> readable s' \<and> \<not> fail s' \<and> sink_rest s' = r"
    using l by (simp add: iser_pod_def of_le_bytes_le_bytes)
qed


section \<open>Variable length integers\<close>

lemma varuint_bits_ne [simp]: "varuint_bits v \<noteq> []"
  by (subst varuint_bits.simps) simp

text \<open>At most one byte for every 7 bits, so 10 bytes: the array of 12 is large enough.\<close>

lemma length_varuint_bits: "unat v < 2 ^ (7 * n) \<Longrightarrow> 0 < n \<Longrightarrow> length (varuint_bits v) \<le> n"
proof (induction v arbitrary: n rule: varuint_bits.induct)
  case (1 v)
  show ?case
  proof (cases "drop_bit 7 v = 0")
    case True
    with 1 show ?thesis by (subst varuint_bits.simps) simp
  next
    case False
    have "unat v \<ge> 128"
      using False unat_drop_7 [of v] by (metis div_less not_le unat_eq_zero)
    then have "n \<noteq> 1" using 1(2) by auto
    with 1(3) obtain m where n: "n = Suc m" "0 < m" by (cases n) auto
    have "unat (drop_bit 7 v) < 2 ^ (7 * m)"
      unfolding unat_drop_7 using 1(2) n by (simp add: power_add less_mult_imp_div_less mult.commute)
    from 1(1) [OF False this n(2)] show ?thesis
      using n False by (subst varuint_bits.simps) simp
  qed
qed

lemma bit_7F: "bit (0x7F :: u64) n \<longleftrightarrow> n < 7" "bit (0x7F :: u8) n \<longleftrightarrow> n < 7"
  and bit_80: "bit (0x80 :: u8) n \<longleftrightarrow> n = 7"
proof -
  have m: "(0x7F :: u64) = mask 7" "(0x7F :: u8) = mask 7" "(0x80 :: u8) = 2 ^ 7"
    by (simp_all add: mask_eq_exp_minus_1)
  show "bit (0x7F :: u64) n \<longleftrightarrow> n < 7" "bit (0x7F :: u8) n \<longleftrightarrow> n < 7" "bit (0x80 :: u8) n \<longleftrightarrow> n = 7"
    unfolding m bit_mask_iff bit_exp_iff by auto
qed

lemma fragment_bits:
  "(ucast ((ucast (v AND 0x7F) :: u8) OR 0x80) AND 0x7F :: u64) = v AND 0x7F"
  "(ucast (ucast (v AND 0x7F) :: u8) AND 0x7F :: u64) = v AND 0x7F"
  "((ucast (v AND 0x7F) :: u8) OR 0x80) AND 0x80 \<noteq> 0"
  "(ucast (v AND 0x7F) :: u8) AND 0x80 = 0"
proof -
  show "(ucast ((ucast (v AND 0x7F) :: u8) OR 0x80) AND 0x7F :: u64) = v AND 0x7F"
    by (rule bit_word_eqI) (unfold bit_and_iff bit_or_iff bit_unsigned_iff bit_7F bit_80, auto)
  show "(ucast (ucast (v AND 0x7F) :: u8) AND 0x7F :: u64) = v AND 0x7F"
    by (rule bit_word_eqI) (unfold bit_and_iff bit_unsigned_iff bit_7F, auto)
  have "bit (((ucast (v AND 0x7F) :: u8) OR 0x80) AND 0x80) 7"
    by (unfold bit_and_iff bit_or_iff bit_80) simp
  then show "((ucast (v AND 0x7F) :: u8) OR 0x80) AND 0x80 \<noteq> 0" by auto
  show "(ucast (v AND 0x7F) :: u8) AND 0x80 = 0"
    by (rule bit_word_eqI) (unfold bit_and_iff bit_unsigned_iff bit_7F bit_80, auto)
qed

lemma split_low_7: "push_bit k (v AND 0x7F) OR push_bit (k + 7) (drop_bit 7 v) = push_bit k (v :: u64)"
proof (rule bit_word_eqI)
  fix n assume "n < LENGTH(64)"
  moreover have "k + 7 \<le> n \<Longrightarrow> 7 + (n - (k + 7)) = n - k" by simp
  ultimately show "bit (push_bit k (v AND 0x7F) OR push_bit (k + 7) (drop_bit 7 v)) n = bit (push_bit k v) n"
    unfolding bit_or_iff bit_push_bit_iff bit_and_iff bit_drop_bit_eq bit_7F
    by (cases "k + 7 \<le> n") auto
qed

lemma get_varuint_bits:
  "readable s \<Longrightarrow> \<not> fail s \<Longrightarrow> sink_rest s = varuint_bits v @ r \<Longrightarrow>
   unat v < 2 ^ (64 - shift) \<Longrightarrow> shift < 64 \<Longrightarrow>
   \<exists>s'. get_varuint s nv shift fragment = Inr (s', nv OR push_bit shift v) \<and>
        readable s' \<and> \<not> fail s' \<and> sink_rest s' = r"
proof (induction v arbitrary: s nv shift fragment rule: varuint_bits.induct)
  case (1 v)
  show ?case
  proof (cases "drop_bit 7 v = 0")
    case True
    then have "sink_rest s = [ucast (v AND 0x7F)] @ r"
      using 1(4) by (subst (asm) varuint_bits.simps) simp
    with parses_u8 1(2,3) obtain s' where
      "iser_u8 s fragment = Inr (s', ucast (v AND 0x7F))" "readable s'" "\<not> fail s'" "sink_rest s' = r"
      by (rule parsesE)
    moreover have "push_bit shift (v AND 0x7F) = push_bit shift v"
      using split_low_7 [of shift v] True by simp
    ultimately show ?thesis using 1(6)
      by (subst get_varuint.simps) (simp add: fragment_bits Let_def del: push_bit_and)
  next
    case False
    let ?b = "ucast (v AND 0x7F) OR 0x80 :: u8"
    have "sink_rest s = [?b] @ varuint_bits (drop_bit 7 v) @ r"
      using 1(4) False by (subst (asm) varuint_bits.simps) simp
    with parses_u8 1(2,3) obtain s1 where s1:
      "iser_u8 s fragment = Inr (s1, ?b)" "readable s1" "\<not> fail s1"
      "sink_rest s1 = varuint_bits (drop_bit 7 v) @ r"
      by (rule parsesE)
    have big: "128 \<le> unat v"
      using False unat_drop_7 [of v] by (metis div_less not_le unat_eq_zero)
    have sh: "shift + 7 < 64"
    proof (rule ccontr)
      assume "\<not> shift + 7 < 64"
      then have "(2 :: nat) ^ (64 - shift) \<le> 2 ^ 7" by (intro power_increasing) auto
      with big 1(5) show False by simp
    qed
    then have e: "64 - shift = (64 - (shift + 7)) + 7" by simp
    have "(2 :: nat) ^ (64 - shift) = 2 ^ (64 - (shift + 7)) * 128"
      by (subst e) (simp only: power_add, simp)
    with 1(5) have lt: "unat (drop_bit 7 v) < 2 ^ (64 - (shift + 7))"
      unfolding unat_drop_7 by (simp add: less_mult_imp_div_less)
    from 1(1) [OF False s1(2-4) lt sh]
    obtain s' where s': "get_varuint s1 (nv OR push_bit shift (v AND 0x7F)) (shift + 7) ?b =
        Inr (s', (nv OR push_bit shift (v AND 0x7F)) OR push_bit (shift + 7) (drop_bit 7 v))"
      "readable s'" "\<not> fail s'" "sink_rest s' = r"
      by blast
    have "get_varuint s nv shift fragment =
        get_varuint s1 (nv OR push_bit shift (v AND 0x7F)) (shift + 7) ?b"
      using s1 1(6) by (subst get_varuint.simps) (simp add: fragment_bits Let_def del: push_bit_and)
    with s' show ?thesis using split_low_7 [of shift v] by (simp add: or.assoc)
  qed
qed

lemma parses_VarUInt: "parses (iser_VarUInt junk) v (varuint_bits v)"
proof -
  have "unat v < 2 ^ 64" using unsigned_less [of v] by simp
  then show ?thesis
    unfolding parses_def iser_VarUInt_def
    using get_varuint_bits [of _ v _ 0 0 "junk 0"] by auto
qed

lemma low_mask: "NOT (x AND 1) + 1 = (if bit x 0 then - 1 else 0 :: u64)"
  by (simp add: and_one_eq odd_iff_mod_2_eq_one bit_0 mod2_eq_if minus_eq_not_plus_1 [symmetric])

lemma bit_encode_zigzag:
  "n < 64 \<Longrightarrow> bit (encode_zigzag u) n \<longleftrightarrow> (0 < n \<and> bit u (n - 1)) \<noteq> bit u 63"
  unfolding encode_zigzag_def bit_xor_iff bit_push_bit_iff bit_signed_drop_bit_iff
  by (cases n) (auto simp: min_def)

lemma bit_decode_zigzag:
  "n < 64 \<Longrightarrow> bit (decode_zigzag u) n \<longleftrightarrow> bit u (Suc n) \<noteq> bit u 0"
  unfolding decode_zigzag_def low_mask bit_xor_iff bit_drop_bit_eq by simp

lemma decode_encode: "decode_zigzag (encode_zigzag u) = u"
proof (rule bit_word_eqI)
  fix n assume n: "n < LENGTH(64)"
  show "bit (decode_zigzag (encode_zigzag u)) n = bit u n"
  proof (cases "n = 63")
    case True
    then show ?thesis
      using bit_imp_le_length [of "encode_zigzag u" 64]
      by (auto simp: bit_decode_zigzag bit_encode_zigzag)
  next
    case False
    then show ?thesis using n by (auto simp: bit_decode_zigzag bit_encode_zigzag)
  qed
qed

lemma encode_decode: "encode_zigzag (decode_zigzag u) = u"
proof (rule bit_word_eqI)
  fix n assume n: "n < LENGTH(64)"
  then show "bit (encode_zigzag (decode_zigzag u)) n = bit u n"
    using bit_imp_le_length [of u 64]
    by (cases n) (auto simp: bit_decode_zigzag bit_encode_zigzag)
qed


text \<open>
  C26. A variable length integer written to any sink that can take it and read back from any
  source that gives the bytes it wrote is the same 64-bit value, with nothing left over or
  consumed beyond it, at most 10 bytes long, so the writer never leaves its array of 12 bytes
  and the reader never shifts by 64 or more.
\<close>

theorem varuint_roundtrip:
  "writes (\<lambda>s. oser_VarUInt s v) (varuint_bits v) \<and> parses (iser_VarUInt junk) v (varuint_bits v) \<and>
   length (varuint_bits v) \<le> 10"
proof -
  have "unat v < 2 ^ 64" using unsigned_less [of v] by simp
  also have "(2 :: nat) ^ 64 \<le> 2 ^ (7 * 10)" by (rule power_increasing) auto
  finally show ?thesis
    using writes_VarUInt parses_VarUInt length_varuint_bits [of v 10] by auto
qed

lemma uint_less_64: "uint (u :: u64) < 2 ^ 64"
  using uint_bounded [of u] by simp

lemma sint_bit_63: "sint (u :: u64) = uint u - 2 ^ 64 * of_bool (bit u 63)"
  using uint_less_64 [of u]
  by (simp add: sint_uint signed_take_bit_eq_take_bit_minus bit_uint_iff take_bit_eq_mod)

lemma zigzag_value:
  "uint (encode_zigzag u) = (if 0 \<le> sint u then 2 * sint u else - 2 * sint u - 1)"
proof (cases "bit u 63")
  case False
  have "0 \<le> sint u" "sint u < 2 ^ 63"
    using False sint_bit_63 [of u] sint_lt [of u] by auto
  moreover have "encode_zigzag u = push_bit 1 u"
    unfolding encode_zigzag_def using False
    by (intro bit_word_eqI) (unfold bit_xor_iff bit_signed_drop_bit_iff, auto simp: min_def Suc_le_eq)
  ultimately show ?thesis
    using False sint_bit_63 [of u] by (simp add: uint_word_ariths)
next
  case True
  have neg: "sint u < 0" using True sint_bit_63 [of u] uint_less_64 [of u] by simp
  have "encode_zigzag u = NOT (push_bit 1 u)"
    unfolding encode_zigzag_def using True
    by (intro bit_word_eqI) (unfold bit_xor_iff bit_not_iff bit_signed_drop_bit_iff, auto simp: min_def Suc_le_eq)
  also have "\<dots> = - (2 * u) - 1" by (simp add: not_eq_complement mult.commute)
  finally have "uint (encode_zigzag u) = (- 2 * uint u - 1) mod 2 ^ 64"
    by (simp add: uint_word_ariths mod_simps)
  also have "\<dots> = (- 2 * sint u - 1) mod 2 ^ 64"
  proof -
    have "- 2 * sint u - 1 = (- 2 * uint u - 1) + 2 * 2 ^ 64"
      using True sint_bit_63 [of u] by simp
    then show ?thesis by (simp only: mod_mult_self1)
  qed
  also have "\<dots> = - 2 * sint u - 1"
    using neg sint_greater_eq [of u] by (intro mod_pos_pos_trivial) auto
  finally show ?thesis using neg by simp
qed

text \<open>
  The zigzag encoding is a bijection between the signed and the unsigned 64-bit values
  with \<^verbatim>\<open>decode_zigzag\<close> its inverse on both sides, and it sends \<open>n\<close> to \<open>2n\<close> when \<open>n\<close> is
  not negative and to \<open>-2n-1\<close> when it is, so that values of small magnitude have short
  encodings.
\<close>

theorem zigzag_bijection:
  "decode_zigzag (encode_zigzag u) = u \<and> encode_zigzag (decode_zigzag u) = u \<and>
   uint (encode_zigzag u) = (if 0 \<le> sint u then 2 * sint u else - 2 * sint u - 1)"
  using decode_encode encode_decode zigzag_value by blast

section \<open>Signed integers and strings\<close>

lemma oser_VarInt_zigzag: "oser_VarInt s u = oser_VarUInt s (encode_zigzag u)"
  by (simp add: oser_VarInt_def encode_zigzag_def)

lemma writes_VarInt: "writes (\<lambda>s. oser_VarInt s u) (varuint_bits (encode_zigzag u))"
  unfolding oser_VarInt_zigzag by (rule writes_VarUInt)

lemma parses_VarInt: "parses (iser_VarInt junk) u (varuint_bits (encode_zigzag u))"
  unfolding parses_def
proof (intro allI impI)
  fix s old r assume s: "readable s" "\<not> fail s" "sink_rest s = varuint_bits (encode_zigzag u) @ r"
  obtain s' where "iser_VarUInt junk s 0 = Inr (s', encode_zigzag u)" "readable s'" "\<not> fail s'" "sink_rest s' = r"
    by (rule parsesE [OF parses_VarUInt s])
  then show "\<exists>s'. iser_VarInt junk s old = Inr (s', u) \<and> readable s' \<and> \<not> fail s' \<and> sink_rest s' = r"
    using decode_encode [of u] by (simp add: iser_VarInt_def decode_zigzag_def)
qed

definition string_bytes :: "string \<Rightarrow> u8 list" where
  "string_bytes str = varuint_bits (word_of_nat (length str)) @ bytes_of str"

lemma writes_string: "writes (\<lambda>s. oser_string s str) (string_bytes str)"
proof -
  have "writes (\<lambda>s. if fail s then Inr s else put_bytes s (bytes_of str)) (bytes_of str)"
    using writes_put_bytes [of "bytes_of str"] by (simp add: writes_def)
  then show ?thesis
    unfolding oser_string_def string_bytes_def by (rule writes_bind [OF writes_VarUInt])
qed

lemma parses_string:
  assumes "length str < 2 ^ 32 - 1"
  shows "parses (iser_string junk) str (string_bytes str)"
  unfolding parses_def
proof (intro allI impI)
  fix s old r assume s: "readable s" "\<not> fail s" "sink_rest s = string_bytes str @ r"
  let ?n = "word_of_nat (length str) :: u64"
  have n: "unat ?n = length str" using assms by (simp add: unat_of_nat)
  then have small: "\<not> 0xFFFFFFFF \<le> ?n" using assms by (simp add: word_le_nat_alt)
  have "sink_rest s = varuint_bits ?n @ bytes_of str @ r" using s(3) by (simp add: string_bytes_def)
  then obtain s1 where s1: "iser_VarUInt junk s 0 = Inr (s1, ?n)" "readable s1" "\<not> fail s1"
      "sink_rest s1 = bytes_of str @ r"
    by (rule parsesE [OF parses_VarUInt s(1,2)])
  obtain s' where "get_bytes s1 (map junk [0..<length str]) = Inr (s', bytes_of str)"
      "readable s'" "\<not> fail s'" "sink_rest s' = r"
    by (rule get_bytes_exact [OF s1(2-4), of "map junk [0..<length str]"]) simp_all
  then show "\<exists>s'. iser_string junk s old = Inr (s', str) \<and> readable s' \<and> \<not> fail s' \<and> sink_rest s' = r"
    using s1 small n by (simp add: iser_string_def)
qed

text \<open>
  A string of fewer than \<open>2^32 - 1\<close> characters, any of them zero, comes back from its
  serialization unchanged and with nothing else consumed.
\<close>

theorem string_roundtrip:
  assumes "length str < 2 ^ 32 - 1"
  shows "writes (\<lambda>s. oser_string s str) (string_bytes str) \<and>
    parses (iser_string junk) str (string_bytes str)"
  using writes_string parses_string [OF assms] by blast

theorem string_roundtrip_witness: "parses (iser_string (\<lambda>_. 0)) ''ab'' (string_bytes ''ab'')"
  using string_roundtrip [of "''ab''"] by simp

text \<open>
  Reading a string whose length prefix is \<open>2^32 - 1\<close> or more consumes the prefix only,
  leaves the variable as it was and does not fail the sink: the reader goes on in the middle
  of the data, although nothing has been read.
\<close>

theorem string_oversize_not_failed:
  assumes "readable s" "\<not> fail s" "sink_rest s = varuint_bits n @ r" "0xFFFFFFFF \<le> n"
  shows "\<exists>s'. iser_string junk s old = Inr (s', old) \<and> \<not> fail s' \<and> sink_rest s' = r"
proof -
  obtain s' where "iser_VarUInt junk s 0 = Inr (s', n)" "readable s'" "\<not> fail s'" "sink_rest s' = r"
    by (rule parsesE [OF parses_VarUInt assms(1-3)])
  with assms(4) show ?thesis by (auto simp: iser_string_def)
qed

theorem string_oversize_not_failed_witness:
  "\<exists>s'. iser_string (\<lambda>_. 0) (ConstBlobSink (varuint_bits 0xFFFFFFFF) 0 False) ''old'' = Inr (s', ''old'') \<and>
     \<not> fail s' \<and> sink_rest s' = []"
  by (rule string_oversize_not_failed [of _ "0xFFFFFFFF"]) simp_all

end
