(* ===== verification/ProtoBuf.thy ===== *)
theory ProtoBuf
  imports Serializer Strings
begin

text \<open>
  \<^verbatim>\<open>CORE/TYPES/protobuf.h\<close> and \<^verbatim>\<open>.cpp\<close>: the definitions of messages, fields, enumerations
  and services, their binary form, and the descriptors of the global registry. The registry
  is a list of descriptors; the pointers it holds are compared by the code in asserts only.
\<close>

section \<open>The data\<close>

datatype eFieldType =
    FIELD_INT64 | FIELD_UINT64 | FIELD_SINT64 | FIELD_FIXED64 | FIELD_SFIXED64 | FIELD_DOUBLE
  | FIELD_FLOAT | FIELD_INT32 | FIELD_UINT32 | FIELD_SINT32 | FIELD_FIXED32 | FIELD_SFIXED32
  | FIELD_STRING | FIELD_BYTES | FIELD_BOOL | FIELD_ENUM | FIELD_MSG | FIELD_COUNT

fun field_type_value :: "eFieldType \<Rightarrow> u32" where
  "field_type_value FIELD_INT64 = 0"
| "field_type_value FIELD_UINT64 = 1"
| "field_type_value FIELD_SINT64 = 2"
| "field_type_value FIELD_FIXED64 = 3"
| "field_type_value FIELD_SFIXED64 = 4"
| "field_type_value FIELD_DOUBLE = 5"
| "field_type_value FIELD_FLOAT = 6"
| "field_type_value FIELD_INT32 = 7"
| "field_type_value FIELD_UINT32 = 8"
| "field_type_value FIELD_SINT32 = 9"
| "field_type_value FIELD_FIXED32 = 10"
| "field_type_value FIELD_SFIXED32 = 11"
| "field_type_value FIELD_STRING = 12"
| "field_type_value FIELD_BYTES = 13"
| "field_type_value FIELD_BOOL = 14"
| "field_type_value FIELD_ENUM = 15"
| "field_type_value FIELD_MSG = 16"
| "field_type_value FIELD_COUNT = 17"

text \<open>\<open>f_type\<close> is the number of the enumeration's value, which the reader casts unchecked.\<close>

record FieldDef =
  f_name :: string
  f_msgType :: string
  f_type :: u32
  f_fieldNum :: s32
  f_repeated :: bool

record EnumDef =
  e_name :: string
  e_values :: "FieldDef list"

datatype MessageDef =
  MessageDef (m_name: string) (m_package: string) (m_messages: "MessageDef list")
    (m_fields: "FieldDef list") (m_enums: "EnumDef list")

record RpcFunctionDef =
  r_name :: string
  r_return :: string
  r_param :: string

record ServiceDef =
  s_name :: string
  s_package :: string
  s_functions :: "RpcFunctionDef list"

record ProtoDef =
  p_package :: string
  p_imports :: "string list"
  p_messages :: "MessageDef list"
  p_services :: "ServiceDef list"

text \<open>Value initialised elements, which \<^verbatim>\<open>resize\<close> appends.\<close>

definition empty_field :: FieldDef where
  "empty_field = \<lparr>f_name = [], f_msgType = [], f_type = 0, f_fieldNum = 0, f_repeated = False\<rparr>"

definition empty_enum :: EnumDef where
  "empty_enum = \<lparr>e_name = [], e_values = []\<rparr>"

definition empty_message :: MessageDef where
  "empty_message = MessageDef [] [] [] [] []"

section \<open>Serialization\<close>

text \<open>
  A vector: its size and then its elements, by a loop whose index is an \<^verbatim>\<open>int\<close> and leaves its
  range at \<open>2^31\<close> elements.
\<close>

fun oser_elems :: "(sink \<Rightarrow> 'a \<Rightarrow> fault + sink) \<Rightarrow> sink \<Rightarrow> 'a list \<Rightarrow> fault + sink" where
  "oser_elems f s [] = Inr s"
| "oser_elems f s (x # xs) = bind_result (f s x) (\<lambda>s'. oser_elems f s' xs)"

fun iser_elems :: "(sink \<Rightarrow> 'a \<Rightarrow> fault + sink \<times> 'a) \<Rightarrow> sink \<Rightarrow> 'a list \<Rightarrow> fault + sink \<times> 'a list" where
  "iser_elems f s [] = Inr (s, [])"
| "iser_elems f s (x # xs) =
     bind_result (f s x) (\<lambda>(s', y).
       bind_result (iser_elems f s' xs) (\<lambda>(s'', ys). Inr (s'', y # ys)))"

lemma oser_elems_cong [fundef_cong]:
  "xs = ys \<Longrightarrow> s = t \<Longrightarrow> (\<And>x u. x \<in> set ys \<Longrightarrow> f u x = g u x) \<Longrightarrow>
   oser_elems f s xs = oser_elems g t ys"
proof (induction xs arbitrary: ys s t)
  case Nil
  then show ?case by simp
next
  case (Cons x xs)
  then show ?case by (cases "g t x") (auto simp: Cons.prems(1)[symmetric])
qed

definition oser_vector :: "(sink \<Rightarrow> 'a \<Rightarrow> fault + sink) \<Rightarrow> sink \<Rightarrow> 'a list \<Rightarrow> fault + sink" where
  "oser_vector f s xs =
     bind_result (oser_pod s (word_of_nat (length xs) :: u64)) (\<lambda>s'.
       if 2 ^ 31 \<le> length xs then Inl Undefined else oser_elems f s' xs)"

lemma oser_vector_cong [fundef_cong]:
  "xs = ys \<Longrightarrow> s = t \<Longrightarrow> (\<And>x u. x \<in> set ys \<Longrightarrow> f u x = g u x) \<Longrightarrow>
   oser_vector f s xs = oser_vector g t ys"
  unfolding oser_vector_def by (auto intro!: arg_cong2 [where f = bind_result] ext oser_elems_cong)

definition resize :: "nat \<Rightarrow> 'a \<Rightarrow> 'a list \<Rightarrow> 'a list" where
  "resize n d xs = take n xs @ replicate (n - length xs) d"

definition iser_vector ::
  "(sink \<Rightarrow> 'a \<Rightarrow> fault + sink \<times> 'a) \<Rightarrow> 'a \<Rightarrow> sink \<Rightarrow> 'a list \<Rightarrow> fault + sink \<times> 'a list" where
  "iser_vector f d s old =
     bind_result (iser_pod s (0 :: u64)) (\<lambda>(s', n).
       if 2 ^ 31 \<le> unat n then Inl Undefined else iser_elems f s' (resize (unat n) d old))"

definition oser_FieldDef :: "sink \<Rightarrow> FieldDef \<Rightarrow> fault + sink" where
  "oser_FieldDef s obj =
     bind_result (oser_string s (f_name obj)) (\<lambda>s.
     bind_result (oser_string s (f_msgType obj)) (\<lambda>s.
     bind_result (oser_pod s (f_type obj)) (\<lambda>s.
     bind_result (oser_pod s (f_fieldNum obj)) (\<lambda>s.
     oser_bool s (f_repeated obj)))))"

definition iser_FieldDef :: "(nat \<Rightarrow> u8) \<Rightarrow> sink \<Rightarrow> FieldDef \<Rightarrow> fault + sink \<times> FieldDef" where
  "iser_FieldDef junk s obj =
     bind_result (iser_string junk s (f_name obj)) (\<lambda>(s, name).
     bind_result (iser_string junk s (f_msgType obj)) (\<lambda>(s, msgType).
     bind_result (iser_pod s (0 :: u32)) (\<lambda>(s, fieldType).
     bind_result (iser_pod s (f_fieldNum obj)) (\<lambda>(s, fieldNum).
     bind_result (iser_bool s (f_repeated obj)) (\<lambda>(s, repeated).
     Inr (s, \<lparr>f_name = name, f_msgType = msgType, f_type = fieldType, f_fieldNum = fieldNum,
              f_repeated = repeated\<rparr>))))))"

definition oser_EnumDef :: "sink \<Rightarrow> EnumDef \<Rightarrow> fault + sink" where
  "oser_EnumDef s obj =
     bind_result (oser_string s (e_name obj)) (\<lambda>s. oser_vector oser_FieldDef s (e_values obj))"

definition iser_EnumDef :: "(nat \<Rightarrow> u8) \<Rightarrow> sink \<Rightarrow> EnumDef \<Rightarrow> fault + sink \<times> EnumDef" where
  "iser_EnumDef junk s obj =
     bind_result (iser_string junk s (e_name obj)) (\<lambda>(s, name).
     bind_result (iser_vector (iser_FieldDef junk) empty_field s (e_values obj)) (\<lambda>(s, values).
     Inr (s, \<lparr>e_name = name, e_values = values\<rparr>)))"

fun oser_MessageDef :: "sink \<Rightarrow> MessageDef \<Rightarrow> fault + sink" where
  "oser_MessageDef s (MessageDef name package messages flds enums) =
     bind_result (oser_string s name) (\<lambda>s.
     bind_result (oser_string s package) (\<lambda>s.
     bind_result (oser_vector oser_EnumDef s enums) (\<lambda>s.
     bind_result (oser_vector oser_FieldDef s flds) (\<lambda>s.
     oser_vector oser_MessageDef s messages))))"

text \<open>
  The reader recurses once for every level of nested messages; the first argument bounds
  the levels.
\<close>

fun iser_MessageDef :: "nat \<Rightarrow> (nat \<Rightarrow> u8) \<Rightarrow> sink \<Rightarrow> MessageDef \<Rightarrow> fault + sink \<times> MessageDef" where
  "iser_MessageDef 0 junk s obj = Inl Diverges"
| "iser_MessageDef (Suc depth) junk s (MessageDef name package messages flds enums) =
     bind_result (iser_string junk s name) (\<lambda>(s, name).
     bind_result (iser_string junk s package) (\<lambda>(s, package).
     bind_result (iser_vector (iser_EnumDef junk) empty_enum s enums) (\<lambda>(s, enums).
     bind_result (iser_vector (iser_FieldDef junk) empty_field s flds) (\<lambda>(s, flds).
     bind_result (iser_vector (iser_MessageDef depth junk) empty_message s messages) (\<lambda>(s, messages).
     Inr (s, MessageDef name package messages flds enums))))))"

section \<open>Descriptors\<close>

datatype ProtoDescriptor =
  ProtoDescriptor (m_self: MessageDef) (m_children: "ProtoDescriptor list")

definition RegisterWithProtoDb :: "ProtoDescriptor list \<Rightarrow> ProtoDescriptor \<Rightarrow> ProtoDescriptor list" where
  "RegisterWithProtoDb db pDescriptor = db @ [pDescriptor]"

definition ListAllProtoNames :: "ProtoDescriptor list \<Rightarrow> string list" where
  "ListAllProtoNames db = map (\<lambda>d. m_package (m_self d) @ m_name (m_self d)) db"

definition FindProtoByName :: "ProtoDescriptor list \<Rightarrow> string \<Rightarrow> ProtoDescriptor option" where
  "FindProtoByName db name =
     find (\<lambda>d. m_package (m_self d) @ ''::'' @ m_name (m_self d) = name) db"

definition findFieldByName :: "ProtoDescriptor \<Rightarrow> string \<Rightarrow> FieldDef option" where
  "findFieldByName d name = find (\<lambda>field. f_name field = name) (m_fields (m_self d))"

definition findFieldByNum :: "ProtoDescriptor \<Rightarrow> u32 \<Rightarrow> FieldDef option" where
  "findFieldByNum d num = find (\<lambda>field. f_fieldNum field = num) (m_fields (m_self d))"

definition findMessageByName :: "ProtoDescriptor \<Rightarrow> string \<Rightarrow> ProtoDescriptor option" where
  "findMessageByName d name =
     find (\<lambda>c. m_package (m_self c) @ m_name (m_self c) = name) (m_children d)"

definition findEnumByName :: "ProtoDescriptor \<Rightarrow> string \<Rightarrow> EnumDef option" where
  "findEnumByName d name = find (\<lambda>field. e_name field = name) (m_enums (m_self d))"

text \<open>A \<^verbatim>\<open>:\<close> at position 0 makes \<^verbatim>\<open>findpos - 1\<close> the largest size, so that the whole name is kept.\<close>

definition FindProtoEnumByName :: "ProtoDescriptor list \<Rightarrow> string \<Rightarrow> EnumDef option" where
  "FindProtoEnumByName db name =
     (case find_last_of CHR '':'' name of
        None \<Rightarrow> None
      | Some findpos \<Rightarrow>
          let containerName = (if findpos = 0 then name else take (findpos - 1) name);
              enumName = drop (findpos + 1) name
          in case FindProtoByName db containerName of
               None \<Rightarrow> None
             | Some pDescriptor \<Rightarrow> findEnumByName pDescriptor enumName)"


section \<open>The binary form\<close>

text \<open>What a definition must fit in to be written and read back.\<close>

definition string_fits :: "string \<Rightarrow> bool" where
  "string_fits str \<longleftrightarrow> length str < 2 ^ 32 - 1"

definition vector_fits :: "('a \<Rightarrow> bool) \<Rightarrow> 'a list \<Rightarrow> bool" where
  "vector_fits P xs \<longleftrightarrow> length xs < 2 ^ 31 \<and> list_all P xs"

lemma vector_fits_cong [fundef_cong]:
  "xs = ys \<Longrightarrow> (\<And>x. x \<in> set ys \<Longrightarrow> P x = Q x) \<Longrightarrow> vector_fits P xs = vector_fits Q ys"
  by (simp add: vector_fits_def cong: list.pred_cong)

definition field_fits :: "FieldDef \<Rightarrow> bool" where
  "field_fits f \<longleftrightarrow> string_fits (f_name f) \<and> string_fits (f_msgType f)"

definition enum_fits :: "EnumDef \<Rightarrow> bool" where
  "enum_fits e \<longleftrightarrow> string_fits (e_name e) \<and> vector_fits field_fits (e_values e)"

fun message_fits :: "MessageDef \<Rightarrow> bool" where
  "message_fits (MessageDef name package messages flds enums) \<longleftrightarrow>
     string_fits name \<and> string_fits package \<and> vector_fits enum_fits enums \<and>
     vector_fits field_fits flds \<and> vector_fits message_fits messages"

definition vector_bytes :: "('a \<Rightarrow> u8 list) \<Rightarrow> 'a list \<Rightarrow> u8 list" where
  "vector_bytes b xs = le_bytes (word_of_nat (length xs) :: u64) @ concat (map b xs)"

lemma vector_bytes_cong [fundef_cong]:
  "xs = ys \<Longrightarrow> (\<And>x. x \<in> set ys \<Longrightarrow> f x = g x) \<Longrightarrow> vector_bytes f xs = vector_bytes g ys"
  by (simp add: vector_bytes_def cong: map_cong)

definition field_bytes :: "FieldDef \<Rightarrow> u8 list" where
  "field_bytes f = string_bytes (f_name f) @ string_bytes (f_msgType f) @ le_bytes (f_type f) @
     le_bytes (f_fieldNum f) @ [if f_repeated f then 1 else 0]"

definition enum_bytes :: "EnumDef \<Rightarrow> u8 list" where
  "enum_bytes e = string_bytes (e_name e) @ vector_bytes field_bytes (e_values e)"

fun message_bytes :: "MessageDef \<Rightarrow> u8 list" where
  "message_bytes (MessageDef name package messages flds enums) =
     string_bytes name @ string_bytes package @ vector_bytes enum_bytes enums @
     vector_bytes field_bytes flds @ vector_bytes message_bytes messages"

fun message_depth :: "MessageDef \<Rightarrow> nat" where
  "message_depth (MessageDef name package messages flds enums) =
     Suc (fold max (map message_depth messages) 0)"

lemma fold_max_le: "x \<in> set xs \<Longrightarrow> (x :: nat) \<le> fold max xs a"
proof (induction xs arbitrary: a)
  case (Cons y ys)
  have "b \<le> fold max zs b" for b :: nat and zs
  proof (induction zs arbitrary: b)
    case (Cons z zs)
    then show ?case by (metis fold_simps(2) max.boundedE)
  qed simp
  then have "y \<le> fold max ys (max y a)" by (meson max.boundedE)
  with Cons show ?case by auto
qed simp

lemma writes_elems:
  assumes "\<And>x. x \<in> set xs \<Longrightarrow> writes (\<lambda>s. f s x) (b x)"
  shows "writes (\<lambda>s. oser_elems f s xs) (concat (map b xs))"
  using assms
proof (induction xs)
  case Nil
  then show ?case using writes_return by simp
next
  case (Cons x xs)
  then have "writes (\<lambda>s. bind_result (f s x) (\<lambda>s. oser_elems f s xs)) (b x @ concat (map b xs))"
    by (intro writes_bind) auto
  then show ?case by simp
qed

lemma writes_vector:
  assumes "length xs < 2 ^ 31" "\<And>x. x \<in> set xs \<Longrightarrow> writes (\<lambda>s. f s x) (b x)"
  shows "writes (\<lambda>s. oser_vector f s xs) (vector_bytes b xs)"
proof -
  have "writes (\<lambda>s. if 2 ^ 31 \<le> length xs then Inl Undefined else oser_elems f s xs) (concat (map b xs))"
    using assms writes_elems [of xs f b] by simp
  then show ?thesis
    unfolding oser_vector_def vector_bytes_def by (rule writes_bind [OF writes_pod])
qed

lemma parses_elems:
  assumes "\<And>x. x \<in> set xs \<Longrightarrow> parses f x (b x)"
    "readable s" "\<not> fail s" "sink_rest s = concat (map b xs) @ r" "length olds = length xs"
  shows "\<exists>s'. iser_elems f s olds = Inr (s', xs) \<and> readable s' \<and> \<not> fail s' \<and> sink_rest s' = r"
  using assms
proof (induction xs arbitrary: s olds)
  case Nil
  then show ?case by simp
next
  case (Cons x xs)
  then obtain o1 os where olds: "olds = o1 # os" by (cases olds) auto
  have "parses f x (b x)" "sink_rest s = b x @ concat (map b xs) @ r" using Cons.prems by auto
  then obtain s1 where s1: "f s o1 = Inr (s1, x)" "readable s1" "\<not> fail s1"
      "sink_rest s1 = concat (map b xs) @ r"
    using Cons.prems(2,3) by (auto elim: parsesE)
  have "\<exists>s'. iser_elems f s1 os = Inr (s', xs) \<and> readable s' \<and> \<not> fail s' \<and> sink_rest s' = r"
    by (rule Cons.IH) (use Cons.prems s1 olds in auto)
  with s1 olds show ?case by auto
qed

lemma parses_vector:
  assumes "length xs < 2 ^ 31" "\<And>x. x \<in> set xs \<Longrightarrow> parses f x (b x)"
  shows "parses (iser_vector f d) xs (vector_bytes b xs)"
  unfolding parses_def
proof (intro allI impI)
  fix s old r assume s: "readable s" "\<not> fail s" "sink_rest s = vector_bytes b xs @ r"
  let ?n = "word_of_nat (length xs) :: u64"
  have n: "unat ?n = length xs" using assms(1) by (simp add: unat_of_nat)
  have "parses iser_pod ?n (le_bytes ?n)" by (rule parses_pod) simp
  then obtain s1 where s1: "iser_pod s (0 :: u64) = Inr (s1, ?n)" "readable s1" "\<not> fail s1"
      "sink_rest s1 = concat (map b xs) @ r"
    using s by (auto simp: vector_bytes_def elim: parsesE)
  have "length (resize (length xs) d old) = length xs" by (simp add: resize_def)
  from parses_elems [OF assms(2) s1(2-4) this]
  obtain s' where "iser_elems f s1 (resize (length xs) d old) = Inr (s', xs)" "readable s'"
      "\<not> fail s'" "sink_rest s' = r" by blast
  with s1 n assms(1)
  show "\<exists>s'. iser_vector f d s old = Inr (s', xs) \<and> readable s' \<and> \<not> fail s' \<and> sink_rest s' = r"
    by (simp add: iser_vector_def)
qed


text \<open>One step of a reader.\<close>

definition ends :: "fault + sink \<times> 'a \<Rightarrow> 'a \<Rightarrow> u8 list \<Rightarrow> bool" where
  "ends m v r \<longleftrightarrow> (\<exists>t. m = Inr (t, v) \<and> readable t \<and> \<not> fail t \<and> sink_rest t = r)"

lemma ends_return: "readable s \<Longrightarrow> \<not> fail s \<Longrightarrow> ends (Inr (s, v)) v (sink_rest s)"
  by (simp add: ends_def)

lemma parses_ends:
  "parses f v bs \<longleftrightarrow> (\<forall>s old r. readable s \<longrightarrow> \<not> fail s \<longrightarrow> sink_rest s = bs @ r \<longrightarrow> ends (f s old) v r)"
  by (simp add: parses_def ends_def)

lemma ends_bind:
  assumes "parses f v bs" "readable s" "\<not> fail s" "sink_rest s = bs @ r"
    "\<And>s'. readable s' \<Longrightarrow> \<not> fail s' \<Longrightarrow> sink_rest s' = r \<Longrightarrow> ends (g s' v) w r'"
  shows "ends (bind_result (f s old) (\<lambda>(s', x). g s' x)) w r'"
proof -
  obtain s' where "f s old = Inr (s', v)" "readable s'" "\<not> fail s'" "sink_rest s' = r"
    by (rule parsesE [OF assms(1-4)])
  with assms(5) show ?thesis by simp
qed

lemma writes_FieldDef: "writes (\<lambda>s. oser_FieldDef s f) (field_bytes f)"
  unfolding oser_FieldDef_def field_bytes_def
  by (intro writes_bind writes_string writes_pod writes_bool)

lemma writes_EnumDef: "enum_fits e \<Longrightarrow> writes (\<lambda>s. oser_EnumDef s e) (enum_bytes e)"
  unfolding oser_EnumDef_def enum_bytes_def enum_fits_def vector_fits_def
  by (intro writes_bind writes_string writes_vector writes_FieldDef) auto

lemma parses_FieldDef:
  assumes "field_fits f"
  shows "parses (iser_FieldDef junk) f (field_bytes f)"
proof -
  have "string_fits (f_name f)" "string_fits (f_msgType f)" using assms by (simp_all add: field_fits_def)
  then have strs: "parses (iser_string junk) (f_name f) (string_bytes (f_name f))"
      "parses (iser_string junk) (f_msgType f) (string_bytes (f_msgType f))"
    by (simp_all add: parses_string string_fits_def)
  have pods: "parses iser_pod (f_type f) (le_bytes (f_type f))"
      "parses iser_pod (f_fieldNum f) (le_bytes (f_fieldNum f))"
    by (rule parses_pod; simp)+
  show ?thesis
    unfolding parses_ends iser_FieldDef_def field_bytes_def append_assoc
    apply (intro allI impI)
    apply (rule ends_bind [OF strs(1)], assumption+)
    apply (rule ends_bind [OF strs(2)], assumption+)
    apply (rule ends_bind [OF pods(1)], assumption+)
    apply (rule ends_bind [OF pods(2)], assumption+)
    apply (rule ends_bind [OF parses_bool], assumption+)
    apply (simp add: ends_def)
    done
qed

lemma parses_EnumDef:
  assumes "enum_fits e"
  shows "parses (iser_EnumDef junk) e (enum_bytes e)"
proof -
  have name: "parses (iser_string junk) (e_name e) (string_bytes (e_name e))"
    using assms by (simp add: enum_fits_def parses_string string_fits_def)
  have vals: "parses (iser_vector (iser_FieldDef junk) empty_field) (e_values e)
      (vector_bytes field_bytes (e_values e))"
    using assms by (intro parses_vector parses_FieldDef) (auto simp: enum_fits_def vector_fits_def list_all_iff)
  show ?thesis
    unfolding parses_ends iser_EnumDef_def enum_bytes_def append_assoc
    apply (intro allI impI)
    apply (rule ends_bind [OF name], assumption+)
    apply (rule ends_bind [OF vals], assumption+)
    apply (simp add: ends_def)
    done
qed

lemma writes_MessageDef: "message_fits m \<Longrightarrow> writes (\<lambda>s. oser_MessageDef s m) (message_bytes m)"
proof (induction m)
  case (MessageDef name package messages flds enums)
  then have "writes (\<lambda>s. oser_vector oser_MessageDef s messages) (vector_bytes message_bytes messages)"
    by (intro writes_vector) (auto simp: vector_fits_def list_all_iff)
  moreover have "writes (\<lambda>s. oser_vector oser_EnumDef s enums) (vector_bytes enum_bytes enums)"
    using MessageDef.prems by (intro writes_vector writes_EnumDef) (auto simp: vector_fits_def list_all_iff)
  moreover have "writes (\<lambda>s. oser_vector oser_FieldDef s flds) (vector_bytes field_bytes flds)"
    using MessageDef.prems by (intro writes_vector writes_FieldDef) (auto simp: vector_fits_def)
  ultimately show ?case
    unfolding oser_MessageDef.simps message_bytes.simps
    by (intro writes_bind writes_string)
qed

lemma parses_MessageDef:
  "message_fits m \<Longrightarrow> message_depth m \<le> depth \<Longrightarrow> parses (iser_MessageDef depth junk) m (message_bytes m)"
proof (induction m arbitrary: depth)
  case (MessageDef name package messages flds enums)
  obtain d where d: "depth = Suc d" using MessageDef.prems(2) by (cases depth) auto
  have strs: "parses (iser_string junk) name (string_bytes name)"
      "parses (iser_string junk) package (string_bytes package)"
    using MessageDef.prems(1) by (simp_all add: parses_string string_fits_def)
  have msgs: "parses (iser_vector (iser_MessageDef d junk) empty_message) messages
      (vector_bytes message_bytes messages)"
  proof (rule parses_vector)
    show "length messages < 2 ^ 31" using MessageDef.prems(1) by (simp add: vector_fits_def)
    fix x assume x: "x \<in> set messages"
    then have "message_depth x \<le> d"
      using MessageDef.prems(2) d fold_max_le [of "message_depth x" "map message_depth messages" 0] by simp
    with x MessageDef show "parses (iser_MessageDef d junk) x (message_bytes x)"
      by (auto simp: vector_fits_def list_all_iff)
  qed
  have ens: "parses (iser_vector (iser_EnumDef junk) empty_enum) enums (vector_bytes enum_bytes enums)"
    using MessageDef.prems(1) by (intro parses_vector parses_EnumDef) (auto simp: vector_fits_def list_all_iff)
  have fls: "parses (iser_vector (iser_FieldDef junk) empty_field) flds (vector_bytes field_bytes flds)"
    using MessageDef.prems(1) by (intro parses_vector parses_FieldDef) (auto simp: vector_fits_def list_all_iff)
  have "ends (iser_MessageDef (Suc d) junk s (MessageDef n p ms fs es))
      (MessageDef name package messages flds enums) r"
    if "readable s" "\<not> fail s" "sink_rest s = message_bytes (MessageDef name package messages flds enums) @ r"
    for s n p ms fs es r
    using that
    unfolding iser_MessageDef.simps message_bytes.simps append_assoc
    apply -
    apply (rule ends_bind [OF strs(1)], assumption+)
    apply (rule ends_bind [OF strs(2)], assumption+)
    apply (rule ends_bind [OF ens], assumption+)
    apply (rule ends_bind [OF fls], assumption+)
    apply (rule ends_bind [OF msgs], assumption+)
    apply (simp add: ends_def)
    done
  then show ?case
    unfolding parses_ends d by (metis MessageDef.exhaust)
qed

text \<open>
  C6. A message definition, with its fields, enumerations and nested messages to any depth,
  comes back from its binary form unchanged and with nothing else consumed, whatever the
  variable it is read into held before, if its strings are shorter than \<open>2^32 - 1\<close> and its
  vectors than \<open>2^31\<close>; and \<^verbatim>\<open>operator<<\<close> writes exactly that form.
\<close>

theorem message_roundtrip:
  assumes "message_fits m" "message_depth m \<le> depth"
  shows "writes (\<lambda>s. oser_MessageDef s m) (message_bytes m) \<and>
    parses (iser_MessageDef depth junk) m (message_bytes m)"
  using assms writes_MessageDef parses_MessageDef by blast

theorem message_roundtrip_witness:
  "parses (iser_MessageDef 2 (\<lambda>_. 0))
     (MessageDef ''A'' ''p'' [MessageDef ''B'' ''p'' [] [] []] [empty_field] [empty_enum])
     (message_bytes (MessageDef ''A'' ''p'' [MessageDef ''B'' ''p'' [] [] []] [empty_field] [empty_enum]))"
  using message_roundtrip
    [of "MessageDef ''A'' ''p'' [MessageDef ''B'' ''p'' [] [] []] [empty_field] [empty_enum]" 2 "\<lambda>_. 0"]
  by (simp add: vector_fits_def string_fits_def enum_fits_def field_fits_def empty_field_def empty_enum_def)


section \<open>The reader returns\<close>

text \<open>A call that returns or faults, but does not run away, and only consumes.\<close>

definition consumes :: "sink \<Rightarrow> fault + sink \<times> 'a \<Rightarrow> bool" where
  "consumes s m \<longleftrightarrow> m \<noteq> Inl Diverges \<and>
     (\<forall>s' v. m = Inr (s', v) \<longrightarrow> readable s' \<and> length (sink_rest s') \<le> length (sink_rest s))"

lemma consumes_return: "readable s \<Longrightarrow> consumes s (Inr (s, v))"
  by (simp add: consumes_def)

lemma consumes_undefined: "consumes s (Inl Undefined)"
  by (simp add: consumes_def)

lemma consumes_bind:
  assumes "consumes s m"
    "\<And>s' x. m = Inr (s', x) \<Longrightarrow> readable s' \<Longrightarrow> length (sink_rest s') \<le> length (sink_rest s) \<Longrightarrow>
       consumes s' (g s' x)"
  shows "consumes s (bind_result m (\<lambda>(s', x). g s' x))"
proof (cases m)
  case (Inl e)
  with assms(1) show ?thesis by (simp add: consumes_def)
next
  case (Inr p)
  then obtain s' x where m: "m = Inr (s', x)" by (cases p) auto
  with assms(1) have "readable s'" "length (sink_rest s') \<le> length (sink_rest s)"
    by (simp_all add: consumes_def)
  with assms(2) m show ?thesis by (fastforce simp: consumes_def)
qed

lemma set_fail_sink [simp]: "readable (set_fail s) = readable s" "sink_rest (set_fail s) = sink_rest s"
  by (cases s; simp)+

lemma get_bytes_takes:
  assumes "readable s"
  obtains s' where "get_bytes s old = Inr (s', take (length old) (sink_rest s) @ drop (length (sink_rest s)) old)"
    "readable s'" "sink_rest s' = drop (length old) (sink_rest s)"
proof -
  obtain s1 where s1: "sink_read s (length old) = Inr (s1, take (length old) (sink_rest s))"
      "readable s1" "sink_rest s1 = drop (length old) (sink_rest s)"
    using src.rd_takes [OF assms] by blast
  have "drop (length (take (length old) (sink_rest s))) old = drop (length (sink_rest s)) old"
    by (simp add: min_def)
  with s1 show ?thesis
    by (intro that [of "if length (take (length old) (sink_rest s)) \<noteq> length old then set_fail s1 else s1"])
      (auto simp: get_bytes_def)
qed

lemma consumes_get_bytes: "readable s \<Longrightarrow> consumes s (get_bytes s old)"
  by (erule get_bytes_takes [of s old]) (simp add: consumes_def)

lemma consumes_basic:
  assumes "readable s"
  shows "consumes s (iser_u8 s v)" "consumes s (iser_bool s b)" "consumes s (iser_pod s w)"
  unfolding iser_u8_def iser_bool_def iser_pod_def
  by (rule consumes_bind [OF consumes_get_bytes [OF assms]]; erule consumes_return)+

lemma consumes_get_varuint: "readable s \<Longrightarrow> consumes s (get_varuint s nv shift fragment)"
proof (induction s nv shift fragment rule: get_varuint.induct)
  case (1 s nv shift fragment)
  show ?case
    by (subst get_varuint.simps, rule consumes_bind [OF consumes_basic(1) [OF 1(2)]])
      (use 1 in \<open>auto simp: Let_def intro: consumes_return consumes_undefined\<close>)
qed

lemma consumes_string: "readable s \<Longrightarrow> consumes s (iser_string junk s old)"
  unfolding iser_string_def iser_VarUInt_def
  by (rule consumes_bind [OF consumes_get_varuint])
    (auto intro!: consumes_bind [OF consumes_get_bytes] intro: consumes_return)

lemma consumes_elems:
  assumes "\<And>s x. readable s \<Longrightarrow> length (sink_rest s) \<le> n \<Longrightarrow> consumes s (f s x)"
    "readable s" "length (sink_rest s) \<le> n"
  shows "consumes s (iser_elems f s olds)"
  using assms(2,3)
proof (induction olds arbitrary: s)
  case Nil
  then show ?case by (simp add: consumes_return)
next
  case (Cons x xs)
  show ?case unfolding iser_elems.simps
    by (rule consumes_bind [OF assms(1) [OF Cons.prems]], rule consumes_bind [OF Cons.IH])
      (use Cons.prems in \<open>auto intro: consumes_return\<close>)
qed

text \<open>Elements are only read after some bytes of their number were.\<close>

lemma consumes_vector:
  assumes "\<And>s x. readable s \<Longrightarrow> length (sink_rest s) < n \<Longrightarrow> consumes s (f s x)"
    "readable s" "length (sink_rest s) \<le> n"
  shows "consumes s (iser_vector f d s old)"
  unfolding iser_vector_def
proof (rule consumes_bind [OF consumes_basic(3) [OF assms(2)]])
  fix s' :: sink and k :: u64
  assume s': "iser_pod s (0 :: u64) = Inr (s', k)" "readable s'"
  show "consumes s' (if 2 ^ 31 \<le> unat k then Inl Undefined else iser_elems f s' (resize (unat k) d old))"
  proof (cases "sink_rest s")
    case Nil
    obtain s1 where "get_bytes s (le_bytes (0 :: u64)) = Inr (s1, le_bytes (0 :: u64))"
      using get_bytes_takes [OF assms(2), of "le_bytes (0 :: u64)"] Nil by auto
    with s' have "k = 0"
      using of_le_bytes_le_bytes [where 'a = 64, of 0] by (simp add: iser_pod_def)
    with s' show ?thesis by (simp add: resize_def consumes_return)
  next
    case (Cons b bs)
    obtain s1 where "get_bytes s (le_bytes (0 :: u64)) = Inr (s1, take (length (le_bytes (0 :: u64)))
        (sink_rest s) @ drop (length (sink_rest s)) (le_bytes (0 :: u64)))"
        "sink_rest s1 = drop (length (le_bytes (0 :: u64))) (sink_rest s)"
      by (rule get_bytes_takes [OF assms(2)])
    with s' Cons have "length (sink_rest s') < length (sink_rest s)" by (auto simp: iser_pod_def)
    with s' assms show ?thesis
      by (auto intro!: consumes_elems [of "n - 1"] consumes_undefined)
  qed
qed

lemma consumes_FieldDef: "readable s \<Longrightarrow> consumes s (iser_FieldDef junk s old)"
  unfolding iser_FieldDef_def
  by (intro consumes_bind consumes_string consumes_basic consumes_return)

lemma consumes_EnumDef: "readable s \<Longrightarrow> consumes s (iser_EnumDef junk s old)"
  unfolding iser_EnumDef_def
  by (intro consumes_bind consumes_string consumes_vector [of "length (sink_rest _)"] consumes_FieldDef
      consumes_return order_refl)




section \<open>Lookups\<close>

definition full_name :: "ProtoDescriptor \<Rightarrow> string" where
  "full_name d = m_package (m_self d) @ ''::'' @ m_name (m_self d)"

lemma find_append: "find P (xs @ ys) = (case find P xs of None \<Rightarrow> find P ys | Some x \<Rightarrow> Some x)"
  by (induction xs) auto

text \<open>
  Registering a descriptor makes its full name, the package, \<^verbatim>\<open>::\<close> and the name, findable
  unless an earlier descriptor has the same full name, which then stays the one found, and
  changes the result for no other name; and an enumeration of a message is found under the
  message's full name, \<^verbatim>\<open>::\<close> and its own name, the name having no colon in it, exactly when
  the message and the enumeration in it are.
\<close>

theorem registry_lookup:
  assumes "CHR '':'' \<notin> set enumName"
  shows "FindProtoByName (RegisterWithProtoDb db d) name =
      (case FindProtoByName db name of
         Some d' \<Rightarrow> Some d' | None \<Rightarrow> if name = full_name d then Some d else None) \<and>
    FindProtoEnumByName db (full_name d @ ''::'' @ enumName) =
      Option.bind (FindProtoByName db (full_name d)) (\<lambda>d'. findEnumByName d' enumName)"
proof
  show "FindProtoByName (RegisterWithProtoDb db d) name =
      (case FindProtoByName db name of
         Some d' \<Rightarrow> Some d' | None \<Rightarrow> if name = full_name d then Some d else None)"
    by (auto simp: FindProtoByName_def RegisterWithProtoDb_def find_append full_name_def
        split: option.splits)
  have "find_last_of CHR '':'' ((full_name d @ '':'') @ CHR '':'' # enumName) = Some (length (full_name d @ '':''))"
    using assms by (rule find_last_of_append)
  then show "FindProtoEnumByName db (full_name d @ ''::'' @ enumName) =
      Option.bind (FindProtoByName db (full_name d)) (\<lambda>d'. findEnumByName d' enumName)"
    by (simp add: FindProtoEnumByName_def Let_def split: option.splits)
qed

theorem registry_lookup_witness:
  "FindProtoEnumByName
     [ProtoDescriptor (MessageDef ''M'' ''::a'' [] [] [empty_enum\<lparr>e_name := ''E''\<rparr>]) []] ''::a::M::E'' =
   Some (empty_enum\<lparr>e_name := ''E''\<rparr>)"
  using conjunct2 [OF registry_lookup [where enumName = "''E''" and
      d = "ProtoDescriptor (MessageDef ''M'' ''::a'' [] [] [empty_enum\<lparr>e_name := ''E''\<rparr>]) []"]]
  by (simp add: full_name_def FindProtoByName_def findEnumByName_def)

end
