(* ===== verification/ProtoValidator.thy ===== *)
theory ProtoValidator
  imports ProtoBuf
begin

text \<open>
  \<^verbatim>\<open>TOOLS/protoc/proto_validator.cpp\<close>: the checks the compiler makes of a definition before
  it prints code, as loops over the vectors with the sets of the names and numbers seen.
\<close>

section \<open>The code\<close>

fun verifyFunctions :: "string set \<Rightarrow> RpcFunctionDef list \<Rightarrow> bool" where
  "verifyFunctions knownFunctions [] = True"
| "verifyFunctions knownFunctions (f # fs) =
     (if r_name f \<notin> knownFunctions
      then verifyFunctions (insert (r_name f) knownFunctions) fs else False)"

definition verifyService :: "ServiceDef \<Rightarrow> bool" where
  "verifyService def = verifyFunctions {} (s_functions def)"

fun verifyFields :: "s32 set \<Rightarrow> string set \<Rightarrow> FieldDef list \<Rightarrow> bool" where
  "verifyFields knownFieldNums knownFieldNames [] = True"
| "verifyFields knownFieldNums knownFieldNames (f # fs) =
     (if \<not> 0 < sint (f_fieldNum f) then False
      else if f_fieldNum f \<in> knownFieldNums then False
      else if f_name f \<in> knownFieldNames then False
      else verifyFields (insert (f_fieldNum f) knownFieldNums) (insert (f_name f) knownFieldNames) fs)"

fun verifyEnumValues :: "s32 set \<Rightarrow> string set \<Rightarrow> FieldDef list \<Rightarrow> bool" where
  "verifyEnumValues knownEnumNums knownEnumFieldNames [] = True"
| "verifyEnumValues knownEnumNums knownEnumFieldNames (f # fs) =
     (if f_fieldNum f = 0 then False
      else if \<not> 0 \<le> sint (f_fieldNum f) then False
      else if f_fieldNum f \<in> knownEnumNums then False
      else if f_name f \<in> knownEnumFieldNames then False
      else verifyEnumValues (insert (f_fieldNum f) knownEnumNums)
             (insert (f_name f) knownEnumFieldNames) fs)"

fun verifyEnums :: "string set \<Rightarrow> EnumDef list \<Rightarrow> bool" where
  "verifyEnums knownEnumNames [] = True"
| "verifyEnums knownEnumNames (e # es) =
     (if e_name e \<in> knownEnumNames then False
      else if \<not> verifyEnumValues {} {} (e_values e) then False
      else verifyEnums (insert (e_name e) knownEnumNames) es)"

fun verifyMessage :: "MessageDef \<Rightarrow> bool"
  and verifyMessages :: "string set \<Rightarrow> MessageDef list \<Rightarrow> bool" where
  "verifyMessage (MessageDef name package messages flds enums) =
     (if package = [] then False
      else if \<not> verifyFields {} {} flds then False
      else if \<not> verifyEnums {} enums then False
      else verifyMessages {} messages)"
| "verifyMessages knownMsgs [] = True"
| "verifyMessages knownMsgs (m # ms) =
     (if m_name m \<in> knownMsgs then False
      else if \<not> verifyMessage m then False
      else verifyMessages (insert (m_name m) knownMsgs) ms)"

fun verifyServices :: "string set \<Rightarrow> ServiceDef list \<Rightarrow> bool" where
  "verifyServices knownMsgs [] = True"
| "verifyServices knownMsgs (s # ss) =
     (if s_name s \<in> knownMsgs then False
      else if \<not> verifyService s then False
      else verifyServices (insert (s_name s) knownMsgs) ss)"

definition verifyDef :: "ProtoDef \<Rightarrow> bool" where
  "verifyDef def =
     (if p_package def = [] then False
      else if \<not> verifyMessages {} (p_messages def) then False
      else verifyServices (set (map m_name (p_messages def))) (p_services def))"

section \<open>What a valid definition is\<close>

definition valid_enum :: "EnumDef \<Rightarrow> bool" where
  "valid_enum e \<longleftrightarrow> distinct (map f_fieldNum (e_values e)) \<and> distinct (map f_name (e_values e)) \<and>
     (\<forall>v \<in> set (e_values e). 0 < sint (f_fieldNum v))"

text \<open>The conditions on one message, and the messages below it.\<close>

definition valid_local :: "MessageDef \<Rightarrow> bool" where
  "valid_local m \<longleftrightarrow> m_package m \<noteq> [] \<and>
     distinct (map f_fieldNum (m_fields m)) \<and> distinct (map f_name (m_fields m)) \<and>
     (\<forall>f \<in> set (m_fields m). 0 < sint (f_fieldNum f)) \<and>
     distinct (map e_name (m_enums m)) \<and> (\<forall>e \<in> set (m_enums m). valid_enum e) \<and>
     distinct (map m_name (m_messages m))"

fun nested :: "MessageDef \<Rightarrow> MessageDef set" where
  "nested (MessageDef name package messages flds enums) =
     insert (MessageDef name package messages flds enums) (\<Union> (set (map nested messages)))"

definition valid_def :: "ProtoDef \<Rightarrow> bool" where
  "valid_def d \<longleftrightarrow> p_package d \<noteq> [] \<and>
     (\<forall>m \<in> \<Union> (nested ` set (p_messages d)). valid_local m) \<and>
     distinct (map m_name (p_messages d) @ map s_name (p_services d)) \<and>
     (\<forall>s \<in> set (p_services d). distinct (map r_name (s_functions s)))"

lemma verifyFunctions_iff:
  "verifyFunctions known fs \<longleftrightarrow> distinct (map r_name fs) \<and> set (map r_name fs) \<inter> known = {}"
  by (induction known fs rule: verifyFunctions.induct) auto

lemma verifyFields_iff:
  "verifyFields nums names fs \<longleftrightarrow>
     distinct (map f_fieldNum fs) \<and> set (map f_fieldNum fs) \<inter> nums = {} \<and>
     distinct (map f_name fs) \<and> set (map f_name fs) \<inter> names = {} \<and>
     (\<forall>f \<in> set fs. 0 < sint (f_fieldNum f))"
  by (induction nums names fs rule: verifyFields.induct) auto

text \<open>The two conditions on an enumeration's number are those of a field's.\<close>

lemma verifyEnumValues_fields: "verifyEnumValues nums names fs = verifyFields nums names fs"
proof (induction nums names fs rule: verifyEnumValues.induct)
  case (2 nums names f fs)
  have "0 < sint (f_fieldNum f) \<longleftrightarrow> f_fieldNum f \<noteq> 0 \<and> 0 \<le> sint (f_fieldNum f)"
    by (metis order_less_le signed_eq_0_iff signed_0)
  with 2 show ?case by auto
qed simp

lemma verifyEnums_iff:
  "verifyEnums known es \<longleftrightarrow>
     distinct (map e_name es) \<and> set (map e_name es) \<inter> known = {} \<and> (\<forall>e \<in> set es. valid_enum e)"
  by (induction known es rule: verifyEnums.induct)
    (auto simp: valid_enum_def verifyEnumValues_fields verifyFields_iff)

lemma verifyMessage_iff:
  "verifyMessage m \<longleftrightarrow> (\<forall>n \<in> nested m. valid_local n)"
  "verifyMessages known ms \<longleftrightarrow> distinct (map m_name ms) \<and> set (map m_name ms) \<inter> known = {} \<and>
     (\<forall>m \<in> set ms. \<forall>n \<in> nested m. valid_local n)"
  by (induction m and known ms rule: verifyMessage_verifyMessages.induct)
    (auto simp: valid_local_def verifyFields_iff verifyEnums_iff)

lemma verifyServices_iff:
  "verifyServices known ss \<longleftrightarrow> distinct (map s_name ss) \<and> set (map s_name ss) \<inter> known = {} \<and>
     (\<forall>s \<in> set ss. distinct (map r_name (s_functions s)))"
  by (induction known ss rule: verifyServices.induct)
    (auto simp: verifyService_def verifyFunctions_iff)

text \<open>
  C19. The validator accepts exactly the definitions in which the package is named, every
  message at any depth names its package and has distinct field names and distinct positive
  field numbers, distinct enumerations with distinct names and distinct positive numbers,
  and distinct nested messages, the top level messages and services have distinct names,
  and no service has two functions of one name.
\<close>

theorem verifyDef_iff_valid: "verifyDef def \<longleftrightarrow> valid_def def"
  unfolding verifyDef_def valid_def_def verifyMessage_iff verifyServices_iff by auto

lemma find_unique:
  "x \<in> set xs \<Longrightarrow> distinct (map f xs) \<Longrightarrow> find (\<lambda>y. f y = f x) xs = Some x"
  by (induction xs) (auto simp: image_iff)

text \<open>
  In the descriptor of a message of a validated definition, looking a field up by its
  name or by its number finds that field and no other one.
\<close>

theorem validated_fields_found:
  assumes "verifyDef def" "m \<in> set (p_messages def)" "f \<in> set (m_fields m)"
  shows "findFieldByName (ProtoDescriptor m cs) (f_name f) = Some f \<and>
    findFieldByNum (ProtoDescriptor m cs) (f_fieldNum f) = Some f"
proof -
  have "m \<in> nested m" by (cases m) simp
  with assms(1,2) have "valid_local m"
    by (auto simp: verifyDef_def verifyMessage_iff split: if_splits)
  with assms(3) show ?thesis
    by (simp add: valid_local_def findFieldByName_def findFieldByNum_def find_unique)
qed

definition sample_field :: FieldDef where
  "sample_field = empty_field\<lparr>f_name := ''x'', f_fieldNum := 7\<rparr>"

theorem validated_fields_found_witness:
  "findFieldByNum (ProtoDescriptor (MessageDef ''M'' ''a'' [] [sample_field] []) []) 7 = Some sample_field"
  using conjunct2 [OF validated_fields_found
    [of "\<lparr>p_package = ''a'', p_imports = [], p_messages = [MessageDef ''M'' ''a'' [] [sample_field] []],
         p_services = []\<rparr>" "MessageDef ''M'' ''a'' [] [sample_field] []" sample_field "[]"]]
  by (simp add: verifyDef_def sample_field_def)

end
