(* ===== verification/StringUtil.thy ===== *)
theory StringUtil
  imports Strings
begin

text \<open>
  \<^verbatim>\<open>CORE/UTIL/stringutil.h\<close> and \<^verbatim>\<open>.cpp\<close>. Strings are lists of characters and sizes are
  natural numbers, which no string in memory lets wrap; where the code computes with
  \<^verbatim>\<open>size_t\<close> values that do wrap, in \<^verbatim>\<open>ReplaceStr\<close>, they are 64-bit words.
\<close>

section \<open>The code\<close>

function trim_front :: "string \<Rightarrow> nat \<Rightarrow> nat \<Rightarrow> fault + nat" where
  "trim_front v beg fin =
     bind_result (str_at v beg) (\<lambda>c.
       if (c = CHR '' '' \<or> c = CHR 0x09) \<and> beg < fin then trim_front v (beg + 1) fin else Inr beg)"
  by auto
termination
  by (relation "measure (\<lambda>(v, beg, fin). length v - beg)") (auto simp: str_at_def split: if_splits)

function trim_back :: "string \<Rightarrow> nat \<Rightarrow> nat \<Rightarrow> fault + nat" where
  "trim_back v beg fin =
     bind_result (if fin = 0 then Inl Exception else str_at v (fin - 1)) (\<lambda>c.
       if c = CHR '' '' \<and> beg \<le> fin then trim_back v beg (fin - 1) else Inr fin)"
  by auto
termination
  by (relation "measure (\<lambda>(v, beg, fin). fin)") (auto split: if_splits)

declare trim_front.simps [simp del] trim_back.simps [simp del]

definition TrimWhitespace :: "string \<Rightarrow> fault + string" where
  "TrimWhitespace v =
     (if v = [] then Inr v
      else bind_result (trim_front v 0 (length v)) (\<lambda>beg.
           bind_result (trim_back v beg (length v)) (\<lambda>fin.
           if beg < fin then Inr (substr v beg (fin - beg)) else Inr [])))"

definition TrimQuotes :: "string \<Rightarrow> string" where
  "TrimQuotes v =
     (if v = [] then v
      else let beg = (if hd v = CHR 0x22 then 1 else 0);
               fin = (if last v = CHR 0x22 then length v - 1 else length v)
           in if beg < fin then substr v beg (fin - beg) else [])"

text \<open>The splitting loop, on the part of the string from \<^verbatim>\<open>offset\<close> on.\<close>

function split_loop :: "char \<Rightarrow> bool \<Rightarrow> nat \<Rightarrow> string list \<Rightarrow> string \<Rightarrow> fault + string list" where
  "split_loop m_ch m_trim maxLen rVal item =
     (let itr = (if length rVal + 1 < maxLen then find_char m_ch item else None);
          piece = (case itr of Some i \<Rightarrow> take i item | None \<Rightarrow> item)
      in bind_result (if m_trim then TrimWhitespace piece else Inr piece) (\<lambda>s.
           case itr of
             None \<Rightarrow> Inr (rVal @ [s])
           | Some i \<Rightarrow> split_loop m_ch m_trim maxLen (rVal @ [s]) (drop (i + 1) item)))"
  by auto
termination
  by (relation "measure (\<lambda>(c, t, n, r, item). length item)")
    (auto split: if_splits dest: find_char_less [OF sym])

declare split_loop.simps [simp del]

definition Splitter_split :: "char \<Rightarrow> bool \<Rightarrow> string \<Rightarrow> nat \<Rightarrow> fault + string list" where
  "Splitter_split m_ch m_trim item maxLen = split_loop m_ch m_trim maxLen [] item"

text \<open>\<^verbatim>\<open>Joiner::join\<close> of strings, for which \<^verbatim>\<open>lexical_cast\<close> is the identity.\<close>

fun join_loop :: "string \<Rightarrow> string \<Rightarrow> string list \<Rightarrow> string" where
  "join_loop m_sep rVal [] = rVal"
| "join_loop m_sep rVal (str # itr) = join_loop m_sep (rVal @ m_sep @ str) itr"

definition Joiner_join :: "string \<Rightarrow> string list \<Rightarrow> string" where
  "Joiner_join m_sep xs = (case xs of [] \<Rightarrow> [] | x # itr \<Rightarrow> join_loop m_sep x itr)"

definition isdigit :: "char \<Rightarrow> bool" where
  "isdigit c \<longleftrightarrow> (48 :: nat) \<le> of_char c \<and> of_char c \<le> (57 :: nat)"

definition isprint :: "char \<Rightarrow> bool" where
  "isprint c \<longleftrightarrow> (32 :: nat) \<le> of_char c \<and> of_char c \<le> (126 :: nat)"

definition digit :: "char \<Rightarrow> nat" where
  "digit c = of_char c - 48"

text \<open>The character at the end of a string, which is a null, is no digit.\<close>

fun Unescape :: "string \<Rightarrow> string" where
  "Unescape [] = []"
| "Unescape (c # str) =
     (if c = CHR 0x5C then
        (case str of
           [] \<Rightarrow> []
         | d # str1 \<Rightarrow>
             if d = CHR ''n'' then CHR 0x0A # Unescape str1
             else if d = CHR ''r'' then CHR 0x0D # Unescape str1
             else if d = CHR ''t'' then CHR 0x09 # Unescape str1
             else if d = CHR 0x22 then CHR 0x22 # Unescape str1
             else if d = CHR 0x5C then CHR 0x5C # Unescape str1
             else (case str1 of
                     d2 # d3 # str3 \<Rightarrow>
                       if isdigit d \<and> isdigit d2 \<and> isdigit d3
                       then char_of (digit d * 100 + digit d2 * 10 + digit d3) # Unescape str3
                       else CHR 0x5C # d # Unescape str1
                   | _ \<Rightarrow> CHR 0x5C # d # Unescape str1))
      else c # Unescape str)"

text \<open>The three digits that \<^verbatim>\<open>sprintf\<close> prints of a byte with \<^verbatim>\<open>%03d\<close>.\<close>

definition three_digits :: "nat \<Rightarrow> string" where
  "three_digits v = [char_of (48 + v div 100), char_of (48 + v div 10 mod 10), char_of (48 + v mod 10)]"

definition escape_char :: "char \<Rightarrow> string" where
  "escape_char c =
     (if c = CHR 0x0A then [CHR 0x5C, CHR ''n'']
      else if c = CHR 0x0D then [CHR 0x5C, CHR ''r'']
      else if c = CHR 0x09 then [CHR 0x5C, CHR ''t'']
      else if c = CHR 0x22 then [CHR 0x5C, CHR 0x22]
      else if c = CHR 0x5C then [CHR 0x5C, CHR 0x5C]
      else if isprint c then [c]
      else CHR 0x5C # three_digits (of_char c))"

fun Escape :: "string \<Rightarrow> string" where
  "Escape [] = []"
| "Escape (c # str) = escape_char c @ Escape str"

text \<open>The first loop counts the occurrences, overlapping ones included.\<close>

function count_matches :: "string \<Rightarrow> string \<Rightarrow> nat" where
  "count_matches m input =
     (case find_str m input of
        None \<Rightarrow> 0
      | Some i \<Rightarrow> if i < length input then 1 + count_matches m (drop (i + 1) input) else 1)"
  by auto
termination
  by (relation "measure (\<lambda>(m, input). length input)") auto

declare count_matches.simps [simp del]

definition replace_reserve :: "string \<Rightarrow> string \<Rightarrow> string \<Rightarrow> u64" where
  "replace_reserve input m replacement =
     (let count = word_of_nat (count_matches m input);
          delta = word_of_nat (length replacement) - word_of_nat (length m)
      in word_of_nat (length input) + delta * count + 1)"

fun replace_loop :: "nat \<Rightarrow> string \<Rightarrow> string \<Rightarrow> string \<Rightarrow> string \<Rightarrow> fault + string" where
  "replace_loop fuel m replacement rVal [] = Inr rVal"
| "replace_loop 0 m replacement rVal (x # xs) = Inl Diverges"
| "replace_loop (Suc fuel) m replacement rVal (x # xs) =
     (case find_str m (x # xs) of
        None \<Rightarrow> Inr (rVal @ x # xs)
      | Some i \<Rightarrow>
          replace_loop fuel m replacement (rVal @ take i (x # xs) @ replacement)
            (drop (i + length m) (x # xs)))"

text \<open>\<^verbatim>\<open>reserve\<close> throws beyond the largest size of a string, which is below \<open>2^63\<close>.\<close>

definition ReplaceStr :: "nat \<Rightarrow> string \<Rightarrow> string \<Rightarrow> string \<Rightarrow> fault + string" where
  "ReplaceStr fuel input m replacement =
     (if 2 ^ 63 \<le> replace_reserve input m replacement then Inl Exception
      else replace_loop fuel m replacement [] input)"

definition is_alpha :: "char \<Rightarrow> bool" where
  "is_alpha c \<longleftrightarrow> (97 \<le> (of_char c :: nat) \<and> (of_char c :: nat) \<le> 122) \<or>
     (65 \<le> (of_char c :: nat) \<and> (of_char c :: nat) \<le> 90)"

definition IdentifierSafe :: "string \<Rightarrow> string" where
  "IdentifierSafe input =
     (case input of
        [] \<Rightarrow> input
      | c # rest \<Rightarrow>
          (let safe = (\<lambda>c. if \<not> is_alpha c \<and> \<not> isdigit c then CHR ''_'' else c)
           in if \<not> is_alpha c then CHR ''_'' # map safe rest else map safe input))"

definition g_sizePostfix :: "string list" where
  "g_sizePostfix = ['' B'', '' KiB'', '' MiB'', '' GiB'', '' TiB'', '' PiB'', '' EiB'', '' ZiB'',
     '' YiB'', '' ERROR'']"

function pretty_loop :: "nat \<Rightarrow> nat \<Rightarrow> nat \<times> nat" where
  "pretty_loop nv idx =
     (if 1024 \<le> nv \<and> idx + 1 < length g_sizePostfix then pretty_loop (nv div 1024) (idx + 1)
      else (nv, idx))"
  by auto
termination
  by (relation "measure (\<lambda>(nv, idx). nv)") auto

declare pretty_loop.simps [simp del]

text \<open>The decimal form of a number.\<close>

function show_nat :: "nat \<Rightarrow> string" where
  "show_nat n = (if n < 10 then [char_of (48 + n)] else show_nat (n div 10) @ [char_of (48 + n mod 10)])"
  by auto
termination
  by (relation "measure id") auto

declare show_nat.simps [simp del]

definition PrettySize :: "u64 \<Rightarrow> string" where
  "PrettySize v = (case pretty_loop (unat v) 0 of (nv, idx) \<Rightarrow> show_nat nv @ g_sizePostfix ! idx)"

definition CountLines :: "string \<Rightarrow> nat" where
  "CountLines s = length (filter (\<lambda>c. c = CHR 0x0A) s)"


section \<open>Escaping\<close>

lemma of_char_digit: "d < 10 \<Longrightarrow> (of_char (char_of (48 + d) :: char) :: nat) = 48 + d"
  by simp

lemma isdigit_char_of: "(d :: nat) < 10 \<Longrightarrow> isdigit (char_of (48 + d)) \<and> isprint (char_of (48 + d))"
  by (simp add: isdigit_def isprint_def)

lemma digit_char_of: "d < 10 \<Longrightarrow> digit (char_of (48 + d)) = d"
  by (simp add: digit_def)

lemma char_of_digit_eq: "(d :: nat) < 10 \<Longrightarrow> of_char c \<notin> {48..57 :: nat} \<Longrightarrow> char_of (48 + d) \<noteq> c"
  by auto

lemma of_char_less_256: "of_char c < (256 :: nat)"
  using nat_of_char_less_256 .

lemma unescape_digits:
  assumes "v < 256"
  shows "Unescape (CHR 0x5C # three_digits v @ str) = char_of v # Unescape str"
proof -
  let ?a = "char_of (48 + v div 100) :: char"
  let ?b = "char_of (48 + v div 10 mod 10) :: char"
  let ?c = "char_of (48 + v mod 10) :: char"
  have lt: "v div 100 < 10" using assms by auto
  have "?a \<noteq> CHR ''n'' \<and> ?a \<noteq> CHR ''r'' \<and> ?a \<noteq> CHR ''t'' \<and> ?a \<noteq> CHR 0x22 \<and> ?a \<noteq> CHR 0x5C"
    using lt by (intro conjI char_of_digit_eq) auto
  moreover have "isdigit ?a" "isdigit ?b" "isdigit ?c"
    using isdigit_char_of [of "v div 100"] isdigit_char_of [of "v div 10 mod 10"]
      isdigit_char_of [of "v mod 10"] lt by simp_all
  moreover have "digit ?a = v div 100" "digit ?b = v div 10 mod 10" "digit ?c = v mod 10"
    using digit_char_of [of "v div 100"] digit_char_of [of "v div 10 mod 10"]
      digit_char_of [of "v mod 10"] lt by simp_all
  moreover have "v div 100 * 100 + v div 10 mod 10 * 10 + v mod 10 = v"
  proof -
    have "v div 100 = v div 10 div 10" by (simp add: div_mult2_eq)
    then show ?thesis using div_mult_mod_eq [of v 10] div_mult_mod_eq [of "v div 10" 10] by linarith
  qed
  ultimately show ?thesis
    unfolding three_digits_def by simp
qed

lemma unescape_escape_char: "Unescape (escape_char c @ str) = c # Unescape str"
  using unescape_digits [of "of_char c" str] of_char_less_256 [of c]
  unfolding escape_char_def by (simp del: Unescape.simps(2), auto)

lemma escape_char_print: "list_all isprint (escape_char c)"
proof -
  have "of_char c div 100 < (10 :: nat)" using of_char_less_256 [of c] by linarith
  then have "list_all isprint (three_digits (of_char c))"
    by (simp add: three_digits_def isdigit_char_of)
  moreover have "isprint (CHR 0x5C)" "isprint (CHR ''n'')" "isprint (CHR ''r'')" "isprint (CHR ''t'')"
    "isprint (CHR 0x22)" by (simp_all add: isprint_def)
  ultimately show ?thesis by (simp add: escape_char_def)
qed

text \<open>
  C32. Unescaping an escaped string gives the string back, for every string of bytes, and an
  escaped string has printable characters only.
\<close>

theorem escape_roundtrip: "Unescape (Escape str) = str \<and> list_all isprint (Escape str)"
  by (induction str) (auto simp: unescape_escape_char escape_char_print)

section \<open>Trimming\<close>

definition blank :: "char \<Rightarrow> bool" where
  "blank c \<longleftrightarrow> c = CHR '' '' \<or> c = CHR 0x09"

lemma trim_front_eq:
  "beg \<le> length v \<Longrightarrow>
   trim_front v beg (length v) =
     (if list_all blank (drop beg v) then Inl Exception
      else Inr (beg + length (takeWhile blank (drop beg v))))"
proof (induction v beg "length v" rule: trim_front.induct)
  case (1 v beg)
  show ?case
  proof (cases "beg < length v")
    case True
    then have d: "drop beg v = v ! beg # drop (Suc beg) v" by (simp add: Cons_nth_drop_Suc)
    show ?thesis
      using 1 True by (subst trim_front.simps) (auto simp: str_at_def d blank_def)
  next
    case False
    then show ?thesis using 1(2) by (subst trim_front.simps) (simp add: str_at_def)
  qed
qed

lemma trim_back_eq:
  "beg < fin \<Longrightarrow> fin \<le> length v \<Longrightarrow> v ! beg \<noteq> CHR '' '' \<Longrightarrow>
   \<exists>k. trim_back v beg fin = Inr k \<and> beg < k \<and> k \<le> fin \<and>
     substr v beg (k - beg) = rev (dropWhile (\<lambda>c. c = CHR '' '') (rev (substr v beg (fin - beg))))"
proof (induction v beg fin rule: trim_back.induct)
  case (1 v beg fin)
  then have fin: "fin \<noteq> 0" "fin - 1 < length v" by auto
  have sub: "substr v beg (fin - beg) = substr v beg (fin - 1 - beg) @ [v ! (fin - 1)]"
  proof -
    have "fin - beg = Suc (fin - 1 - beg)" using 1(2) by simp
    then show ?thesis
      using 1(2) fin by (simp add: substr_def take_Suc_conv_app_nth)
  qed
  show ?case
  proof (cases "v ! (fin - 1) = CHR '' ''")
    case True
    then have "fin - 1 \<noteq> beg" using 1(4) by auto
    then have "beg < fin - 1" using 1(2) by simp
    with 1 fin True obtain k where "trim_back v beg (fin - 1) = Inr k" "beg < k" "k \<le> fin - 1"
      "substr v beg (k - beg) = rev (dropWhile (\<lambda>c. c = CHR '' '') (rev (substr v beg (fin - 1 - beg))))"
      by (auto simp: str_at_def)
    moreover have "trim_back v beg fin = trim_back v beg (fin - 1)"
      using fin True 1(2) by (subst trim_back.simps) (simp add: str_at_def)
    ultimately show ?thesis using True sub by auto
  next
    case False
    then have "trim_back v beg fin = Inr fin"
      using fin by (subst trim_back.simps) (simp add: str_at_def)
    with False sub 1(2) show ?thesis by simp
  qed
qed

text \<open>
  \<^verbatim>\<open>TrimWhitespace\<close> drops the blanks and tabs at the front and the blanks, but not the
  tabs, at the back; on a string that is not empty and has nothing but blanks and tabs it
  ends in an uncaught \<^verbatim>\<open>out_of_range\<close>, because it reads the character before it compares
  the position with the length.
\<close>

theorem trim_whitespace_cases:
  "TrimWhitespace v =
     (if v = [] then Inr []
      else if list_all blank v then Inl Exception
      else Inr (rev (dropWhile (\<lambda>c. c = CHR '' '') (rev (dropWhile blank v)))))"
proof (cases "v = [] \<or> list_all blank v")
  case True
  then show ?thesis by (auto simp: TrimWhitespace_def trim_front_eq)
next
  case False
  let ?b = "length (takeWhile blank v)"
  have "\<exists>c \<in> set v. \<not> blank c" using False by (auto simp: list_all_iff)
  then have b: "?b < length v" "\<not> blank (v ! ?b)"
  proof -
    show "?b < length v"
      using \<open>\<exists>c \<in> set v. \<not> blank c\<close> by (metis length_takeWhile_le order_le_imp_less_or_eq
          takeWhile_eq_all_conv takeWhile_eq_take take_all_iff order_refl)
    then show "\<not> blank (v ! ?b)" by (rule nth_length_takeWhile)
  qed
  then obtain k where k: "trim_back v ?b (length v) = Inr k" "?b < k"
    "substr v ?b (k - ?b) = rev (dropWhile (\<lambda>c. c = CHR '' '') (rev (substr v ?b (length v - ?b))))"
    using trim_back_eq [of ?b "length v" v] by (auto simp: blank_def)
  have "substr v ?b (length v - ?b) = dropWhile blank v"
    by (simp add: substr_def dropWhile_eq_drop)
  with k False show ?thesis by (simp add: TrimWhitespace_def trim_front_eq)
qed


section \<open>Splitting and joining\<close>

lemma join_loop_concat: "join_loop sep r xs = r @ concat (map (\<lambda>s. sep @ s) xs)"
  by (induction xs arbitrary: r) auto

lemma join_snoc: "rVal \<noteq> [] \<Longrightarrow> Joiner_join sep (rVal @ [s]) = Joiner_join sep rVal @ sep @ s"
  by (cases rVal) (simp_all add: Joiner_join_def join_loop_concat)

definition prefixed :: "string \<Rightarrow> string list \<Rightarrow> string" where
  "prefixed sep rVal = (if rVal = [] then [] else Joiner_join sep rVal @ sep)"

lemma prefixed_snoc: "prefixed sep (rVal @ [s]) = prefixed sep rVal @ s @ sep"
  by (cases "rVal = []") (simp_all add: prefixed_def join_snoc, simp add: Joiner_join_def)

lemma join_prefixed: "Joiner_join sep (rVal @ [s]) = prefixed sep rVal @ s"
  by (cases "rVal = []") (simp_all add: prefixed_def join_snoc, simp add: Joiner_join_def)

lemma split_loop_spec:
  assumes "length rVal < max 1 maxLen" "list_all (\<lambda>p. ch \<notin> set p) rVal"
  shows "\<exists>ps. split_loop ch False maxLen rVal item = Inr ps \<and>
     Joiner_join [ch] ps = prefixed [ch] rVal @ item \<and>
     length ps = min (max 1 maxLen) (length rVal + count_list item ch + 1) \<and>
     list_all (\<lambda>p. ch \<notin> set p) (butlast ps)"
  using assms
proof (induction "length item" arbitrary: rVal item rule: less_induct)
  case less
  let ?itr = "if length rVal + 1 < maxLen then find_char ch item else None"
  show ?case
  proof (cases ?itr)
    case None
    then have "split_loop ch False maxLen rVal item = Inr (rVal @ [item])"
      by (subst split_loop.simps) (simp add: Let_def)
    moreover have "count_list item ch = 0 \<or> length rVal + 1 \<ge> maxLen"
      using None by (auto simp: find_char_None count_list_0_iff split: if_splits)
    ultimately show ?thesis
      using less.prems by (auto simp: join_prefixed)
  next
    case (Some i)
    then have i: "find_char ch item = Some i" "length rVal + 1 < maxLen" by (simp_all split: if_splits)
    from find_char_Some [OF i(1)] have item: "item = take i item @ ch # drop (i + 1) item"
      "ch \<notin> set (take i item)" by auto
    let ?r = "rVal @ [take i item]"
    have "split_loop ch False maxLen rVal item = split_loop ch False maxLen ?r (drop (i + 1) item)"
      using i by (subst split_loop.simps) (simp add: Let_def)
    moreover have "count_list item ch = Suc (count_list (drop (i + 1) item) ch)"
      using arg_cong [OF item(1), of "\<lambda>s. count_list s ch"] item(2) by (simp add: count_notin)
    moreover have "\<exists>ps. split_loop ch False maxLen ?r (drop (i + 1) item) = Inr ps \<and>
        Joiner_join [ch] ps = prefixed [ch] ?r @ drop (i + 1) item \<and>
        length ps = min (max 1 maxLen) (length ?r + count_list (drop (i + 1) item) ch + 1) \<and>
        list_all (\<lambda>p. ch \<notin> set p) (butlast ps)"
      by (rule less.hyps) (use i less.prems item find_char_less [OF i(1)] in auto)
    ultimately show ?thesis
      using item by (auto simp: prefixed_snoc)
  qed
qed

text \<open>
  C33. Splitting without trimming and joining with the delimiter gives the string back. There
  is one piece more than delimiters, or the maximum asked for when that is less (0 counts as
  1), and only the last piece can contain the delimiter.
\<close>

theorem split_join:
  "\<exists>ps. Splitter_split ch False str maxLen = Inr ps \<and> Joiner_join [ch] ps = str \<and>
     length ps = min (max 1 maxLen) (count_list str ch + 1) \<and>
     list_all (\<lambda>p. ch \<notin> set p) (butlast ps)"
  using split_loop_spec [of "[]" maxLen ch str]
  by (simp add: Splitter_split_def prefixed_def)

section \<open>Replacing\<close>

text \<open>Replacement from left to right of the occurrences that do not overlap an earlier one.\<close>

function replaced :: "string \<Rightarrow> string \<Rightarrow> string \<Rightarrow> string" where
  "replaced m r s =
     (if m = [] then s
      else if prefix m s then r @ replaced m r (drop (length m) s)
      else (case s of [] \<Rightarrow> [] | x # xs \<Rightarrow> x # replaced m r xs))"
  by auto
termination
  by (relation "measure (\<lambda>(m, r, s). length s)") (auto simp: prefix_def)

declare replaced.simps [simp del]

lemma replaced_find:
  "m \<noteq> [] \<Longrightarrow> replaced m r s =
     (case find_str m s of
        None \<Rightarrow> s
      | Some i \<Rightarrow> take i s @ r @ replaced m r (drop (i + length m) s))"
proof (induction s)
  case Nil
  then show ?case by (subst replaced.simps) simp
next
  case (Cons x xs)
  show ?case
  proof (cases "prefix m (x # xs)")
    case True
    then have "find_str m (x # xs) = Some 0" by (simp only: find_str.simps take_eq_prefix) simp
    with True Cons.prems show ?thesis by (subst replaced.simps) simp
  next
    case False
    then have f: "find_str m (x # xs) = map_option Suc (find_str m xs)"
      by (simp only: find_str.simps take_eq_prefix) simp
    have "replaced m r (x # xs) = x # replaced m r xs"
      using False Cons.prems by (subst replaced.simps) simp
    with Cons f show ?thesis by (cases "find_str m xs") auto
  qed
qed

lemma replace_loop_replaced:
  assumes "m \<noteq> []" "length s \<le> fuel"
  shows "replace_loop fuel m r acc s = Inr (acc @ replaced m r s)"
  using assms
proof (induction fuel m r acc s rule: replace_loop.induct)
  case (1 fuel m r acc)
  then show ?case by (subst replaced.simps) (simp split: if_splits add: prefix_def)
next
  case (2 m r acc x xs)
  then show ?case by simp
next
  case (3 fuel m r acc x xs)
  show ?case
  proof (cases "find_str m (x # xs)")
    case None
    have "replaced m r (x # xs) = x # xs"
      by (rule trans [OF replaced_find [OF 3(2)]]) (simp only: None option.case)
    with None show ?thesis by (simp del: find_str.simps)
  next
    case (Some i)
    have "i + length m \<le> length (x # xs)" using find_str_le [OF Some] .
    then have "length (drop (i + length m) (x # xs)) \<le> fuel"
      using 3(2,3) by (cases m) auto
    with 3(1) [OF Some 3(2)] have "replace_loop fuel m r (acc @ take i (x # xs) @ r) (drop (i + length m) (x # xs)) =
        Inr ((acc @ take i (x # xs) @ r) @ replaced m r (drop (i + length m) (x # xs)))" .
    then show ?thesis using Some replaced_find [OF 3(2), of r "x # xs"]
      by (simp del: find_str.simps take_Suc_Cons)
  qed
qed

lemma replace_loop_empty: "s \<noteq> [] \<Longrightarrow> replace_loop fuel [] r acc s = Inl Diverges"
proof (induction fuel arbitrary: acc)
  case 0
  then show ?case by (cases s) auto
next
  case (Suc fuel)
  then show ?case by (cases s) auto
qed


lemma replace_sample: "replaced ''ab'' ''x'' ''cabab'' = ''cxx''"
  by (simp add: replaced.simps)


text \<open>
  \<^verbatim>\<open>ReplaceStr\<close> counts overlapping occurrences for the space it reserves; when the
  replacement is shorter than the searched string that can be more than it will replace, the
  size wraps below zero and \<^verbatim>\<open>reserve\<close> throws: removing \<open>aa\<close> from \<open>aaaa\<close> ends the
  program.
\<close>

theorem replace_str_overlap_throws: "ReplaceStr fuel ''aaaa'' ''aa'' [] = Inl Exception"
proof -
  have "count_matches ''aa'' ''aaaa'' = 3"
    by (simp add: count_matches.simps)
  then have "replace_reserve ''aaaa'' ''aa'' [] = 0xFFFFFFFFFFFFFFFF"
    by (simp add: replace_reserve_def)
  then show ?thesis by (simp add: ReplaceStr_def)
qed

section \<open>Sizes\<close>

lemma pretty_loop_spec:
  "pretty_loop nv idx = (nv', idx') \<Longrightarrow>
   \<exists>k. idx' = idx + k \<and> nv' = nv div 1024 ^ k \<and>
     (nv' < 1024 \<or> length g_sizePostfix \<le> idx' + 1) \<and> (0 < k \<longrightarrow> 0 < nv')"
proof (induction nv idx rule: pretty_loop.induct)
  case (1 nv idx)
  show ?case
  proof (cases "1024 \<le> nv \<and> idx + 1 < length g_sizePostfix")
    case True
    then have "pretty_loop (nv div 1024) (idx + 1) = (nv', idx')"
      using 1(2) by (subst (asm) pretty_loop.simps) simp
    from 1(1) [OF True this] obtain k where
      "idx' = idx + 1 + k" "nv' = nv div 1024 div 1024 ^ k"
      "nv' < 1024 \<or> length g_sizePostfix \<le> idx' + 1" "0 < k \<longrightarrow> 0 < nv'"
      by auto
    moreover have "nv div 1024 div 1024 ^ k = nv div 1024 ^ Suc k" by (simp only: power_Suc div_mult2_eq)
    ultimately show ?thesis using True
      by (intro exI [of _ "Suc k"]) (cases "k = 0"; auto)
  next
    case False
    then show ?thesis using 1(2) by (subst (asm) pretty_loop.simps) (auto intro: exI [of _ 0])
  qed
qed

text \<open>
  \<^verbatim>\<open>PrettySize\<close> prints the size in the largest unit that is not above it: the number is
  the size divided by \<open>1024^k\<close>, below 1024, and the unit is the \<open>k\<close>th, at most \<open>EiB\<close> for
  every 64-bit value, so that neither \<open>ERROR\<close> nor a read beyond the table can occur.
\<close>

theorem pretty_size_unit:
  "\<exists>k. PrettySize v = show_nat (unat v div 1024 ^ k) @ g_sizePostfix ! k \<and> k \<le> 6 \<and>
     unat v div 1024 ^ k < 1024 \<and> (k = 0 \<or> 1024 ^ k \<le> unat v)"
proof -
  obtain nv idx where p: "pretty_loop (unat v) 0 = (nv, idx)" by (cases "pretty_loop (unat v) 0")
  from pretty_loop_spec [OF p]
  have k: "nv = unat v div 1024 ^ idx" "nv < 1024 \<or> length g_sizePostfix \<le> idx + 1"
    "0 < idx \<longrightarrow> 0 < nv" by auto
  have le: "idx \<noteq> 0 \<Longrightarrow> 1024 ^ idx \<le> unat v" using k by (metis div_less not_less not_gr0)
  have "unat v < 1024 ^ 7"
  proof -
    have "unat v < 2 ^ 64" using unsigned_less [of v] by simp
    also have "\<dots> \<le> (1024 :: nat) ^ 7" by simp
    finally show ?thesis .
  qed
  then have "idx \<noteq> 0 \<Longrightarrow> (1024 :: nat) ^ idx < 1024 ^ 7" using le by linarith
  then have "idx \<noteq> 0 \<Longrightarrow> idx < 7" by (rule power_less_imp_less_exp [rotated]) simp_all
  then have "idx \<le> 6" by (cases "idx = 0") auto
  with k le p show ?thesis
    by (intro exI [of _ idx]) (auto simp: PrettySize_def g_sizePostfix_def)
qed

end
