(* ===== verification/VfsPath.thy ===== *)
theory VfsPath
  imports Strings
begin

text \<open>
  \<^verbatim>\<open>CORE/VFS/path.h\<close> and \<^verbatim>\<open>.cpp\<close>: paths with the separator \<^verbatim>\<open>/\<close>, their parts, and the
  resolution of \<^verbatim>\<open>.\<close> and \<^verbatim>\<open>..\<close> components.
\<close>

section \<open>The code\<close>

abbreviation sep :: char where "sep \<equiv> CHR ''/''"

datatype Path = Path (m_path: string)

definition cleanPath :: "string \<Rightarrow> string" where
  "cleanPath s = map (\<lambda>c. if c = CHR 0x5C \<or> c = sep then sep else c) s"

text \<open>The constructor takes the string through \<^verbatim>\<open>c_str\<close>, up to its first null.\<close>

definition new_path :: "string \<Rightarrow> Path" where
  "new_path str = Path (cleanPath (takeWhile (\<lambda>c. c \<noteq> CHR 0x00) str))"

definition path_empty :: "Path \<Rightarrow> bool" where
  "path_empty p \<longleftrightarrow> m_path p = []"

definition path_file :: "Path \<Rightarrow> string" where
  "path_file p =
     (case find_last_of sep (m_path p) of
        Some iter \<Rightarrow> drop (iter + 1) (m_path p)
      | None \<Rightarrow> m_path p)"

definition path_append :: "Path \<Rightarrow> Path \<Rightarrow> Path" where
  "path_append p other =
     (if path_file p \<noteq> [] then Path []
      else if m_path p = ''./'' then other
      else new_path (m_path p @ m_path other))"

definition path_baseFile :: "Path \<Rightarrow> string" where
  "path_baseFile p =
     (let filename = path_file p
      in case find_char CHR ''.'' filename of Some iter \<Rightarrow> take iter filename | None \<Rightarrow> filename)"

definition path_extension :: "Path \<Rightarrow> string" where
  "path_extension p =
     (let filename = path_file p
      in case find_char CHR ''.'' filename of Some iter \<Rightarrow> drop (iter + 1) filename | None \<Rightarrow> [])"

definition path_dir :: "Path \<Rightarrow> string" where
  "path_dir p =
     (case find_last_of sep (m_path p) of
        Some iter \<Rightarrow> take (iter + 1) (m_path p)
      | None \<Rightarrow> ''./'')"

definition path_isParent :: "Path \<Rightarrow> Path \<Rightarrow> bool" where
  "path_isParent p other \<longleftrightarrow> find_str (m_path p) (m_path other) = Some 0"

definition path_stripParent :: "Path \<Rightarrow> Path \<Rightarrow> Path" where
  "path_stripParent p other =
     (case find_str (m_path other) (m_path p) of
        Some findPos \<Rightarrow> new_path (drop (findPos + length (m_path other)) (m_path p))
      | None \<Rightarrow> Path [])"

lemma find_last_of_take: "find_last_of c (take i xs) = Some j \<Longrightarrow> j < i"
  by (drule find_last_of_less) simp

text \<open>
  The loop of \<^verbatim>\<open>resolve\<close>, from the last component to the first; \<open>None\<close> is \<^verbatim>\<open>npos\<close>. The
  separator before position \<^verbatim>\<open>iter\<close> is looked for from \<^verbatim>\<open>iter - 1\<close> backwards.
\<close>

function resolve_loop :: "string \<Rightarrow> nat option \<Rightarrow> string \<Rightarrow> nat \<Rightarrow> bool \<Rightarrow> string \<times> nat \<times> bool" where
  "resolve_loop olddirs iter newdirs skip rVal =
     (case iter of
        None \<Rightarrow> (newdirs, skip, rVal)
      | Some i \<Rightarrow>
          if i = 0 then (newdirs, skip, rVal)
          else
            let iterNext = find_last_of sep (take i olddirs);
                curDir = (case iterNext of
                            Some j \<Rightarrow> substr olddirs (j + 1) (i - j)
                          | None \<Rightarrow> substr olddirs 0 (i + 1))
            in if iterNext \<noteq> None \<and> curDir = ''./''
               then resolve_loop olddirs iterNext newdirs skip rVal
               else if iterNext \<noteq> None \<and> curDir = ''../''
               then resolve_loop olddirs iterNext newdirs (skip + 1) rVal
               else if curDir = ''../''
               then resolve_loop olddirs iterNext (curDir @ newdirs) skip False
               else if curDir = ''./''
               then resolve_loop olddirs iterNext newdirs skip rVal
               else if skip \<noteq> 0
               then resolve_loop olddirs iterNext newdirs (skip - 1) rVal
               else resolve_loop olddirs iterNext (curDir @ newdirs) skip rVal)"
  by auto

termination
  by (relation "measure (\<lambda>(d, iter, n, k, r). case iter of None \<Rightarrow> 0 | Some i \<Rightarrow> Suc i)")
    (auto split: option.splits dest!: find_last_of_take)

declare resolve_loop.simps [simp del]

definition resolve :: "Path \<Rightarrow> Path" where
  "resolve p =
     (if path_empty p then p
      else let olddirs = path_dir p; oldfile = path_file p
      in if find_str ''./'' (m_path p) = None then p
      else case resolve_loop olddirs (Some (length olddirs - 1)) [] 0 True of
             (newdirs, skip, rVal) \<Rightarrow>
               let newdirs = concat (replicate skip ''../'') @ newdirs;
                   rVal = (if skip \<noteq> 0 then False else rVal)
               in if rVal then new_path (newdirs @ oldfile) else Path [])"

section \<open>Parts of a path\<close>

definition clean :: "string \<Rightarrow> bool" where
  "clean s \<longleftrightarrow> CHR 0x5C \<notin> set s \<and> CHR 0x00 \<notin> set s"

lemma clean_append [simp]: "clean (s @ t) \<longleftrightarrow> clean s \<and> clean t"
  by (auto simp: clean_def)

lemma clean_parts: "clean s \<Longrightarrow> clean (take n s) \<and> clean (drop n s)"
  by (auto simp: clean_def dest: in_set_takeD in_set_dropD)

lemma new_path_clean [simp]: "clean s \<Longrightarrow> new_path s = Path s"
proof -
  assume "clean s"
  then have "\<And>c. c \<in> set s \<Longrightarrow> c \<noteq> CHR 0x00" by (auto simp: clean_def)
  then have "takeWhile (\<lambda>c. c \<noteq> CHR 0x00) s = s" by (simp only: takeWhile_eq_all_conv) blast
  moreover have "cleanPath s = s"
    unfolding cleanPath_def by (rule map_idI) (use \<open>clean s\<close> in \<open>auto simp: clean_def\<close>)
  ultimately show ?thesis unfolding new_path_def by (simp only:)
qed

lemma clean_new_path: "clean (m_path (new_path s))"
  by (auto simp: new_path_def cleanPath_def clean_def dest: set_takeWhileD split: if_splits)

lemma file_dir: "sep \<in> set s \<Longrightarrow> path_dir (Path s) @ path_file (Path s) = s"
  by (auto simp: path_dir_def path_file_def find_last_of_None split: option.splits)

lemma file_no_sep: "sep \<notin> set (path_file (Path s))"
proof (cases "find_last_of sep s")
  case None
  then have "sep \<notin> set s" by (simp only: find_last_of_None) simp
  with None show ?thesis by (simp add: path_file_def)
next
  case (Some i)
  then show ?thesis using find_last_of_Some [OF Some] by (simp add: path_file_def)
qed

lemma file_of_dir: "path_file (Path (s @ [sep])) = []"
  using find_last_of_append [of sep "[]" s] by (simp add: path_file_def)

lemma dir_ends: "sep \<in> set s \<Longrightarrow> \<exists>t. path_dir (Path s) = t @ [sep]"
proof -
  assume "sep \<in> set s"
  then obtain i where i: "find_last_of sep s = Some i" by (metis find_last_of_None not_None_eq)
  have "i < length s" "s ! i = sep"
    using find_last_of_less [OF i] find_last_of_Some [OF i]
    by (metis append_eq_conv_conj length_take less_imp_le_nat min_absorb2 nth_append_length)+
  then show ?thesis using i by (simp add: path_dir_def take_Suc_conv_app_nth)
qed

text \<open>
  Taking a path apart into directory and file and appending them gives the path back,
  without a directory \<open>./\<close>, for every path a constructor can make; appending a path to
  a directory other than \<open>./\<close> makes the directory a parent of the result, from which
  stripping it leaves what was appended.
\<close>

theorem path_append_parts:
  assumes "clean s" "clean d"
  shows "path_append (Path (path_dir (Path s))) (Path (path_file (Path s))) =
      Path (if path_dir (Path s) = ''./'' then path_file (Path s) else s) \<and>
    (path_file (Path d) = [] \<longrightarrow> d \<noteq> ''./'' \<longrightarrow>
       path_isParent (Path d) (path_append (Path d) (Path s)) \<and>
       path_stripParent (path_append (Path d) (Path s)) (Path d) = Path s)"
proof
  show "path_append (Path (path_dir (Path s))) (Path (path_file (Path s))) =
      Path (if path_dir (Path s) = ''./'' then path_file (Path s) else s)"
  proof (cases "sep \<in> set s")
    case True
    then have "path_file (Path (path_dir (Path s))) = []"
      using dir_ends file_of_dir by metis
    with file_dir [OF True] assms(1) show ?thesis by (simp add: path_append_def)
  next
    case False
    then show ?thesis
      by (simp add: path_append_def path_dir_def path_file_def find_last_of_None [THEN iffD2])
  qed
next
  have "find_str d (d @ s) = Some 0" by (simp add: find_str_prefix)
  then show "path_file (Path d) = [] \<longrightarrow> d \<noteq> ''./'' \<longrightarrow>
       path_isParent (Path d) (path_append (Path d) (Path s)) \<and>
       path_stripParent (path_append (Path d) (Path s)) (Path d) = Path s"
    using assms by (simp add: path_append_def path_isParent_def path_stripParent_def)
qed

theorem path_append_parts_witness:
  "path_stripParent (path_append (Path ''a/'') (Path ''b/c'')) (Path ''a/'') = Path ''b/c''"
  using path_append_parts [of "''b/c''" "''a/''"] by (simp add: clean_def path_file_def)

section \<open>Resolution\<close>

text \<open>The components of a directory, each with its separator.\<close>

function components :: "string \<Rightarrow> string list" where
  "components s =
     (case find_char sep s of
        None \<Rightarrow> []
      | Some i \<Rightarrow> take (i + 1) s # components (drop (i + 1) s))"
  by auto
termination
  by (relation "measure length") (auto dest: find_char_less)

declare components.simps [simp del]

text \<open>
  Resolution from the first component on, with the ones kept so far, last first: \<open>..\<close>
  removes the one before it, and there must be one.
\<close>

fun normalise :: "string list \<Rightarrow> string list \<Rightarrow> string list option" where
  "normalise kept [] = Some (rev kept)"
| "normalise kept (c # cs) =
     (if c = ''./'' then normalise kept cs
      else if c = ''../'' then (case kept of [] \<Rightarrow> None | k # ks \<Rightarrow> normalise ks cs)
      else normalise (c # kept) cs)"

text \<open>The loop on components, last first; the first component of the path is special.\<close>

fun walk :: "string list \<Rightarrow> string list \<Rightarrow> nat \<Rightarrow> string list option" where
  "walk [] acc skip = (if skip = 0 then Some acc else None)"
| "walk (c # cs) acc skip =
     (if c = ''./'' then walk cs acc skip
      else if c = ''../'' then walk cs acc (Suc skip)
      else if skip \<noteq> 0 then walk cs acc (skip - 1)
      else walk cs (c # acc) skip)"

lemma normalise_append:
  "normalise kept (cs @ ds) = Option.bind (normalise kept cs) (\<lambda>ks. normalise (rev ks) ds)"
  by (induction kept cs rule: normalise.induct) (auto split: list.splits)

lemma walk_normalise:
  "walk (rev cs) acc skip =
     (case normalise [] cs of
        None \<Rightarrow> None
      | Some ks \<Rightarrow> if skip \<le> length ks then Some (take (length ks - skip) ks @ acc) else None)"
proof (induction cs arbitrary: acc skip rule: rev_induct)
  case Nil
  then show ?case by simp
next
  case (snoc c cs)
  show ?case
  proof (cases "normalise [] cs")
    case None
    then show ?thesis using snoc by (auto simp: normalise_append)
  next
    case (Some ks)
    consider "c = ''./''" | "c = ''../''" | "c \<noteq> ''./''" "c \<noteq> ''../''" "skip = 0"
      | k where "c \<noteq> ''./''" "c \<noteq> ''../''" "skip = Suc k"
      by (cases skip) auto
    then show ?thesis
    proof cases
      case 2
      then show ?thesis using snoc Some
        by (cases ks rule: rev_cases) (auto simp: normalise_append)
    qed (use snoc Some in \<open>auto simp: normalise_append\<close>)
  qed
qed


definition component :: "string \<Rightarrow> bool" where
  "component c \<longleftrightarrow> (\<exists>w. c = w @ [sep] \<and> sep \<notin> set w)"

lemma components_spec: "list_all component (components s) \<and>
    (s = [] \<or> last s = sep \<longrightarrow> concat (components s) = s)"
proof (induction s rule: components.induct)
  case (1 s)
  show ?case
  proof (cases "find_char sep s")
    case None
    then have "sep \<notin> set s" by (simp add: find_char_None)
    then have "s \<noteq> [] \<Longrightarrow> last s \<noteq> sep" using last_in_set by metis
    with None show ?thesis by (subst (1 2) components.simps) auto
  next
    case (Some i)
    let ?t = "drop (i + 1) s"
    from find_char_Some [OF Some] have s: "s = take i s @ sep # ?t" "sep \<notin> set (take i s)" by auto
    have c: "take (i + 1) s = take i s @ [sep]"
      using find_char_less [OF Some] s(1)
      by (metis Suc_eq_plus1 append_eq_conv_conj length_take less_imp_le_nat min_absorb2
          nth_append_length take_Suc_conv_app_nth)
    have ends: "s = [] \<or> last s = sep \<longrightarrow> ?t = [] \<or> last ?t = sep"
      by (cases "?t = []") auto
    have comps: "components s = take (i + 1) s # components ?t"
      using Some by (subst components.simps) simp
    have "component (take (i + 1) s)" using c s(2) by (auto simp: component_def)
    moreover have "s = [] \<or> last s = sep \<Longrightarrow> take (i + 1) s @ concat (components ?t) = s"
      using 1 [OF Some] ends by (metis append_take_drop_id)
    ultimately show ?thesis
      using 1 [OF Some] unfolding comps by simp
  qed
qed

text \<open>One round of the loop, on the component \<open>c\<close> after \<open>X\<close>.\<close>

lemma resolve_round:
  assumes "component c" "X = [] \<or> (\<exists>Y. X = Y @ [sep])" "1 < length (X @ c)"
  defines "nxt \<equiv> if X = [] then None else Some (length X - 1)"
  shows "resolve_loop (X @ c @ suf) (Some (length (X @ c) - 1)) nd k r =
    (if nxt \<noteq> None \<and> c = ''./'' then resolve_loop (X @ c @ suf) nxt nd k r
     else if nxt \<noteq> None \<and> c = ''../'' then resolve_loop (X @ c @ suf) nxt nd (k + 1) r
     else if c = ''../'' then resolve_loop (X @ c @ suf) nxt (c @ nd) k False
     else if c = ''./'' then resolve_loop (X @ c @ suf) nxt nd k r
     else if k \<noteq> 0 then resolve_loop (X @ c @ suf) nxt nd (k - 1) r
     else resolve_loop (X @ c @ suf) nxt (c @ nd) k r)"
proof -
  obtain w where w: "c = w @ [sep]" "sep \<notin> set w" using assms(1) by (auto simp: component_def)
  let ?i = "length (X @ c) - 1"
  have take: "take ?i (X @ c @ suf) = X @ w" by (simp add: w)
  have nx: "find_last_of sep (X @ w) = nxt"
    using assms(2) w(2) find_last_of_append [of sep w]
    by (auto simp: nxt_def find_last_of_None)
  have cur: "(case nxt of Some j \<Rightarrow> substr (X @ c @ suf) (j + 1) (?i - j)
      | None \<Rightarrow> substr (X @ c @ suf) 0 (?i + 1)) = c"
    using assms(2) by (auto simp: nxt_def substr_def w)
  have "?i \<noteq> 0" using assms(3) by simp
  then show ?thesis
    by (subst resolve_loop.simps) (simp only: option.case if_False take nx cur Let_def)
qed

definition outcome :: "string \<times> nat \<times> bool \<Rightarrow> string option" where
  "outcome res = (case res of (newdirs, skip, rVal) \<Rightarrow> if skip = 0 \<and> rVal then Some newdirs else None)"

text \<open>\<open>pre\<close> is the leading separator of an absolute path, which the loop does not look at.\<close>

lemma concat_components_ends:
  "list_all component ds \<Longrightarrow> concat ds = [] \<or> (\<exists>Y. concat ds = Y @ [sep])"
  by (induction ds rule: rev_induct) (auto simp: component_def)

lemma resolve_loop_walk:
  assumes "list_all component ds" "pre = [sep] \<or> (pre = [] \<and> ds \<noteq> [] \<and> hd ds \<noteq> [sep])"
  shows "outcome (resolve_loop (pre @ concat ds @ suf) (Some (length (pre @ concat ds) - 1)) (concat acc) k True) =
    map_option concat (walk (rev ds) acc k)"
  using assms
proof (induction ds arbitrary: acc k suf rule: rev_induct)
  case Nil
  then show ?case by (subst resolve_loop.simps) (simp add: outcome_def)
next
  case (snoc c ds)
  let ?X = "pre @ concat ds"
  have c: "component c" using snoc.prems by simp
  have X: "?X = [] \<or> (\<exists>Y. ?X = Y @ [sep])"
    using concat_components_ends [of ds] snoc.prems by (auto simp del: concat_eq_Nil_conv)
  have len: "1 < length (?X @ c)"
    using snoc.prems c by (cases ds) (auto simp: component_def)
  note round = resolve_round [OF c X len, of suf]
  show ?case
  proof (cases "?X = []")
    case True
    then have "ds = []" using snoc.prems by (cases ds) (auto simp: component_def)
    have fin: "outcome (resolve_loop t None nd k r) = (if k = 0 \<and> r then Some nd else None)" for t nd k r
      by (subst resolve_loop.simps) (simp add: outcome_def)
    show ?thesis
      using round [of "concat acc" k True] True \<open>ds = []\<close> by (auto simp: fin)
  next
    case False
    then have ok: "pre = [sep] \<or> (pre = [] \<and> ds \<noteq> [] \<and> hd ds \<noteq> [sep])"
      using snoc.prems(2) by (cases ds) auto
    have "list_all component ds" using snoc.prems by simp
    note IH = snoc.IH [OF this ok, of "c @ suf"]
    have g: "pre @ concat (ds @ [c]) @ suf = ?X @ c @ suf" "pre @ concat (ds @ [c]) = ?X @ c"
      by simp_all
    have IH': "outcome (resolve_loop (?X @ c @ suf) (Some (length ?X - 1)) (concat a) j True) =
        map_option concat (walk (rev ds) a j)" for a j
      using IH [of a j] by (simp only: append_assoc)
    have IH'': "outcome (resolve_loop (?X @ c @ suf) (Some (length ?X - 1)) (c @ concat acc) j True) =
        map_option concat (walk (rev ds) (c # acc) j)" for j
      using IH' [of "c # acc" j] by (simp only: concat.simps)
    have r: "resolve_loop (?X @ c @ suf) (Some (length (?X @ c) - 1)) (concat acc) k True =
      (if c = ''./'' then resolve_loop (?X @ c @ suf) (Some (length ?X - 1)) (concat acc) k True
       else if c = ''../'' then resolve_loop (?X @ c @ suf) (Some (length ?X - 1)) (concat acc) (k + 1) True
       else if k \<noteq> 0 then resolve_loop (?X @ c @ suf) (Some (length ?X - 1)) (concat acc) (k - 1) True
       else resolve_loop (?X @ c @ suf) (Some (length ?X - 1)) (c @ concat acc) k True)"
      unfolding round by (simp only: False if_False option.distinct simp_thms) simp
    show ?thesis
      unfolding g r by (simp only: if_distrib [of outcome] IH' IH'') simp
  qed
qed


text \<open>The directory without the separator an absolute path begins with.\<close>

definition relative_dir :: "string \<Rightarrow> string" where
  "relative_dir s = (let d = path_dir (Path s) in if hd d = sep then tl d else d)"

lemma resolve_loop_dir:
  assumes "d \<noteq> []" "last d = sep"
  shows "outcome (resolve_loop d (Some (length d - 1)) [] 0 True) =
    map_option concat (normalise [] (components (if hd d = sep then tl d else d)))"
proof -
  let ?t = "if hd d = sep then tl d else d"
  let ?pre = "if hd d = sep then [sep] else []"
  let ?ds = "components ?t"
  have t: "?t = [] \<or> last ?t = sep" using assms by (cases d) (auto split: if_splits)
  then have ds: "list_all component ?ds" "concat ?ds = ?t" using components_spec by blast+
  have d: "?pre @ ?t = d" using assms(1) by (cases d) auto
  have pre: "?pre = [sep] \<or> (?pre = [] \<and> ?ds \<noteq> [] \<and> hd ?ds \<noteq> [sep])"
  proof (cases "hd d = sep")
    case False
    then have "concat ?ds = d" using ds by simp
    with False assms(1) show ?thesis by (cases ?ds) auto
  qed simp
  have "outcome (resolve_loop (?pre @ concat ?ds @ []) (Some (length (?pre @ concat ?ds) - 1)) (concat []) 0 True) =
      map_option concat (walk (rev ?ds) [] 0)"
    by (rule resolve_loop_walk [OF ds(1) pre])
  then have "outcome (resolve_loop d (Some (length d - 1)) [] 0 True) = map_option concat (walk (rev ?ds) [] 0)"
    unfolding ds(2) append_Nil2 d concat.simps(1) .
  then show ?thesis by (simp only: walk_normalise) (simp split: option.split)
qed

lemma normalise_set: "normalise kept cs = Some ds \<Longrightarrow> set ds \<subseteq> set kept \<union> set cs"
  by (induction kept cs rule: normalise.induct) (fastforce split: if_splits list.splits)+

text \<open>
  C7. A path without \<open>./\<close> in it resolves to itself. Any other path resolves to the result
  of going through its components from the first one, dropping \<open>.\<close> and letting \<open>..\<close> remove
  the component before it, or to the empty path, the error value, when there is none to
  remove. The separator at the front of an absolute path is not in that result: a path that
  needed resolving comes back relative.
\<close>

theorem resolve_spec:
  assumes "clean s"
  shows "resolve (Path s) =
    (if find_str ''./'' s = None then Path s
     else case normalise [] (components (relative_dir s)) of
            Some ds \<Rightarrow> Path (concat ds @ path_file (Path s))
          | None \<Rightarrow> Path [])"
proof (cases "find_str ''./'' s = None")
  case True
  then show ?thesis by (simp add: resolve_def Let_def)
next
  case False
  then obtain y where y: "find_str ''./'' s = Some y" by blast
  have "sublist ''./'' s" using False by (simp only: find_str_None) simp
  then have sep: "sep \<in> set s" by (auto simp: sublist_def)
  then have ne: "\<not> path_empty (Path s)" by (auto simp: path_empty_def)
  let ?d = "path_dir (Path s)"
  from dir_ends [OF sep] have d: "?d \<noteq> []" "last ?d = sep" by auto
  have fc: "clean (path_file (Path s))" and dc: "clean ?d"
    using assms file_dir [OF sep] clean_append [of ?d "path_file (Path s)"] by auto
  obtain nd k r where res: "resolve_loop ?d (Some (length ?d - 1)) [] 0 True = (nd, k, r)"
    by (cases "resolve_loop ?d (Some (length ?d - 1)) [] 0 True")
  have out: "(if k = 0 \<and> r then Some nd else None) = map_option concat (normalise [] (components (relative_dir s)))"
    using resolve_loop_dir [OF d] res by (simp add: outcome_def relative_dir_def Let_def)
  show ?thesis
  proof (cases "k = 0 \<and> r")
    case True
    with out obtain ds where ds: "normalise [] (components (relative_dir s)) = Some ds" "nd = concat ds"
      by (auto simp: map_option_case split: option.splits)
    have "set ds \<subseteq> set (components (relative_dir s))" using normalise_set [OF ds(1)] by simp
    moreover have "concat (components (relative_dir s)) = relative_dir s"
    proof -
      have "relative_dir s = [] \<or> last (relative_dir s) = sep"
        using d by (cases ?d) (auto simp: relative_dir_def Let_def split: if_splits)
      then show ?thesis using components_spec by blast
    qed
    ultimately have "set nd \<subseteq> set (relative_dir s)"
      unfolding ds(2) by (metis UN_mono order_refl set_concat)
    also have "\<dots> \<subseteq> set ?d"
      using d(1) by (cases ?d) (auto simp: relative_dir_def Let_def)
    finally have "clean nd" using dc by (auto simp: clean_def)
    with True fc ds res ne y show ?thesis by (simp add: resolve_def Let_def)
  next
    case no: False
    then have "normalise [] (components (relative_dir s)) = None" using out by auto
    with no res ne y show ?thesis by (auto simp: resolve_def Let_def)
  qed
qed


theorem resolve_spec_witness:
  "resolve (Path ''a/../b/./c'') = Path ''b/c'' \<and> resolve (Path ''../c'') = Path [] \<and>
   resolve (Path ''/a/./b'') = Path ''a/b''"
  using resolve_spec [of "''a/../b/./c''"] resolve_spec [of "''../c''"] resolve_spec [of "''/a/./b''"]
  by (simp add: clean_def relative_dir_def path_dir_def path_file_def components.simps)

end
