(* ===== verification/RegEx.thy ===== *)
theory RegEx
  imports Fishy_Prelude
begin

text \<open>
  \<^verbatim>\<open>CORE/UTIL/regex.h\<close> and \<^verbatim>\<open>.cpp\<close>: the regular expression compiler, from the pattern's
  characters to tokens, to postfix order, to an NFA, and the simulation of the NFA. Loops and
  recursions of the code that may not end take a fuel and give \<open>Diverges\<close> when it runs
  out. A state number of \<open>-1\<close> is \<open>None\<close>.
\<close>

section \<open>The state sets\<close>

text \<open>
  \<^verbatim>\<open>vectorset\<close>: an ordered array, as the list of its elements. The NFAs that are run have
  at most 254 states, so its bytes and its byte size hold them.
\<close>

type_synonym vectorset = "nat list"

definition vs_insert :: "nat \<Rightarrow> vectorset \<Rightarrow> vectorset" where
  "vs_insert elem s =
     (let before = takeWhile (\<lambda>x. x < elem) s; lb = dropWhile (\<lambda>x. x < elem) s
      in if lb = [] \<or> hd lb \<noteq> elem then before @ elem # lb else s)"

section \<open>Tokens\<close>

datatype re_type = LITERAL | INV_LITERAL | RANGE | INV_RANGE | OPERATOR

datatype ReToken = ReToken (getType: re_type) (getCh: char)

datatype build_error =
    NONE
  | MISSING_ESCAPE
  | BAD_ESCAPE
  | MISSING_PEREN
  | MISSING_BRACE
  | PEREN_INSIDE_BRACE
  | RANGE_OUTSIDE_BRACE
  | MISSING_OPERAND

text \<open>The pushes at the end of the loop's body.\<close>

definition push_token :: "bool \<Rightarrow> bool \<Rightarrow> char \<Rightarrow> ReToken list \<Rightarrow> build_error + ReToken list \<times> bool" where
  "push_token isLiteral isInverted itr out =
     (if isLiteral
      then Inr (out @ [ReToken (if isInverted then INV_LITERAL else LITERAL) itr], False)
      else if isInverted then Inl RANGE_OUTSIDE_BRACE
      else Inr (out @ [ReToken OPERATOR itr], isInverted))"

definition escapable :: "char \<Rightarrow> bool" where
  "escapable c \<longleftrightarrow> c \<in> set ''ntr()[].+*?|^'' \<or> c = CHR 0x5C"

definition range_escape :: "char \<Rightarrow> bool" where
  "range_escape c \<longleftrightarrow> c \<in> set ''sdwa''"

fun escape_loop :: "nat \<Rightarrow> nat \<Rightarrow> bool \<Rightarrow> ReToken list \<Rightarrow> string \<Rightarrow> build_error + ReToken list" where
  "escape_loop perens braces isInverted out [] =
     (if perens \<noteq> 0 then Inl MISSING_PEREN
      else if braces \<noteq> 0 then Inl MISSING_BRACE
      else Inr out)"
| "escape_loop perens braces isInverted out (ch # str) =
     (if ch = CHR 0x5C then
        (case str of
           [] \<Rightarrow> Inl MISSING_ESCAPE
         | itr # str' \<Rightarrow>
             if escapable itr then
               (case push_token True isInverted itr out of
                  Inl e \<Rightarrow> Inl e
                | Inr (out', isInv) \<Rightarrow> escape_loop perens braces isInv out' str')
             else if range_escape itr then
               escape_loop perens braces False
                 (out @ [ReToken (if isInverted then INV_RANGE else RANGE) itr]) str'
             else Inl BAD_ESCAPE)
      else if ch = CHR ''^'' then
        (if braces = 0 then Inl RANGE_OUTSIDE_BRACE else escape_loop perens braces True out str)
      else if ch = CHR ''('' \<and> braces \<noteq> 0 then Inl PEREN_INSIDE_BRACE
      else if ch = CHR ''['' \<and> braces \<noteq> 0 then Inl MISSING_BRACE
      else if ch = CHR '')'' \<and> perens = 0 then Inl MISSING_PEREN
      else if ch = CHR '']'' \<and> braces = 0 then Inl MISSING_BRACE
      else
        let perens' = (if ch = CHR ''('' then perens + 1 else if ch = CHR '')'' then perens - 1 else perens);
            braces' = (if ch = CHR ''['' then braces + 1 else if ch = CHR '']'' then braces - 1 else braces);
            out1 = (if ch = CHR ''.'' then out @ [ReToken RANGE ch] else out);
            isLiteral = (ch \<notin> set ''()[]+|*?.'')
        in case push_token isLiteral isInverted ch out1 of
             Inl e \<Rightarrow> Inl e
           | Inr (out', isInv) \<Rightarrow> escape_loop perens' braces' isInv out' str)"

definition escapePattern :: "string \<Rightarrow> build_error + ReToken list" where
  "escapePattern pattern = escape_loop 0 0 False [] pattern"

abbreviation op :: "char \<Rightarrow> ReToken" where "op \<equiv> ReToken OPERATOR"

text \<open>
  The loop in a bracket, which writes \<^verbatim>\<open>|\<close> before every token but the first; going on past
  the last token reads out of bounds.
\<close>

fun expand_loop :: "ReToken list \<Rightarrow> fault + ReToken list"
  and expand_first :: "ReToken list \<Rightarrow> fault + ReToken list"
  and expand_rest :: "ReToken list \<Rightarrow> fault + ReToken list" where
  "expand_loop [] = Inr []"
| "expand_loop (t # ts) =
     (if t = op CHR ''['' then map_sum id (\<lambda>r. op CHR ''('' # r) (expand_first ts)
      else map_sum id (\<lambda>r. t # r) (expand_loop ts))"
| "expand_first [] = Inl OutOfBounds"
| "expand_first (t # ts) =
     (if t = op CHR '']'' then map_sum id (\<lambda>r. op CHR '')'' # r) (expand_loop ts)
      else map_sum id (\<lambda>r. t # r) (expand_rest ts))"
| "expand_rest [] = Inl OutOfBounds"
| "expand_rest (t # ts) =
     (if t = op CHR '']'' then map_sum id (\<lambda>r. op CHR '')'' # r) (expand_loop ts)
      else map_sum id (\<lambda>r. op CHR ''|'' # t # r) (expand_rest ts))"

definition expandPattern :: "ReToken list \<Rightarrow> fault + ReToken list" where
  "expandPattern tokens = expand_loop tokens"

section \<open>Postfix order\<close>

text \<open>
  \<^verbatim>\<open>while (--lits.top()) ret.push_back(OP_CONCAT)\<close>, on the count: from a count of 0 it goes
  on below zero, and pushes until the memory is exhausted or the \<^verbatim>\<open>int\<close> overflows.
\<close>

fun pop_lits :: "nat \<Rightarrow> int \<Rightarrow> ReToken list \<Rightarrow> fault + ReToken list" where
  "pop_lits 0 lits ret = Inl Diverges"
| "pop_lits (Suc fuel) lits ret =
     (if lits - 1 \<noteq> 0 then pop_lits fuel (lits - 1) (ret @ [op CHR ''&'']) else Inr ret)"

fun pop_alts :: "nat \<Rightarrow> ReToken list \<Rightarrow> ReToken list" where
  "pop_alts 0 ret = ret"
| "pop_alts (Suc alts) ret = pop_alts alts (ret @ [op CHR ''|''])"

text \<open>
  The conversion loop: \<open>Inr (Inl e)\<close> is the return of an error code. The stacks are lists,
  top first.
\<close>

fun infix_loop :: "nat \<Rightarrow> nat list \<Rightarrow> int list \<Rightarrow> ReToken list \<Rightarrow> ReToken list \<Rightarrow>
    fault + build_error + ReToken list" where
  "infix_loop fuel (a # alts) (l # lits) ret [] =
     bind_result (pop_lits fuel l ret) (\<lambda>ret. Inr (Inr (pop_alts a ret)))"
| "infix_loop fuel (a # alts) (l # lits) ret (itr # ts) =
     (if getType itr = OPERATOR then
        (if getCh itr = CHR ''('' then
           (if l > 1
            then infix_loop fuel (0 # a # alts) (0 # (l - 1) # lits) (ret @ [op CHR ''&'']) ts
            else infix_loop fuel (0 # a # alts) (0 # l # lits) ret ts)
         else if getCh itr = CHR '')'' then
           bind_result (pop_lits fuel l ret) (\<lambda>ret.
             case lits of
               [] \<Rightarrow> Inl Undefined
             | l' # lits' \<Rightarrow> infix_loop fuel alts ((l' + 1) # lits') (pop_alts a ret) ts)
         else if getCh itr = CHR ''|'' then
           (if l = 0 then Inr (Inl MISSING_OPERAND)
            else bind_result (pop_lits fuel l ret) (\<lambda>ret.
                   infix_loop fuel ((a + 1) # alts) (0 # lits) ret ts))
         else if getCh itr = CHR ''+'' \<or> getCh itr = CHR ''?'' \<or> getCh itr = CHR ''*'' then
           (if l = 0 then Inr (Inl MISSING_OPERAND)
            else infix_loop fuel (a # alts) (l # lits) (ret @ [itr]) ts)
         else infix_loop fuel (a # alts) (l # lits) ret ts)
      else if l > 1
      then infix_loop fuel (a # alts) (l # lits) (ret @ [op CHR ''&'', itr]) ts
      else infix_loop fuel (a # alts) ((l + 1) # lits) (ret @ [itr]) ts)"
| "infix_loop fuel alts lits ret ts = Inl Undefined"

definition infixToPostfix :: "nat \<Rightarrow> ReToken list \<Rightarrow> fault + build_error + ReToken list" where
  "infixToPostfix fuel pattern = infix_loop fuel [0] [0] [] pattern"

section \<open>The NFA\<close>

datatype state_type = S_MATCH | S_LITERAL | S_RANGE | S_INV_LITERAL | S_INV_RANGE | S_SPLIT

record nfa_state =
  s_type :: state_type
  s_literal :: char
  s_out :: "nat option"
  s_out1 :: "nat option"

definition new_state :: "state_type \<Rightarrow> nat option \<Rightarrow> nat option \<Rightarrow> nfa_state" where
  "new_state type out out1 = \<lparr>s_type = type, s_literal = CHR ''?'', s_out = out, s_out1 = out1\<rparr>"

definition new_state_ch :: "state_type \<Rightarrow> char \<Rightarrow> nfa_state" where
  "new_state_ch type ch = \<lparr>s_type = type, s_literal = ch, s_out = None, s_out1 = None\<rparr>"

record Fragment =
  f_start :: nat
  f_terminals :: "nat list"

record Nfa =
  m_states :: "nfa_state list"
  m_start :: nat
  m_accept :: nat

definition connect_one :: "nat \<Rightarrow> nfa_state \<Rightarrow> nfa_state" where
  "connect_one nxt s = (if s_out s = None then s\<lparr>s_out := Some nxt\<rparr> else s\<lparr>s_out1 := Some nxt\<rparr>)"

fun connect_loop :: "nat list \<Rightarrow> nat \<Rightarrow> nfa_state list \<Rightarrow> nfa_state list" where
  "connect_loop [] nxt states = states"
| "connect_loop (t # ts) nxt states = connect_loop ts nxt (states[t := connect_one nxt (states ! t)])"

definition connect :: "nfa_state list \<Rightarrow> Fragment \<Rightarrow> nat \<Rightarrow> nfa_state list \<times> Fragment" where
  "connect states f nxt = (connect_loop (f_terminals f) nxt states, f\<lparr>f_terminals := [nxt]\<rparr>)"

fun state_type_of :: "re_type \<Rightarrow> state_type" where
  "state_type_of INV_LITERAL = S_INV_LITERAL"
| "state_type_of RANGE = S_RANGE"
| "state_type_of INV_RANGE = S_INV_RANGE"
| "state_type_of _ = S_LITERAL"

text \<open>
  One token, on the states and the stack of fragments, top first; an operator without its
  operands takes the top of an empty stack.
\<close>

definition build_step :: "nfa_state list \<times> Fragment list \<Rightarrow> ReToken \<Rightarrow> fault + nfa_state list \<times> Fragment list" where
  "build_step sf itr =
     (case sf of (states, frags) \<Rightarrow>
        let nxt = length states
        in if getType itr = OPERATOR then
             (if getCh itr = CHR ''+'' then
                (case frags of
                   [] \<Rightarrow> Inl Undefined
                 | frag # fs \<Rightarrow>
                     (case connect (states @ [new_state S_SPLIT (Some (f_start frag)) None]) frag nxt of
                        (states', frag') \<Rightarrow> Inr (states', frag' # fs)))
              else if getCh itr = CHR ''*'' then
                (case frags of
                   [] \<Rightarrow> Inl Undefined
                 | frag # fs \<Rightarrow>
                     (case connect (states @ [new_state S_SPLIT (Some (f_start frag)) None]) frag nxt of
                        (states', frag') \<Rightarrow> Inr (states', frag'\<lparr>f_start := nxt\<rparr> # fs)))
              else if getCh itr = CHR ''?'' then
                (case frags of
                   [] \<Rightarrow> Inl Undefined
                 | frag # fs \<Rightarrow>
                     Inr (states @ [new_state S_SPLIT (Some (f_start frag)) None],
                          \<lparr>f_start = nxt, f_terminals = f_terminals frag @ [nxt]\<rparr> # fs))
              else if getCh itr = CHR ''|'' then
                (case frags of
                   fragNext # frag # fs \<Rightarrow>
                     Inr (states @ [new_state S_SPLIT (Some (f_start frag)) (Some (f_start fragNext))],
                          \<lparr>f_start = nxt, f_terminals = f_terminals frag @ f_terminals fragNext\<rparr> # fs)
                 | _ \<Rightarrow> Inl Undefined)
              else if getCh itr = CHR ''&'' then
                (case frags of
                   fragNext # frag # fs \<Rightarrow>
                     (case connect states frag (f_start fragNext) of
                        (states', frag') \<Rightarrow>
                          Inr (states', frag'\<lparr>f_terminals := f_terminals fragNext\<rparr> # fs))
                 | _ \<Rightarrow> Inl Undefined)
              else Inr (states, frags))
           else Inr (states @ [new_state_ch (state_type_of (getType itr)) (getCh itr)],
                     \<lparr>f_start = nxt, f_terminals = [nxt]\<rparr> # frags))"

fun build_loop :: "ReToken list \<Rightarrow> nfa_state list \<times> Fragment list \<Rightarrow> fault + nfa_state list \<times> Fragment list" where
  "build_loop [] sf = Inr sf"
| "build_loop (t # ts) sf = bind_result (build_step sf t) (build_loop ts)"

definition MAX_NFA_STATES :: nat where
  "MAX_NFA_STATES = 255"

definition Nfa_build :: "ReToken list \<Rightarrow> fault + Nfa" where
  "Nfa_build pattern =
     bind_result (build_loop pattern ([], [])) (\<lambda>(states, frags).
       case frags of
         [] \<Rightarrow> Inl Undefined
       | frag # fs \<Rightarrow>
           (let m_accept = length states;
                (states', frag') = connect (states @ [new_state S_MATCH None None]) frag m_accept
            in if length states' < MAX_NFA_STATES
               then Inr \<lparr>m_states = states', m_start = f_start frag', m_accept = m_accept\<rparr>
               else Inl CheckFailed))"

section \<open>Running the NFA\<close>

fun addSplit :: "nat \<Rightarrow> nfa_state list \<Rightarrow> nat option \<Rightarrow> vectorset \<Rightarrow> fault + vectorset" where
  "addSplit 0 states stateId nextStates = Inl Diverges"
| "addSplit (Suc fuel) states stateId nextStates =
     (case stateId of
        None \<Rightarrow> Inr nextStates
      | Some i \<Rightarrow>
          if i < length states then
            (if s_type (states ! i) = S_SPLIT
             then bind_result (addSplit fuel states (s_out (states ! i)) nextStates)
                    (\<lambda>ns. addSplit fuel states (s_out1 (states ! i)) ns)
             else Inr (vs_insert i nextStates))
          else Inl OutOfBounds)"

definition is_alpha_ch :: "char \<Rightarrow> bool" where
  "is_alpha_ch c \<longleftrightarrow> (97 \<le> (of_char c :: nat) \<and> (of_char c :: nat) \<le> 122) \<or>
     (65 \<le> (of_char c :: nat) \<and> (of_char c :: nat) \<le> 90)"

definition is_digit_ch :: "char \<Rightarrow> bool" where
  "is_digit_ch c \<longleftrightarrow> (48 :: nat) \<le> of_char c \<and> of_char c \<le> (57 :: nat)"

text \<open>The test of a state against a character; \<^verbatim>\<open>INV_RANGE\<close> has no case and stays false.\<close>

definition state_matches :: "nfa_state \<Rightarrow> char \<Rightarrow> fault + bool" where
  "state_matches s c =
     (case s_type s of
        S_LITERAL \<Rightarrow> Inr (s_literal s = c)
      | S_INV_LITERAL \<Rightarrow> Inr (s_literal s \<noteq> c)
      | S_RANGE \<Rightarrow>
          if s_literal s = CHR ''.'' then Inr True
          else if s_literal s = CHR ''s''
          then Inr (c = CHR '' '' \<or> c = CHR 0x0A \<or> c = CHR 0x09 \<or> c = CHR 0x0D)
          else if s_literal s = CHR ''d'' then Inr (is_digit_ch c)
          else if s_literal s = CHR ''w'' then Inr (is_alpha_ch c \<or> c = CHR ''_'' \<or> is_digit_ch c)
          else if s_literal s = CHR ''a'' then Inr (is_alpha_ch c)
          else Inl CheckFailed
      | _ \<Rightarrow> Inr False)"

fun scan_states :: "nat \<Rightarrow> nfa_state list \<Rightarrow> char \<Rightarrow> vectorset \<Rightarrow> vectorset \<Rightarrow> fault + vectorset" where
  "scan_states fuel states c [] nextStates = Inr nextStates"
| "scan_states fuel states c (i # ids) nextStates =
     (if i < length states then
        bind_result (state_matches (states ! i) c) (\<lambda>match.
        bind_result (if match then addSplit fuel states (s_out (states ! i)) nextStates else Inr nextStates)
          (\<lambda>ns. scan_states fuel states c ids ns))
      else Inl OutOfBounds)"

definition nfa_isMatch :: "nfa_state list \<Rightarrow> vectorset \<Rightarrow> bool" where
  "nfa_isMatch states ids \<longleftrightarrow> list_ex (\<lambda>i. s_type (states ! i) = S_MATCH) ids"

text \<open>
  The loop over the input, with the position; the result is the position one past the last
  match recorded, or \<open>None\<close>.
\<close>

fun scan_loop :: "nat \<Rightarrow> nfa_state list \<Rightarrow> nat \<Rightarrow> vectorset \<Rightarrow> nat option \<Rightarrow> string \<Rightarrow> fault + nat option" where
  "scan_loop fuel states pos currentStates retVal [] = Inr retVal"
| "scan_loop fuel states pos currentStates retVal (c # str) =
     (if currentStates = [] then Inr retVal
      else bind_result (scan_states fuel states c currentStates []) (\<lambda>ns.
        if nfa_isMatch states ns then scan_loop fuel states (pos + 1) ns (Some (pos + 1)) str
        else if retVal \<noteq> None then Inr retVal
        else scan_loop fuel states (pos + 1) ns retVal str))"

definition Nfa_scan :: "nat \<Rightarrow> Nfa \<Rightarrow> string \<Rightarrow> fault + nat" where
  "Nfa_scan fuel m str =
     bind_result (addSplit fuel (m_states m) (Some (m_start m)) []) (\<lambda>currentStates.
     bind_result (scan_loop fuel (m_states m) 0 currentStates None str) (\<lambda>retVal.
       Inr (case retVal of None \<Rightarrow> 0 | Some i \<Rightarrow> i)))"

section \<open>The pattern object\<close>

text \<open>
  \<^verbatim>\<open>m_machine\<close>; after a failed build it is an empty NFA whose start state is not initialised
  (\<open>junk\<close>).
\<close>

type_synonym RegExPattern = "Nfa option"

definition RegExPattern_build :: "nat \<Rightarrow> nat \<Rightarrow> string \<Rightarrow> fault + build_error \<times> RegExPattern" where
  "RegExPattern_build fuel junk pattern =
     (let empty = \<lparr>m_states = [], m_start = junk, m_accept = junk\<rparr>
      in case escapePattern pattern of
           Inl e \<Rightarrow> Inr (e, Some empty)
         | Inr tokens \<Rightarrow>
             bind_result (expandPattern tokens) (\<lambda>tokens.
             bind_result (infixToPostfix fuel tokens) (\<lambda>res.
               case res of
                 Inl e \<Rightarrow> Inr (e, Some empty)
               | Inr tokens \<Rightarrow> bind_result (Nfa_build tokens) (\<lambda>m. Inr (NONE, Some m)))))"

text \<open>The constructor from a string.\<close>

definition RegExPattern_new :: "nat \<Rightarrow> nat \<Rightarrow> string \<Rightarrow> fault + RegExPattern" where
  "RegExPattern_new fuel junk pattern =
     bind_result (RegExPattern_build fuel junk pattern) (\<lambda>(e, p).
       if e = NONE then Inr p else Inl CheckFailed)"

definition RegExPattern_scan :: "nat \<Rightarrow> RegExPattern \<Rightarrow> string \<Rightarrow> fault + nat" where
  "RegExPattern_scan fuel m_machine str =
     (case m_machine of None \<Rightarrow> Inr 0 | Some m \<Rightarrow> Nfa_scan fuel m str)"

definition RegExPattern_match :: "nat \<Rightarrow> RegExPattern \<Rightarrow> string \<Rightarrow> fault + bool" where
  "RegExPattern_match fuel m_machine str =
     (case m_machine of
        None \<Rightarrow> Inr False
      | Some m \<Rightarrow> bind_result (RegExPattern_scan fuel m_machine str) (\<lambda>i. Inr (i = length str)))"


section \<open>From characters to tokens\<close>

text \<open>Whether the end of a token list is inside a bracket.\<close>

fun in_bracket :: "bool \<Rightarrow> ReToken list \<Rightarrow> bool" where
  "in_bracket b [] = b"
| "in_bracket b (t # ts) = in_bracket (if b then t \<noteq> op CHR '']'' else t = op CHR ''['') ts"

lemma in_bracket_append: "in_bracket b (ts @ us) = in_bracket (in_bracket b ts) us"
  by (induction b ts rule: in_bracket.induct) auto

lemma expand_closed:
  "\<not> in_bracket False ts \<Longrightarrow> \<exists>us. expand_loop ts = Inr us"
  "\<not> in_bracket True ts \<Longrightarrow> \<exists>us. expand_first ts = Inr us"
  "\<not> in_bracket True ts \<Longrightarrow> \<exists>us. expand_rest ts = Inr us"
  by (induction ts and ts and ts rule: expand_loop_expand_first_expand_rest.induct)
    (auto split: if_splits)

lemma in_bracket_snoc:
  "in_bracket False (ts @ [t]) = (if in_bracket False ts then t \<noteq> op CHR '']'' else t = op CHR ''['')"
  by (simp add: in_bracket_append)

lemma push_literal:
  "push_token True isInverted c out = Inr (out', b) \<Longrightarrow> in_bracket False out' = in_bracket False out"
  by (auto simp: push_token_def in_bracket_snoc split: if_splits)

lemma push_operator:
  "push_token False isInverted c out = Inr (out', b) \<Longrightarrow> in_bracket False out' = in_bracket False (out @ [op c])"
  by (auto simp: push_token_def split: if_splits)

lemma escape_loop_closed:
  "escape_loop perens braces isInverted out str = Inr ts \<Longrightarrow>
   braces = (if in_bracket False out then 1 else 0) \<Longrightarrow> \<not> in_bracket False ts"
proof (induction perens braces isInverted out str rule: escape_loop.induct)
  case (1 perens braces isInverted out)
  then show ?case by (auto split: if_splits)
next
  case (2 perens braces isInverted out ch str)
  consider (escape) "ch = CHR 0x5C" | (caret) "ch = CHR ''^''" | (plain) "ch \<noteq> CHR 0x5C" "ch \<noteq> CHR ''^''"
    by blast
  then show ?case
  proof cases
    case escape
    then obtain itr str' where str: "str = itr # str'" using 2(5) by (cases str) auto
    show ?thesis
    proof (cases "escapable itr")
      case True
      with 2(5) escape str obtain out' b where p: "push_token True isInverted itr out = Inr (out', b)"
        "escape_loop perens braces b out' str' = Inr ts" by (auto split: sum.splits)
      show ?thesis
        using 2(1) [OF escape str True p(1) refl p(2)] push_literal [OF p(1)] 2(6) by simp
    next
      case False
      with 2(5) escape str have r: "range_escape itr"
        "escape_loop perens braces False
           (out @ [ReToken (if isInverted then INV_RANGE else RANGE) itr]) str' = Inr ts"
        by (auto split: if_splits)
      show ?thesis
        using 2(2) [OF escape str False r] 2(6) by (auto simp: in_bracket_snoc)
    qed
  next
    case caret
    then have "ch \<noteq> CHR 0x5C" by simp
    with 2(5) caret have c: "braces \<noteq> 0" "escape_loop perens braces True out str = Inr ts"
      by (auto split: if_splits)
    show ?thesis using 2(3) [OF \<open>ch \<noteq> CHR 0x5C\<close> caret c] 2(6) by simp
  next
    case plain
    let ?perens = "if ch = CHR ''('' then perens + 1 else if ch = CHR '')'' then perens - 1 else perens"
    let ?braces = "if ch = CHR ''['' then braces + 1 else if ch = CHR '']'' then braces - 1 else braces"
    let ?out1 = "if ch = CHR ''.'' then out @ [ReToken RANGE ch] else out"
    let ?lit = "ch \<notin> set ''()[]+|*?.''"
    from 2(5) plain have g: "\<not> (ch = CHR ''('' \<and> braces \<noteq> 0)" "\<not> (ch = CHR ''['' \<and> braces \<noteq> 0)"
      "\<not> (ch = CHR '')'' \<and> perens = 0)" "\<not> (ch = CHR '']'' \<and> braces = 0)"
      by (auto split: if_splits)
    have "escape_loop perens braces isInverted out (ch # str) =
      (case push_token ?lit isInverted ch ?out1 of
         Inl e \<Rightarrow> Inl e | Inr (out', b) \<Rightarrow> escape_loop ?perens ?braces b out' str)"
      unfolding escape_loop.simps Let_def using plain g by (simp only: if_False)
    with 2(5) obtain out' b where p: "push_token ?lit isInverted ch ?out1 = Inr (out', b)"
      "escape_loop ?perens ?braces b out' str = Inr ts" by (auto split: sum.splits)
    have out1: "in_bracket False ?out1 = in_bracket False out" by (simp add: in_bracket_snoc)
    have "in_bracket False out' = (if ?lit then in_bracket False out else in_bracket False (?out1 @ [op ch]))"
      using push_literal [of isInverted ch ?out1 out' b] push_operator [of isInverted ch ?out1 out' b] p(1) out1
      by (cases ?lit) auto
    then have "?braces = (if in_bracket False out' then 1 else 0)"
      using g 2(6) out1 by (auto simp: in_bracket_snoc split: if_splits)
    then show ?thesis using 2(4) plain g p by blast
  qed
qed


text \<open>
  On the tokens that \<^verbatim>\<open>escapePattern\<close> lets through, \<^verbatim>\<open>expandPattern\<close> finds every
  bracket closed and never reads beyond the last token.
\<close>

theorem expand_in_bounds:
  assumes "escapePattern pattern = Inr tokens"
  shows "\<exists>expanded. expandPattern tokens = Inr expanded"
  using assms expand_closed(1) escape_loop_closed [of 0 0 False "[]" pattern tokens]
  by (simp add: escapePattern_def expandPattern_def)

theorem expand_in_bounds_witness:
  "\<exists>expanded. expandPattern [op CHR ''['', ReToken LITERAL CHR ''a'', op CHR '']''] = Inr expanded"
  by (rule expand_in_bounds [of "''[a]''"]) (simp add: escapePattern_def push_token_def)

text \<open>
  Two readings of patterns that are not what they say: \<^verbatim>\<open>\n\<close> is the letter, because the
  translated character is computed and the one after the backslash is pushed, and \<^verbatim>\<open>^\<close>
  inverts only the first item of a bracket, so that \<^verbatim>\<open>[^ab]\<close> is \<open>not a, or b\<close>.
\<close>

theorem escape_newline_is_n:
  "escapePattern [CHR 0x5C, CHR ''n''] = Inr [ReToken LITERAL CHR ''n'']"
  by (simp add: escapePattern_def escapable_def push_token_def)

theorem inverted_bracket_first_item:
  "bind_result (map_sum (\<lambda>e. Undefined) id (escapePattern ''[^ab]'')) expandPattern =
   Inr [op CHR ''('', ReToken INV_LITERAL CHR ''a'', op CHR ''|'', ReToken LITERAL CHR ''b'', op CHR '')'']"
  by (simp add: escapePattern_def push_token_def expandPattern_def Let_def)

end
