(* ===== verification/RegExSpec.thy ===== *)
theory RegExSpec
  imports RegEx
begin

text \<open>
  The patterns that the regular expression compiler of theory \<open>RegEx\<close> is for: expressions
  \<open>rexp\<close> with their languages, the grammar of their tokens, and their postfix form, which is
  what \<^verbatim>\<open>infixToPostfix\<close> produces.
\<close>

section \<open>Expressions and their languages\<close>

datatype rexp =
    Atom ReToken
  | Cat rexp rexp
  | Alt rexp rexp
  | Plus rexp
  | Star rexp
  | Opt rexp

definition tok_matches :: "ReToken \<Rightarrow> char \<Rightarrow> bool" where
  "tok_matches t c \<longleftrightarrow>
     state_matches (new_state_ch (state_type_of (getType t)) (getCh t)) c = Inr True"

definition conc :: "string set \<Rightarrow> string set \<Rightarrow> string set" where
  "conc A B = {u @ v | u v. u \<in> A \<and> v \<in> B}"

inductive_set star :: "string set \<Rightarrow> string set" for A where
  star_Nil: "[] \<in> star A"
| star_app: "u \<in> A \<Longrightarrow> v \<in> star A \<Longrightarrow> u @ v \<in> star A"

fun lang :: "rexp \<Rightarrow> string set" where
  "lang (Atom t) = {[c] | c. tok_matches t c}"
| "lang (Cat r s) = conc (lang r) (lang s)"
| "lang (Alt r s) = lang r \<union> lang s"
| "lang (Plus r) = conc (lang r) (star (lang r))"
| "lang (Star r) = star (lang r)"
| "lang (Opt r) = {[]} \<union> lang r"

fun nullable :: "rexp \<Rightarrow> bool" where
  "nullable (Atom t) = False"
| "nullable (Cat r s) = (nullable r \<and> nullable s)"
| "nullable (Alt r s) = (nullable r \<or> nullable s)"
| "nullable (Plus r) = nullable r"
| "nullable (Star r) = True"
| "nullable (Opt r) = True"

lemma concI: "u \<in> A \<Longrightarrow> v \<in> B \<Longrightarrow> u @ v \<in> conc A B"
  by (auto simp: conc_def)

lemma Nil_in_conc [simp]: "[] \<in> conc A B \<longleftrightarrow> [] \<in> A \<and> [] \<in> B"
  by (auto simp: conc_def)

lemma nullable_lang: "nullable r \<longleftrightarrow> [] \<in> lang r"
  by (induction r) (auto intro: star_Nil)

lemma conc_star_subset: "conc A (star A) \<subseteq> star A"
  by (auto simp: conc_def intro: star_app)

lemma star_unfold: "star A = {[]} \<union> conc A (star A)"
proof
  show "star A \<subseteq> {[]} \<union> conc A (star A)"
  proof
    fix x assume "x \<in> star A"
    then show "x \<in> {[]} \<union> conc A (star A)" by (cases rule: star.cases) (auto simp: conc_def)
  qed
qed (auto intro: star_Nil conc_star_subset [THEN subsetD])

text \<open>The equation of a loop has one solution when the body is not nullable.\<close>

lemma arden:
  assumes "X = {[]} \<union> conc A X" "[] \<notin> A"
  shows "X = star A"
proof (rule set_eqI)
  fix w show "w \<in> X \<longleftrightarrow> w \<in> star A"
  proof (induction w rule: length_induct)
    case (1 w)
    have eq: "v \<in> X \<longleftrightarrow> v \<in> star A" if "w = u @ v" "u \<in> A" for u v
      using 1 that assms(2) by (cases u) auto
    have "w \<in> X \<longleftrightarrow> w = [] \<or> (\<exists>u v. w = u @ v \<and> u \<in> A \<and> v \<in> X)"
      by (subst assms(1)) (auto simp: conc_def)
    also have "\<dots> \<longleftrightarrow> w = [] \<or> (\<exists>u v. w = u @ v \<and> u \<in> A \<and> v \<in> star A)"
      using eq by blast
    also have "\<dots> \<longleftrightarrow> w \<in> star A"
      by (subst star_unfold) (auto simp: conc_def)
    finally show ?case .
  qed
qed

text \<open>The restrictions: loops have bodies that are not nullable; atoms are ones the scanner knows.\<close>

fun loop_ok :: "rexp \<Rightarrow> bool" where
  "loop_ok (Atom t) = True"
| "loop_ok (Cat r s) = (loop_ok r \<and> loop_ok s)"
| "loop_ok (Alt r s) = (loop_ok r \<and> loop_ok s)"
| "loop_ok (Plus r) = (loop_ok r \<and> \<not> nullable r)"
| "loop_ok (Star r) = (loop_ok r \<and> \<not> nullable r)"
| "loop_ok (Opt r) = loop_ok r"

definition atom_ok :: "ReToken \<Rightarrow> bool" where
  "atom_ok t \<longleftrightarrow> getType t \<noteq> OPERATOR \<and> (getType t = RANGE \<longrightarrow> getCh t \<in> set ''.sdwa'')"

fun atoms_ok :: "rexp \<Rightarrow> bool" where
  "atoms_ok (Atom t) = atom_ok t"
| "atoms_ok (Cat r s) = (atoms_ok r \<and> atoms_ok s)"
| "atoms_ok (Alt r s) = (atoms_ok r \<and> atoms_ok s)"
| "atoms_ok (Plus r) = atoms_ok r"
| "atoms_ok (Star r) = atoms_ok r"
| "atoms_ok (Opt r) = atoms_ok r"

text \<open>The number of states an expression needs.\<close>

fun states_of :: "rexp \<Rightarrow> nat" where
  "states_of (Atom t) = 1"
| "states_of (Cat r s) = states_of r + states_of s"
| "states_of (Alt r s) = states_of r + states_of s + 1"
| "states_of (Plus r) = states_of r + 1"
| "states_of (Star r) = states_of r + 1"
| "states_of (Opt r) = states_of r + 1"

section \<open>Infix and postfix\<close>

fun postfix :: "rexp \<Rightarrow> ReToken list" where
  "postfix (Atom t) = [t]"
| "postfix (Cat r s) = postfix r @ postfix s @ [op CHR ''&'']"
| "postfix (Alt r s) = postfix r @ postfix s @ [op CHR ''|'']"
| "postfix (Plus r) = postfix r @ [op CHR ''+'']"
| "postfix (Star r) = postfix r @ [op CHR ''*'']"
| "postfix (Opt r) = postfix r @ [op CHR ''?'']"

text \<open>
  The grammar of the tokens: alternatives of concatenations of repetitions. The tokens of
  \<^verbatim>\<open>.\<close> are a range and an operator that the conversion ignores.
\<close>

inductive rep_tokens :: "rexp \<Rightarrow> ReToken list \<Rightarrow> bool"
  and cat_tokens :: "rexp \<Rightarrow> ReToken list \<Rightarrow> bool"
  and alt_tokens :: "rexp \<Rightarrow> ReToken list \<Rightarrow> bool" where
  rep_atom: "getType t \<noteq> OPERATOR \<Longrightarrow> rep_tokens (Atom t) [t]"
| rep_dot: "rep_tokens r ts \<Longrightarrow> rep_tokens r (ts @ [op CHR ''.''])"
| rep_group: "alt_tokens r ts \<Longrightarrow> rep_tokens r (op CHR ''('' # ts @ [op CHR '')''])"
| rep_plus: "rep_tokens r ts \<Longrightarrow> rep_tokens (Plus r) (ts @ [op CHR ''+''])"
| rep_star: "rep_tokens r ts \<Longrightarrow> rep_tokens (Star r) (ts @ [op CHR ''*''])"
| rep_opt: "rep_tokens r ts \<Longrightarrow> rep_tokens (Opt r) (ts @ [op CHR ''?''])"
| cat_one: "rep_tokens r ts \<Longrightarrow> cat_tokens r ts"
| cat_more: "cat_tokens r ts \<Longrightarrow> rep_tokens s us \<Longrightarrow> cat_tokens (Cat r s) (ts @ us)"
| alt_one: "cat_tokens r ts \<Longrightarrow> alt_tokens r ts"
| alt_more: "cat_tokens r ts \<Longrightarrow> alt_tokens s us \<Longrightarrow>
     alt_tokens (Alt r s) (ts @ op CHR ''|'' # us)"

text \<open>The concatenation sign that is still owed when two operands are pending.\<close>

definition owed :: "int \<Rightarrow> ReToken list" where
  "owed l = (if l = 2 then [op CHR ''&''] else [])"

lemma pop_lits_owed: "2 \<le> fuel \<Longrightarrow> l = 1 \<or> l = 2 \<Longrightarrow> pop_lits fuel l ret = Inr (ret @ owed l)"
  by (cases fuel; cases "fuel - 1") (auto simp: owed_def)

lemma pop_alts_eq: "pop_alts n ret = ret @ replicate n (op CHR ''|'')"
  by (induction n arbitrary: ret) (simp_all add: replicate_append_same)

lemma infix_loop_grammar:
  assumes "2 \<le> fuel"
  shows "rep_tokens r ts \<Longrightarrow> l \<in> {0, 1, 2} \<Longrightarrow>
      infix_loop fuel (a # alts) (l # lits) ret (ts @ rest) =
      infix_loop fuel (a # alts) ((if l = 2 then 2 else l + 1) # lits) (ret @ owed l @ postfix r) rest"
    and "cat_tokens r ts \<Longrightarrow> \<exists>l' p. l' \<in> {1, 2} \<and> p @ owed l' = postfix r \<and>
      infix_loop fuel (a # alts) (0 # lits) ret (ts @ rest) =
      infix_loop fuel (a # alts) (l' # lits) (ret @ p) rest"
    and "alt_tokens r ts \<Longrightarrow> \<exists>n l' p. l' \<in> {1, 2} \<and> p @ owed l' @ replicate n (op CHR ''|'') = postfix r \<and>
      infix_loop fuel (a # alts) (0 # lits) ret (ts @ rest) =
      infix_loop fuel ((a + n) # alts) (l' # lits) (ret @ p) rest"
proof (induction arbitrary: l a alts lits ret rest and a alts lits ret rest and a alts lits ret rest
    rule: rep_tokens_cat_tokens_alt_tokens.inducts)
  case (rep_atom t)
  then show ?case by (auto simp: owed_def)
next
  case (rep_dot r ts)
  then show ?case by (auto simp: owed_def)
next
  case (rep_group r ts)
  let ?l = "if l = 2 then 1 else l"
  obtain n l' p where inner: "l' \<in> {1, 2}" "p @ owed l' @ replicate n (op CHR ''|'') = postfix r"
    "infix_loop fuel (0 # a # alts) (0 # ?l # lits) (ret @ owed l) (ts @ op CHR '')'' # rest) =
     infix_loop fuel ((0 + n) # a # alts) (l' # ?l # lits) ((ret @ owed l) @ p) (op CHR '')'' # rest)"
    using rep_group.IH [of 0 "a # alts" "?l # lits" "ret @ owed l" "op CHR '')'' # rest"] by blast
  have "infix_loop fuel (a # alts) (l # lits) ret ((op CHR ''('' # ts @ [op CHR '')'']) @ rest) =
      infix_loop fuel (0 # a # alts) (0 # ?l # lits) (ret @ owed l) (ts @ op CHR '')'' # rest)"
    using rep_group.prems by (auto simp: owed_def)
  also have "\<dots> = infix_loop fuel (a # alts) ((?l + 1) # lits) (ret @ owed l @ postfix r) rest"
    unfolding inner(3) using inner(1) pop_lits_owed [OF assms, of l' "(ret @ owed l) @ p"] inner(2)
    by (auto simp: pop_alts_eq)
  finally show ?case using rep_group.prems by auto
next
  case (rep_plus r ts)
  then show ?case by (auto simp: owed_def)
next
  case (rep_star r ts)
  then show ?case by (auto simp: owed_def)
next
  case (rep_opt r ts)
  then show ?case by (auto simp: owed_def)
next
  case (cat_one r ts)
  have "infix_loop fuel (a # alts) (0 # lits) ret (ts @ rest) =
      infix_loop fuel (a # alts) (1 # lits) (ret @ postfix r) rest"
    using cat_one.IH [of 0] by (simp add: owed_def)
  then show ?case by (intro exI [of _ 1] exI [of _ "postfix r"]) (simp add: owed_def)
next
  case (cat_more r ts s us)
  obtain l' p where r: "l' \<in> {1, 2}" "p @ owed l' = postfix r"
    "infix_loop fuel (a # alts) (0 # lits) ret (ts @ us @ rest) =
     infix_loop fuel (a # alts) (l' # lits) (ret @ p) (us @ rest)"
    using cat_more.IH(1) [of a alts lits ret "us @ rest"] by blast
  have "infix_loop fuel (a # alts) (l' # lits) (ret @ p) (us @ rest) =
      infix_loop fuel (a # alts) (2 # lits) (ret @ postfix r @ postfix s) rest"
    using cat_more.IH(2) [of l' a alts lits "ret @ p" rest] r(1) by (auto simp flip: r(2))
  with r show ?case
    by (intro exI [of _ 2] exI [of _ "postfix r @ postfix s"]) (simp add: owed_def)
next
  case (alt_one r ts)
  then show ?case by (metis add_0_right append_Nil2 replicate_0)
next
  case (alt_more r ts s us)
  obtain l' p where r: "l' \<in> {1, 2}" "p @ owed l' = postfix r"
    "infix_loop fuel (a # alts) (0 # lits) ret (ts @ op CHR ''|'' # us @ rest) =
     infix_loop fuel (a # alts) (l' # lits) (ret @ p) (op CHR ''|'' # us @ rest)"
    using alt_more.IH(1) [of a alts lits ret "op CHR ''|'' # us @ rest"] by blast
  have mid: "infix_loop fuel (a # alts) (l' # lits) (ret @ p) (op CHR ''|'' # us @ rest) =
      infix_loop fuel ((a + 1) # alts) (0 # lits) (ret @ postfix r) (us @ rest)"
    using r(1,2) pop_lits_owed [OF assms, of l' "ret @ p"] by auto
  obtain n l'' p' where s: "l'' \<in> {1, 2}" "p' @ owed l'' @ replicate n (op CHR ''|'') = postfix s"
    "infix_loop fuel ((a + 1) # alts) (0 # lits) (ret @ postfix r) (us @ rest) =
     infix_loop fuel ((a + 1 + n) # alts) (l'' # lits) ((ret @ postfix r) @ p') rest"
    using alt_more.IH(2) [of "a + 1" alts lits "ret @ postfix r" rest] by blast
  have "(postfix r @ p') @ owed l'' @ replicate (n + 1) (op CHR ''|'') = postfix (Alt r s)"
    using s(2) by (simp add: replicate_append_same [symmetric])
  moreover have "infix_loop fuel (a # alts) (0 # lits) ret ((ts @ op CHR ''|'' # us) @ rest) =
      infix_loop fuel ((a + (n + 1)) # alts) (l'' # lits) (ret @ (postfix r @ p')) rest"
    using r(3) mid s(3) by (simp add: algebra_simps)
  ultimately show ?case using s(1) by blast
qed

text \<open>
  C22. On the tokens of a pattern of the grammar, without empty alternatives or groups,
  \<^verbatim>\<open>infixToPostfix\<close> ends and returns the postfix form of the pattern, in which postfix
  operators bind tightest, then concatenation, then \<^verbatim>\<open>|\<close>, and brackets group.
\<close>

theorem infix_to_postfix_correct:
  assumes "alt_tokens r ts" "2 \<le> fuel"
  shows "infixToPostfix fuel ts = Inr (Inr (postfix r))"
proof -
  obtain n l' p where "l' \<in> {1, 2}" "p @ owed l' @ replicate n (op CHR ''|'') = postfix r"
    "infix_loop fuel [0] [0] [] (ts @ []) = infix_loop fuel [0 + n] [l'] ([] @ p) []"
    using infix_loop_grammar(3) [OF assms(2,1), of 0 "[]" "[]" "[]" "[]"] by blast
  with pop_lits_owed [OF assms(2), of l' p] show ?thesis
    by (auto simp: infixToPostfix_def pop_alts_eq)
qed

text \<open>The expression and the tokens of \<^verbatim>\<open>ab|abcd\<close>.\<close>

definition lit :: "char \<Rightarrow> ReToken" where
  "lit c = ReToken LITERAL c"

definition sample_re :: rexp where
  "sample_re = Alt (Cat (Atom (lit CHR ''a'')) (Atom (lit CHR ''b'')))
     (Cat (Cat (Cat (Atom (lit CHR ''a'')) (Atom (lit CHR ''b''))) (Atom (lit CHR ''c''))) (Atom (lit CHR ''d'')))"

definition sample_tokens :: "ReToken list" where
  "sample_tokens = map lit ''ab'' @ op CHR ''|'' # map lit ''abcd''"

lemma rep_lit: "rep_tokens (Atom (lit c)) [lit c]"
  by (rule rep_atom) (simp add: lit_def)

lemma cat_snoc: "cat_tokens r ts \<Longrightarrow> cat_tokens (Cat r (Atom (lit c))) (ts @ [lit c])"
  by (intro cat_more rep_lit)

lemma sample_grammar: "alt_tokens sample_re sample_tokens"
proof -
  let ?a = "Atom (lit CHR ''a'')" and ?b = "Atom (lit CHR ''b'')"
  have "cat_tokens (Cat ?a ?b) (map lit ''ab'')"
    using cat_snoc [OF cat_one [OF rep_lit]] by simp
  moreover have "cat_tokens (Cat (Cat (Cat ?a ?b) (Atom (lit CHR ''c''))) (Atom (lit CHR ''d''))) (map lit ''abcd'')"
    using cat_snoc [OF cat_snoc [OF cat_snoc [OF cat_one [OF rep_lit]]]] by simp
  ultimately show ?thesis
    unfolding sample_re_def sample_tokens_def by (intro alt_more alt_one)
qed

theorem infix_to_postfix_correct_witness:
  "infixToPostfix 2 sample_tokens = Inr (Inr (postfix sample_re))"
  by (rule infix_to_postfix_correct [OF sample_grammar]) simp

end
