(* ===== verification/RegExNfa.thy ===== *)
theory RegExNfa
  imports RegExSpec
begin

text \<open>
  Thompson's construction: the NFA that \<^verbatim>\<open>build\<close> makes of the postfix form of an expression
  accepts the language of the expression, and its recursion over the split states ends;
  and the simulation of the NFA by \<^verbatim>\<open>scan\<close>.
\<close>

section \<open>What is accepted from a state\<close>

text \<open>
  The strings on which the state \<open>p\<close> reaches the match state or an end that is not connected
  yet: the missing \<^verbatim>\<open>m_out\<close> of an atom or the missing \<^verbatim>\<open>m_out1\<close> of a split.
\<close>

definition dangling :: "nfa_state \<Rightarrow> bool" where
  "dangling s \<longleftrightarrow> (if s_type s = S_SPLIT then s_out1 s = None else s_out s = None)"

inductive acc :: "nfa_state list \<Rightarrow> nat \<Rightarrow> string \<Rightarrow> bool" for st where
  acc_match: "s_type (st ! p) = S_MATCH \<Longrightarrow> acc st p []"
| acc_atom_end: "s_type (st ! p) \<notin> {S_MATCH, S_SPLIT} \<Longrightarrow> s_out (st ! p) = None \<Longrightarrow>
     state_matches (st ! p) c = Inr True \<Longrightarrow> acc st p [c]"
| acc_atom: "s_type (st ! p) \<notin> {S_MATCH, S_SPLIT} \<Longrightarrow> s_out (st ! p) = Some q \<Longrightarrow>
     state_matches (st ! p) c = Inr True \<Longrightarrow> acc st q w \<Longrightarrow> acc st p (c # w)"
| acc_split_end: "s_type (st ! p) = S_SPLIT \<Longrightarrow> s_out1 (st ! p) = None \<Longrightarrow> acc st p []"
| acc_split: "s_type (st ! p) = S_SPLIT \<Longrightarrow> s_out (st ! p) = Some q \<Longrightarrow> acc st q w \<Longrightarrow> acc st p w"
| acc_split1: "s_type (st ! p) = S_SPLIT \<Longrightarrow> s_out1 (st ! p) = Some q \<Longrightarrow> acc st q w \<Longrightarrow> acc st p w"

inductive_simps acc_simps: "acc st p w"

definition accepts :: "nfa_state list \<Rightarrow> nat \<Rightarrow> string set" where
  "accepts st p = {w. acc st p w}"

lemma accepts_match: "s_type (st ! p) = S_MATCH \<Longrightarrow> accepts st p = {[]}"
  by (auto simp: accepts_def acc_simps [of st p])

lemma accepts_split:
  "s_type (st ! p) = S_SPLIT \<Longrightarrow> s_out (st ! p) = Some q \<Longrightarrow>
   accepts st p = accepts st q \<union> (case s_out1 (st ! p) of None \<Rightarrow> {[]} | Some r \<Rightarrow> accepts st r)"
  by (auto simp: accepts_def acc_simps [of st p] split: option.splits)

lemma accepts_atom_end:
  "s_type (st ! p) \<notin> {S_MATCH, S_SPLIT} \<Longrightarrow> s_out (st ! p) = None \<Longrightarrow>
   accepts st p = {[c] | c. state_matches (st ! p) c = Inr True}"
  by (auto simp: accepts_def acc_simps [of st p])

lemma accepts_atom:
  "s_type (st ! p) \<notin> {S_MATCH, S_SPLIT} \<Longrightarrow> s_out (st ! p) = Some q \<Longrightarrow>
   c # w \<in> accepts st p \<longleftrightarrow> state_matches (st ! p) c = Inr True \<and> w \<in> accepts st q"
  by (auto simp: accepts_def acc_simps [of st p])

lemma accepts_atom_Nil:
  "s_type (st ! p) \<notin> {S_MATCH, S_SPLIT} \<Longrightarrow> [] \<notin> accepts st p"
  by (auto simp: accepts_def acc_simps [of st p])

section \<open>Regions\<close>

text \<open>
  The states of a fragment, an interval that nothing leaves, with its unconnected ends.
\<close>

definition state_in :: "nat \<Rightarrow> nat \<Rightarrow> nfa_state \<Rightarrow> bool" where
  "state_in lo hi s \<longleftrightarrow> s_type s \<noteq> S_MATCH \<and>
     (s_type s = S_SPLIT \<longrightarrow> s_out s \<noteq> None) \<and> (s_type s \<noteq> S_SPLIT \<longrightarrow> s_out1 s = None) \<and>
     (\<forall>q. s_out s = Some q \<or> s_out1 s = Some q \<longrightarrow> lo \<le> q \<and> q < hi)"

definition region :: "nfa_state list \<Rightarrow> nat \<Rightarrow> nat \<Rightarrow> nat list \<Rightarrow> bool" where
  "region st lo hi T \<longleftrightarrow> hi \<le> length st \<and> distinct T \<and>
     (\<forall>p. p \<in> set T \<longleftrightarrow> lo \<le> p \<and> p < hi \<and> dangling (st ! p)) \<and>
     (\<forall>p. lo \<le> p \<longrightarrow> p < hi \<longrightarrow> state_in lo hi (st ! p))"

lemma region_len: "region st lo hi T \<Longrightarrow> hi \<le> length st"
  and region_distinct: "region st lo hi T \<Longrightarrow> distinct T"
  and region_T: "region st lo hi T \<Longrightarrow> p \<in> set T \<longleftrightarrow> lo \<le> p \<and> p < hi \<and> dangling (st ! p)"
  and region_state: "region st lo hi T \<Longrightarrow> lo \<le> p \<Longrightarrow> p < hi \<Longrightarrow> state_in lo hi (st ! p)"
  by (simp_all add: region_def)

lemma regionD:
  assumes "region st lo hi T" "lo \<le> p" "p < hi"
  shows "s_type (st ! p) \<noteq> S_MATCH" "s_type (st ! p) = S_SPLIT \<Longrightarrow> s_out (st ! p) \<noteq> None"
    "s_type (st ! p) \<noteq> S_SPLIT \<Longrightarrow> s_out1 (st ! p) = None"
    "s_out (st ! p) = Some q \<Longrightarrow> lo \<le> q \<and> q < hi"
    "s_out1 (st ! p) = Some q \<Longrightarrow> lo \<le> q \<and> q < hi"
  using region_state [OF assms] by (simp_all add: state_in_def)

lemma region_cong:
  assumes "region st lo hi T" "\<And>p. lo \<le> p \<Longrightarrow> p < hi \<Longrightarrow> st' ! p = st ! p" "hi \<le> length st'"
  shows "region st' lo hi T"
proof -
  have "p \<in> set T \<longleftrightarrow> lo \<le> p \<and> p < hi \<and> dangling (st' ! p)" for p
    using region_T [OF assms(1), of p] assms(2) [of p] by auto
  moreover have "state_in lo hi (st' ! p)" if "lo \<le> p" "p < hi" for p
    using region_state [OF assms(1) that] assms(2) [OF that] by simp
  ultimately show ?thesis
    using region_distinct [OF assms(1)] assms(3) unfolding region_def by blast
qed

lemma acc_region_mono:
  assumes "region st lo hi T" "\<And>p. lo \<le> p \<Longrightarrow> p < hi \<Longrightarrow> st' ! p = st ! p"
  shows "acc st p w \<Longrightarrow> lo \<le> p \<Longrightarrow> p < hi \<Longrightarrow> acc st' p w"
proof (induction rule: acc.induct)
  case (acc_match p)
  then show ?case using assms(2) by (auto intro: acc.acc_match)
next
  case (acc_atom_end p c)
  then show ?case using assms(2) by (auto intro: acc.acc_atom_end)
next
  case (acc_atom p q c w)
  then show ?case using assms(2) [of p] regionD(4) [OF assms(1), of p q] by (auto intro: acc.acc_atom)
next
  case (acc_split_end p)
  then show ?case using assms(2) by (auto intro: acc.acc_split_end)
next
  case (acc_split p q w)
  then show ?case using assms(2) [of p] regionD(4) [OF assms(1), of p q] by (auto intro: acc.acc_split)
next
  case (acc_split1 p q w)
  then show ?case using assms(2) [of p] regionD(5) [OF assms(1), of p q] by (auto intro: acc.acc_split1)
qed

lemma accepts_region:
  assumes "region st lo hi T" "\<And>p. lo \<le> p \<Longrightarrow> p < hi \<Longrightarrow> st' ! p = st ! p" "hi \<le> length st'"
    "lo \<le> p" "p < hi"
  shows "accepts st' p = accepts st p"
proof -
  have r': "region st' lo hi T" by (rule region_cong [OF assms(1-3)])
  have "st ! q = st' ! q" if "lo \<le> q" "q < hi" for q using assms(2) [OF that] by simp
  then show ?thesis
    using acc_region_mono [OF assms(1,2)] acc_region_mono [OF r'] assms(4,5)
    unfolding accepts_def by blast
qed

section \<open>Connecting\<close>

lemma length_connect_loop [simp]: "length (connect_loop T k st) = length st"
  by (induction T arbitrary: st) auto

lemma nth_connect_loop:
  "distinct T \<Longrightarrow> \<forall>t \<in> set T. t < length st \<Longrightarrow>
   connect_loop T k st ! p = (if p \<in> set T then connect_one k (st ! p) else st ! p)"
  by (induction T arbitrary: st) (auto simp: nth_list_update)

lemma connect_one_simps [simp]:
  "s_type (connect_one k s) = s_type s" "s_literal (connect_one k s) = s_literal s"
  by (simp_all add: connect_one_def)

lemma connect_one_matches [simp]: "state_matches (connect_one k s) c = state_matches s c"
  unfolding state_matches_def connect_one_simps ..

lemma connect_one_out:
  "s_out (connect_one k s) = (case s_out s of None \<Rightarrow> Some k | Some q \<Rightarrow> Some q)"
  "s_out1 (connect_one k s) = (case s_out s of None \<Rightarrow> s_out1 s | Some q \<Rightarrow> Some k)"
  by (auto simp: connect_one_def split: option.splits)

text \<open>
  Connecting the ends of a region to a state \<open>k\<close> puts what \<open>k\<close> accepts behind what the states
  of the region accepted, and leaves everything else alone.
\<close>

lemma connected_nth:
  assumes "region st lo hi T"
  shows "connect_loop T k st ! p =
    (if lo \<le> p \<and> p < hi \<and> dangling (st ! p) then connect_one k (st ! p) else st ! p)"
proof -
  have "\<forall>t \<in> set T. t < length st" using assms region_T region_len by fastforce
  then show ?thesis
    using nth_connect_loop [OF region_distinct [OF assms]] region_T [OF assms, of p] by simp
qed

text \<open>The successors of a state of the region after connecting.\<close>

lemma connected_state:
  fixes k :: nat
  assumes "region st lo hi T" "lo \<le> p" "p < hi"
  defines "s' \<equiv> connect_loop T k st ! p"
  shows "s_type s' = s_type (st ! p)" "state_matches s' c = state_matches (st ! p) c"
    "s_type (st ! p) \<noteq> S_SPLIT \<Longrightarrow> s_out s' = Some (case s_out (st ! p) of None \<Rightarrow> k | Some q \<Rightarrow> q)"
    "s_type (st ! p) \<noteq> S_SPLIT \<Longrightarrow> s_out1 s' = None"
    "s_type (st ! p) = S_SPLIT \<Longrightarrow> s_out s' = s_out (st ! p)"
    "s_type (st ! p) = S_SPLIT \<Longrightarrow> s_out1 s' = Some (case s_out1 (st ! p) of None \<Rightarrow> k | Some q \<Rightarrow> q)"
  using regionD [OF assms(1-3)]
  by (auto simp: s'_def connected_nth [OF assms(1)] assms(2,3) dangling_def connect_one_out
      split: option.splits)

lemma connected_acc_split:
  assumes "region st lo hi T"
  shows "acc (connect_loop T k st) p w \<Longrightarrow> lo \<le> p \<Longrightarrow> p < hi \<Longrightarrow>
    \<exists>u v. w = u @ v \<and> acc st p u \<and> acc (connect_loop T k st) k v"
proof (induction rule: acc.induct)
  case (acc_match p)
  then show ?case using regionD(1) [OF assms] connected_state(1) [OF assms] by simp
next
  case (acc_atom_end p c)
  then show ?case using connected_state(1,3) [OF assms] by simp
next
  case (acc_atom p q c w)
  note st = connected_state [OF assms acc_atom.prems, of k]
  show ?case
  proof (cases "s_out (st ! p)")
    case None
    then have "q = k" using acc_atom st by simp
    moreover have "acc st p [c]" using acc_atom st None by (auto intro: acc.acc_atom_end)
    ultimately show ?thesis using acc_atom.hyps by (intro exI [of _ "[c]"] exI [of _ w]) simp
  next
    case (Some q')
    then have "q' = q" using acc_atom st by simp
    with Some have "lo \<le> q" "q < hi" using regionD(4) [OF assms acc_atom.prems] by auto
    with acc_atom.IH obtain u v where "w = u @ v" "acc st q u" "acc (connect_loop T k st) k v" by blast
    moreover have "acc st p (c # u)"
      using acc_atom st Some \<open>q' = q\<close> \<open>acc st q u\<close> by (auto intro: acc.acc_atom)
    ultimately show ?thesis by (intro exI [of _ "c # u"] exI [of _ v]) simp
  qed
next
  case (acc_split_end p)
  then show ?case using connected_state(1,6) [OF assms, of p] by simp
next
  case (acc_split p q w)
  note st = connected_state [OF assms acc_split.prems, of k]
  have q: "s_type (st ! p) = S_SPLIT" "s_out (st ! p) = Some q" using acc_split st by simp_all
  then have "lo \<le> q" "q < hi" using regionD(4) [OF assms acc_split.prems] by auto
  with acc_split.IH obtain u v where "w = u @ v" "acc st q u" "acc (connect_loop T k st) k v" by blast
  then show ?case using acc.acc_split [OF q] by blast
next
  case (acc_split1 p q w)
  note st = connected_state [OF assms acc_split1.prems, of k]
  have t: "s_type (st ! p) = S_SPLIT" using acc_split1 st by simp
  show ?case
  proof (cases "s_out1 (st ! p)")
    case None
    then have "q = k" using acc_split1 st t by simp
    with acc_split1.hyps acc.acc_split_end [OF t None] show ?thesis
      by (intro exI [of _ "[]"] exI [of _ w]) simp
  next
    case (Some q')
    then have "q' = q" using acc_split1 st t by simp
    with Some have "lo \<le> q" "q < hi" using regionD(5) [OF assms acc_split1.prems] by auto
    with acc_split1.IH obtain u v where "w = u @ v" "acc st q u" "acc (connect_loop T k st) k v" by blast
    then show ?thesis using acc.acc_split1 [OF t] Some \<open>q' = q\<close> by blast
  qed
qed

lemma connected_acc_join:
  assumes "region st lo hi T" "acc (connect_loop T k st) k v"
  shows "acc st p u \<Longrightarrow> lo \<le> p \<Longrightarrow> p < hi \<Longrightarrow> acc (connect_loop T k st) p (u @ v)"
proof (induction rule: acc.induct)
  case (acc_match p)
  then show ?case using regionD(1) [OF assms(1)] by simp
next
  case (acc_atom_end p c)
  then show ?case
    using connected_state [OF assms(1) acc_atom_end.prems, of k] assms(2) by (auto intro: acc.acc_atom)
next
  case (acc_atom p q c w)
  then show ?case
    using connected_state [OF assms(1) acc_atom.prems, of k] regionD(4) [OF assms(1) acc_atom.prems, of q]
    by (auto intro: acc.acc_atom)
next
  case (acc_split_end p)
  then show ?case
    using connected_state [OF assms(1) acc_split_end.prems, of k] assms(2) by (auto intro: acc.acc_split1)
next
  case (acc_split p q w)
  then show ?case
    using connected_state [OF assms(1) acc_split.prems, of k] regionD(4) [OF assms(1) acc_split.prems, of q]
    by (auto intro: acc.acc_split)
next
  case (acc_split1 p q w)
  then show ?case
    using connected_state [OF assms(1) acc_split1.prems, of k] regionD(5) [OF assms(1) acc_split1.prems, of q]
    by (auto intro: acc.acc_split1)
qed

lemma accepts_connected:
  assumes "region st lo hi T" "lo \<le> p" "p < hi"
  shows "accepts (connect_loop T k st) p = conc (accepts st p) (accepts (connect_loop T k st) k)"
  using connected_acc_split [OF assms(1) _ assms(2,3)] connected_acc_join [OF assms(1) _ _ assms(2,3)]
  unfolding accepts_def conc_def by blast


lemma connected_in:
  assumes "region st lo hi T" "lo \<le> p" "p < hi" "lo' \<le> lo" "hi \<le> hi'" "lo' \<le> k" "k < hi'"
  shows "state_in lo' hi' (connect_loop T k st ! p) \<and> \<not> dangling (connect_loop T k st ! p)"
  using connected_state [OF assms(1-3), of k] regionD [OF assms(1-3)] assms(4-7)
  by (cases "s_type (st ! p) = S_SPLIT")
    (auto simp: state_in_def dangling_def split: option.splits)

section \<open>States whose splits end\<close>

inductive fin :: "nfa_state list \<Rightarrow> nat \<Rightarrow> bool" for st where
  fin_other: "p < length st \<Longrightarrow> s_type (st ! p) \<noteq> S_SPLIT \<Longrightarrow> fin st p"
| fin_split: "p < length st \<Longrightarrow> s_type (st ! p) = S_SPLIT \<Longrightarrow>
     (\<And>q. s_out (st ! p) = Some q \<Longrightarrow> fin st q) \<Longrightarrow>
     (\<And>q. s_out1 (st ! p) = Some q \<Longrightarrow> fin st q) \<Longrightarrow> fin st p"

lemma fin_region:
  assumes "region st lo hi T" "\<And>p. lo \<le> p \<Longrightarrow> p < hi \<Longrightarrow> st' ! p = st ! p" "hi \<le> length st'"
  shows "fin st p \<Longrightarrow> lo \<le> p \<Longrightarrow> p < hi \<Longrightarrow> fin st' p"
proof (induction rule: fin.induct)
  case (fin_other p)
  then show ?case using assms(2) [of p] assms(3) by (intro fin.fin_other) auto
next
  case (fin_split p)
  have e: "st' ! p = st ! p" using assms(2) fin_split.prems by blast
  show ?case
  proof (rule fin.fin_split)
    show "p < length st'" using assms(3) fin_split.prems by simp
    show "s_type (st' ! p) = S_SPLIT" using e fin_split.hyps by simp
    show "s_out (st' ! p) = Some q \<Longrightarrow> fin st' q" for q
      using e fin_split regionD(4) [OF assms(1) fin_split.prems] by simp
    show "s_out1 (st' ! p) = Some q \<Longrightarrow> fin st' q" for q
      using e fin_split regionD(5) [OF assms(1) fin_split.prems] by simp
  qed
qed

lemma fin_connected:
  assumes "region st lo hi T" "fin (connect_loop T k st) k"
  shows "fin st p \<Longrightarrow> lo \<le> p \<Longrightarrow> p < hi \<Longrightarrow> fin (connect_loop T k st) p"
proof (induction rule: fin.induct)
  case (fin_other p)
  then show ?case using connected_state [OF assms(1), of p k] by (intro fin.fin_other) auto
next
  case (fin_split p)
  note c = connected_state [OF assms(1) fin_split.prems, of k]
  show ?case
  proof (rule fin.fin_split)
    fix q assume "s_out1 (connect_loop T k st ! p) = Some q"
    then show "fin (connect_loop T k st) q"
      using c fin_split regionD(5) [OF assms(1) fin_split.prems] assms(2)
      by (auto split: option.splits)
  qed (use c fin_split regionD(4) [OF assms(1) fin_split.prems] in auto)
qed

text \<open>A state that does not accept the empty string does not come to an end of its region.\<close>

lemma fin_nonnull:
  assumes "region st lo hi T"
  shows "fin st p \<Longrightarrow> lo \<le> p \<Longrightarrow> p < hi \<Longrightarrow> [] \<notin> accepts st p \<Longrightarrow> fin (connect_loop T k st) p"
proof (induction rule: fin.induct)
  case (fin_other p)
  then show ?case using connected_state [OF assms(1), of p k] by (intro fin.fin_other) auto
next
  case (fin_split p)
  note c = connected_state [OF assms(1) fin_split.prems(1,2), of k]
  obtain q where q: "s_out (st ! p) = Some q"
    using regionD(2) [OF assms fin_split.prems(1,2)] fin_split.hyps by auto
  then obtain r where r: "s_out1 (st ! p) = Some r"
    using accepts_split [OF fin_split.hyps(2) q] fin_split.prems(3) by (auto split: option.splits)
  have ne: "[] \<notin> accepts st q" "[] \<notin> accepts st r"
    using accepts_split [OF fin_split.hyps(2) q] fin_split.prems(3) r by auto
  show ?case
    by (rule fin.fin_split)
      (use c q r ne fin_split regionD(4,5) [OF assms(1) fin_split.prems(1,2)] in auto)
qed

section \<open>Fragments\<close>

definition known_state :: "nfa_state \<Rightarrow> bool" where
  "known_state s \<longleftrightarrow> (s_type s = S_RANGE \<longrightarrow> s_literal s \<in> set ''.sdwa'')"

definition frag_ok :: "nfa_state list \<Rightarrow> nat \<Rightarrow> nat \<Rightarrow> Fragment \<Rightarrow> string set \<Rightarrow> bool" where
  "frag_ok st lo hi f L \<longleftrightarrow> region st lo hi (f_terminals f) \<and> lo \<le> f_start f \<and> f_start f < hi \<and>
     accepts st (f_start f) = L \<and>
     (\<forall>p. lo \<le> p \<longrightarrow> p < hi \<longrightarrow> fin st p \<and> known_state (st ! p))"

lemma frag_ok_cong:
  assumes "frag_ok st lo hi f L" "\<And>p. lo \<le> p \<Longrightarrow> p < hi \<Longrightarrow> st' ! p = st ! p" "hi \<le> length st'"
  shows "frag_ok st' lo hi f L"
proof -
  have r: "region st lo hi (f_terminals f)" "lo \<le> f_start f" "f_start f < hi"
    using assms(1) by (simp_all add: frag_ok_def)
  have "fin st' p \<and> known_state (st' ! p)" if "lo \<le> p" "p < hi" for p
    using fin_region [OF r(1) assms(2,3), of p] that assms(1,2) by (simp add: frag_ok_def)
  then show ?thesis
    using region_cong [OF r(1) assms(2,3)] accepts_region [OF r(1) assms(2,3) r(2,3)] assms(1)
    by (simp add: frag_ok_def)
qed

lemma known_connected:
  "known_state (connect_loop T k st ! p) = known_state (st ! p)" if "region st lo hi T"
  by (simp add: connected_nth [OF that] known_state_def)

text \<open>An atom.\<close>

lemma frag_atom:
  assumes "atom_ok t"
  shows "frag_ok (st @ [new_state_ch (state_type_of (getType t)) (getCh t)]) (length st) (Suc (length st))
    \<lparr>f_start = length st, f_terminals = [length st]\<rparr> (lang (Atom t))"
proof -
  let ?s = "new_state_ch (state_type_of (getType t)) (getCh t)"
  let ?st = "st @ [?s]"
  have s: "s_type ?s \<notin> {S_MATCH, S_SPLIT}" "s_out ?s = None" "s_out1 ?s = None"
    by (cases "getType t"; simp add: new_state_ch_def)+
  have nth: "?st ! length st = ?s" by simp
  have "state_in (length st) (Suc (length st)) ?s" "dangling ?s"
    using s by (simp_all add: state_in_def dangling_def)
  then have reg: "region ?st (length st) (Suc (length st)) [length st]"
    unfolding region_def using nth by (metis (no_types, lifting) distinct_singleton empty_set
        insert_iff length_append_singleton less_antisym list.simps(15) not_le order_refl singletonD lessI)
  have "accepts ?st (length st) = lang (Atom t)"
    using accepts_atom_end [of ?st "length st"] s by (simp add: tok_matches_def)
  moreover have "fin ?st (length st)" by (rule fin.fin_other) (use s in simp_all)
  moreover have "known_state ?s"
    using assms by (cases "getType t") (auto simp: known_state_def new_state_ch_def atom_ok_def)
  ultimately have "fin ?st p \<and> known_state (?st ! p)" if "length st \<le> p" "p < Suc (length st)" for p
    using that nth by (metis le_less_Suc_eq)
  with reg \<open>accepts ?st (length st) = lang (Atom t)\<close> show ?thesis by (simp add: frag_ok_def)
qed

text \<open>Concatenation: the ends of the first fragment go to the start of the second.\<close>

lemma frag_cat:
  assumes f: "frag_ok st lo mid f L" and g: "frag_ok st mid hi g M"
  shows "frag_ok (connect_loop (f_terminals f) (f_start g) st) lo hi
    \<lparr>f_start = f_start f, f_terminals = f_terminals g\<rparr> (conc L M)"
proof -
  let ?st = "connect_loop (f_terminals f) (f_start g) st"
  have rf: "region st lo mid (f_terminals f)" "lo \<le> f_start f" "f_start f < mid"
    and rg: "region st mid hi (f_terminals g)" "mid \<le> f_start g" "f_start g < hi"
    using f g by (simp_all add: frag_ok_def)
  have same: "?st ! p = st ! p" if "mid \<le> p" "p < hi" for p
    using that by (simp add: connected_nth [OF rf(1)])
  have g': "frag_ok ?st mid hi g M"
    by (rule frag_ok_cong [OF g same]) (use region_len [OF rg(1)] in simp_all)
  have lt: "lo < mid" "mid < hi" using rf rg by auto
  have in1: "state_in lo hi (?st ! p) \<and> \<not> dangling (?st ! p)" if "lo \<le> p" "p < mid" for p
    by (rule connected_in [OF rf(1) that]) (use rg lt in auto)
  have in2: "state_in lo hi (?st ! p)" if "mid \<le> p" "p < hi" for p
    using region_state [OF rg(1) that] same [OF that] lt by (auto simp: state_in_def)
  have reg: "region ?st lo hi (f_terminals g)"
    unfolding region_def
  proof (intro conjI allI impI)
    show "hi \<le> length ?st" using region_len [OF rg(1)] by simp
    show "distinct (f_terminals g)" using region_distinct [OF rg(1)] .
    fix p
    show "p \<in> set (f_terminals g) \<longleftrightarrow> lo \<le> p \<and> p < hi \<and> dangling (?st ! p)"
      using region_T [OF rg(1), of p] in1 [of p] same [of p] lt by (cases "p < mid") auto
    show "lo \<le> p \<Longrightarrow> p < hi \<Longrightarrow> state_in lo hi (?st ! p)"
      using in1 in2 by (cases "p < mid") auto
  qed
  have fk: "fin ?st (f_start g)" using g' rg by (simp add: frag_ok_def)
  have "fin ?st p \<and> known_state (?st ! p)" if "lo \<le> p" "p < hi" for p
  proof (cases "p < mid")
    case True
    then show ?thesis using that f fin_connected [OF rf(1) fk, of p]
      by (simp add: frag_ok_def known_connected [OF rf(1)])
  next
    case False
    then show ?thesis using that g' by (simp add: frag_ok_def)
  qed
  moreover have "accepts ?st (f_start f) = conc L M"
    using accepts_connected [OF rf] f g' by (simp add: frag_ok_def)
  ultimately show ?thesis using reg rf rg lt by (simp add: frag_ok_def)
qed


text \<open>A split appended to the states.\<close>

lemma new_split [simp]:
  "s_type (new_state S_SPLIT a b) = S_SPLIT" "s_out (new_state S_SPLIT a b) = a"
  "s_out1 (new_state S_SPLIT a b) = b"
  by (simp_all add: new_state_def)

lemma known_split: "known_state (new_state S_SPLIT a b)"
  by (simp add: known_state_def)

lemma frag_ok_snoc:
  "frag_ok st lo hi f L \<Longrightarrow> frag_ok (st @ [s]) lo hi f L"
  by (rule frag_ok_cong) (auto simp: frag_ok_def nth_append dest: region_len)

text \<open>\<^verbatim>\<open>?\<close>: a split in front, which is also an end.\<close>

lemma frag_opt:
  assumes f: "frag_ok st lo (length st) f L"
  shows "frag_ok (st @ [new_state S_SPLIT (Some (f_start f)) None]) lo (Suc (length st))
    \<lparr>f_start = length st, f_terminals = f_terminals f @ [length st]\<rparr> ({[]} \<union> L)"
proof -
  let ?s = "new_state S_SPLIT (Some (f_start f)) None"
  let ?st = "st @ [?s]" and ?k = "length st"
  have f': "frag_ok ?st lo ?k f L" by (rule frag_ok_snoc [OF f])
  then have r: "region ?st lo ?k (f_terminals f)" "lo \<le> f_start f" "f_start f < ?k"
    by (simp_all add: frag_ok_def)
  have k: "?st ! ?k = ?s" by simp
  have reg: "region ?st lo (Suc ?k) (f_terminals f @ [?k])"
    unfolding region_def
  proof (intro conjI allI impI)
    show "distinct (f_terminals f @ [?k])"
      using region_distinct [OF r(1)] region_T [OF r(1), of ?k] by auto
    fix p
    show "p \<in> set (f_terminals f @ [?k]) \<longleftrightarrow> lo \<le> p \<and> p < Suc ?k \<and> dangling (?st ! p)"
      using region_T [OF r(1), of p] r k by (cases "p = ?k") (auto simp: dangling_def)
    show "lo \<le> p \<Longrightarrow> p < Suc ?k \<Longrightarrow> state_in lo (Suc ?k) (?st ! p)"
      using region_state [OF r(1), of p] r k by (cases "p = ?k") (auto simp: state_in_def)
  qed simp
  have fin: "fin ?st p" if "lo \<le> p" "p < ?k" for p using f' that by (simp add: frag_ok_def)
  have "fin ?st ?k" by (rule fin.fin_split) (use k r fin in auto)
  moreover have "accepts ?st ?k = {[]} \<union> L"
    using accepts_split [of ?st ?k "f_start f"] f' by (auto simp: frag_ok_def)
  ultimately show ?thesis
    using reg r f' known_split k by (auto simp: frag_ok_def less_Suc_eq)
qed

text \<open>\<^verbatim>\<open>|\<close>: a split to both fragments.\<close>

lemma frag_alt:
  assumes f: "frag_ok st lo mid f L" and g: "frag_ok st mid (length st) g M"
  shows "frag_ok (st @ [new_state S_SPLIT (Some (f_start f)) (Some (f_start g))]) lo (Suc (length st))
    \<lparr>f_start = length st, f_terminals = f_terminals f @ f_terminals g\<rparr> (L \<union> M)"
proof -
  let ?s = "new_state S_SPLIT (Some (f_start f)) (Some (f_start g))"
  let ?st = "st @ [?s]" and ?k = "length st"
  have f': "frag_ok ?st lo mid f L" and g': "frag_ok ?st mid ?k g M"
    by (rule frag_ok_snoc [OF f], rule frag_ok_snoc [OF g])
  then have rf: "region ?st lo mid (f_terminals f)" "lo \<le> f_start f" "f_start f < mid"
    and rg: "region ?st mid ?k (f_terminals g)" "mid \<le> f_start g" "f_start g < ?k"
    by (simp_all add: frag_ok_def)
  have lt: "lo < mid" "mid < ?k" using rf rg by auto
  have k: "?st ! ?k = ?s" by simp
  have reg: "region ?st lo (Suc ?k) (f_terminals f @ f_terminals g)"
    unfolding region_def
  proof (intro conjI allI impI)
    show "distinct (f_terminals f @ f_terminals g)"
    proof -
      have "p < mid" if "p \<in> set (f_terminals f)" for p using that region_T [OF rf(1), of p] by simp
      moreover have "mid \<le> p" if "p \<in> set (f_terminals g)" for p using that region_T [OF rg(1), of p] by simp
      ultimately have "set (f_terminals f) \<inter> set (f_terminals g) = {}" by fastforce
      then show ?thesis using region_distinct [OF rf(1)] region_distinct [OF rg(1)] by simp
    qed
    fix p
    show "p \<in> set (f_terminals f @ f_terminals g) \<longleftrightarrow> lo \<le> p \<and> p < Suc ?k \<and> dangling (?st ! p)"
      using region_T [OF rf(1), of p] region_T [OF rg(1), of p] lt k
      by (cases "p = ?k"; cases "p < mid") (auto simp: dangling_def)
    show "lo \<le> p \<Longrightarrow> p < Suc ?k \<Longrightarrow> state_in lo (Suc ?k) (?st ! p)"
    proof -
      assume p: "lo \<le> p" "p < Suc ?k"
      consider "p < mid" | "mid \<le> p" "p < ?k" | "p = ?k" using p by linarith
      then show "state_in lo (Suc ?k) (?st ! p)"
      proof cases
        case 1
        then show ?thesis using region_state [OF rf(1) p(1) 1] lt by (auto simp: state_in_def)
      next
        case 2
        then show ?thesis using region_state [OF rg(1) 2] lt by (auto simp: state_in_def)
      next
        case 3
        then show ?thesis using rf rg lt by (simp add: k state_in_def)
      qed
    qed
  qed simp
  have fin: "fin ?st p \<and> known_state (?st ! p)" if "lo \<le> p" "p < ?k" for p
    using f' g' that by (cases "p < mid") (simp_all add: frag_ok_def)
  have fs: "fin ?st (f_start f)" "fin ?st (f_start g)" using fin rf rg lt by simp_all
  have "fin ?st ?k" by (rule fin.fin_split) (use fs in \<open>simp_all add: k\<close>)
  moreover have "accepts ?st ?k = L \<union> M"
    using accepts_split [of ?st ?k "f_start f"] f' g' by (auto simp: frag_ok_def)
  ultimately show ?thesis
    using reg lt fin known_split k by (auto simp: frag_ok_def less_Suc_eq)
qed

text \<open>\<^verbatim>\<open>+\<close> and \<^verbatim>\<open>*\<close>: a split behind, back to the start.\<close>

lemma frag_loop:
  assumes f: "frag_ok st lo (length st) f L" and ne: "[] \<notin> L"
  defines "st' \<equiv> connect_loop (f_terminals f) (length st) (st @ [new_state S_SPLIT (Some (f_start f)) None])"
  shows "frag_ok st' lo (Suc (length st)) \<lparr>f_start = length st, f_terminals = [length st]\<rparr> (star L)"
    and "frag_ok st' lo (Suc (length st)) \<lparr>f_start = f_start f, f_terminals = [length st]\<rparr> (conc L (star L))"
proof -
  let ?s = "new_state S_SPLIT (Some (f_start f)) None"
  let ?st = "st @ [?s]" and ?k = "length st"
  have f': "frag_ok ?st lo ?k f L" by (rule frag_ok_snoc [OF f])
  then have r: "region ?st lo ?k (f_terminals f)" "lo \<le> f_start f" "f_start f < ?k"
    by (simp_all add: frag_ok_def)
  have k: "st' ! ?k = ?s" by (simp add: st'_def connected_nth [OF r(1)])
  have len: "length st' = Suc ?k" by (simp add: st'_def)
  have in1: "state_in lo (Suc ?k) (st' ! p) \<and> \<not> dangling (st' ! p)" if "lo \<le> p" "p < ?k" for p
    unfolding st'_def by (rule connected_in [OF r(1) that]) (use r in auto)
  have reg: "region st' lo (Suc ?k) [?k]"
    unfolding region_def
  proof (intro conjI allI impI)
    fix p
    show "p \<in> set [?k] \<longleftrightarrow> lo \<le> p \<and> p < Suc ?k \<and> dangling (st' ! p)"
      using in1 [of p] r k by (cases "p = ?k") (auto simp: dangling_def)
    show "lo \<le> p \<Longrightarrow> p < Suc ?k \<Longrightarrow> state_in lo (Suc ?k) (st' ! p)"
      using in1 [of p] r k by (cases "p = ?k") (auto simp: state_in_def)
  qed (simp_all add: len)
  have body: "accepts st' (f_start f) = conc L (accepts st' ?k)"
    using accepts_connected [OF r, of ?k] f' by (simp add: frag_ok_def st'_def)
  moreover have "accepts st' ?k = {[]} \<union> accepts st' (f_start f)"
    using accepts_split [of st' ?k "f_start f"] k by auto
  ultimately have star: "accepts st' ?k = star L" by (intro arden [OF _ ne]) simp
  have "fin st' (f_start f)"
    unfolding st'_def by (rule fin_nonnull [OF r(1)]) (use f' r ne in \<open>auto simp: frag_ok_def\<close>)
  then have "s_out (st' ! ?k) = Some q \<Longrightarrow> fin st' q" for q unfolding k by simp
  then have fk: "fin st' ?k" by (rule fin.fin_split [rotated 2]) (simp_all add: k len)
  have "fin st' p \<and> known_state (st' ! p)" if "lo \<le> p" "p < Suc ?k" for p
  proof (cases "p = ?k")
    case True
    then show ?thesis using fk k known_split by simp
  next
    case False
    then show ?thesis
      using that f' fin_connected [OF r(1), of ?k p] fk known_connected [OF r(1), of ?k p]
      by (auto simp: frag_ok_def st'_def)
  qed
  then show "frag_ok st' lo (Suc ?k) \<lparr>f_start = ?k, f_terminals = [?k]\<rparr> (star L)"
    and "frag_ok st' lo (Suc ?k) \<lparr>f_start = f_start f, f_terminals = [?k]\<rparr> (conc L (star L))"
    using reg star body r by (simp_all add: frag_ok_def)
qed

section \<open>The construction\<close>

lemma build_loop_append: "build_loop (ts @ us) sf = bind_result (build_loop ts sf) (build_loop us)"
  by (induction ts arbitrary: sf) (auto simp: bind_result_def split: sum.splits)

lemma build_postfix:
  "loop_ok r \<Longrightarrow> atoms_ok r \<Longrightarrow>
   \<exists>st' f. build_loop (postfix r) (st, frags) = Inr (st', f # frags) \<and>
     length st' = length st + states_of r \<and> (\<forall>p < length st. st' ! p = st ! p) \<and>
     frag_ok st' (length st) (length st') f (lang r)"
proof (induction r arbitrary: st frags)
  case (Atom t)
  then have "getType t \<noteq> OPERATOR" by (simp add: atom_ok_def)
  then have "build_loop (postfix (Atom t)) (st, frags) =
      Inr (st @ [new_state_ch (state_type_of (getType t)) (getCh t)],
           \<lparr>f_start = length st, f_terminals = [length st]\<rparr> # frags)"
    by (simp add: build_step_def Let_def)
  with Atom frag_atom [of t st] show ?case by (fastforce simp: nth_append)
next
  case (Cat r s)
  obtain st1 f where f: "build_loop (postfix r) (st, frags) = Inr (st1, f # frags)"
    "length st1 = length st + states_of r" "\<forall>p < length st. st1 ! p = st ! p"
    "frag_ok st1 (length st) (length st1) f (lang r)"
    using Cat.IH(1) [of st frags] Cat.prems by auto
  obtain st2 g where g: "build_loop (postfix s) (st1, f # frags) = Inr (st2, g # f # frags)"
    "length st2 = length st1 + states_of s" "\<forall>p < length st1. st2 ! p = st1 ! p"
    "frag_ok st2 (length st1) (length st2) g (lang s)"
    using Cat.IH(2) [of st1 "f # frags"] Cat.prems by auto
  have f2: "frag_ok st2 (length st) (length st1) f (lang r)"
    by (rule frag_ok_cong [OF f(4)]) (use g in auto)
  have reg: "region st2 (length st) (length st1) (f_terminals f)" using f2 by (simp add: frag_ok_def)
  have "build_loop (postfix (Cat r s)) (st, frags) =
      Inr (connect_loop (f_terminals f) (f_start g) st2,
           \<lparr>f_start = f_start f, f_terminals = f_terminals g\<rparr> # frags)"
    using f(1) g(1) by (simp add: build_loop_append build_step_def connect_def Let_def)
  then show ?case
    using frag_cat [OF f2 g(4)] f(2,3) g(2,3) by (fastforce simp: connected_nth [OF reg])
next
  case (Alt r s)
  obtain st1 f where f: "build_loop (postfix r) (st, frags) = Inr (st1, f # frags)"
    "length st1 = length st + states_of r" "\<forall>p < length st. st1 ! p = st ! p"
    "frag_ok st1 (length st) (length st1) f (lang r)"
    using Alt.IH(1) [of st frags] Alt.prems by auto
  obtain st2 g where g: "build_loop (postfix s) (st1, f # frags) = Inr (st2, g # f # frags)"
    "length st2 = length st1 + states_of s" "\<forall>p < length st1. st2 ! p = st1 ! p"
    "frag_ok st2 (length st1) (length st2) g (lang s)"
    using Alt.IH(2) [of st1 "f # frags"] Alt.prems by auto
  have f2: "frag_ok st2 (length st) (length st1) f (lang r)"
    by (rule frag_ok_cong [OF f(4)]) (use g in auto)
  have "build_loop (postfix (Alt r s)) (st, frags) =
      Inr (st2 @ [new_state S_SPLIT (Some (f_start f)) (Some (f_start g))],
           \<lparr>f_start = length st2, f_terminals = f_terminals f @ f_terminals g\<rparr> # frags)"
    using f(1) g(1) by (simp add: build_loop_append build_step_def Let_def)
  then show ?case
    using frag_alt [OF f2 g(4)] f(2,3) g(2,3) by (fastforce simp: nth_append)
next
  case (Plus r)
  obtain st1 f where f: "build_loop (postfix r) (st, frags) = Inr (st1, f # frags)"
    "length st1 = length st + states_of r" "\<forall>p < length st. st1 ! p = st ! p"
    "frag_ok st1 (length st) (length st1) f (lang r)"
    using Plus.IH [of st frags] Plus.prems by auto
  have ne: "[] \<notin> lang r" using Plus.prems nullable_lang by simp
  have reg: "region (st1 @ [s]) (length st) (length st1) (f_terminals f)" for s
    using frag_ok_snoc [OF f(4)] by (simp add: frag_ok_def)
  let ?st = "connect_loop (f_terminals f) (length st1) (st1 @ [new_state S_SPLIT (Some (f_start f)) None])"
  have b: "build_loop (postfix (Plus r)) (st, frags) =
      Inr (?st, \<lparr>f_start = f_start f, f_terminals = [length st1]\<rparr> # frags)"
    using f(1) by (cases f) (simp add: build_loop_append build_step_def connect_def Let_def)
  have "\<forall>p < length st. ?st ! p = st ! p"
    using f(2,3) by (auto simp: connected_nth [OF reg] nth_append)
  with b show ?case
    using frag_loop(2) [OF f(4) ne] f(2) by auto
next
  case (Star r)
  obtain st1 f where f: "build_loop (postfix r) (st, frags) = Inr (st1, f # frags)"
    "length st1 = length st + states_of r" "\<forall>p < length st. st1 ! p = st ! p"
    "frag_ok st1 (length st) (length st1) f (lang r)"
    using Star.IH [of st frags] Star.prems by auto
  have ne: "[] \<notin> lang r" using Star.prems nullable_lang by simp
  have reg: "region (st1 @ [s]) (length st) (length st1) (f_terminals f)" for s
    using frag_ok_snoc [OF f(4)] by (simp add: frag_ok_def)
  let ?st = "connect_loop (f_terminals f) (length st1) (st1 @ [new_state S_SPLIT (Some (f_start f)) None])"
  have b: "build_loop (postfix (Star r)) (st, frags) =
      Inr (?st, \<lparr>f_start = length st1, f_terminals = [length st1]\<rparr> # frags)"
    using f(1) by (cases f) (simp add: build_loop_append build_step_def connect_def Let_def)
  have "\<forall>p < length st. ?st ! p = st ! p"
    using f(2,3) by (auto simp: connected_nth [OF reg] nth_append)
  with b show ?case
    using frag_loop(1) [OF f(4) ne] f(2) by auto
next
  case (Opt r)
  obtain st1 f where f: "build_loop (postfix r) (st, frags) = Inr (st1, f # frags)"
    "length st1 = length st + states_of r" "\<forall>p < length st. st1 ! p = st ! p"
    "frag_ok st1 (length st) (length st1) f (lang r)"
    using Opt.IH [of st frags] Opt.prems by auto
  have "build_loop (postfix (Opt r)) (st, frags) =
      Inr (st1 @ [new_state S_SPLIT (Some (f_start f)) None],
           \<lparr>f_start = length st1, f_terminals = f_terminals f @ [length st1]\<rparr> # frags)"
    using f(1) by (simp add: build_loop_append build_step_def Let_def)
  then show ?case
    using frag_opt [OF f(4)] f(2,3) by (fastforce simp: nth_append)
qed

end
