(* ===== verification/RegExScan.thy ===== *)
theory RegExScan
  imports RegExNfa
begin

text \<open>
  The simulation of a built NFA: \<^verbatim>\<open>addSplit\<close> ends, the set of states after a prefix of the
  input accepts exactly the rest of the language, and \<^verbatim>\<open>scan\<close> and \<^verbatim>\<open>match\<close> follow from that.
\<close>

section \<open>Complete machines\<close>

definition state_full :: "nat \<Rightarrow> nfa_state \<Rightarrow> bool" where
  "state_full n s \<longleftrightarrow> known_state s \<and>
     (s_type s \<noteq> S_MATCH \<longrightarrow> (\<exists>q. s_out s = Some q \<and> q < n)) \<and>
     (s_type s = S_SPLIT \<longrightarrow> (\<exists>q. s_out1 s = Some q \<and> q < n))"

definition machine_ok :: "Nfa \<Rightarrow> string set \<Rightarrow> bool" where
  "machine_ok m L \<longleftrightarrow> m_start m < length (m_states m) \<and> accepts (m_states m) (m_start m) = L \<and>
     (\<forall>p < length (m_states m). fin (m_states m) p \<and> state_full (length (m_states m)) (m_states m ! p))"

lemma build_machine_ok:
  assumes "loop_ok r" "atoms_ok r" "states_of r < 254"
  shows "\<exists>m. Nfa_build (postfix r) = Inr m \<and> machine_ok m (lang r)"
proof -
  obtain st f where b: "build_loop (postfix r) ([], []) = Inr (st, [f])" "length st = states_of r"
    "frag_ok st 0 (length st) f (lang r)"
    using build_postfix [OF assms(1,2), of "[]" "[]"] by auto
  let ?n = "length st" and ?s = "new_state S_MATCH None None"
  let ?st = "connect_loop (f_terminals f) ?n (st @ [?s])"
  have f': "frag_ok (st @ [?s]) 0 ?n f (lang r)" by (rule frag_ok_snoc [OF b(3)])
  then have r: "region (st @ [?s]) 0 ?n (f_terminals f)" "0 \<le> f_start f" "f_start f < ?n"
    by (simp_all add: frag_ok_def)
  have n: "?st ! ?n = ?s" by (simp add: connected_nth [OF r(1)])
  have type: "s_type ?s = S_MATCH" by (simp add: new_state_def)
  have fn: "fin ?st ?n" by (rule fin.fin_other) (simp_all add: n type)
  have "accepts ?st (f_start f) = conc (lang r) {[]}"
    using accepts_connected [OF r, of ?n] f' accepts_match [of ?st ?n] n type by (simp add: frag_ok_def)
  then have L: "accepts ?st (f_start f) = lang r" by (simp add: conc_def)
  have "fin ?st p \<and> state_full (Suc ?n) (?st ! p)" if "p < Suc ?n" for p
  proof (cases "p = ?n")
    case True
    then show ?thesis using fn n type by (simp add: state_full_def known_state_def)
  next
    case False
    then have p: "p < ?n" using that by simp
    have "state_in 0 (Suc ?n) (?st ! p) \<and> \<not> dangling (?st ! p)"
      by (rule connected_in [OF r(1) _ p]) simp_all
    moreover have "known_state (?st ! p)"
      using f' p known_connected [OF r(1), of ?n p] by (simp add: frag_ok_def)
    ultimately have "state_full (Suc ?n) (?st ! p)"
      by (cases "s_type (?st ! p) = S_SPLIT") (auto simp: state_full_def state_in_def dangling_def)
    then show ?thesis using fin_connected [OF r(1) fn, of p] f' p by (simp add: frag_ok_def)
  qed
  then have "machine_ok \<lparr>m_states = ?st, m_start = f_start f, m_accept = ?n\<rparr> (lang r)"
    using r L by (simp add: machine_ok_def)
  moreover have "Nfa_build (postfix r) = Inr \<lparr>m_states = ?st, m_start = f_start f, m_accept = ?n\<rparr>"
    using b assms(3) by (simp add: Nfa_build_def connect_def Let_def MAX_NFA_STATES_def)
  ultimately show ?thesis by blast
qed

section \<open>The state sets\<close>

lemma set_vs_insert: "set (vs_insert e s) = insert e (set s)"
proof -
  have s: "set s = set (takeWhile (\<lambda>x. x < e) s) \<union> set (dropWhile (\<lambda>x. x < e) s)"
    by (metis set_append takeWhile_dropWhile_id)
  show ?thesis
  proof (cases "dropWhile (\<lambda>x. x < e) s = [] \<or> hd (dropWhile (\<lambda>x. x < e) s) \<noteq> e")
    case True
    then show ?thesis using s by (auto simp: vs_insert_def Let_def)
  next
    case False
    then have "e \<in> set s" using s by (metis UnI2 hd_in_set)
    with False show ?thesis by (auto simp: vs_insert_def Let_def)
  qed
qed

definition set_accepts :: "nfa_state list \<Rightarrow> vectorset \<Rightarrow> string set" where
  "set_accepts st ids = (\<Union>i \<in> set ids. accepts st i)"

definition ids_ok :: "nfa_state list \<Rightarrow> vectorset \<Rightarrow> bool" where
  "ids_ok st ids \<longleftrightarrow> (\<forall>i \<in> set ids. i < length st \<and> s_type (st ! i) \<noteq> S_SPLIT)"

lemma ids_ok_Nil: "ids_ok st []"
  by (simp add: ids_ok_def)

definition states_full :: "nfa_state list \<Rightarrow> bool" where
  "states_full st \<longleftrightarrow> (\<forall>p < length st. fin st p \<and> state_full (length st) (st ! p))"

text \<open>Enough fuel for the splits behind one state, and behind all of them.\<close>

definition enough :: "nfa_state list \<Rightarrow> nat \<Rightarrow> nat \<Rightarrow> bool" where
  "enough st N p \<longleftrightarrow> (\<forall>fuel ids. N \<le> fuel \<longrightarrow> ids_ok st ids \<longrightarrow>
     (\<exists>ids'. addSplit fuel st (Some p) ids = Inr ids' \<and> ids_ok st ids' \<and>
        set_accepts st ids' = set_accepts st ids \<union> accepts st p))"

lemma enough_mono: "enough st N p \<Longrightarrow> N \<le> N' \<Longrightarrow> enough st N' p"
  by (simp add: enough_def)

lemma enoughE:
  assumes "enough st N p" "N \<le> fuel" "ids_ok st ids"
  obtains ids' where "addSplit fuel st (Some p) ids = Inr ids'" "ids_ok st ids'"
    "set_accepts st ids' = set_accepts st ids \<union> accepts st p"
  using assms unfolding enough_def by blast

lemma addSplit_ends:
  assumes "states_full st"
  shows "fin st p \<Longrightarrow> \<exists>N. enough st N p"
proof (induction rule: fin.induct)
  case (fin_other p)
  have "enough st 1 p"
    unfolding enough_def
  proof (intro allI impI)
    fix fuel :: nat and ids assume "1 \<le> fuel" "ids_ok st ids"
    then show "\<exists>ids'. addSplit fuel st (Some p) ids = Inr ids' \<and> ids_ok st ids' \<and>
        set_accepts st ids' = set_accepts st ids \<union> accepts st p"
      using fin_other by (cases fuel) (auto simp: ids_ok_def set_accepts_def set_vs_insert)
  qed
  then show ?case by blast
next
  case (fin_split p)
  obtain q1 q2 where q: "s_out (st ! p) = Some q1" "s_out1 (st ! p) = Some q2"
    using assms fin_split.hyps by (auto simp: states_full_def state_full_def)
  then obtain N1 N2 where N: "enough st N1 q1" "enough st N2 q2" using fin_split.IH by blast
  have "enough st (Suc (max N1 N2)) p"
    unfolding enough_def
  proof (intro allI impI)
    fix fuel :: nat and ids assume fuel: "Suc (max N1 N2) \<le> fuel" and ids: "ids_ok st ids"
    then obtain k where k: "fuel = Suc k" "N1 \<le> k" "N2 \<le> k" by (cases fuel) auto
    obtain ids1 where 1: "addSplit k st (Some q1) ids = Inr ids1" "ids_ok st ids1"
        "set_accepts st ids1 = set_accepts st ids \<union> accepts st q1"
      by (rule enoughE [OF N(1) k(2) ids])
    obtain ids2 where 2: "addSplit k st (Some q2) ids1 = Inr ids2" "ids_ok st ids2"
        "set_accepts st ids2 = set_accepts st ids1 \<union> accepts st q2"
      by (rule enoughE [OF N(2) k(3) 1(2)])
    have "accepts st p = accepts st q1 \<union> accepts st q2"
      using accepts_split [OF fin_split.hyps(2) q(1)] q(2) by simp
    then show "\<exists>ids'. addSplit fuel st (Some p) ids = Inr ids' \<and> ids_ok st ids' \<and>
        set_accepts st ids' = set_accepts st ids \<union> accepts st p"
      using fin_split.hyps q k 1 2 by auto
  qed
  then show ?case by blast
qed

lemma addSplit_fuel:
  assumes "states_full st"
  shows "\<exists>N. \<forall>p < length st. enough st N p"
proof -
  have "\<exists>N. \<forall>p < n. enough st N p" if "n \<le> length st" for n
    using that
  proof (induction n)
    case 0
    then show ?case by simp
  next
    case (Suc n)
    then obtain N where N: "\<forall>p < n. enough st N p" by auto
    have "fin st n" using assms Suc.prems by (simp add: states_full_def)
    then obtain M where M: "enough st M n" using addSplit_ends [OF assms] by blast
    have "enough st (max N M) p" if "p < Suc n" for p
      using that N M enough_mono by (cases "p = n") (auto intro: enough_mono simp: less_Suc_eq)
    then show ?case by blast
  qed
  then show ?thesis by blast
qed

section \<open>One character\<close>

lemma state_matches_total: "known_state s \<Longrightarrow> \<exists>b. state_matches s c = Inr b"
  by (cases "s_type s") (auto simp: state_matches_def known_state_def)

lemma scan_states_spec:
  assumes full: "states_full st" and N: "\<forall>p < length st. enough st N p" "N \<le> fuel"
  shows "ids_ok st ids \<Longrightarrow> ids_ok st ns \<Longrightarrow>
    \<exists>ns'. scan_states fuel st c ids ns = Inr ns' \<and> ids_ok st ns' \<and>
      set_accepts st ns' = set_accepts st ns \<union> {w. c # w \<in> set_accepts st ids}"
proof (induction ids arbitrary: ns)
  case Nil
  then show ?case by (simp add: set_accepts_def)
next
  case (Cons i ids)
  then have i: "i < length st" "s_type (st ! i) \<noteq> S_SPLIT" and ids: "ids_ok st ids"
    by (simp_all add: ids_ok_def)
  have sf: "state_full (length st) (st ! i)" using full i by (simp add: states_full_def)
  then obtain b where b: "state_matches (st ! i) c = Inr b"
    using state_matches_total by (auto simp: state_full_def)
  have step: "\<exists>n1. (if b then addSplit fuel st (s_out (st ! i)) ns else Inr ns) = Inr n1 \<and> ids_ok st n1 \<and>
      set_accepts st n1 = set_accepts st ns \<union> {w. c # w \<in> accepts st i}"
  proof (cases "s_type (st ! i) = S_MATCH")
    case True
    then have "\<not> b" using b by (simp add: state_matches_def)
    with True Cons.prems(2) show ?thesis by (simp add: accepts_match)
  next
    case False
    then obtain q where q: "s_out (st ! i) = Some q" "q < length st"
      using sf by (auto simp: state_full_def)
    have acc: "c # w \<in> accepts st i \<longleftrightarrow> b \<and> w \<in> accepts st q" for w
      using accepts_atom [of st i q c w] False i q b by auto
    show ?thesis
    proof (cases b)
      case True
      have "enough st N q" using N(1) q(2) by simp
      then obtain n1 where "addSplit fuel st (Some q) ns = Inr n1" "ids_ok st n1"
          "set_accepts st n1 = set_accepts st ns \<union> accepts st q"
        by (rule enoughE [OF _ N(2) Cons.prems(2)])
      with True q acc show ?thesis by auto
    next
      case False
      with acc Cons.prems(2) show ?thesis by simp
    qed
  qed
  then obtain n1 where n1: "(if b then addSplit fuel st (s_out (st ! i)) ns else Inr ns) = Inr n1"
    "ids_ok st n1" "set_accepts st n1 = set_accepts st ns \<union> {w. c # w \<in> accepts st i}" by blast
  obtain ns' where ns': "scan_states fuel st c ids n1 = Inr ns'" "ids_ok st ns'"
    "set_accepts st ns' = set_accepts st n1 \<union> {w. c # w \<in> set_accepts st ids}"
    using Cons.IH [OF ids n1(2)] by blast
  have "scan_states fuel st c (i # ids) ns = Inr ns'"
    using i b n1(1) ns'(1) by simp
  moreover have "set_accepts st ns' = set_accepts st ns \<union> {w. c # w \<in> set_accepts st (i # ids)}"
    using n1(3) ns'(3) by (auto simp: set_accepts_def)
  ultimately show ?case using ns'(2) by blast
qed

lemma isMatch_accepts:
  "ids_ok st ids \<Longrightarrow> states_full st \<Longrightarrow> nfa_isMatch st ids \<longleftrightarrow> [] \<in> set_accepts st ids"
proof -
  assume ids: "ids_ok st ids" and full: "states_full st"
  have "s_type (st ! i) = S_MATCH \<longleftrightarrow> [] \<in> accepts st i" if "i \<in> set ids" for i
    using that ids accepts_match [of st i] accepts_atom_Nil [of st i] by (auto simp: ids_ok_def)
  then show ?thesis by (auto simp: nfa_isMatch_def list_ex_iff set_accepts_def)
qed


section \<open>The scan\<close>

text \<open>
  \<open>k\<close> is the end of the first run of lengths, from 1 on, with the property \<open>P\<close>.
\<close>

definition first_run :: "(nat \<Rightarrow> bool) \<Rightarrow> nat \<Rightarrow> nat \<Rightarrow> bool" where
  "first_run P n k \<longleftrightarrow> (\<exists>b \<ge> 1. b \<le> k \<and> k \<le> n \<and> (\<forall>j. 1 \<le> j \<longrightarrow> j < b \<longrightarrow> \<not> P j) \<and>
     (\<forall>j. b \<le> j \<longrightarrow> j \<le> k \<longrightarrow> P j) \<and> (k < n \<longrightarrow> \<not> P (k + 1)))"

text \<open>What \<^verbatim>\<open>scan\<close> returns, on the lengths of the accepted prefixes.\<close>

definition scan_result :: "(nat \<Rightarrow> bool) \<Rightarrow> nat \<Rightarrow> nat \<Rightarrow> bool" where
  "scan_result P n k \<longleftrightarrow> first_run P n k \<or> (k = 0 \<and> (\<forall>j. 1 \<le> j \<longrightarrow> j \<le> n \<longrightarrow> \<not> P j))"

text \<open>The part of the run seen so far, and its end, or none.\<close>

definition run_so_far :: "(nat \<Rightarrow> bool) \<Rightarrow> nat \<Rightarrow> nat option \<Rightarrow> bool" where
  "run_so_far P pos ret \<longleftrightarrow>
     (case ret of
        None \<Rightarrow> \<forall>j. 1 \<le> j \<longrightarrow> j \<le> pos \<longrightarrow> \<not> P j
      | Some i \<Rightarrow> i = pos \<and> (\<exists>b \<ge> 1. b \<le> pos \<and> (\<forall>j. 1 \<le> j \<longrightarrow> j < b \<longrightarrow> \<not> P j) \<and>
          (\<forall>j. b \<le> j \<longrightarrow> j \<le> pos \<longrightarrow> P j)))"

lemma run_end:
  assumes "run_so_far P pos ret" "pos \<le> n" "\<And>j. pos < j \<Longrightarrow> j \<le> n \<Longrightarrow> \<not> P j"
  shows "scan_result P n (case ret of None \<Rightarrow> 0 | Some i \<Rightarrow> i)"
proof (cases ret)
  case None
  then show ?thesis using assms by (auto simp: run_so_far_def scan_result_def not_le)
next
  case (Some i)
  then show ?thesis using assms by (auto simp: run_so_far_def scan_result_def first_run_def)
qed

lemma run_stop:
  assumes "run_so_far P pos (Some i)" "pos < n" "\<not> P (pos + 1)"
  shows "scan_result P n i"
  using assms by (auto simp: run_so_far_def scan_result_def first_run_def)

lemma run_match:
  assumes "run_so_far P pos ret" "P (pos + 1)"
  shows "run_so_far P (pos + 1) (Some (pos + 1))"
proof (cases ret)
  case None
  with assms show ?thesis
    unfolding run_so_far_def by (auto intro!: exI [of _ "pos + 1"] simp: le_Suc_eq)
next
  case (Some i)
  then obtain b where "b \<ge> 1" "b \<le> pos" "\<forall>j. 1 \<le> j \<longrightarrow> j < b \<longrightarrow> \<not> P j" "\<forall>j. b \<le> j \<longrightarrow> j \<le> pos \<longrightarrow> P j"
    using assms(1) by (auto simp: run_so_far_def)
  with assms(2) show ?thesis
    unfolding run_so_far_def by (auto intro!: exI [of _ b] simp: le_Suc_eq)
qed

lemma run_no_match: "run_so_far P pos None \<Longrightarrow> \<not> P (pos + 1) \<Longrightarrow> run_so_far P (pos + 1) None"
  by (auto simp: run_so_far_def le_Suc_eq)

lemma scan_loop_spec:
  assumes full: "states_full st" and N: "\<forall>p < length st. enough st N p" "N \<le> fuel"
  shows "ids_ok st cur \<Longrightarrow> set_accepts st cur = {w. take pos input @ w \<in> L} \<Longrightarrow>
    str = drop pos input \<Longrightarrow> pos \<le> length input \<Longrightarrow>
    run_so_far (\<lambda>j. take j input \<in> L) pos ret \<Longrightarrow>
    \<exists>r. scan_loop fuel st pos cur ret str = Inr r \<and>
      scan_result (\<lambda>j. take j input \<in> L) (length input) (case r of None \<Rightarrow> 0 | Some i \<Rightarrow> i)"
proof (induction str arbitrary: pos cur ret)
  case Nil
  then have "pos = length input" by simp
  with Nil run_end [of "\<lambda>j. take j input \<in> L" pos ret "length input"] show ?case by simp
next
  case (Cons c str)
  let ?P = "\<lambda>j. take j input \<in> L"
  have pos: "pos < length input" using Cons.prems(3) by (metis drop_eq_Nil list.distinct(1) not_le)
  have c: "take (pos + 1) input = take pos input @ [c]" and str: "str = drop (pos + 1) input"
    using Cons.prems(3) pos by (metis Suc_eq_plus1 Cons_nth_drop_Suc list.inject take_Suc_conv_app_nth)+
  show ?case
  proof (cases "cur = []")
    case True
    then have none: "take pos input @ w \<notin> L" for w
      using Cons.prems(2) by (auto simp: set_accepts_def)
    have "\<not> ?P j" if "pos < j" for j
      using none [of "drop pos (take j input)"] that
      by (metis append_take_drop_id less_imp_le_nat min.absorb1 take_take)
    then show ?thesis using True run_end [OF Cons.prems(5)] pos by simp
  next
    case False
    obtain ns where ns: "scan_states fuel st c cur [] = Inr ns" "ids_ok st ns"
      "set_accepts st ns = set_accepts st [] \<union> {w. c # w \<in> set_accepts st cur}"
      using scan_states_spec [OF full N Cons.prems(1), of "[]" c] by (auto simp: ids_ok_def)
    have nsL: "set_accepts st ns = {w. take (pos + 1) input @ w \<in> L}"
    proof -
      have "set_accepts st [] = {}" by (simp add: set_accepts_def)
      then show ?thesis using ns(3) Cons.prems(2) c by simp
    qed
    have match: "nfa_isMatch st ns \<longleftrightarrow> ?P (pos + 1)"
      using isMatch_accepts [OF ns(2) full] nsL by simp
    note IH = Cons.IH [OF ns(2) nsL str]
    show ?thesis
    proof (cases "?P (pos + 1)")
      case True
      have "run_so_far ?P (pos + 1) (Some (pos + 1))" by (rule run_match [OF Cons.prems(5) True])
      with IH pos False ns(1) match True show ?thesis by simp
    next
      case no: False
      show ?thesis
      proof (cases ret)
        case None
        then have "run_so_far ?P (pos + 1) None" using run_no_match Cons.prems(5) no by blast
        with IH pos False ns(1) match no None show ?thesis by simp
      next
        case (Some i)
        then have "scan_result ?P (length input) i" using run_stop Cons.prems(5) pos no by blast
        with False ns(1) match no Some show ?thesis by simp
      qed
    qed
  qed
qed

lemma Nfa_scan_spec:
  assumes "machine_ok m L"
  shows "\<exists>N. \<forall>fuel \<ge> N. \<forall>input. \<exists>k. Nfa_scan fuel m input = Inr k \<and>
    scan_result (\<lambda>j. take j input \<in> L) (length input) k"
proof -
  let ?st = "m_states m"
  have full: "states_full ?st" using assms by (simp add: machine_ok_def states_full_def)
  obtain N where N: "\<forall>p < length ?st. enough ?st N p" using addSplit_fuel [OF full] by blast
  have "\<exists>k. Nfa_scan fuel m input = Inr k \<and> scan_result (\<lambda>j. take j input \<in> L) (length input) k"
    if fuel: "N \<le> fuel" for fuel input
  proof -
    have "enough ?st N (m_start m)" using N assms by (simp add: machine_ok_def)
    then obtain cur where cur: "addSplit fuel ?st (Some (m_start m)) [] = Inr cur" "ids_ok ?st cur"
      "set_accepts ?st cur = set_accepts ?st [] \<union> accepts ?st (m_start m)"
      by (rule enoughE [OF _ fuel ids_ok_Nil])
    have "set_accepts ?st cur = {w. take 0 input @ w \<in> L}"
      using cur(3) assms by (simp add: set_accepts_def machine_ok_def)
    from scan_loop_spec [OF full N fuel cur(2) this, of input None] cur(1)
    show ?thesis by (auto simp: Nfa_scan_def run_so_far_def)
  qed
  then show ?thesis by blast
qed

text \<open>
  C1. For every pattern of the grammar whose loops have bodies that do not match the empty
  string and that needs fewer than 254 states, the compilation of its tokens succeeds, and
  with the machine it gives, on every input and with enough fuel, \<^verbatim>\<open>scan\<close> returns a position:
  the end of the first run of non-empty prefixes that are in the language of the pattern,
  or the beginning when there is none. The NFA construction is thus correct, and the
  recursion over the splits ends.
\<close>

theorem regex_scan_correct:
  assumes "alt_tokens r ts" "loop_ok r" "atoms_ok r" "states_of r < 254"
  shows "\<exists>m N. infixToPostfix 2 ts = Inr (Inr (postfix r)) \<and> Nfa_build (postfix r) = Inr m \<and>
    (\<forall>fuel \<ge> N. \<forall>input. \<exists>k. Nfa_scan fuel m input = Inr k \<and>
       scan_result (\<lambda>j. take j input \<in> lang r) (length input) k)"
proof -
  obtain m where m: "Nfa_build (postfix r) = Inr m" "machine_ok m (lang r)"
    using build_machine_ok [OF assms(2-4)] by blast
  have "infixToPostfix 2 ts = Inr (Inr (postfix r))"
    using infix_loop_grammar(3) [OF order_refl assms(1), of 0 "[]" "[]" "[]" "[]"] pop_lits_owed
    by (fastforce simp: infixToPostfix_def pop_alts_eq)
  with m Nfa_scan_spec [OF m(2)] show ?thesis by blast
qed


lemma sample_ok: "loop_ok sample_re \<and> atoms_ok sample_re \<and> states_of sample_re < 254"
  by (simp add: sample_re_def atom_ok_def lit_def)

theorem regex_scan_correct_witness:
  "\<exists>m N. Nfa_build (postfix sample_re) = Inr m \<and>
    (\<forall>fuel \<ge> N. \<forall>input. \<exists>k. Nfa_scan fuel m input = Inr k \<and>
       scan_result (\<lambda>j. take j input \<in> lang sample_re) (length input) k)"
  using regex_scan_correct [OF sample_grammar] sample_ok by blast

section \<open>Matching\<close>

lemma scan_result_full:
  assumes "scan_result P n k"
  shows "k = n \<longleftrightarrow> n = 0 \<or> (\<exists>b \<ge> 1. b \<le> n \<and> (\<forall>j. 1 \<le> j \<longrightarrow> j \<le> n \<longrightarrow> (P j \<longleftrightarrow> b \<le> j)))"
proof
  assume "k = n"
  then show "n = 0 \<or> (\<exists>b \<ge> 1. b \<le> n \<and> (\<forall>j. 1 \<le> j \<longrightarrow> j \<le> n \<longrightarrow> (P j \<longleftrightarrow> b \<le> j)))"
    using assms unfolding scan_result_def first_run_def by (metis not_le)
next
  assume n: "n = 0 \<or> (\<exists>b \<ge> 1. b \<le> n \<and> (\<forall>j. 1 \<le> j \<longrightarrow> j \<le> n \<longrightarrow> (P j \<longleftrightarrow> b \<le> j)))"
  show "k = n"
  proof (cases "n = 0")
    case True
    then show ?thesis using assms by (auto simp: scan_result_def first_run_def)
  next
    case False
    then obtain b where b: "1 \<le> b" "b \<le> n" "\<And>j. 1 \<le> j \<Longrightarrow> j \<le> n \<Longrightarrow> P j \<longleftrightarrow> b \<le> j" using n by blast
    have "k \<noteq> 0" using assms b unfolding scan_result_def first_run_def by (metis order_refl le_zero_eq not_one_le_zero)
    then have "first_run P n k" using assms by (simp add: scan_result_def)
    then obtain c where c: "1 \<le> c" "c \<le> k" "k \<le> n" "P k" "k < n \<longrightarrow> \<not> P (k + 1)"
      unfolding first_run_def by blast
    have "b \<le> k" using b(3) [of k] c by simp
    then have "k < n \<Longrightarrow> P (k + 1)" using b(3) [of "k + 1"] by simp
    with c(5) have "\<not> k < n" by blast
    with c(3) show ?thesis by linarith
  qed
qed

text \<open>
  C35. For the patterns of \<open>regex_scan_correct\<close>, \<^verbatim>\<open>match\<close> answers, with enough fuel, whether the
  input is empty, or its non-empty prefixes in the language of the pattern are exactly those
  from some length on. In particular it accepts only the empty string and strings of the
  language, the empty one whether or not the pattern does, and it rejects a string of the
  language when a shorter prefix is in the language and a prefix between them is not.
\<close>

theorem regex_match_correct:
  assumes "loop_ok r" "atoms_ok r" "states_of r < 254"
  shows "\<exists>m N. Nfa_build (postfix r) = Inr m \<and>
    (\<forall>fuel \<ge> N. \<forall>input. RegExPattern_match fuel (Some m) input =
       Inr (input = [] \<or> (\<exists>b \<ge> 1. b \<le> length input \<and>
         (\<forall>j. 1 \<le> j \<longrightarrow> j \<le> length input \<longrightarrow> (take j input \<in> lang r \<longleftrightarrow> b \<le> j)))))"
proof -
  obtain m where m: "Nfa_build (postfix r) = Inr m" "machine_ok m (lang r)"
    using build_machine_ok [OF assms] by blast
  obtain N where N: "\<forall>fuel \<ge> N. \<forall>input. \<exists>k. Nfa_scan fuel m input = Inr k \<and>
      scan_result (\<lambda>j. take j input \<in> lang r) (length input) k"
    using Nfa_scan_spec [OF m(2)] by blast
  have "RegExPattern_match fuel (Some m) input =
       Inr (input = [] \<or> (\<exists>b \<ge> 1. b \<le> length input \<and>
         (\<forall>j. 1 \<le> j \<longrightarrow> j \<le> length input \<longrightarrow> (take j input \<in> lang r \<longleftrightarrow> b \<le> j))))"
    if fuel: "N \<le> fuel" for fuel input
  proof -
    obtain k where "Nfa_scan fuel m input = Inr k"
      "scan_result (\<lambda>j. take j input \<in> lang r) (length input) k" using N fuel by blast
    then show ?thesis
      using scan_result_full [of "\<lambda>j. take j input \<in> lang r" "length input" k]
      by (simp add: RegExPattern_match_def RegExPattern_scan_def)
  qed
  with m(1) show ?thesis by blast
qed

theorem regex_match_correct_witness:
  "\<exists>m N. Nfa_build (postfix sample_re) = Inr m \<and>
    (\<forall>fuel \<ge> N. \<forall>input. RegExPattern_match fuel (Some m) input =
       Inr (input = [] \<or> (\<exists>b \<ge> 1. b \<le> length input \<and>
         (\<forall>j. 1 \<le> j \<longrightarrow> j \<le> length input \<longrightarrow> (take j input \<in> lang sample_re \<longleftrightarrow> b \<le> j)))))"
  using regex_match_correct [of sample_re] sample_ok by blast

lemmas compile_defs = RegExPattern_build_def escapePattern_def escapable_def push_token_def
  expandPattern_def infixToPostfix_def Nfa_build_def build_step_def new_state_def new_state_ch_def
  connect_def connect_one_def MAX_NFA_STATES_def

lemmas run_defs = RegExPattern_match_def RegExPattern_scan_def Nfa_scan_def vs_insert_def
  nfa_isMatch_def state_matches_def

text \<open>
  The pattern \<open>ab|abcd\<close> is compiled, and then does not match \<open>abcd\<close>, its own second
  alternative, while it matches the empty string: \<^verbatim>\<open>scan\<close> stops at the end of the first run
  of matching prefixes, and \<^verbatim>\<open>match\<close> takes the beginning that it returns for a mismatch of
  the empty input for the end.
\<close>

theorem regex_match_wrong:
  "\<exists>p. RegExPattern_build 4 0 ''ab|abcd'' = Inr (NONE, p) \<and>
     RegExPattern_match 4 p ''abcd'' = Inr False \<and> RegExPattern_match 4 p [] = Inr True"
proof -
  obtain p where "RegExPattern_build 4 0 ''ab|abcd'' = Inr (NONE, p)"
    "p = Some \<lparr>m_states =
       [\<lparr>s_type = S_LITERAL, s_literal = CHR ''a'', s_out = Some 1, s_out1 = None\<rparr>,
        \<lparr>s_type = S_LITERAL, s_literal = CHR ''b'', s_out = Some 7, s_out1 = None\<rparr>,
        \<lparr>s_type = S_LITERAL, s_literal = CHR ''a'', s_out = Some 3, s_out1 = None\<rparr>,
        \<lparr>s_type = S_LITERAL, s_literal = CHR ''b'', s_out = Some 4, s_out1 = None\<rparr>,
        \<lparr>s_type = S_LITERAL, s_literal = CHR ''c'', s_out = Some 5, s_out1 = None\<rparr>,
        \<lparr>s_type = S_LITERAL, s_literal = CHR ''d'', s_out = Some 7, s_out1 = None\<rparr>,
        \<lparr>s_type = S_SPLIT, s_literal = CHR ''?'', s_out = Some 0, s_out1 = Some 2\<rparr>,
        \<lparr>s_type = S_MATCH, s_literal = CHR ''?'', s_out = None, s_out1 = None\<rparr>],
       m_start = 6, m_accept = 7\<rparr>"
    by (simp add: compile_defs Let_def eval_nat_numeral)
  then show ?thesis
    by (intro exI [of _ p]) (simp add: run_defs eval_nat_numeral)
qed

section \<open>Patterns on which the compiler or the matcher does not end\<close>

lemma pop_lits_diverges: "n \<le> 0 \<Longrightarrow> pop_lits fuel n ret = Inl Diverges"
  by (induction fuel n ret rule: pop_lits.induct) auto

lemma pop_lits_one: "pop_lits (Suc fuel) 1 ret = Inr ret"
  by simp

text \<open>
  Compiling the empty pattern, an empty group, or a pattern or group whose last
  alternative is empty never ends: the loop that writes the owed concatenations counts down
  from 0.
\<close>

theorem empty_alternative_diverges:
  "RegExPattern_build fuel junk [] = Inl Diverges \<and>
   RegExPattern_build fuel junk ''()'' = Inl Diverges \<and>
   RegExPattern_build fuel junk ''a|'' = Inl Diverges \<and>
   RegExPattern_build fuel junk ''(a|)'' = Inl Diverges"
  by (cases fuel)
    (simp_all add: RegExPattern_build_def escapePattern_def push_token_def expandPattern_def
      infixToPostfix_def Let_def pop_lits_diverges del: pop_lits.simps(2),
     simp_all add: pop_lits_one pop_lits_diverges del: pop_lits.simps(2))

text \<open>
  The pattern \<open>a**\<close> is compiled into a machine with a cycle of splits, and every scan with
  it, of any input, recurses without end before it looks at a character.
\<close>

theorem nested_star_diverges:
  "\<exists>m. RegExPattern_build 4 0 ''a**'' = Inr (NONE, Some m) \<and>
     (\<forall>fuel input. RegExPattern_scan fuel (Some m) input = Inl Diverges)"
proof -
  define m where "m = \<lparr>m_states =
     [\<lparr>s_type = S_LITERAL, s_literal = CHR ''a'', s_out = Some (Suc 0), s_out1 = None\<rparr>,
      \<lparr>s_type = S_SPLIT, s_literal = CHR ''?'', s_out = Some 0, s_out1 = Some 2\<rparr>,
      \<lparr>s_type = S_SPLIT, s_literal = CHR ''?'', s_out = Some (Suc 0), s_out1 = Some 3\<rparr>,
      \<lparr>s_type = S_MATCH, s_literal = CHR ''?'', s_out = None, s_out1 = None\<rparr>],
     m_start = 2, m_accept = 3\<rparr>"
  have build: "RegExPattern_build 4 0 ''a**'' = Inr (NONE, Some m)"
    by (simp add: compile_defs Let_def eval_nat_numeral m_def)
  have S: "length (m_states m) = 4" "s_type (m_states m ! 0) \<noteq> S_SPLIT"
    "s_type (m_states m ! Suc 0) = S_SPLIT" "s_type (m_states m ! 2) = S_SPLIT"
    "s_out (m_states m ! Suc 0) = Some 0" "s_out1 (m_states m ! Suc 0) = Some 2"
    "s_out (m_states m ! 2) = Some (Suc 0)" "m_start m = 2"
    by (simp_all add: m_def)
  have "addSplit fuel (m_states m) (Some (Suc 0)) ids = Inl Diverges \<and>
      addSplit fuel (m_states m) (Some 2) ids = Inl Diverges" for fuel ids
  proof (induction fuel arbitrary: ids)
    case (Suc fuel)
    have "bind_result (addSplit fuel (m_states m) (Some 0) ids) (addSplit fuel (m_states m) (Some 2)) =
        Inl Diverges"
      using Suc S by (cases fuel) simp_all
    then show ?case using Suc S by simp
  qed simp
  then have "RegExPattern_scan fuel (Some m) input = Inl Diverges" for fuel input
    by (simp add: RegExPattern_scan_def Nfa_scan_def S)
  with build show ?thesis by blast
qed

end
