(* ===== verification/Tokenizer.thy ===== *)
theory Tokenizer
  imports RegExScan
begin

text \<open>
  The tokenizer of \<^verbatim>\<open>CORE/UTIL/tokenizer.inl\<close>: an ordered list of named patterns, of which
  the first that matches a non-empty prefix gives the next token. A text is the string between
  the iterators \<^verbatim>\<open>begin\<close> and \<^verbatim>\<open>end\<close> of the caller, an iterator is a position in it. The ids
  of the tokens, a template argument of the class, are a type variable.
\<close>

section \<open>Tokens\<close>

record 'id Token =
  m_id :: 'id
  m_tokenBegin :: nat
  m_tokenEnd :: nat
  m_valid :: bool

text \<open>The default constructor initialises \<^verbatim>\<open>m_valid\<close> only; \<open>junk\<close> is what the rest holds.\<close>

definition Token_empty :: "'id Token \<Rightarrow> 'id Token" where
  "Token_empty junk = junk\<lparr>m_valid := False\<rparr>"

definition Token_new :: "'id \<Rightarrow> nat \<Rightarrow> nat \<Rightarrow> 'id Token" where
  "Token_new i b e = \<lparr>m_id = i, m_tokenBegin = b, m_tokenEnd = e, m_valid = True\<rparr>"

definition Token_getId :: "'id Token \<Rightarrow> fault + 'id" where
  "Token_getId t = (if m_valid t then Inr (m_id t) else Inl CheckFailed)"

definition Token_getToken :: "string \<Rightarrow> 'id Token \<Rightarrow> fault + string" where
  "Token_getToken str t =
     (if m_valid t then Inr (take (m_tokenEnd t - m_tokenBegin t) (drop (m_tokenBegin t) str))
      else Inl CheckFailed)"

definition Token_eq :: "'id Token \<Rightarrow> 'id Token \<Rightarrow> bool" where
  "Token_eq t u =
     (if \<not> m_valid t \<and> \<not> m_valid u then True
      else m_valid t = m_valid u \<and> m_id t = m_id u \<and>
           m_tokenBegin t = m_tokenBegin u \<and> m_tokenEnd t = m_tokenEnd u)"

lemma Token_new_simps [simp]:
  "m_valid (Token_new i b e)" "m_id (Token_new i b e) = i"
  "m_tokenBegin (Token_new i b e) = b" "m_tokenEnd (Token_new i b e) = e"
  "\<not> m_valid (Token_empty junk)"
  by (simp_all add: Token_new_def Token_empty_def)

lemma Token_getId_new [simp]: "Token_getId (Token_new i b e) = Inr i"
  by (simp add: Token_getId_def)

section \<open>The scanning interface\<close>

text \<open>The loop over the patterns: the first whose match is not empty.\<close>

fun first_match :: "('p \<Rightarrow> string \<Rightarrow> fault + nat) \<Rightarrow> ('id \<times> 'p) list \<Rightarrow> string \<Rightarrow> fault + ('id \<times> nat) option" where
  "first_match scan [] str = Inr None"
| "first_match scan ((i, p) # ts) str =
     bind_result (scan p str) (\<lambda>k. if k \<noteq> 0 then Inr (Some (i, k)) else first_match scan ts str)"

text \<open>
  What the tokenizer relies on: a scan stays inside the text it is given.
\<close>

locale token_scanner =
  fixes scan :: "'p \<Rightarrow> string \<Rightarrow> fault + nat"
  assumes scan_in_text: "scan p str = Inr k \<Longrightarrow> k \<le> length str"
begin

lemma first_match_bounds:
  "first_match scan ts str = Inr (Some (i, k)) \<Longrightarrow> 0 < k \<and> k \<le> length str"
  by (induction ts) (auto simp: bind_result_eq_Inr split: if_splits dest: scan_in_text)

lemma first_match_Some:
  "first_match scan ts str = Inr (Some (i, k)) \<longleftrightarrow>
   (\<exists>n p. n < length ts \<and> ts ! n = (i, p) \<and> scan p str = Inr k \<and> k \<noteq> 0 \<and>
      list_all (\<lambda>(j, q). scan q str = Inr 0) (take n ts))"
    (is "?lhs ts \<longleftrightarrow> ?rhs ts")
proof (induction ts)
  case Nil
  then show ?case by simp
next
  case (Cons t ts)
  obtain j q where t: "t = (j, q)" by (cases t)
  show ?case
  proof
    assume l: "?lhs (t # ts)"
    then obtain k' where k': "scan q str = Inr k'" by (auto simp: t bind_result_eq_Inr)
    show "?rhs (t # ts)"
    proof (cases "k' = 0")
      case True
      with l k' Cons.IH obtain n p where "n < length ts" "ts ! n = (i, p)" "scan p str = Inr k" "k \<noteq> 0"
        "list_all (\<lambda>(j, q). scan q str = Inr 0) (take n ts)" by (auto simp: t)
      with True k' t show ?thesis by (intro exI [of _ "Suc n"] exI [of _ p]) simp
    next
      case False
      with l k' t show ?thesis by (intro exI [of _ 0] exI [of _ q]) simp
    qed
  next
    assume "?rhs (t # ts)"
    then obtain n p where n: "n < length (t # ts)" "(t # ts) ! n = (i, p)" "scan p str = Inr k" "k \<noteq> 0"
      "list_all (\<lambda>(j, q). scan q str = Inr 0) (take n (t # ts))" by blast
    show "?lhs (t # ts)"
    proof (cases n)
      case 0
      with n t show ?thesis by simp
    next
      case (Suc m)
      with n t have "?rhs ts" by (intro exI [of _ m] exI [of _ p]) simp
      with Cons.IH n Suc t show ?thesis by simp
    qed
  qed
qed

lemma first_match_None:
  "first_match scan ts str = Inr None \<longleftrightarrow> list_all (\<lambda>(j, q). scan q str = Inr 0) ts"
  by (induction ts) (auto simp: bind_result_eq_Inr split: if_splits)

end

lemma scan_loop_in_text:
  assumes "scan_loop fuel states pos cur retVal str = Inr (Some k)"
    and "\<And>j. retVal = Some j \<Longrightarrow> j \<le> pos"
  shows "k \<le> pos + length str"
  using assms
proof (induction fuel states pos cur retVal str rule: scan_loop.induct)
  case (1 fuel states pos currentStates retVal)
  then show ?case by (cases retVal) auto
next
  case (2 fuel states pos currentStates retVal c str)
  then show ?case by (fastforce simp: bind_result_eq_Inr split: if_splits)
qed

lemma RegExPattern_scan_in_text:
  assumes "RegExPattern_scan fuel p str = Inr k"
  shows "k \<le> length str"
proof (cases p)
  case None
  with assms show ?thesis by (simp add: RegExPattern_scan_def)
next
  case (Some m)
  with assms obtain cur r where "scan_loop fuel (m_states m) 0 cur None str = Inr r"
    "k = (case r of None \<Rightarrow> 0 | Some i \<Rightarrow> i)"
    by (auto simp: RegExPattern_scan_def Nfa_scan_def bind_result_eq_Inr)
  then show ?thesis using scan_loop_in_text [of fuel "m_states m" 0 cur None str k] by (cases r) auto
qed

interpretation rx: token_scanner "RegExPattern_scan fuel" for fuel
  by unfold_locales (rule RegExPattern_scan_in_text)

section \<open>Tokenizer\<close>

type_synonym 'id tokenizer_list = "('id \<times> RegExPattern) list"

text \<open>
  \<^verbatim>\<open>getNextToken\<close> from position \<open>pos\<close> of the text; \<open>junk\<close> is the content of the stack slot of
  the temporary \<^verbatim>\<open>Token()\<close>. The result is the return value and the output argument.
\<close>

definition getNextToken :: "nat \<Rightarrow> 'id tokenizer_list \<Rightarrow> 'id Token \<Rightarrow> string \<Rightarrow> nat \<Rightarrow> fault + bool \<times> 'id Token" where
  "getNextToken fuel m_tokenizers junk str pos =
     bind_result (first_match (RegExPattern_scan fuel) m_tokenizers (drop pos str)) (\<lambda>r.
       case r of
         Some (i, k) \<Rightarrow> Inr (True, Token_new i pos (pos + k))
       | None \<Rightarrow> Inr (False, Token_empty junk))"

lemma getNextToken_True:
  "getNextToken fuel ts junk str pos = Inr (True, t) \<longleftrightarrow>
   (\<exists>i k. first_match (RegExPattern_scan fuel) ts (drop pos str) = Inr (Some (i, k)) \<and>
      t = Token_new i pos (pos + k))"
  by (auto simp: getNextToken_def bind_result_eq_Inr split: option.splits)

lemma getNextToken_progress:
  assumes "getNextToken fuel ts junk str pos = Inr (True, t)"
  shows "m_valid t" "m_tokenBegin t = pos" "pos < m_tokenEnd t" "m_tokenEnd t \<le> length str"
  using assms by (auto simp: getNextToken_True dest: rx.first_match_bounds)

record 'id token_iterator =
  m_currentToken :: "'id Token"
  m_string :: string

definition iterator_begin :: "nat \<Rightarrow> 'id tokenizer_list \<Rightarrow> 'id Token \<Rightarrow> string \<Rightarrow> fault + 'id token_iterator" where
  "iterator_begin fuel ts junk str =
     bind_result (getNextToken fuel ts junk str 0) (\<lambda>(_, t).
       Inr \<lparr>m_currentToken = t, m_string = str\<rparr>)"

definition iterator_next :: "nat \<Rightarrow> 'id tokenizer_list \<Rightarrow> 'id Token \<Rightarrow> 'id token_iterator \<Rightarrow> fault + 'id token_iterator" where
  "iterator_next fuel ts junk it =
     (if m_valid (m_currentToken it)
      then bind_result (getNextToken fuel ts junk (m_string it) (m_tokenEnd (m_currentToken it))) (\<lambda>(_, t).
        Inr (it\<lparr>m_currentToken := t\<rparr>))
      else Inr it)"

definition iterator_eq :: "'id token_iterator \<Rightarrow> 'id token_iterator \<Rightarrow> bool" where
  "iterator_eq a b = Token_eq (m_currentToken a) (m_currentToken b)"

text \<open>
  \<^verbatim>\<open>getNextToken\<close> returns a token exactly when one of the patterns matches a non-empty
  prefix of the rest of the text, and then the token of the first such pattern in the order of
  the list (not of the longest match): its id, the position asked for as its beginning, and
  the end that the pattern's scan gives; every pattern before it matched nothing.
\<close>

theorem getNextToken_first_match:
  "getNextToken fuel ts junk str pos = Inr (True, t) \<longleftrightarrow>
   (\<exists>n p k. n < length ts \<and> snd (ts ! n) = p \<and> RegExPattern_scan fuel p (drop pos str) = Inr k \<and> k \<noteq> 0 \<and>
      list_all (\<lambda>(j, q). RegExPattern_scan fuel q (drop pos str) = Inr 0) (take n ts) \<and>
      t = Token_new (fst (ts ! n)) pos (pos + k))"
  unfolding getNextToken_True rx.first_match_Some by (auto split: prod.splits) (fastforce simp: prod_eq_iff)+

text \<open>
  The tokens a caller reads by asking again at the end of each token, as the loop of the
  parser does: a run from a position, its tokens, the position where it stops and the way it stops.
\<close>

inductive token_run :: "nat \<Rightarrow> 'id tokenizer_list \<Rightarrow> 'id Token \<Rightarrow> string \<Rightarrow> nat \<Rightarrow> 'id Token list \<Rightarrow> nat \<Rightarrow> bool"
  for fuel ts junk str where
  stop: "getNextToken fuel ts junk str pos = Inr (False, t) \<Longrightarrow> token_run fuel ts junk str pos [] pos"
| step: "getNextToken fuel ts junk str pos = Inr (True, t) \<Longrightarrow>
    token_run fuel ts junk str (m_tokenEnd t) us pos' \<Longrightarrow> token_run fuel ts junk str pos (t # us) pos'"

lemma getNextToken_measure:
  "getNextToken tf ts jt str cur = Inr (True, t) \<Longrightarrow> length str - m_tokenEnd t < length str - cur"
  using getNextToken_progress [of tf ts jt str cur t] by linarith

lemma token_run_end: "token_run fuel ts junk str pos us pos' \<Longrightarrow> pos \<le> length str \<Longrightarrow> pos \<le> pos' \<and> pos' \<le> length str"
proof (induction rule: token_run.induct)
  case (stop pos t)
  then show ?case by simp
next
  case (step pos t us pos')
  with getNextToken_progress [OF step.hyps(1)] show ?case by simp
qed

lemma token_text:
  assumes "getNextToken fuel ts junk str pos = Inr (True, t)"
  shows "Token_getToken str t = Inr (take (m_tokenEnd t - pos) (drop pos str))"
  using getNextToken_progress [OF assms] by (simp add: Token_getToken_def)

lemma take_drop_split:
  "a \<le> b \<Longrightarrow> b \<le> c \<Longrightarrow> take (b - a) (drop a xs) @ take (c - b) (drop b xs) = take (c - a) (drop a xs)"
proof -
  assume le: "a \<le> b" "b \<le> c"
  then have "drop b xs = drop (b - a) (drop a xs)" by simp
  moreover have "c - a = (b - a) + (c - b)" using le by simp
  ultimately show ?thesis by (simp only: take_add)
qed

text \<open>
  C36. The tokens that repeated calls give cover the text without gap or overlap: every
  one is valid and its text can be read, and the texts, put together, are the part of the input
  between the start and the position where no pattern matches any more.
\<close>

theorem tokens_cover_text:
  assumes "token_run fuel ts junk str pos us pos'"
    and "pos \<le> length str"
  shows "\<exists>texts. map (Token_getToken str) us = map Inr texts \<and>
    list_all (\<lambda>x. x \<noteq> []) texts \<and> concat texts = take (pos' - pos) (drop pos str)"
  using assms
proof (induction rule: token_run.induct)
  case (stop pos t)
  then show ?case by simp
next
  case (step pos t us pos')
  note p = getNextToken_progress [OF step.hyps(1)]
  from step.IH [OF p(4)] obtain texts where texts:
    "map (Token_getToken str) us = map Inr texts" "list_all (\<lambda>x. x \<noteq> []) texts"
    "concat texts = take (pos' - m_tokenEnd t) (drop (m_tokenEnd t) str)" by blast
  have "m_tokenEnd t \<le> pos'" using token_run_end [OF step.hyps(2) p(4)] by simp
  with p texts show ?case
    by (intro exI [of _ "take (m_tokenEnd t - pos) (drop pos str) # texts"])
       (simp add: token_text [OF step.hyps(1)] take_drop_split)
qed

text \<open>A machine for the pattern of one letter, for examples.\<close>

definition letter_machine :: "char \<Rightarrow> RegExPattern" where
  "letter_machine c = Some \<lparr>m_states =
     [\<lparr>s_type = S_LITERAL, s_literal = c, s_out = Some 1, s_out1 = None\<rparr>,
      \<lparr>s_type = S_MATCH, s_literal = CHR ''?'', s_out = None, s_out1 = None\<rparr>],
     m_start = 0, m_accept = 1\<rparr>"

lemma letter_machine_built: "RegExPattern_build 4 0 [CHR ''a''] = Inr (NONE, letter_machine (CHR ''a''))"
  by (simp add: compile_defs Let_def eval_nat_numeral letter_machine_def)

lemma letter_machine_start:
  "addSplit 4 [\<lparr>s_type = S_LITERAL, s_literal = c, s_out = Some (Suc 0), s_out1 = None\<rparr>,
      \<lparr>s_type = S_MATCH, s_literal = CHR ''?'', s_out = None, s_out1 = None\<rparr>] (Some 0) [] = Inr [0]"
  by (simp add: vs_insert_def eval_nat_numeral)

lemma letter_machine_scan [simp]:
  "RegExPattern_scan 4 (letter_machine c) [] = Inr 0"
  "RegExPattern_scan 4 (letter_machine c) (c # s) = Inr 1"
  "c \<noteq> d \<Longrightarrow> RegExPattern_scan 4 (letter_machine c) (d # s) = Inr 0"
  subgoal
    by (simp add: letter_machine_def RegExPattern_scan_def Nfa_scan_def letter_machine_start del: addSplit.simps)
  subgoal
    by (cases s) (simp_all add: letter_machine_def RegExPattern_scan_def Nfa_scan_def letter_machine_start
      state_matches_def nfa_isMatch_def vs_insert_def eval_nat_numeral)
  subgoal
    by (cases s) (simp_all add: letter_machine_def RegExPattern_scan_def Nfa_scan_def letter_machine_start
      state_matches_def nfa_isMatch_def)
  done

theorem tokens_cover_text_witness:
  "\<exists>texts. map (Token_getToken ''ab a'') [Token_new (1::nat) 0 1, Token_new 2 1 2] = map Inr texts \<and>
    list_all (\<lambda>x. x \<noteq> []) texts \<and> concat texts = take (2 - 0) (drop 0 ''ab a'')"
proof -
  let ?ts = "[(1::nat, letter_machine (CHR ''a'')), (2, letter_machine (CHR ''b''))]"
  let ?junk = "Token_new (0::nat) 0 0"
  have 2: "getNextToken 4 ?ts ?junk ''ab a'' 2 = Inr (False, Token_empty ?junk)"
    and 1: "getNextToken 4 ?ts ?junk ''ab a'' 1 = Inr (True, Token_new 2 1 2)"
    and 0: "getNextToken 4 ?ts ?junk ''ab a'' 0 = Inr (True, Token_new 1 0 1)"
    by (simp_all add: getNextToken_def)
  from token_run.step [OF 1] token_run.stop [OF 2]
  have "token_run 4 ?ts ?junk ''ab a'' 1 [Token_new 2 1 2] 2" by simp
  with token_run.step [OF 0, of "[Token_new 2 1 2]" 2] have "token_run 4 ?ts ?junk ''ab a'' 0 [Token_new 1 0 1, Token_new 2 1 2] 2"
    by simp
  from tokens_cover_text [OF this] show ?thesis by simp
qed

end
