(* ===== verification/LRParser.thy ===== *)
theory LRParser
  imports Tokenizer StringUtil
begin

text \<open>
  The shift-reduce parser of \<^verbatim>\<open>CORE/UTIL/lrparser.inl\<close>: a stack of tokens and reduced rules,
  on which the first rule whose chain of symbols is on the top of the stack is reduced as
  long as there is one. The nodes that the callbacks build (\<^verbatim>\<open>iNode *\<close>) are values of a type
  variable. A callback is a function of the matched part of the stack and of the state of the
  client it is bound to (\<^verbatim>\<open>from_method\<close>), which the parser threads through; it may fault.
\<close>

section \<open>Symbols and rules\<close>

datatype node_type = TOKEN | RULE_NODE | INVALID

record ('id, 'n) TokenOrNode =
  m_type :: node_type
  m_token :: "'id Token"
  m_ruleId :: nat
  m_pNode :: "'n option"
  m_line :: nat

text \<open>
  The constructors leave \<^verbatim>\<open>m_ruleId\<close> (of a token) and the fields of the empty \<^verbatim>\<open>m_token\<close>
  (of a rule) without initialisation: \<open>jr\<close> and \<open>jt\<close> are what the memory held.
\<close>

definition TokenOrNode_token :: "nat \<Rightarrow> 'id Token \<Rightarrow> nat \<Rightarrow> ('id, 'n) TokenOrNode" where
  "TokenOrNode_token jr token line =
     \<lparr>m_type = TOKEN, m_token = token, m_ruleId = jr, m_pNode = None, m_line = line\<rparr>"

definition TokenOrNode_rule :: "'id Token \<Rightarrow> nat \<Rightarrow> nat \<Rightarrow> 'n option \<Rightarrow> ('id, 'n) TokenOrNode" where
  "TokenOrNode_rule jt rule line pNode =
     \<lparr>m_type = RULE_NODE, m_token = Token_empty jt, m_ruleId = rule, m_pNode = pNode, m_line = line\<rparr>"

definition TokenOrNode_matches :: "('id, 'n) TokenOrNode \<Rightarrow> ('id, 'n) TokenOrNode \<Rightarrow> fault + bool" where
  "TokenOrNode_matches self other =
     (if m_type self \<noteq> m_type other then Inr False
      else case m_type self of
        TOKEN \<Rightarrow> bind_result (Token_getId (m_token self)) (\<lambda>i.
                 bind_result (Token_getId (m_token other)) (\<lambda>j. Inr (i = j)))
      | RULE_NODE \<Rightarrow> Inr (m_ruleId self = m_ruleId other)
      | INVALID \<Rightarrow> Inl CheckFailed)"

text \<open>A callback: whether it accepts, the node it makes, and the state of the client after it.\<close>

type_synonym ('id, 'n, 's) tProc = "('id, 'n) TokenOrNode list \<Rightarrow> 's \<Rightarrow> fault + bool \<times> 'n option \<times> 's"

record ('id, 'n, 's) RuleOrTokenChain =
  m_nodes :: "('id, 'n) TokenOrNode list"
  m_callback :: "('id, 'n, 's) tProc option"

definition chain_new :: "('id, 'n, 's) RuleOrTokenChain" where
  "chain_new = \<lparr>m_nodes = [], m_callback = None\<rparr>"

definition chain_new_callback :: "('id, 'n, 's) tProc \<Rightarrow> ('id, 'n, 's) RuleOrTokenChain" where
  "chain_new_callback callback = \<lparr>m_nodes = [], m_callback = Some callback\<rparr>"

record ('id, 'n, 's) Rule =
  m_name :: string
  m_rule_id :: nat
  m_chains :: "('id, 'n, 's) RuleOrTokenChain list"

definition chain_and_rule :: "'id Token \<Rightarrow> ('id, 'n, 's) RuleOrTokenChain \<Rightarrow> ('id, 'n, 's) Rule \<Rightarrow> ('id, 'n, 's) RuleOrTokenChain" where
  "chain_and_rule jt chain rule =
     chain\<lparr>m_nodes := m_nodes chain @ [TokenOrNode_rule jt (m_rule_id rule) 0 None]\<rparr>"

definition chain_and_token :: "nat \<Rightarrow> ('id, 'n, 's) RuleOrTokenChain \<Rightarrow> 'id \<Rightarrow> ('id, 'n, 's) RuleOrTokenChain" where
  "chain_and_token jr chain token =
     chain\<lparr>m_nodes := m_nodes chain @ [TokenOrNode_token jr (Token_new token 0 0) 0]\<rparr>"

definition Rule_new :: "string \<Rightarrow> nat \<Rightarrow> ('id, 'n, 's) Rule" where
  "Rule_new name i = \<lparr>m_name = name, m_rule_id = i, m_chains = []\<rparr>"

definition Rule_or :: "('id, 'n, 's) Rule \<Rightarrow> ('id, 'n, 's) RuleOrTokenChain \<Rightarrow> ('id, 'n, 's) Rule" where
  "Rule_or rule chain = rule\<lparr>m_chains := m_chains rule @ [chain]\<rparr>"

section \<open>Reducing by one chain\<close>

text \<open>
  The comparison loop of \<^verbatim>\<open>Rule::reduce\<close>: \<open>None\<close> for a mismatch, else what is left of the
  stack's part (\<^verbatim>\<open>cur\<close> to \<^verbatim>\<open>end\<close>).
\<close>

fun reduce_match :: "('id, 'n) TokenOrNode list \<Rightarrow> ('id, 'n) TokenOrNode list \<Rightarrow> fault + ('id, 'n) TokenOrNode list option" where
  "reduce_match [] cur = Inr (Some cur)"
| "reduce_match (p # ps) [] = Inr (Some [])"
| "reduce_match (p # ps) (c # cs) =
     bind_result (TokenOrNode_matches p c) (\<lambda>b. if b then reduce_match ps cs else Inr None)"

text \<open>
  \<^verbatim>\<open>Rule::reduce\<close> on the part \<open>nodes\<close> of the stack; the line of its first element is read
  before anything else, also when there is none.
\<close>

definition Rule_reduce :: "'id Token \<Rightarrow> ('id, 'n, 's) Rule \<Rightarrow> nat \<Rightarrow> ('id, 'n) TokenOrNode list \<Rightarrow> 's \<Rightarrow> fault + ('id, 'n) TokenOrNode option \<times> 's" where
  "Rule_reduce jt rule chainId nodes s =
     (case nodes of
        [] \<Rightarrow> Inl OutOfBounds
      | first # _ \<Rightarrow>
          (let line = m_line first in
           case nth_opt (m_chains rule) chainId of
             None \<Rightarrow> Inl OutOfBounds
           | Some chain \<Rightarrow>
               bind_result (reduce_match (m_nodes chain) nodes) (\<lambda>cur.
                 if cur \<noteq> Some [] then Inr (None, s)
                 else case m_callback chain of
                   Some callback \<Rightarrow>
                     bind_result (callback nodes s) (\<lambda>(ok, pNode, s').
                       if ok then Inr (Some (TokenOrNode_rule jt (m_rule_id rule) line pNode), s')
                       else Inr (None, s'))
                 | None \<Rightarrow> Inr (Some (TokenOrNode_rule jt (m_rule_id rule) line None), s))))"

text \<open>The loop of \<^verbatim>\<open>Rule::matchLen\<close>.\<close>

fun match_len :: "('id, 'n) TokenOrNode list \<Rightarrow> ('id, 'n) TokenOrNode list \<Rightarrow> fault + nat" where
  "match_len (p # ps) (c # cs) =
     bind_result (TokenOrNode_matches p c) (\<lambda>b.
       if b then bind_result (match_len ps cs) (\<lambda>n. Inr (Suc n)) else Inr 0)"
| "match_len ps cs = Inr 0"

definition Rule_chains :: "('id, 'n, 's) Rule \<Rightarrow> nat" where
  "Rule_chains rule = length (m_chains rule)"

definition Rule_tokenLen :: "('id, 'n, 's) Rule \<Rightarrow> nat \<Rightarrow> nat" where
  "Rule_tokenLen rule chain = length (m_nodes (m_chains rule ! chain))"

section \<open>The parser\<close>

definition MAX_LR_PARSER_RULES :: nat where
  "MAX_LR_PARSER_RULES = 128"

record ('id, 'n, 's) LRParser =
  m_tokenizer :: "'id tokenizer_list"
  m_stackDepth :: nat
  m_rules :: "('id, 'n, 's) Rule list"

definition LRParser_new :: "'id tokenizer_list \<Rightarrow> nat \<Rightarrow> ('id, 'n, 's) LRParser" where
  "LRParser_new tokenizer stackDepth =
     \<lparr>m_tokenizer = tokenizer, m_stackDepth = stackDepth, m_rules = []\<rparr>"

text \<open>
  \<^verbatim>\<open>addRule\<close>, with the capacity that \<^verbatim>\<open>reserve\<close> asked for in the constructor; the check keeps
  the references that were handed out valid. The result is the parser with the rule at its end.
\<close>

definition LRParser_addRule :: "('id, 'n, 's) LRParser \<Rightarrow> string \<Rightarrow> fault + ('id, 'n, 's) LRParser" where
  "LRParser_addRule p name =
     (if length (m_rules p) < MAX_LR_PARSER_RULES
      then Inr (p\<lparr>m_rules := m_rules p @ [Rule_new name (length (m_rules p))]\<rparr>)
      else Inl CheckFailed)"

text \<open>The client's \<^verbatim>\<open>rule |= chain\<close> through the reference to rule \<open>r\<close>.\<close>

definition LRParser_or :: "('id, 'n, 's) LRParser \<Rightarrow> nat \<Rightarrow> ('id, 'n, 's) RuleOrTokenChain \<Rightarrow> ('id, 'n, 's) LRParser" where
  "LRParser_or p r chain = p\<lparr>m_rules := (m_rules p)[r := Rule_or (m_rules p ! r) chain]\<rparr>"

text \<open>The two loops of \<^verbatim>\<open>LRParser::reduce\<close>: the chains of a rule, and the rules.\<close>

fun try_chains :: "'id Token \<Rightarrow> ('id, 'n, 's) Rule \<Rightarrow> nat list \<Rightarrow> ('id, 'n) TokenOrNode list \<Rightarrow> 's \<Rightarrow> fault + ('id, 'n) TokenOrNode list option \<times> 's" where
  "try_chains jt rule [] stack s = Inr (None, s)"
| "try_chains jt rule (chain # cs) stack s =
     (let len = Rule_tokenLen rule chain in
      if len > length stack then try_chains jt rule cs stack s
      else bind_result (Rule_reduce jt rule chain (drop (length stack - len) stack) s) (\<lambda>(t, s').
        case t of
          Some token \<Rightarrow> Inr (Some (take (length stack - len) stack @ [token]), s')
        | None \<Rightarrow> try_chains jt rule cs stack s'))"

fun try_rules :: "'id Token \<Rightarrow> ('id, 'n, 's) Rule list \<Rightarrow> ('id, 'n) TokenOrNode list \<Rightarrow> 's \<Rightarrow> fault + ('id, 'n) TokenOrNode list option \<times> 's" where
  "try_rules jt [] stack s = Inr (None, s)"
| "try_rules jt (rule # rs) stack s =
     bind_result (try_chains jt rule [0..<Rule_chains rule] stack s) (\<lambda>(r, s').
       case r of Some stack' \<Rightarrow> Inr (Some stack', s') | None \<Rightarrow> try_rules jt rs stack s')"

definition LRParser_reduce :: "'id Token \<Rightarrow> ('id, 'n, 's) LRParser \<Rightarrow> ('id, 'n) TokenOrNode list \<Rightarrow> 's \<Rightarrow> fault + ('id, 'n) TokenOrNode list option \<times> 's" where
  "LRParser_reduce jt p stack s = try_rules jt (m_rules p) stack s"

text \<open>\<^verbatim>\<open>while (reduce(stack))\<close>, with fuel.\<close>

fun reduce_all :: "nat \<Rightarrow> 'id Token \<Rightarrow> ('id, 'n, 's) LRParser \<Rightarrow> ('id, 'n) TokenOrNode list \<Rightarrow> 's \<Rightarrow> fault + ('id, 'n) TokenOrNode list \<times> 's" where
  "reduce_all 0 jt p stack s = Inl Diverges"
| "reduce_all (Suc fuel) jt p stack s =
     bind_result (LRParser_reduce jt p stack s) (\<lambda>(r, s').
       case r of Some stack' \<Rightarrow> reduce_all fuel jt p stack' s' | None \<Rightarrow> Inr (stack, s'))"

text \<open>
  The token loop of \<^verbatim>\<open>parse\<close>, from position \<open>cur\<close>; \<open>tf\<close> is the fuel of the scans. It ends
  because every token has a character.
\<close>

definition token_lines :: "string \<Rightarrow> 'id Token \<Rightarrow> nat" where
  "token_lines str t = CountLines (take (m_tokenEnd t - m_tokenBegin t) (drop (m_tokenBegin t) str))"

function parse_loop :: "nat \<Rightarrow> nat \<Rightarrow> 'id Token \<Rightarrow> nat \<Rightarrow> ('id, 'n, 's) LRParser \<Rightarrow> 'id \<Rightarrow> string \<Rightarrow> nat \<Rightarrow> nat \<Rightarrow> ('id, 'n) TokenOrNode list \<Rightarrow> 's \<Rightarrow> fault + ('id, 'n) TokenOrNode list \<times> 's" where
  "parse_loop tf fuel jt jr p ignore str cur line stack s =
     bind_result (getNextToken tf (m_tokenizer p) jt str cur) (\<lambda>(ok, token).
       if ok then
         bind_result (Token_getId token) (\<lambda>i.
           if i = ignore
           then parse_loop tf fuel jt jr p ignore str (m_tokenEnd token) (line + token_lines str token) stack s
           else bind_result (reduce_all fuel jt p (stack @ [TokenOrNode_token jr token (line + token_lines str token)]) s) (\<lambda>(stack', s').
             parse_loop tf fuel jt jr p ignore str (m_tokenEnd token) (line + token_lines str token) stack' s'))
       else Inr (stack, s))"
  by pat_completeness auto
termination
  by (relation "measure (\<lambda>(tf, fuel, jt, jr, p, ignore, str, cur, line, stack, s). length str - cur)")
     (auto dest: getNextToken_measure)

declare parse_loop.simps [simp del]

section \<open>The error report\<close>

text \<open>
  \<^verbatim>\<open>storeBestError\<close> looks for the rule whose chains match most of the stack from a position,
  and reports what follows the match. The values kept: the length of the best match,
  \<^verbatim>\<open>bestRule\<close> and \<^verbatim>\<open>lastFollow\<close>, where the number of rules stands for none.
\<close>

fun best_chains :: "nat \<Rightarrow> nat \<Rightarrow> ('id, 'n, 's) RuleOrTokenChain list \<Rightarrow> ('id, 'n) TokenOrNode list \<Rightarrow> nat \<times> nat \<times> nat \<Rightarrow> fault + nat \<times> nat \<times> nat" where
  "best_chains n rule [] rest best = Inr best"
| "best_chains n rule (chain # cs) rest best =
     bind_result (match_len (m_nodes chain) rest) (\<lambda>matchLen.
       best_chains n rule cs rest (if matchLen > fst best then (matchLen, rule, n) else best))"

fun best_rules :: "nat \<Rightarrow> nat \<Rightarrow> ('id, 'n, 's) Rule list \<Rightarrow> ('id, 'n) TokenOrNode list \<Rightarrow> nat \<times> nat \<times> nat \<Rightarrow> fault + nat \<times> nat \<times> nat" where
  "best_rules n i [] rest best = Inr best"
| "best_rules n i (rule # rs) rest best =
     (let best = (if rest \<noteq> [] \<and> m_type (hd rest) = RULE_NODE \<and> m_ruleId (hd rest) = i
                  then (1, n, i) else best)
      in bind_result (best_chains n i (m_chains rule) rest best) (best_rules n (Suc i) rs rest))"

text \<open>The name of what follows the match and its line; \<open>names\<close> is the table \<^verbatim>\<open>tId::names\<close>.\<close>

definition follow_tag :: "('id \<Rightarrow> string) \<Rightarrow> ('id, 'n, 's) Rule list \<Rightarrow> ('id, 'n) TokenOrNode list \<Rightarrow> fault + string \<times> nat" where
  "follow_tag names rules rest =
     (case rest of
        [] \<Rightarrow> Inr (''<EOF>'', 0)
      | x # _ \<Rightarrow>
          (case m_type x of
             TOKEN \<Rightarrow> bind_result (Token_getId (m_token x)) (\<lambda>i. Inr (names i, m_line x))
           | RULE_NODE \<Rightarrow>
               (case nth_opt rules (m_ruleId x) of
                  None \<Rightarrow> Inl OutOfBounds
                | Some r \<Rightarrow> Inr (m_name r, m_line x))
           | INVALID \<Rightarrow> Inl CheckFailed))"

definition error_message :: "('id, 'n, 's) Rule list \<Rightarrow> nat \<Rightarrow> nat \<Rightarrow> string \<Rightarrow> nat \<Rightarrow> string" where
  "error_message rules bestRule lastFollow tag lastLine =
     (if bestRule \<noteq> length rules
      then ''Unexpected '' @ tag @ '' while parsing '' @ m_name (rules ! bestRule) @ '' on line '' @ show_nat lastLine
      else if lastFollow \<noteq> length rules
      then ''Unexpected '' @ tag @ '' following '' @ m_name (rules ! lastFollow) @ '' on line '' @ show_nat lastLine
      else ''Unexpected '' @ tag @ '' with no matching rules on line '' @ show_nat lastLine)"

text \<open>The loop: the messages passed to the callback, in order.\<close>

function store_best :: "('id \<Rightarrow> string) \<Rightarrow> ('id, 'n, 's) Rule list \<Rightarrow> nat \<Rightarrow> nat \<Rightarrow> ('id, 'n) TokenOrNode list \<Rightarrow> fault + string list" where
  "store_best names rules bestRule lastFollow rest =
     (if rest = [] then Inr []
      else bind_result (best_rules (length rules) 0 rules rest (0, bestRule, lastFollow)) (\<lambda>(bestMatch, bestRule, lastFollow).
        if bestMatch > 0
        then bind_result (follow_tag names rules (drop bestMatch rest)) (\<lambda>(tag, lastLine).
             bind_result (store_best names rules bestRule lastFollow (drop bestMatch rest)) (\<lambda>msgs.
               Inr (error_message rules bestRule lastFollow tag lastLine # msgs)))
        else Inr [''Unable to match symbols'']))"
  by pat_completeness auto
termination
  by (relation "measure (\<lambda>(names, rules, b, l, rest). length rest)") auto

declare store_best.simps [simp del]

definition storeBestError :: "('id \<Rightarrow> string) \<Rightarrow> ('id, 'n, 's) LRParser \<Rightarrow> ('id, 'n) TokenOrNode list \<Rightarrow> fault + string list" where
  "storeBestError names p stack =
     store_best names (m_rules p) (length (m_rules p)) (length (m_rules p)) stack"

section \<open>Parse\<close>

text \<open>
  \<^verbatim>\<open>parse\<close>, with the client in state \<open>s\<close>: the return value, the calls of the error callback, and
  the state of the client at the end.
\<close>

definition LRParser_parse :: "nat \<Rightarrow> nat \<Rightarrow> 'id Token \<Rightarrow> nat \<Rightarrow> ('id \<Rightarrow> string) \<Rightarrow> ('id, 'n, 's) LRParser \<Rightarrow> 'id \<Rightarrow> string \<Rightarrow> 's \<Rightarrow> fault + bool \<times> string list \<times> 's" where
  "LRParser_parse tf fuel jt jr names p ignore str s =
     bind_result (parse_loop tf fuel jt jr p ignore str 0 0 [] s) (\<lambda>(stack, s').
       let err = bind_result (storeBestError names p stack) (\<lambda>msgs. Inr (False, msgs, s')) in
       if length stack \<noteq> 1 then err
       else if m_rules p = [] then Inl OutOfBounds
       else if m_ruleId (last stack) \<noteq> m_rule_id (last (m_rules p)) then err
       else Inr (True, [], s'))"

section \<open>Well-formed parsers\<close>

text \<open>What the constructors and operators guarantee of the symbols on chains and stacks, and of rules.\<close>

definition node_ok :: "nat \<Rightarrow> ('id, 'n) TokenOrNode \<Rightarrow> bool" where
  "node_ok n x \<longleftrightarrow>
     (m_type x = TOKEN \<and> m_valid (m_token x)) \<or> (m_type x = RULE_NODE \<and> m_ruleId x < n)"

definition rules_ok :: "('id, 'n, 's) Rule list \<Rightarrow> bool" where
  "rules_ok rules \<longleftrightarrow> (\<forall>i < length rules. m_rule_id (rules ! i) = i \<and>
     list_all (\<lambda>c. list_all (node_ok (length rules)) (m_nodes c)) (m_chains (rules ! i)))"

lemma node_ok_mono: "node_ok n x \<Longrightarrow> n \<le> m \<Longrightarrow> node_ok m x"
  by (auto simp: node_ok_def)

lemma node_ok_token [simp]: "m_valid t \<Longrightarrow> node_ok n (TokenOrNode_token jr t line)"
  by (simp add: node_ok_def TokenOrNode_token_def)

lemma node_ok_rule [simp]: "node_ok n (TokenOrNode_rule jt r line pn) \<longleftrightarrow> r < n"
  by (simp add: node_ok_def TokenOrNode_rule_def)

text \<open>
  C37. The operations that build a grammar keep it well-formed: every rule's id is its index, and
  every symbol of every chain is a valid token or the id of a rule. \<^verbatim>\<open>addRule\<close> fails exactly
  when there are 128 rules, and a chain built with \<^verbatim>\<open>&\<close> from well-formed parts can be added to
  any rule.
\<close>

theorem grammar_building_keeps_rules_ok:
  assumes "rules_ok (m_rules p)"
    and "list_all (node_ok (length (m_rules p))) (m_nodes chain)"
    and "r < length (m_rules p)" and "s < length (m_rules p)"
  shows "(case LRParser_addRule p name of
           Inl e \<Rightarrow> e = CheckFailed \<and> 128 \<le> length (m_rules p)
         | Inr p' \<Rightarrow> length (m_rules p) < 128 \<and> rules_ok (m_rules p')) \<and>
    rules_ok (m_rules (LRParser_or p r (chain_and_token jr (chain_and_rule jt chain (m_rules p ! s)) i)))"
proof (intro conjI)
  show "case LRParser_addRule p name of
           Inl e \<Rightarrow> e = CheckFailed \<and> 128 \<le> length (m_rules p)
         | Inr p' \<Rightarrow> length (m_rules p) < 128 \<and> rules_ok (m_rules p')"
  proof (cases "length (m_rules p) < 128")
    case True
    have "rules_ok (m_rules p @ [Rule_new name (length (m_rules p))])"
      using assms(1) unfolding rules_ok_def
      by (auto simp: Rule_new_def nth_append list_all_iff less_Suc_eq) (meson lessI less_imp_le node_ok_mono)
    with True show ?thesis by (simp add: LRParser_addRule_def MAX_LR_PARSER_RULES_def)
  qed (simp add: LRParser_addRule_def MAX_LR_PARSER_RULES_def)
  show "rules_ok (m_rules (LRParser_or p r (chain_and_token jr (chain_and_rule jt chain (m_rules p ! s)) i)))"
    using assms
    by (auto simp: LRParser_or_def Rule_or_def chain_and_token_def chain_and_rule_def rules_ok_def
      nth_list_update)
qed

section \<open>The grammar of a parser\<close>

text \<open>
  The specification: the rules read as a context-free grammar over the token ids, and the
  words that a list of symbols derives.
\<close>

datatype 'id sym = Tok 'id | Nt nat

definition sym_of :: "('id, 'n) TokenOrNode \<Rightarrow> 'id sym" where
  "sym_of x = (if m_type x = TOKEN then Tok (m_id (m_token x)) else Nt (m_ruleId x))"

lemma sym_of_simps [simp]:
  "sym_of (TokenOrNode_token jr t line) = Tok (m_id t)"
  "sym_of (TokenOrNode_rule jt r line pn) = Nt r"
  by (simp_all add: sym_of_def TokenOrNode_token_def TokenOrNode_rule_def)

inductive derives :: "('id, 'n, 's) Rule list \<Rightarrow> 'id sym list \<Rightarrow> 'id list \<Rightarrow> bool" for rules where
  empty: "derives rules [] []"
| tok: "derives rules ss w \<Longrightarrow> derives rules (Tok i # ss) (i # w)"
| rule: "r < length rules \<Longrightarrow> chain \<in> set (m_chains (rules ! r)) \<Longrightarrow>
    derives rules (map sym_of (m_nodes chain)) v \<Longrightarrow> derives rules ss w \<Longrightarrow>
    derives rules (Nt r # ss) (v @ w)"

inductive_cases derives_Cons: "derives rules (s # ss) w"

lemma derives_append: "derives rules xs u \<Longrightarrow> derives rules ys v \<Longrightarrow> derives rules (xs @ ys) (u @ v)"
  by (induction rule: derives.induct) (auto intro: derives.intros)

lemma derives_split:
  "derives rules (xs @ ys) w \<Longrightarrow> \<exists>u v. w = u @ v \<and> derives rules xs u \<and> derives rules ys v"
proof (induction xs arbitrary: w)
  case Nil
  then show ?case by (auto intro: derives.empty)
next
  case (Cons s xs)
  from Cons.prems have "derives rules (s # (xs @ ys)) w" by simp
  then show ?case
    by (rule derives_Cons)
       (metis Cons.IH append_Cons derives.tok, metis Cons.IH append.assoc derives.rule)
qed

lemma matches_sym:
  assumes "node_ok n p" "node_ok n c"
  shows "TokenOrNode_matches p c = Inr (sym_of p = sym_of c)"
  using assms by (auto simp: TokenOrNode_matches_def node_ok_def sym_of_def Token_getId_def)

text \<open>For a part of the stack of the chain's length, the loop compares the symbols.\<close>

lemma reduce_match_syms:
  assumes "list_all (node_ok n) ps" "list_all (node_ok n) cs" "length ps = length cs"
  shows "reduce_match ps cs = Inr (if map sym_of ps = map sym_of cs then Some [] else None)"
  using assms(3,1,2) by (induction ps cs rule: list_induct2) (auto simp: matches_sym)

lemma match_len_total:
  assumes "list_all (node_ok n) ps" "list_all (node_ok n) cs"
  shows "\<exists>k. match_len ps cs = Inr k \<and> k \<le> length cs"
  using assms
proof (induction ps arbitrary: cs)
  case (Cons p ps)
  show ?case
  proof (cases cs)
    case (Cons c cs')
    with Cons.IH [of cs'] Cons.prems show ?thesis by (auto simp: matches_sym)
  qed simp
qed simp

section \<open>What callbacks must keep\<close>

text \<open>
  The nodes on the stack are typed by the rules: \<open>T r n\<close> says that \<open>n\<close> is a node that rule \<open>r\<close> makes,
  and a token has no node.
\<close>

definition typed :: "(nat \<Rightarrow> 'n option \<Rightarrow> bool) \<Rightarrow> ('id, 'n) TokenOrNode \<Rightarrow> bool" where
  "typed T x \<longleftrightarrow> (if m_type x = RULE_NODE then T (m_ruleId x) (m_pNode x) else m_pNode x = None)"

lemma typed_simps [simp]:
  "typed T (TokenOrNode_token jr t line)"
  "typed T (TokenOrNode_rule jt r line pn) \<longleftrightarrow> T r pn"
  by (simp_all add: typed_def TokenOrNode_token_def TokenOrNode_rule_def)

text \<open>
  The contract of the callbacks of a grammar: called on well-typed nodes that match its chain, and
  in a client state with the invariant \<open>I\<close>, a callback keeps \<open>I\<close> and returns a node of the type
  of its rule if it accepts, or it ends with one of the faults \<open>F\<close>. A chain without callback
  makes no node.
\<close>

definition callbacks_ok :: "fault set \<Rightarrow> (nat \<Rightarrow> 'n option \<Rightarrow> bool) \<Rightarrow> ('s \<Rightarrow> bool) \<Rightarrow> ('id, 'n, 's) Rule list \<Rightarrow> bool" where
  "callbacks_ok F T I rules \<longleftrightarrow> (\<forall>r < length rules. \<forall>c \<in> set (m_chains (rules ! r)).
     case m_callback c of
       None \<Rightarrow> T r None
     | Some cb \<Rightarrow> \<forall>nodes s. map sym_of nodes = map sym_of (m_nodes c) \<longrightarrow>
         list_all (node_ok (length rules)) nodes \<longrightarrow> list_all (typed T) nodes \<longrightarrow> I s \<longrightarrow>
         result_ok F (\<lambda>(ok, pn, s'). I s' \<and> (ok \<longrightarrow> T r pn)) (cb nodes s))"

lemma callbacks_ok_trivial: "callbacks_ok UNIV (\<lambda>_ _. True) (\<lambda>_. True) rules"
  by (auto simp: callbacks_ok_def result_ok_def split: option.splits sum.splits)

lemma callbacks_ok_Some:
  assumes "callbacks_ok F T I rules" "r < length rules" "c \<in> set (m_chains (rules ! r))" "m_callback c = Some cb"
    and "map sym_of nodes = map sym_of (m_nodes c)" "list_all (node_ok (length rules)) nodes"
    and "list_all (typed T) nodes" "I s"
  shows "result_ok F (\<lambda>(ok, pn, s'). I s' \<and> (ok \<longrightarrow> T r pn)) (cb nodes s)"
  using assms by (fastforce simp: callbacks_ok_def)

lemma callbacks_ok_None:
  assumes "callbacks_ok F T I rules" "r < length rules" "c \<in> set (m_chains (rules ! r))" "m_callback c = None"
  shows "T r None"
  using assms by (fastforce simp: callbacks_ok_def)

text \<open>A stack entry: its id is the one of a rule, or what \<open>jr\<close> says for a token; its node has the type.\<close>

definition entry_ok :: "nat \<Rightarrow> nat \<Rightarrow> (nat \<Rightarrow> 'n option \<Rightarrow> bool) \<Rightarrow> ('id, 'n) TokenOrNode \<Rightarrow> bool" where
  "entry_ok n jr T x \<longleftrightarrow> node_ok n x \<and> typed T x \<and> (m_type x = TOKEN \<longrightarrow> m_ruleId x = jr)"

lemma entries_are_nodes:
  "list_all (entry_ok n jr T) s \<Longrightarrow> list_all (node_ok n) s"
  "list_all (entry_ok n jr T) s \<Longrightarrow> list_all (typed T) s"
  by (auto simp: list_all_iff entry_ok_def)

lemma entry_ok_token: "m_valid t \<Longrightarrow> entry_ok n jr T (TokenOrNode_token jr t line)"
  by (simp add: entry_ok_def) (simp add: TokenOrNode_token_def)

lemma entry_ok_rule: "entry_ok n jr T (TokenOrNode_rule jt r line pn) \<longleftrightarrow> r < n \<and> T r pn"
  by (simp add: entry_ok_def) (simp add: TokenOrNode_rule_def)

section \<open>Reductions and the stack\<close>

text \<open>A reduction of the stack: its end, the symbols of a chain, becomes a node of the rule.\<close>

inductive reduction :: "('id, 'n, 's) Rule list \<Rightarrow> (nat \<Rightarrow> 'n option \<Rightarrow> bool) \<Rightarrow> ('id, 'n) TokenOrNode list \<Rightarrow> ('id, 'n) TokenOrNode list \<Rightarrow> bool"
  for rules T where
  "r < length rules \<Longrightarrow> chain \<in> set (m_chains (rules ! r)) \<Longrightarrow> nodes \<noteq> [] \<Longrightarrow>
   map sym_of (m_nodes chain) = map sym_of nodes \<Longrightarrow> T r pn \<Longrightarrow>
   reduction rules T (front @ nodes) (front @ [TokenOrNode_rule jt r line pn])"

definition nonempty_chains :: "('id, 'n, 's) Rule list \<Rightarrow> bool" where
  "nonempty_chains rules \<longleftrightarrow> (\<forall>r < length rules. list_all (\<lambda>c. m_nodes c \<noteq> []) (m_chains (rules ! r)))"

text \<open>What the loops of one reduction do: nothing, or a reduction.\<close>

definition reduced :: "('id, 'n, 's) Rule list \<Rightarrow> (nat \<Rightarrow> 'n option \<Rightarrow> bool) \<Rightarrow> ('s \<Rightarrow> bool) \<Rightarrow> ('id, 'n) TokenOrNode list \<Rightarrow> ('id, 'n) TokenOrNode list option \<times> 's \<Rightarrow> bool" where
  "reduced rules T I stack = (\<lambda>(res, s'). I s' \<and> (\<forall>st. res = Some st \<longrightarrow> reduction rules T stack st))"

lemma Rule_reduce_spec:
  assumes ok: "rules_ok rules" "callbacks_ok F T I rules" "r < length rules"
    and nodes: "list_all (node_ok (length rules)) nodes" "list_all (typed T) nodes" "nodes \<noteq> []" "I s"
    and c: "chain < Rule_chains (rules ! r)" "length nodes = Rule_tokenLen (rules ! r) chain"
  shows "result_ok F (\<lambda>(res, s'). I s' \<and> (\<forall>t. res = Some t \<longrightarrow>
      map sym_of (m_nodes (m_chains (rules ! r) ! chain)) = map sym_of nodes \<and>
      (\<exists>line pn. t = TokenOrNode_rule jt r line pn \<and> T r pn)))
    (Rule_reduce jt (rules ! r) chain nodes s)"
proof -
  let ?ch = "m_chains (rules ! r) ! chain"
  have mem: "?ch \<in> set (m_chains (rules ! r))" using c(1) by (simp add: Rule_chains_def)
  then have "list_all (node_ok (length rules)) (m_nodes ?ch)" and id: "m_rule_id (rules ! r) = r"
    using ok(1,3) by (auto simp: rules_ok_def list_all_iff)
  from reduce_match_syms [OF this(1) nodes(1)] c(2)
  have m: "reduce_match (m_nodes ?ch) nodes =
      Inr (if map sym_of (m_nodes ?ch) = map sym_of nodes then Some [] else None)"
    by (simp add: Rule_tokenLen_def)
  obtain x xs where x: "nodes = x # xs" using nodes(3) by (cases nodes) auto
  have chain: "nth_opt (m_chains (rules ! r)) chain = Some ?ch" using c(1) by (simp add: Rule_chains_def)
  show ?thesis
  proof (cases "map sym_of (m_nodes ?ch) = map sym_of nodes")
    case False
    with m x chain nodes(4) show ?thesis by (simp add: Rule_reduce_def Let_def)
  next
    case True
    show ?thesis
    proof (cases "m_callback ?ch")
      case None
      with m x chain nodes(4) True id callbacks_ok_None [OF ok(2,3) mem None] show ?thesis
        by (auto simp: Rule_reduce_def Let_def)
    next
      case (Some cb)
      have "Rule_reduce jt (rules ! r) chain nodes s = bind_result (cb nodes s) (\<lambda>(ok, pNode, s').
          if ok then Inr (Some (TokenOrNode_rule jt r (m_line x) pNode), s') else Inr (None, s'))"
        using m x chain True Some by (simp only: Rule_reduce_def Let_def id list.case option.case bind_result_simps) simp
      moreover note cb = callbacks_ok_Some [OF ok(2,3) mem Some True [symmetric] nodes(1,2,4)]
      ultimately show ?thesis using True by (simp only:, intro result_ok_bind [OF cb]) fastforce
    qed
  qed
qed

lemma try_chains_spec:
  assumes ok: "rules_ok rules" "callbacks_ok F T I rules" "nonempty_chains rules" "r < length rules"
    and st: "list_all (node_ok (length rules)) stack" "list_all (typed T) stack"
    and "set cs \<subseteq> {0..<Rule_chains (rules ! r)}" "I s"
  shows "result_ok F (reduced rules T I stack) (try_chains jt (rules ! r) cs stack s)"
  using assms(7,8)
proof (induction cs arbitrary: s)
  case (Cons c cs)
  let ?len = "Rule_tokenLen (rules ! r) c" and ?ch = "m_chains (rules ! r) ! c"
  have rest: "I s' \<Longrightarrow> result_ok F (reduced rules T I stack) (try_chains jt (rules ! r) cs stack s')" for s'
    using Cons by simp
  show ?case
  proof (cases "?len > length stack")
    case True
    with rest Cons.prems(2) show ?thesis by simp
  next
    case False
    have c: "c < Rule_chains (rules ! r)" and mem: "?ch \<in> set (m_chains (rules ! r))"
      using Cons.prems by (simp_all add: Rule_chains_def)
    with ok(3,4) have "?len > 0" by (auto simp: nonempty_chains_def list_all_iff Rule_tokenLen_def)
    let ?nodes = "drop (length stack - ?len) stack"
    have n: "?nodes \<noteq> []" "length ?nodes = ?len" "list_all (node_ok (length rules)) ?nodes" "list_all (typed T) ?nodes"
      using \<open>?len > 0\<close> False st by (auto simp: list_all_iff dest: in_set_dropD)
    have red: "reduction rules T stack (take (length stack - ?len) stack @ [TokenOrNode_rule jt r line pn])"
      if "map sym_of (m_nodes ?ch) = map sym_of ?nodes" "T r pn" for line pn
      using reduction.intros [of r rules ?ch ?nodes T pn "take (length stack - ?len) stack" jt line, OF ok(4) mem n(1) that]
      by simp
    show ?thesis
      unfolding try_chains.simps Let_def using False
      by (simp, intro result_ok_bind [OF Rule_reduce_spec [OF ok(1,2,4) n(3,4,1) Cons.prems(2) c n(2), of jt]])
         (auto simp: reduced_def red rest [unfolded reduced_def] split: option.splits)
  qed
qed (simp add: reduced_def)

lemma try_rules_spec:
  assumes ok: "rules_ok rules" "callbacks_ok F T I rules" "nonempty_chains rules"
    and st: "list_all (node_ok (length rules)) stack" "list_all (typed T) stack"
    and "set rs \<subseteq> set rules" "I s"
  shows "result_ok F (reduced rules T I stack) (try_rules jt rs stack s)"
  using assms(6,7)
proof (induction rs arbitrary: s)
  case (Cons rule rs)
  then obtain r where r: "r < length rules" "rule = rules ! r" by (auto simp: in_set_conv_nth)
  have "result_ok F (reduced rules T I stack) (try_chains jt rule [0..<Rule_chains rule] stack s)"
    using try_chains_spec [OF ok r(1) st _ Cons.prems(2), of "[0..<Rule_chains rule]"] r(2) by simp
  then show ?case unfolding try_rules.simps
    by (rule result_ok_bind) (use Cons in \<open>auto simp: reduced_def split: option.splits\<close>)
qed (simp add: reduced_def)

lemma LRParser_reduce_spec:
  assumes "rules_ok (m_rules p)" "callbacks_ok F T I (m_rules p)" "nonempty_chains (m_rules p)"
    and "list_all (entry_ok (length (m_rules p)) jr T) stack" "I s"
  shows "result_ok F (reduced (m_rules p) T I stack) (LRParser_reduce jt p stack s)"
  using try_rules_spec [OF assms(1-3) entries_are_nodes [OF assms(4)] _ assms(5), of "m_rules p"]
  by (simp add: LRParser_reduce_def)

lemma reduction_keeps:
  assumes "reduction rules T stack s" "list_all (entry_ok (length rules) jr T) stack"
  shows "list_all (entry_ok (length rules) jr T) s" "s \<noteq> []" "length s \<le> length stack"
    "derives rules (map sym_of stack) w \<Longrightarrow> derives rules (map sym_of s) w"
proof -
  from assms obtain r chain nodes jt line pn front where h: "r < length rules" "chain \<in> set (m_chains (rules ! r))"
    "map sym_of (m_nodes chain) = map sym_of nodes" "T r pn" "nodes \<noteq> []"
    "stack = front @ nodes" "s = front @ [TokenOrNode_rule jt r line pn]" by (auto elim: reduction.cases)
  from h assms(2) show "list_all (entry_ok (length rules) jr T) s" "s \<noteq> []" "length s \<le> length stack"
    by (simp_all add: entry_ok_rule Suc_le_eq)
  assume "derives rules (map sym_of stack) w"
  then obtain u v where "w = u @ v" "derives rules (map sym_of front) u" "derives rules (map sym_of nodes) v"
    using derives_split h(6) by (metis map_append)
  moreover from this h have "derives rules [Nt r] (v @ [])"
    by (intro derives.rule [OF _ _ _ derives.empty]) auto
  ultimately show "derives rules (map sym_of s) w" using h(7) derives_append by fastforce
qed

section \<open>Termination\<close>

text \<open>
  A rank of the rules that no chain of one rule contradicts: the rules have no cycle of
  renamings.
\<close>

definition unit_ranked :: "('id, 'n, 's) Rule list \<Rightarrow> (nat \<Rightarrow> nat) \<Rightarrow> nat \<Rightarrow> bool" where
  "unit_ranked rules rank K \<longleftrightarrow> (\<forall>r < length rules. rank r < K \<and>
     list_all (\<lambda>c. case m_nodes c of
         [x] \<Rightarrow> m_type x = RULE_NODE \<longrightarrow> rank (m_ruleId x) < rank r
       | _ \<Rightarrow> True) (m_chains (rules ! r)))"

text \<open>What every reduction makes smaller.\<close>

definition height :: "(nat \<Rightarrow> nat) \<Rightarrow> ('id, 'n) TokenOrNode \<Rightarrow> nat" where
  "height rank x = (if m_type x = RULE_NODE then Suc (rank (m_ruleId x)) else 0)"

definition potential :: "(nat \<Rightarrow> nat) \<Rightarrow> nat \<Rightarrow> ('id, 'n) TokenOrNode list \<Rightarrow> nat" where
  "potential rank K stack = length stack * (K + 2) + (K - height rank (last stack))"

lemma reduction_potential:
  assumes red: "reduction rules T stack s" and ok: "rules_ok rules" "unit_ranked rules rank K"
    and nodes_ok: "list_all (node_ok (length rules)) stack"
  shows "potential rank K s < potential rank K stack"
proof -
  from red obtain r chain nodes jt line pn front where h: "r < length rules" "chain \<in> set (m_chains (rules ! r))" "nodes \<noteq> []"
    "map sym_of (m_nodes chain) = map sym_of nodes"
    "stack = front @ nodes" "s = front @ [TokenOrNode_rule jt r line pn]" by (auto elim: reduction.cases)
  let ?t = "TokenOrNode_rule jt r line pn"
  have t: "height rank ?t = Suc (rank r)" "rank r < K"
    using h(1) ok(2) by (auto simp: height_def TokenOrNode_rule_def unit_ranked_def)
  show ?thesis
  proof (cases "length nodes = 1")
    case False
    with h(3) have "2 \<le> length nodes" by (cases nodes rule: remdups_adj.cases) auto
    then have "(length front + 2) * (K + 2) \<le> (length front + length nodes) * (K + 2)" by (intro mult_right_mono) auto
    then have "(length front + 1) * (K + 2) + K < (length front + length nodes) * (K + 2)" by simp
    with t \<open>2 \<le> length nodes\<close> show ?thesis by (simp add: potential_def h(5,6))
  next
    case True
    then obtain x where x: "nodes = [x]" by (auto simp: length_Suc_conv)
    with h(4) obtain y where y: "m_nodes chain = [y]" "sym_of y = sym_of x" by auto
    have "node_ok (length rules) y" using ok(1) h(1,2) y(1) by (fastforce simp: rules_ok_def list_all_iff)
    moreover have "m_type y = RULE_NODE \<longrightarrow> rank (m_ruleId y) < rank r"
      using ok(2) h(1,2) y(1) by (fastforce simp: unit_ranked_def list_all_iff)
    moreover have "node_ok (length rules) x" using nodes_ok h(5) x by simp
    ultimately have "height rank x < Suc (rank r)"
      using y(2) by (auto simp: height_def sym_of_def node_ok_def split: if_splits)
    with t show ?thesis by (simp add: potential_def h(5,6) x)
  qed
qed

lemma potential_bound: "potential rank K stack \<le> length stack * (K + 2) + K"
  by (simp add: potential_def)

section \<open>The reduction loop and the token loop\<close>

text \<open>
  \<open>enough\<close> is the condition under which a loop with fuel does not end in \<open>Diverges\<close>, if that is not one
  of the faults that are allowed anyway.
\<close>

definition enough :: "fault set \<Rightarrow> ('id, 'n, 's) Rule list \<Rightarrow> (nat \<Rightarrow> nat) \<Rightarrow> nat \<Rightarrow> nat \<Rightarrow> nat \<Rightarrow> bool" where
  "enough F rules rank K rounds fuel \<longleftrightarrow> Diverges \<in> F \<or> unit_ranked rules rank K \<and> rounds < fuel"

text \<open>The stacks that derive a word, with a client state that keeps the invariant.\<close>

definition parsed :: "('id, 'n, 's) Rule list \<Rightarrow> nat \<Rightarrow> (nat \<Rightarrow> 'n option \<Rightarrow> bool) \<Rightarrow> ('s \<Rightarrow> bool) \<Rightarrow> 'id list \<Rightarrow> ('id, 'n) TokenOrNode list \<times> 's \<Rightarrow> bool" where
  "parsed rules jr T I w = (\<lambda>(stack, s). list_all (entry_ok (length rules) jr T) stack \<and> I s \<and>
     derives rules (map sym_of stack) w)"

lemma reduce_all_spec:
  assumes ok: "rules_ok (m_rules p)" "callbacks_ok F T I (m_rules p)" "nonempty_chains (m_rules p)"
    and "parsed (m_rules p) jr T I w (stack, s)" "stack \<noteq> []"
    and "enough F (m_rules p) rank K (potential rank K stack) fuel"
  shows "result_ok F (\<lambda>(st, s'). st \<noteq> [] \<and> length st \<le> length stack \<and> parsed (m_rules p) jr T I w (st, s'))
    (reduce_all fuel jt p stack s)"
  using assms(4-6)
proof (induction fuel arbitrary: stack s)
  case 0
  then show ?case by (simp add: enough_def)
next
  case (Suc fuel)
  have st: "list_all (entry_ok (length (m_rules p)) jr T) stack" "I s" "derives (m_rules p) (map sym_of stack) w"
    using Suc.prems(1) by (simp_all add: parsed_def)
  show ?case unfolding reduce_all.simps
  proof (rule result_ok_bind [OF LRParser_reduce_spec [OF ok st(1,2)]])
    fix r
    assume "reduced (m_rules p) T I stack r"
    then obtain res s' where r: "r = (res, s')" "I s'" "\<forall>st. res = Some st \<longrightarrow> reduction (m_rules p) T stack st"
      by (auto simp: reduced_def split: prod.splits)
    show "result_ok F (\<lambda>(st, s'). st \<noteq> [] \<and> length st \<le> length stack \<and> parsed (m_rules p) jr T I w (st, s'))
      (case r of (r, s') \<Rightarrow> case r of Some stack' \<Rightarrow> reduce_all fuel jt p stack' s' | None \<Rightarrow> Inr (stack, s'))"
    proof (cases res)
      case None
      with Suc.prems r st show ?thesis by (simp add: parsed_def)
    next
      case (Some st')
      with r(3) have red: "reduction (m_rules p) T stack st'" by simp
      note k = reduction_keeps [OF red st(1)]
      have "enough F (m_rules p) rank K (potential rank K st') fuel"
        using Suc.prems(3) reduction_potential [OF red ok(1) _ entries_are_nodes(1) [OF st(1)]]
        by (fastforce simp: enough_def)
      with Suc.IH [of st' s'] k st(3) r(2)
      have "result_ok F (\<lambda>(st, s'). st \<noteq> [] \<and> length st \<le> length st' \<and> parsed (m_rules p) jr T I w (st, s'))
        (reduce_all fuel jt p st' s')" by (simp add: parsed_def)
      then show ?thesis unfolding r(1) Some using k(3) by (auto elim!: result_ok_mono)
    qed
  qed
qed

text \<open>The ids of the tokens that are not ignored.\<close>

definition input_word :: "'id \<Rightarrow> 'id Token list \<Rightarrow> 'id list" where
  "input_word ignore ts = filter (\<lambda>i. i \<noteq> ignore) (map m_id ts)"

lemma token_run_length: "token_run tf ts jt str pos us pos' \<Longrightarrow> pos \<le> length str \<Longrightarrow> length us \<le> length str - pos"
proof (induction rule: token_run.induct)
  case (step pos t us pos')
  with getNextToken_progress [OF step.hyps(1)] show ?case by simp
qed simp

text \<open>
  The invariant of the token loop: the stack derives the word read so far, so at the end it derives
  the whole word.
\<close>

lemma parse_loop_spec:
  assumes ok: "rules_ok (m_rules p)" "callbacks_ok F T I (m_rules p)" "nonempty_chains (m_rules p)"
  shows "token_run tf (m_tokenizer p) jt str cur ts pos \<Longrightarrow>
    parsed (m_rules p) jr T I w (stack, s) \<Longrightarrow>
    enough F (m_rules p) rank K ((length stack + length ts) * (K + 2) + K) fuel \<Longrightarrow>
    result_ok F (\<lambda>(st, s'). parsed (m_rules p) jr T I (w @ input_word ignore ts) (st, s') \<and>
        (st = [] \<longrightarrow> stack = [] \<and> input_word ignore ts = []))
      (parse_loop tf fuel jt jr p ignore str cur line stack s)"
proof (induction arbitrary: stack line w s rule: token_run.induct)
  case (stop pos t)
  then show ?case by (subst parse_loop.simps) (simp add: input_word_def)
next
  case (step pos t us pos')
  from step.hyps(1) have valid: "m_valid t" by (rule getNextToken_progress)
  then have id: "Token_getId t = Inr (m_id t)" by (simp add: Token_getId_def)
  let ?line = "line + token_lines str t"
  show ?case
  proof (cases "m_id t = ignore")
    case True
    have "enough F (m_rules p) rank K ((length stack + length us) * (K + 2) + K) fuel"
      using step.prems(2) by (auto simp: enough_def)
    from step.IH [OF step.prems(1) this, of ?line] step.hyps(1) id True show ?thesis
      by (subst parse_loop.simps) (simp add: input_word_def)
  next
    case False
    let ?push = "stack @ [TokenOrNode_token jr t ?line]"
    have push: "parsed (m_rules p) jr T I (w @ [m_id t]) (?push, s)"
      using step.prems(1) valid by (auto simp: parsed_def intro: derives_append derives.intros entry_ok_token)
    have "length ?push * (K + 2) + K \<le> (length stack + length (t # us)) * (K + 2) + K"
      by (intro add_right_mono mult_right_mono) auto
    with step.prems(2) potential_bound [of rank K ?push]
    have en: "enough F (m_rules p) rank K (potential rank K ?push) fuel"
      unfolding enough_def by linarith
    have next_fuel: "length st \<le> length ?push \<Longrightarrow>
        enough F (m_rules p) rank K ((length st + length us) * (K + 2) + K) fuel" for st :: "('a, 'b) TokenOrNode list"
    proof -
      assume "length st \<le> length ?push"
      then have "(length st + length us) * (K + 2) + K \<le> (length stack + length (t # us)) * (K + 2) + K"
        by (intro add_right_mono mult_right_mono) auto
      with step.prems(2) show ?thesis unfolding enough_def by linarith
    qed
    have "result_ok F (\<lambda>(st, s'). parsed (m_rules p) jr T I ((w @ [m_id t]) @ input_word ignore us) (st, s') \<and> st \<noteq> [])
      (bind_result (reduce_all fuel jt p ?push s) (\<lambda>(stack', s').
         parse_loop tf fuel jt jr p ignore str (m_tokenEnd t) ?line stack' s'))"
    proof (rule result_ok_bind [OF reduce_all_spec [OF ok push _ en]], simp, clarify)
      fix st s'
      assume st: "st \<noteq> []" "length st \<le> length ?push" "parsed (m_rules p) jr T I (w @ [m_id t]) (st, s')"
      show "result_ok F (\<lambda>(st, s'). parsed (m_rules p) jr T I ((w @ [m_id t]) @ input_word ignore us) (st, s') \<and> st \<noteq> [])
        (parse_loop tf fuel jt jr p ignore str (m_tokenEnd t) ?line st s')"
        by (rule result_ok_mono [OF step.IH [OF st(3) next_fuel [OF st(2)]]]) (use st(1) in auto)
    qed
    then show ?thesis using step.hyps(1) id False
      by (subst parse_loop.simps) (auto simp: input_word_def elim!: result_ok_mono)
  qed
qed

lemma parse_loop_tokens:
  "parse_loop tf fuel jt jr p ignore str cur line stack s = Inr r \<Longrightarrow>
    \<exists>ts pos. token_run tf (m_tokenizer p) jt str cur ts pos"
proof (induction tf fuel jt jr p ignore str cur line stack s rule: parse_loop.induct)
  case (1 tf fuel jt jr p ignore str cur line stack s)
  from "1.prems"(1) obtain more t where next_tok: "getNextToken tf (m_tokenizer p) jt str cur = Inr (more, t)"
    by (subst (asm) parse_loop.simps) (auto simp: bind_result_eq_Inr)
  show ?case
  proof (cases more)
    case False
    then show ?thesis using next_tok token_run.stop by fastforce
  next
    case True
    with next_tok have valid: "m_valid t" by (auto dest: getNextToken_progress)
    then have id: "Token_getId t = Inr (m_id t)" by (simp add: Token_getId_def)
    have "\<exists>us pos. token_run tf (m_tokenizer p) jt str (m_tokenEnd t) us pos"
    proof (cases "m_id t = ignore")
      case ign: True
      with "1.prems" next_tok id True
      have "parse_loop tf fuel jt jr p ignore str (m_tokenEnd t) (line + token_lines str t) stack s = Inr r"
        by (subst (asm) parse_loop.simps) simp
      from "1.IH"(1) [OF next_tok refl True id ign this] show ?thesis .
    next
      case keep: False
      with "1.prems" next_tok id True obtain s1 s' where
        red: "reduce_all fuel jt p (stack @ [TokenOrNode_token jr t (line + token_lines str t)]) s = Inr (s1, s')"
        and rec: "parse_loop tf fuel jt jr p ignore str (m_tokenEnd t) (line + token_lines str t) s1 s' = Inr r"
        by (subst (asm) parse_loop.simps) (auto simp: bind_result_eq_Inr)
      from "1.IH"(2) [OF next_tok refl True id keep red refl rec] show ?thesis .
    qed
    then obtain us pos where "token_run tf (m_tokenizer p) jt str (m_tokenEnd t) us pos" by blast
    then have "token_run tf (m_tokenizer p) jt str cur (t # us) pos"
      using next_tok True by (intro token_run.step) simp_all
    then show ?thesis by blast
  qed
qed


section \<open>Error reports\<close>

lemma best_chains_total:
  assumes "list_all (\<lambda>c. list_all (node_ok n) (m_nodes c)) cs" "list_all (node_ok n) rest"
  shows "\<exists>b. best_chains m r cs rest best = Inr b"
  using assms(1)
proof (induction cs arbitrary: best)
  case (Cons c cs)
  then obtain k where "match_len (m_nodes c) rest = Inr k"
    using match_len_total [OF _ assms(2), of "m_nodes c"] by auto
  with Cons show ?case by simp
next
  case Nil
  show ?case by (cases best) simp
qed

lemma best_rules_total:
  assumes "list_all (\<lambda>r. list_all (\<lambda>c. list_all (node_ok n) (m_nodes c)) (m_chains r)) rs" "list_all (node_ok n) rest"
  shows "\<exists>b. best_rules m i rs rest best = Inr b"
  using assms(1)
proof (induction rs arbitrary: i best)
  case (Cons r rs)
  let ?best = "if rest \<noteq> [] \<and> m_type (hd rest) = RULE_NODE \<and> m_ruleId (hd rest) = i then (1, m, i) else best"
  obtain b where "best_chains m i (m_chains r) rest ?best = Inr b"
    using best_chains_total [OF _ assms(2), of "m_chains r" m i ?best] Cons.prems by auto
  with Cons show ?case by (simp add: Let_def)
next
  case Nil
  show ?case by (cases best) simp
qed

lemma follow_tag_total:
  assumes "list_all (node_ok (length rules)) rest"
  shows "\<exists>b. follow_tag names rules rest = Inr b"
  using assms
  by (cases rest) (auto simp: follow_tag_def node_ok_def Token_getId_def)

lemma rules_ok_chains:
  assumes "rules_ok rules"
  shows "list_all (\<lambda>r. list_all (\<lambda>c. list_all (node_ok (length rules)) (m_nodes c)) (m_chains r)) rules"
  using assms by (auto simp: rules_ok_def list_all_length)

lemma store_best_total:
  assumes "rules_ok rules"
  shows "list_all (node_ok (length rules)) rest \<Longrightarrow>
    \<exists>msgs. store_best names rules b l rest = Inr msgs \<and> (msgs = [] \<longleftrightarrow> rest = [])"
proof (induction "length rest" arbitrary: rest b l rule: less_induct)
  case less
  show ?case
  proof (cases "rest = []")
    case True
    then show ?thesis by (subst store_best.simps) simp
  next
    case False
    obtain k b' l' where best: "best_rules (length rules) 0 rules rest (0, b, l) = Inr (k, b', l')"
      using best_rules_total [OF rules_ok_chains [OF assms] less.prems] by (metis prod_cases3)
    show ?thesis
    proof (cases "k > 0")
      case True
      have rest': "list_all (node_ok (length rules)) (drop k rest)"
        using less.prems by (auto simp: list_all_iff dest: in_set_dropD)
      obtain tag line where "follow_tag names rules (drop k rest) = Inr (tag, line)"
        using follow_tag_total [OF rest'] by force
      moreover obtain msgs where "store_best names rules b' l' (drop k rest) = Inr msgs"
        using less.hyps [OF _ rest'] True False by force
      ultimately show ?thesis using False True best by (subst store_best.simps) simp
    next
      case no: False
      with False best show ?thesis by (subst store_best.simps) simp
    qed
  qed
qed

lemma token_run_unique:
  "token_run tf ts jt str pos us e \<Longrightarrow> token_run tf ts jt str pos vs e' \<Longrightarrow> us = vs"
proof (induction arbitrary: vs rule: token_run.induct)
  case (stop pos t)
  from stop.prems stop.hyps show ?case by (cases rule: token_run.cases) auto
next
  case (step pos t us pos')
  from step.prems step.hyps step.IH show ?case by (cases rule: token_run.cases) auto
qed

lemma derives_nonempty:
  assumes "nonempty_chains rules"
  shows "derives rules ss w \<Longrightarrow> ss \<noteq> [] \<Longrightarrow> w \<noteq> []"
proof (induction rule: derives.induct)
  case (rule r chain v ss w)
  then show ?case using assms by (auto simp: nonempty_chains_def list_all_iff)
qed simp_all

text \<open>
  C20. \<^verbatim>\<open>parse\<close> returns, and reports what it rejects. Take a well-formed grammar without empty
  chains and without a cycle of chains of one rule, whose callbacks keep their contract, and a text
  whose tokens can be read. Then the loops of \<^verbatim>\<open>parse\<close> and of \<^verbatim>\<open>storeBestError\<close> end
  without another fault than those the contract allows; for a text of \<open>n\<close> characters,
  \<open>n * (K + 2) + K + 1\<close> rounds of the reduction loop are enough, \<open>K\<close> being the number of ranks.
  The client keeps its invariant, also when the text is rejected. An accepted text gives no error
  message, and a rejected one gives at least one message, unless it has no token that is not
  ignored: then it is rejected without a message.
\<close>

theorem parse_returns:
  assumes "rules_ok (m_rules p)" "nonempty_chains (m_rules p)" "unit_ranked (m_rules p) rank K"
    and "callbacks_ok F T I (m_rules p)" "I s"
    and "m_rules p \<noteq> []"
    and "token_run tf (m_tokenizer p) jt str 0 ts pos"
    and "length str * (K + 2) + K < fuel"
  shows "case LRParser_parse tf fuel jt jr names p ignore str s of
      Inl e \<Rightarrow> e \<in> F
    | Inr (ok, msgs, s') \<Rightarrow> I s' \<and> (msgs = [] \<longleftrightarrow> ok \<or> input_word ignore ts = [])"
proof -
  have "length ts \<le> length str" using token_run_length [OF assms(7)] by simp
  then have "length ts * (K + 2) + K \<le> length str * (K + 2) + K"
    by (intro add_right_mono mult_right_mono) auto
  with assms(3,8) have "enough F (m_rules p) rank K ((length ([] :: ('a, 'b) TokenOrNode list) + length ts) * (K + 2) + K) fuel"
    unfolding enough_def by simp
  moreover have "parsed (m_rules p) jr T I [] ([], s)" using assms(5) by (simp add: parsed_def derives.empty)
  ultimately have loop: "result_ok F (\<lambda>(st, s'). parsed (m_rules p) jr T I (input_word ignore ts) (st, s') \<and>
      (st = [] \<longrightarrow> input_word ignore ts = [])) (parse_loop tf fuel jt jr p ignore str 0 0 [] s)"
    using parse_loop_spec [OF assms(1,4,2,7), of jr "[]" "[]" s] by simp
  have "result_ok F (\<lambda>(ok, msgs, s'). I s' \<and> (msgs = [] \<longleftrightarrow> ok \<or> input_word ignore ts = []))
    (LRParser_parse tf fuel jt jr names p ignore str s)"
    unfolding LRParser_parse_def
  proof (rule result_ok_bind [OF loop], clarify)
    fix st s'
    assume st: "parsed (m_rules p) jr T I (input_word ignore ts) (st, s')" "st = [] \<longrightarrow> input_word ignore ts = []"
    then have nodes: "list_all (node_ok (length (m_rules p))) st" and "I s'"
      and der: "derives (m_rules p) (map sym_of st) (input_word ignore ts)"
      by (auto simp: parsed_def intro: entries_are_nodes)
    have s_empty: "st = [] \<longleftrightarrow> input_word ignore ts = []"
      using st(2) derives_nonempty [OF assms(2) der] der by (auto elim: derives.cases)
    obtain msgs where "storeBestError names p st = Inr msgs" "msgs = [] \<longleftrightarrow> st = []"
      using store_best_total [OF assms(1) nodes] unfolding storeBestError_def by blast
    with assms(6) s_empty \<open>I s'\<close>
    show "result_ok F (\<lambda>(ok, msgs, s'). I s' \<and> (msgs = [] \<longleftrightarrow> ok \<or> input_word ignore ts = []))
      (let err = bind_result (storeBestError names p st) (\<lambda>msgs. Inr (False, msgs, s')) in
       if length st \<noteq> 1 then err
       else if m_rules p = [] then Inl OutOfBounds
       else if m_ruleId (last st) \<noteq> m_rule_id (last (m_rules p)) then err
       else Inr (True, [], s'))"
      by (cases "length st = 1 \<and> m_ruleId (last st) = m_rule_id (last (m_rules p))") (auto simp: Let_def)
  qed
  then show ?thesis by (simp add: result_ok_def)
qed

section \<open>Examples\<close>

text \<open>
  A grammar of lists of the letter \<open>a\<close> with spaces to ignore, built with the operations of the
  program: rule 0 is \<open>list := list a | a\<close>.
\<close>

definition sample_tokens :: "nat tokenizer_list" where
  "sample_tokens = [(1, letter_machine (CHR ''a'')), (0, letter_machine (CHR '' ''))]"

definition junk_token :: "nat Token" where
  "junk_token = Token_new 9 0 0"

definition sample_parser :: "(nat, unit, nat) LRParser" where
  "sample_parser =
     (let p = LRParser_new sample_tokens 1024;
          p = p\<lparr>m_rules := [Rule_new ''list'' 0]\<rparr>;
          p = LRParser_or p 0 (chain_and_token 7 (chain_and_rule junk_token chain_new (m_rules p ! 0)) 1)
      in LRParser_or p 0 (chain_and_token 7 chain_new 1))"

text \<open>The same with a second letter needed: rule 0 is \<open>pair := a a\<close>.\<close>

definition pair_parser :: "(nat, unit, nat) LRParser" where
  "pair_parser =
     (let p = (LRParser_new sample_tokens 1024)\<lparr>m_rules := [Rule_new ''pair'' 0]\<rparr>
      in LRParser_or p 0 (chain_and_token 7 (chain_and_token 7 chain_new 1) 1))"

lemma sample_tokens_next:
  "getNextToken 4 sample_tokens jt [] 0 = Inr (False, Token_empty jt)"
  "n < length str \<Longrightarrow> str ! n = CHR ''a'' \<Longrightarrow>
   getNextToken 4 sample_tokens jt str n = Inr (True, Token_new 1 n (n + 1))"
  "n < length str \<Longrightarrow> str ! n = CHR '' '' \<Longrightarrow>
   getNextToken 4 sample_tokens jt str n = Inr (True, Token_new 0 n (n + 1))"
  "n < length str \<Longrightarrow> str ! n \<noteq> CHR ''a'' \<Longrightarrow> str ! n \<noteq> CHR '' '' \<Longrightarrow>
   getNextToken 4 sample_tokens jt str n = Inr (False, Token_empty jt)"
  "length str \<le> n \<Longrightarrow> getNextToken 4 sample_tokens jt str n = Inr (False, Token_empty jt)"
  by (simp_all add: getNextToken_def sample_tokens_def Cons_nth_drop_Suc [symmetric])

lemmas grammar_defs = sample_parser_def pair_parser_def LRParser_new_def LRParser_or_def Rule_or_def Rule_new_def
  chain_and_token_def chain_and_rule_def chain_new_def Let_def

lemmas reduce_defs = LRParser_reduce_def Rule_tokenLen_def Rule_chains_def Rule_reduce_def
  TokenOrNode_matches_def TokenOrNode_token_def TokenOrNode_rule_def Token_getId_def

lemma list_grammar_ok:
  "rules_ok (m_rules sample_parser)" "nonempty_chains (m_rules sample_parser)"
  "unit_ranked (m_rules sample_parser) (\<lambda>_. 0) 1" "m_rules sample_parser \<noteq> []"
  "m_tokenizer sample_parser = sample_tokens" "m_rule_id (last (m_rules sample_parser)) = 0"
  "length (m_rules sample_parser) = 1"
  by (simp_all add: grammar_defs rules_ok_def nonempty_chains_def unit_ranked_def TokenOrNode_rule_def
    TokenOrNode_token_def node_ok_def)

lemma pair_tokens:
  "m_tokenizer pair_parser = sample_tokens" "m_rule_id (last (m_rules pair_parser)) = 0" "m_rules pair_parser \<noteq> []"
  by (simp_all add: grammar_defs)

lemma pair_ok: "rules_ok (m_rules pair_parser)"
  by (simp add: grammar_defs rules_ok_def TokenOrNode_token_def node_ok_def)

lemma sample_reduce:
  "m_valid t \<Longrightarrow> m_id t = 1 \<Longrightarrow>
   LRParser_reduce jt sample_parser [TokenOrNode_token jr t l] s = Inr (Some [TokenOrNode_rule jt 0 l None], s)"
  "LRParser_reduce jt sample_parser [TokenOrNode_rule jt 0 l None] s = Inr (None, s)"
  "m_valid t \<Longrightarrow> LRParser_reduce jt pair_parser [TokenOrNode_token jr t l] s = Inr (None, s)"
  by (simp_all add: grammar_defs reduce_defs upt_rec)

lemma sample_reduce_all:
  "m_valid t \<Longrightarrow> m_id t = 1 \<Longrightarrow>
   reduce_all 3 jt sample_parser [TokenOrNode_token jr t l] s = Inr ([TokenOrNode_rule jt 0 l None], s)"
  "m_valid t \<Longrightarrow> reduce_all 3 jt pair_parser [TokenOrNode_token jr t l] s = Inr ([TokenOrNode_token jr t l], s)"
  by (simp_all add: numeral_3_eq_3 sample_reduce)

lemma letter_accepted:
  "LRParser_parse 4 3 junk_token 7 names sample_parser 0 ''a?'' s = Inr (True, [], s)"
proof -
  have last_round: "parse_loop 4 3 junk_token 7 sample_parser 0 ''a?'' (Suc 0) line st s = Inr (st, s)" for line st
    by (subst parse_loop.simps) (simp add: list_grammar_ok sample_tokens_next)
  have "parse_loop 4 3 junk_token 7 sample_parser 0 ''a?'' 0 0 [] s = Inr ([TokenOrNode_rule junk_token 0 0 None], s)"
    by (subst parse_loop.simps)
      (simp add: list_grammar_ok sample_tokens_next sample_reduce_all last_round token_lines_def CountLines_def)
  then show ?thesis by (simp add: LRParser_parse_def list_grammar_ok) (simp add: TokenOrNode_rule_def)
qed

text \<open>
  What \<^verbatim>\<open>parse\<close> accepts by mistake. The list grammar accepts \<open>a?\<close>, although no pattern
  matches the question mark: reading stops there and the rest of the text is never looked
  at. And the grammar of pairs accepts or rejects the single letter \<open>a\<close>, which is no pair,
  depending on the value in the uninitialised rule id of the token on the stack.
\<close>

theorem parse_accepts_wrong:
  "LRParser_parse 4 3 junk_token 7 names sample_parser 0 ''a?'' s = Inr (True, [], s) \<and>
   LRParser_parse 4 3 junk_token 0 names pair_parser 0 ''a'' s = Inr (True, [], s) \<and>
   (\<exists>msgs. LRParser_parse 4 3 junk_token 7 names pair_parser 0 ''a'' s = Inr (False, msgs, s))"
proof -
  have last_round: "parse_loop 4 3 junk_token jr pair_parser 0 ''a'' (Suc 0) line st s = Inr (st, s)" for jr line st
    by (subst parse_loop.simps) (simp add: pair_tokens sample_tokens_next)
  have "parse_loop 4 3 junk_token jr pair_parser 0 ''a'' 0 0 [] s =
      Inr ([TokenOrNode_token jr (Token_new 1 0 1) 0], s)" for jr
    by (subst parse_loop.simps)
      (simp add: pair_tokens sample_tokens_next sample_reduce_all last_round token_lines_def CountLines_def)
  moreover have "\<exists>msgs. storeBestError names pair_parser [TokenOrNode_token 7 (Token_new 1 0 1) 0] = Inr msgs"
    using store_best_total [of "m_rules pair_parser" "[TokenOrNode_token 7 (Token_new 1 0 1) 0]"] pair_ok
    by (simp add: storeBestError_def) blast
  ultimately show ?thesis using letter_accepted by (auto simp: LRParser_parse_def pair_tokens) (auto simp: TokenOrNode_token_def)
qed


lemma sample_run: "token_run 4 sample_tokens junk_token ''a a'' 0 [Token_new 1 0 1, Token_new 0 1 2, Token_new 1 2 3] 3"
proof -
  have 3: "token_run 4 sample_tokens junk_token ''a a'' 3 [] 3"
    by (rule token_run.stop [where t = "Token_empty junk_token"]) (simp add: sample_tokens_next)
  have 2: "token_run 4 sample_tokens junk_token ''a a'' 2 [Token_new 1 2 3] 3"
    by (rule token_run.step) (use 3 in \<open>simp_all add: sample_tokens_next\<close>)
  have 1: "token_run 4 sample_tokens junk_token ''a a'' 1 [Token_new 0 1 2, Token_new 1 2 3] 3"
    by (rule token_run.step) (use 2 in \<open>simp_all add: sample_tokens_next\<close>)
  show ?thesis by (rule token_run.step) (use 1 in \<open>simp_all add: sample_tokens_next\<close>)
qed

lemma list_callbacks_ok: "callbacks_ok {} (\<lambda>_ n. n = None) (\<lambda>_. True) (m_rules sample_parser)"
  by (simp add: callbacks_ok_def grammar_defs)

theorem parse_returns_witness:
  "case LRParser_parse 4 20 junk_token 7 (\<lambda>_. ''token'') sample_parser 0 ''a a'' 0 of
      Inl e \<Rightarrow> e \<in> {}
    | Inr (ok, msgs, s') \<Rightarrow> True \<and> (msgs = [] \<longleftrightarrow> ok \<or> input_word 0 [Token_new 1 0 1, Token_new 0 1 2, Token_new 1 2 3 :: nat Token] = [])"
  by (rule parse_returns [where T = "\<lambda>_ n. n = None" and rank = "\<lambda>_. 0" and K = 1 and pos = 3])
     (simp_all add: list_grammar_ok [simplified] list_callbacks_ok sample_run [simplified])

theorem grammar_building_witness:
  "(case LRParser_addRule sample_parser ''next'' of
      Inl e \<Rightarrow> e = CheckFailed \<and> 128 \<le> length (m_rules sample_parser)
    | Inr p' \<Rightarrow> length (m_rules sample_parser) < 128 \<and> rules_ok (m_rules p')) \<and>
   rules_ok (m_rules (LRParser_or sample_parser 0
     (chain_and_token 7 (chain_and_rule junk_token chain_new (m_rules sample_parser ! 0)) 1)))"
  by (rule grammar_building_keeps_rules_ok) (simp_all add: list_grammar_ok chain_new_def)

end
