(* ===== verification/LRGrammar.thy ===== *)
theory LRGrammar
  imports LRParser
begin

text \<open>
  What the clients of the parser share. A client builds its grammar with a sequence of
  \<^verbatim>\<open>addRule\<close> and \<^verbatim>\<open>|=\<close>, here a list of steps; the reduction of the stack is then a search
  through the list of all productions in order (\<open>reduce_is_priority_search\<close>), on the stack read
  from its top, which makes the runs of a grammar computable by rewriting. The second part is
  the access of callbacks to their nodes.
\<close>

section \<open>Building a grammar\<close>

text \<open>
  \<open>AddRule\<close> is \<^verbatim>\<open>parser.addRule(name)\<close>, whose reference is the index of the rule; \<open>AddChain r cb ss\<close> is
  \<^verbatim>\<open>rule |= tCRule(cb) & s1 & s2 ...\<close>.
\<close>

datatype ('id, 'n, 's) grammar_step =
    AddRule string
  | AddChain nat "('id, 'n, 's) tProc option" "'id sym list"

fun chain_symbols :: "'id Token \<Rightarrow> nat \<Rightarrow> ('id, 'n, 's) LRParser \<Rightarrow> ('id, 'n, 's) RuleOrTokenChain \<Rightarrow> 'id sym list \<Rightarrow> ('id, 'n, 's) RuleOrTokenChain" where
  "chain_symbols jt jr p chain [] = chain"
| "chain_symbols jt jr p chain (Tok i # ss) = chain_symbols jt jr p (chain_and_token jr chain i) ss"
| "chain_symbols jt jr p chain (Nt r # ss) = chain_symbols jt jr p (chain_and_rule jt chain (m_rules p ! r)) ss"

fun build_grammar :: "'id Token \<Rightarrow> nat \<Rightarrow> ('id, 'n, 's) grammar_step list \<Rightarrow> ('id, 'n, 's) LRParser \<Rightarrow> fault + ('id, 'n, 's) LRParser" where
  "build_grammar jt jr [] p = Inr p"
| "build_grammar jt jr (AddRule name # steps) p =
     bind_result (LRParser_addRule p name) (build_grammar jt jr steps)"
| "build_grammar jt jr (AddChain r cb ss # steps) p =
     build_grammar jt jr steps (LRParser_or p r (chain_symbols jt jr p
       (case cb of None \<Rightarrow> chain_new | Some f \<Rightarrow> chain_new_callback f) ss))"

section \<open>Access to nodes\<close>

text \<open>Reading at an iterator, \<open>i\<close> places from \<^verbatim>\<open>begin\<close>.\<close>

definition node_at :: "('id, 'n) TokenOrNode list \<Rightarrow> nat \<Rightarrow> fault + ('id, 'n) TokenOrNode" where
  "node_at nodes i = (case nth_opt nodes i of None \<Rightarrow> Inl OutOfBounds | Some x \<Rightarrow> Inr x)"

definition text_at :: "string \<Rightarrow> ('id, 'n) TokenOrNode list \<Rightarrow> nat \<Rightarrow> fault + string" where
  "text_at str nodes i = bind_result (node_at nodes i) (\<lambda>x. Token_getToken str (m_token x))"

text \<open>The node behind an iterator, as the type a callback casts it to; reading through a null pointer is undefined.\<close>

definition value_at :: "('id, 'n) TokenOrNode list \<Rightarrow> nat \<Rightarrow> fault + 'n" where
  "value_at nodes i = bind_result (node_at nodes i) (\<lambda>x.
     case m_pNode x of None \<Rightarrow> Inl Undefined | Some v \<Rightarrow> Inr v)"

definition cast_at :: "('n \<Rightarrow> fault + 'a) \<Rightarrow> ('id, 'n) TokenOrNode list \<Rightarrow> nat \<Rightarrow> fault + 'a" where
  "cast_at f nodes i = bind_result (value_at nodes i) f"

section \<open>Productions\<close>

text \<open>The productions of a parser in the order in which \<^verbatim>\<open>reduce\<close> tries them.\<close>

type_synonym ('id, 'n, 's) production = "nat \<times> 'id sym list \<times> ('id, 'n, 's) tProc option"

definition rule_productions :: "('id, 'n, 's) Rule \<Rightarrow> ('id, 'n, 's) production list" where
  "rule_productions r = map (\<lambda>c. (m_rule_id r, map sym_of (m_nodes c), m_callback c)) (m_chains r)"

definition productions :: "('id, 'n, 's) Rule list \<Rightarrow> ('id, 'n, 's) production list" where
  "productions rules = concat (map rule_productions rules)"

text \<open>Whether the symbols, last one first, are on the top of the stack, top first.\<close>

fun on_top :: "'id sym list \<Rightarrow> ('id, 'n) TokenOrNode list \<Rightarrow> bool" where
  "on_top [] rst = True"
| "on_top (s # ss) [] = False"
| "on_top (s # ss) (x # rst) = (sym_of x = s \<and> on_top ss rst)"

text \<open>The search, on the stack from its top.\<close>

fun search :: "'id Token \<Rightarrow> ('id, 'n, 's) production list \<Rightarrow> ('id, 'n) TokenOrNode list \<Rightarrow> 's \<Rightarrow> fault + ('id, 'n) TokenOrNode list option \<times> 's" where
  "search jt [] rst s = Inr (None, s)"
| "search jt ((r, ss, cb) # ps) rst s =
     (if on_top (rev ss) rst then
        (let nodes = rev (take (length ss) rst) in
         case cb of
           None \<Rightarrow> Inr (Some (TokenOrNode_rule jt r (m_line (hd nodes)) None # drop (length ss) rst), s)
         | Some f \<Rightarrow> bind_result (f nodes s) (\<lambda>(ok, pn, s').
             if ok then Inr (Some (TokenOrNode_rule jt r (m_line (hd nodes)) pn # drop (length ss) rst), s')
             else search jt ps rst s'))
      else search jt ps rst s)"

lemma on_top_take: "on_top ss rst \<longleftrightarrow> length ss \<le> length rst \<and> map sym_of (take (length ss) rst) = ss"
  by (induction ss rst rule: on_top.induct) auto

lemma search_append:
  "search jt (ps @ qs) rst s = bind_result (search jt ps rst s) (\<lambda>(r, s').
     case r of Some st \<Rightarrow> Inr (Some st, s') | None \<Rightarrow> search jt qs rst s')"
proof (induction ps arbitrary: s)
  case (Cons p ps)
  obtain r ss cb where p: "p = (r, ss, cb)" by (cases p)
  show ?case
  proof (cases "on_top (rev ss) rst")
    case True
    show ?thesis
    proof (cases cb)
      case (Some f)
      show ?thesis
      proof (cases "f (rev (take (length ss) rst)) s")
        case (Inr x)
        obtain ok pn s' where "x = (ok, pn, s')" by (cases x)
        with True Some Inr show ?thesis by (simp add: p Cons.IH Let_def)
      qed (use True Some in \<open>simp add: p Let_def\<close>)
    qed (use True in \<open>simp add: p Let_def\<close>)
  qed (use Cons.IH in \<open>simp add: p\<close>)
qed simp

text \<open>The result of a search as a stack from the bottom.\<close>

definition upright :: "('id, 'n) TokenOrNode list option \<times> 's \<Rightarrow> ('id, 'n) TokenOrNode list option \<times> 's" where
  "upright = map_prod (map_option rev) id"

lemma Rule_reduce_search:
  assumes ok: "rules_ok rules" "r < length rules" "list_all (node_ok (length rules)) rst"
    and c: "c < length (m_chains (rules ! r))" "m_nodes (m_chains (rules ! r) ! c) \<noteq> []"
    and len: "Rule_tokenLen (rules ! r) c \<le> length rst"
  shows "bind_result (Rule_reduce jt (rules ! r) c (rev (take (Rule_tokenLen (rules ! r) c) rst)) s) (\<lambda>(t, s').
      case t of Some token \<Rightarrow> Inr (Some (rev (drop (Rule_tokenLen (rules ! r) c) rst) @ [token]), s') | None \<Rightarrow> k s') =
    bind_result (search jt [(r, map sym_of (m_nodes (m_chains (rules ! r) ! c)), m_callback (m_chains (rules ! r) ! c))] rst s)
      (\<lambda>(t, s'). case t of Some st \<Rightarrow> Inr (Some (rev st), s') | None \<Rightarrow> k s')"
proof -
  let ?ch = "m_chains (rules ! r) ! c" and ?n = "Rule_tokenLen (rules ! r) c"
  let ?nodes = "rev (take ?n rst)"
  have mem: "?ch \<in> set (m_chains (rules ! r))" using c(1) by simp
  then have "list_all (node_ok (length rules)) (m_nodes ?ch)" and id: "m_rule_id (rules ! r) = r"
    using ok(1,2) by (auto simp: rules_ok_def list_all_iff)
  moreover have "list_all (node_ok (length rules)) ?nodes"
    using ok(3) by (auto simp: list_all_iff dest: in_set_takeD)
  moreover have n: "length (m_nodes ?ch) = ?n" by (simp add: Rule_tokenLen_def)
  ultimately have m: "reduce_match (m_nodes ?ch) ?nodes =
      Inr (if map sym_of (m_nodes ?ch) = map sym_of ?nodes then Some [] else None)"
    using reduce_match_syms [of "length rules" "m_nodes ?ch" ?nodes] len by simp
  have top: "on_top (rev (map sym_of (m_nodes ?ch))) rst \<longleftrightarrow> map sym_of (m_nodes ?ch) = map sym_of ?nodes"
    using len n by (simp add: on_top_take rev_map [symmetric]) (metis rev_map rev_rev_ident)
  have "?nodes \<noteq> []" using c(2) n len by (cases rst) (auto simp flip: n)
  then obtain x xs where x: "?nodes = x # xs" by (cases ?nodes) auto
  have chain: "nth_opt (m_chains (rules ! r)) c = Some ?ch" using c(1) by simp
  show ?thesis
  proof (cases "map sym_of (m_nodes ?ch) = map sym_of ?nodes")
    case False
    with m top x chain show ?thesis by (simp add: Rule_reduce_def)
  next
    case True
    with m have m': "reduce_match (m_nodes ?ch) ?nodes = Inr (Some [])" by simp
    from True top have top': "on_top (rev (map sym_of (m_nodes ?ch))) rst" by simp
    show ?thesis
    proof (cases "m_callback ?ch")
      case None
      with m' top' x chain id n show ?thesis by (simp add: Rule_reduce_def)
    next
      case (Some f)
      show ?thesis
      proof (cases "f ?nodes s")
        case (Inl e)
        with Some m' top' x chain id n show ?thesis by (simp add: Rule_reduce_def Let_def)
      next
        case (Inr y)
        obtain b pn s' where "y = (b, pn, s')" by (cases y)
        with Some Inr m' top' x chain id n show ?thesis by (cases b) (simp_all add: Rule_reduce_def Let_def)
      qed
    qed
  qed
qed


definition chain_production :: "('id, 'n, 's) Rule \<Rightarrow> nat \<Rightarrow> ('id, 'n, 's) production" where
  "chain_production r c = (m_rule_id r, map sym_of (m_nodes (m_chains r ! c)), m_callback (m_chains r ! c))"

lemma rule_productions_upt: "rule_productions r = map (chain_production r) [0..<Rule_chains r]"
  by (rule nth_equalityI) (simp_all add: rule_productions_def chain_production_def Rule_chains_def)

lemma try_chains_search:
  assumes ok: "rules_ok rules" "nonempty_chains rules" "r < length rules" "list_all (node_ok (length rules)) rst"
    and "set cs \<subseteq> {0..<Rule_chains (rules ! r)}"
  shows "try_chains jt (rules ! r) cs (rev rst) s =
    bind_result (search jt (map (chain_production (rules ! r)) cs) rst s) (\<lambda>x. Inr (upright x))"
  using assms(5)
proof (induction cs arbitrary: s)
  case Nil
  then show ?case by (simp add: upright_def)
next
  case (Cons c cs)
  let ?n = "Rule_tokenLen (rules ! r) c" and ?p = "chain_production (rules ! r) c"
  have id: "m_rule_id (rules ! r) = r" using ok(1,3) by (simp add: rules_ok_def)
  have c: "c < length (m_chains (rules ! r))" using Cons.prems by (simp add: Rule_chains_def)
  then have ne: "m_nodes (m_chains (rules ! r) ! c) \<noteq> []"
    using ok(2,3) by (auto simp: nonempty_chains_def list_all_iff)
  have IH: "try_chains jt (rules ! r) cs (rev rst) s' =
    bind_result (search jt (map (chain_production (rules ! r)) cs) rst s') (\<lambda>x. Inr (upright x))" for s'
    using Cons by simp
  show ?case
  proof (cases "?n > length rst")
    case True
    then have "\<not> on_top (rev (map sym_of (m_nodes (m_chains (rules ! r) ! c)))) rst"
      by (simp add: on_top_take Rule_tokenLen_def)
    then have "search jt (?p # ps) rst s = search jt ps rst s" for ps by (simp add: chain_production_def)
    with True IH show ?thesis by simp
  next
    case False
    let ?k = "\<lambda>s'. bind_result (search jt (map (chain_production (rules ! r)) cs) rst s') (\<lambda>x. Inr (upright x))"
    have nodes: "drop (length (rev rst) - ?n) (rev rst) = rev (take ?n rst)"
      "take (length (rev rst) - ?n) (rev rst) = rev (drop ?n rst)"
      using False by (simp_all add: rev_drop rev_take)
    have "try_chains jt (rules ! r) (c # cs) (rev rst) s =
      bind_result (Rule_reduce jt (rules ! r) c (rev (take ?n rst)) s) (\<lambda>(t, s').
        case t of Some token \<Rightarrow> Inr (Some (rev (drop ?n rst) @ [token]), s') | None \<Rightarrow> ?k s')"
      unfolding try_chains.simps Let_def nodes IH using False by (simp only: length_rev if_False cong: option.case_cong)
    also have "\<dots> = bind_result (search jt [?p] rst s)
        (\<lambda>(t, s'). case t of Some st \<Rightarrow> Inr (Some (rev st), s') | None \<Rightarrow> ?k s')"
      using Rule_reduce_search [OF ok(1,3,4) c ne, of jt s ?k] False by (simp add: chain_production_def id)
    also have "\<dots> = bind_result (search jt (map (chain_production (rules ! r)) (c # cs)) rst s) (\<lambda>x. Inr (upright x))"
    proof (cases "search jt [?p] rst s")
      case (Inr y)
      obtain t s' where "y = (t, s')" by (cases y)
      with Inr show ?thesis using search_append [of jt "[?p]" "map (chain_production (rules ! r)) cs" rst s]
        by (cases t) (simp_all add: upright_def del: search.simps)
    next
      case (Inl e)
      then show ?thesis using search_append [of jt "[?p]" "map (chain_production (rules ! r)) cs" rst s]
        by (simp del: search.simps)
    qed
    finally show ?thesis .
  qed
qed

lemma try_rules_search:
  assumes ok: "rules_ok rules" "nonempty_chains rules" "list_all (node_ok (length rules)) rst"
    and "set rs \<subseteq> set rules"
  shows "try_rules jt rs (rev rst) s = bind_result (search jt (productions rs) rst s) (\<lambda>x. Inr (upright x))"
  using assms(4)
proof (induction rs arbitrary: s)
  case Nil
  then show ?case by (simp add: productions_def upright_def)
next
  case (Cons rule rs)
  then obtain r where r: "r < length rules" "rule = rules ! r" by (auto simp: in_set_conv_nth)
  have here: "try_chains jt rule [0..<Rule_chains rule] (rev rst) s =
    bind_result (search jt (rule_productions rule) rst s) (\<lambda>x. Inr (upright x))"
    using try_chains_search [OF ok(1,2) r(1) ok(3), of "[0..<Rule_chains rule]" jt s] r(2)
    by (simp add: rule_productions_upt)
  have IH: "try_rules jt rs (rev rst) s' = bind_result (search jt (productions rs) rst s') (\<lambda>x. Inr (upright x))" for s'
    using Cons by simp
  have split: "productions (rule # rs) = rule_productions rule @ productions rs" by (simp add: productions_def)
  show ?case
  proof (cases "search jt (rule_productions rule) rst s")
    case (Inl e)
    with here show ?thesis by (simp add: split search_append)
  next
    case (Inr y)
    obtain t s' where "y = (t, s')" by (cases y)
    with here Inr IH show ?thesis by (cases t) (simp_all add: split search_append upright_def)
  qed
qed

text \<open>
  C39. The reduction step of the parser is a search in the list of all productions, rule by rule and
  chain by chain: the first production whose symbols are on the top of the stack and whose
  callback accepts replaces them by its rule. A production whose callback refuses is passed
  over, with the client state it leaves.
\<close>

theorem reduce_is_priority_search:
  assumes "rules_ok (m_rules p)" "nonempty_chains (m_rules p)" "list_all (node_ok (length (m_rules p))) stack"
  shows "LRParser_reduce jt p stack s =
    bind_result (search jt (productions (m_rules p)) (rev stack) s) (\<lambda>(r, s'). Inr (map_option rev r, s'))"
proof -
  have "list_all (node_ok (length (m_rules p))) (rev stack)" using assms(3) by simp
  from try_rules_search [OF assms(1,2) this, of "m_rules p" jt s] show ?thesis
    unfolding LRParser_reduce_def upright_def
    by (cases "search jt (productions (m_rules p)) (rev stack) s") (auto split: prod.splits)
qed


theorem reduce_is_priority_search_witness:
  "LRParser_reduce junk_token sample_parser [TokenOrNode_token 7 (Token_new 1 0 1) 0] 0 =
    bind_result (search junk_token (productions (m_rules sample_parser)) (rev [TokenOrNode_token 7 (Token_new 1 0 1) 0]) 0)
      (\<lambda>(r, s'). Inr (map_option rev r, s'))"
  by (rule reduce_is_priority_search) (simp_all add: list_grammar_ok)

section \<open>Runs\<close>

text \<open>The loop of reductions after a token, and the tokens with their lines, on the stack from its top.\<close>

fun settle :: "nat \<Rightarrow> 'id Token \<Rightarrow> ('id, 'n, 's) production list \<Rightarrow> ('id, 'n) TokenOrNode list \<Rightarrow> 's \<Rightarrow> fault + ('id, 'n) TokenOrNode list \<times> 's" where
  "settle 0 jt ps rst s = Inl Diverges"
| "settle (Suc fuel) jt ps rst s =
     bind_result (search jt ps rst s) (\<lambda>(r, s').
       case r of Some rst' \<Rightarrow> settle fuel jt ps rst' s' | None \<Rightarrow> Inr (rst, s'))"

fun feed :: "nat \<Rightarrow> 'id Token \<Rightarrow> nat \<Rightarrow> ('id, 'n, 's) production list \<Rightarrow> ('id Token \<times> nat) list \<Rightarrow> ('id, 'n) TokenOrNode list \<Rightarrow> 's \<Rightarrow> fault + ('id, 'n) TokenOrNode list \<times> 's" where
  "feed fuel jt jr ps [] rst s = Inr (rst, s)"
| "feed fuel jt jr ps ((t, line) # ls) rst s =
     bind_result (settle fuel jt ps (TokenOrNode_token jr t line # rst) s) (\<lambda>(rst', s'). feed fuel jt jr ps ls rst' s')"

lemma settle_mono: "settle fuel jt ps rst s = Inr r \<Longrightarrow> fuel \<le> fuel' \<Longrightarrow> settle fuel' jt ps rst s = Inr r"
proof (induction fuel arbitrary: fuel' rst s)
  case (Suc fuel)
  then obtain f' where f': "fuel' = Suc f'" "fuel \<le> f'" by (cases fuel') auto
  from Suc.prems(1) obtain res s' where y: "search jt ps rst s = Inr (res, s')"
    by (auto simp: bind_result_eq_Inr)
  with f' Suc show ?case by (cases res) simp_all
qed simp

lemma feed_append:
  "feed fuel jt jr ps (ls @ ms) rst s =
   bind_result (feed fuel jt jr ps ls rst s) (\<lambda>(rst', s'). feed fuel jt jr ps ms rst' s')"
proof (induction ls arbitrary: rst s)
  case (Cons l ls)
  obtain t line where l: "l = (t, line)" by (cases l)
  show ?case
  proof (cases "settle fuel jt ps (TokenOrNode_token jr t line # rst) s")
    case (Inr x)
    then show ?thesis using Cons.IH by (cases x) (simp add: l)
  qed (simp add: l)
qed simp

text \<open>The stacks of a run: symbols as the parser makes them.\<close>

definition stack_ok :: "('id, 'n, 's) Rule list \<Rightarrow> nat \<Rightarrow> ('id, 'n) TokenOrNode list \<Rightarrow> bool" where
  "stack_ok rules jr rst \<longleftrightarrow> list_all (entry_ok (length rules) jr (\<lambda>_ _. True)) rst"

lemma reduce_all_settle:
  assumes ok: "rules_ok (m_rules p)" "nonempty_chains (m_rules p)"
  shows "stack_ok (m_rules p) jr rst \<Longrightarrow>
    reduce_all fuel jt p (rev rst) s =
      bind_result (settle fuel jt (productions (m_rules p)) rst s) (\<lambda>(r, s'). Inr (rev r, s')) \<and>
    (\<forall>r s'. settle fuel jt (productions (m_rules p)) rst s = Inr (r, s') \<longrightarrow> stack_ok (m_rules p) jr r)"
proof (induction fuel arbitrary: rst s)
  case (Suc fuel)
  have e: "list_all (entry_ok (length (m_rules p)) jr (\<lambda>_ _. True)) (rev rst)"
    using Suc.prems by (simp add: stack_ok_def)
  note red = reduce_is_priority_search [OF ok entries_are_nodes(1) [OF e], of jt s, simplified]
  show ?case
  proof (cases "search jt (productions (m_rules p)) rst s")
    case (Inl x)
    with red show ?thesis by simp
  next
    case (Inr y)
    obtain r s' where y: "y = (r, s')" by (cases y)
    show ?thesis
    proof (cases r)
      case None
      with Inr y red Suc.prems show ?thesis by simp
    next
      case (Some rst')
      with Inr y red have "LRParser_reduce jt p (rev rst) s = Inr (Some (rev rst'), s')" by simp
      with LRParser_reduce_spec [OF ok(1) callbacks_ok_trivial ok(2) e, of jt s]
      have "reduction (m_rules p) (\<lambda>_ _. True) (rev rst) (rev rst')" by (simp add: reduced_def)
      from reduction_keeps(1) [OF this e] have "stack_ok (m_rules p) jr rst'" by (simp add: stack_ok_def)
      from Suc.IH [OF this, of s'] Some Inr y red show ?thesis by simp
    qed
  qed
qed simp

lemma parse_loop_feed:
  assumes ok: "rules_ok (m_rules p)" "nonempty_chains (m_rules p)"
  shows "token_run tf (m_tokenizer p) jt str cur ts pos \<Longrightarrow> 
    \<exists>ls. map fst ls = filter (\<lambda>t. m_id t \<noteq> ignore) ts \<and>
      (\<forall>rst s. stack_ok (m_rules p) jr rst \<longrightarrow>
      parse_loop tf fuel jt jr p ignore str cur line (rev rst) s =
        bind_result (feed fuel jt jr (productions (m_rules p)) ls rst s) (\<lambda>(r, s'). Inr (rev r, s')))"
proof (induction arbitrary: line rule: token_run.induct)
  case (stop pos t)
  then show ?case by (intro exI [of _ "[]"]) (simp add: parse_loop.simps [of _ _ _ _ _ _ _ pos])
next
  case (step pos t us pos')
  from step.hyps(1) have valid: "m_valid t" by (rule getNextToken_progress)
  then have id: "Token_getId t = Inr (m_id t)" by (simp add: Token_getId_def)
  let ?line = "line + token_lines str t" and ?ps = "productions (m_rules p)"
  from step.IH [of ?line] obtain ls where ls: "map fst ls = filter (\<lambda>t. m_id t \<noteq> ignore) us"
    "\<forall>rst s. stack_ok (m_rules p) jr rst \<longrightarrow>
      parse_loop tf fuel jt jr p ignore str (m_tokenEnd t) ?line (rev rst) s =
        bind_result (feed fuel jt jr ?ps ls rst s) (\<lambda>(r, s'). Inr (rev r, s'))" by blast
  show ?case
  proof (cases "m_id t = ignore")
    case True
    with ls step.hyps(1) id show ?thesis
      by (intro exI [of _ ls]) (simp add: parse_loop.simps [of _ _ _ _ _ _ _ pos])
  next
    case False
    have "parse_loop tf fuel jt jr p ignore str pos line (rev rst) s =
        bind_result (feed fuel jt jr ?ps ((t, ?line) # ls) rst s) (\<lambda>(r, s'). Inr (rev r, s'))"
      if st: "stack_ok (m_rules p) jr rst" for rst s
    proof -
      let ?push = "TokenOrNode_token jr t ?line # rst"
      have "stack_ok (m_rules p) jr ?push" using st entry_ok_token [OF valid] by (simp add: stack_ok_def)
      note red = reduce_all_settle [OF ok this, of fuel jt s]
      have "parse_loop tf fuel jt jr p ignore str pos line (rev rst) s =
        bind_result (reduce_all fuel jt p (rev ?push) s) (\<lambda>(stack', s').
          parse_loop tf fuel jt jr p ignore str (m_tokenEnd t) ?line stack' s')"
        using step.hyps(1) id False by (subst parse_loop.simps) simp
      also have "\<dots> = bind_result (feed fuel jt jr ?ps ((t, ?line) # ls) rst s) (\<lambda>(r, s'). Inr (rev r, s'))"
      proof (cases "settle fuel jt ?ps ?push s")
        case (Inl e)
        with red show ?thesis by simp
      next
        case (Inr y)
        obtain r s' where y: "y = (r, s')" by (cases y)
        with Inr red ls(2) show ?thesis by simp
      qed
      finally show ?thesis .
    qed
    with ls(1) False show ?thesis by (intro exI [of _ "(t, ?line) # ls"]) simp
  qed
qed

text \<open>An accepted text, from a run that ends with the last rule alone on the stack.\<close>

lemma parse_from_feed:
  assumes ok: "rules_ok (m_rules p)" "nonempty_chains (m_rules p)" "m_rules p \<noteq> []"
    and run: "token_run tf (m_tokenizer p) jt str 0 ts pos"
    and feed: "\<And>ls. map fst ls = filter (\<lambda>t. m_id t \<noteq> ignore) ts \<Longrightarrow>
      \<exists>x. feed fuel jt jr (productions (m_rules p)) ls [] s = Inr ([x], s') \<and> m_ruleId x = length (m_rules p) - 1"
  shows "LRParser_parse tf fuel jt jr names p ignore str s = Inr (True, [], s')"
proof -
  from parse_loop_feed [OF ok(1,2) run, of ignore jr fuel 0] obtain ls where
    ls: "map fst ls = filter (\<lambda>t. m_id t \<noteq> ignore) ts"
    "\<forall>rst s. stack_ok (m_rules p) jr rst \<longrightarrow> parse_loop tf fuel jt jr p ignore str 0 0 (rev rst) s =
        bind_result (feed fuel jt jr (productions (m_rules p)) ls rst s) (\<lambda>(r, s'). Inr (rev r, s'))" by blast
  obtain x where x: "feed fuel jt jr (productions (m_rules p)) ls [] s = Inr ([x], s')" "m_ruleId x = length (m_rules p) - 1"
    using feed [OF ls(1)] by blast
  have "parse_loop tf fuel jt jr p ignore str 0 0 (rev []) s =
      bind_result (feed fuel jt jr (productions (m_rules p)) ls [] s) (\<lambda>(r, s'). Inr (rev r, s'))"
    using ls(2) by (simp add: stack_ok_def del: rev.simps)
  with x(1) have "parse_loop tf fuel jt jr p ignore str 0 0 [] s = Inr ([x], s')" by simp
  moreover have "m_rule_id (last (m_rules p)) = length (m_rules p) - 1"
    using ok(1,3) by (simp add: rules_ok_def last_conv_nth)
  ultimately show ?thesis using ok(3) x(2) by (simp add: LRParser_parse_def)
qed

section \<open>Grammars that are built\<close>

text \<open>What the grammars of the clients satisfy by construction.\<close>

fun step_ok :: "nat \<Rightarrow> ('id, 'n, 's) grammar_step \<Rightarrow> bool" where
  "step_ok n (AddRule name) = (n < MAX_LR_PARSER_RULES)"
| "step_ok n (AddChain r cb ss) = (r < n \<and> ss \<noteq> [] \<and> list_all (\<lambda>s. case s of Tok i \<Rightarrow> True | Nt q \<Rightarrow> q < n) ss)"

fun steps_ok :: "nat \<Rightarrow> ('id, 'n, 's) grammar_step list \<Rightarrow> bool" where
  "steps_ok n [] = True"
| "steps_ok n (st # sts) = (step_ok n st \<and> steps_ok (case st of AddRule _ \<Rightarrow> Suc n | _ \<Rightarrow> n) sts)"

lemma chain_symbols_nodes:
  assumes "rules_ok (m_rules p)" "list_all (\<lambda>s. case s of Tok i \<Rightarrow> True | Nt q \<Rightarrow> q < length (m_rules p)) ss"
    and "list_all (node_ok (length (m_rules p))) (m_nodes chain)"
  shows "list_all (node_ok (length (m_rules p))) (m_nodes (chain_symbols jt jr p chain ss)) \<and>
    map sym_of (m_nodes (chain_symbols jt jr p chain ss)) = map sym_of (m_nodes chain) @ ss \<and>
    m_callback (chain_symbols jt jr p chain ss) = m_callback chain"
  using assms(2,3)
proof (induction ss arbitrary: chain)
  case (Cons x ss)
  show ?case
  proof (cases x)
    case (Tok i)
    with Cons.IH [of "chain_and_token jr chain i"] Cons.prems show ?thesis by (simp add: chain_and_token_def)
  next
    case (Nt q)
    with Cons.prems assms(1) have "m_rule_id (m_rules p ! q) = q" by (simp add: rules_ok_def)
    with Nt Cons.IH [of "chain_and_rule jt chain (m_rules p ! q)"] Cons.prems show ?thesis by (simp add: chain_and_rule_def)
  qed
qed simp

text \<open>The chains that the steps give a rule, and the number of rules.\<close>

fun chains_of :: "('id, 'n, 's) grammar_step list \<Rightarrow> nat \<Rightarrow> ('id, 'n, 's) production list" where
  "chains_of [] r = []"
| "chains_of (AddRule name # sts) r = chains_of sts r"
| "chains_of (AddChain q cb ss # sts) r = (if q = r then (r, ss, cb) # chains_of sts r else chains_of sts r)"

fun count_rules :: "('id, 'n, 's) grammar_step list \<Rightarrow> nat" where
  "count_rules [] = 0"
| "count_rules (AddRule name # sts) = Suc (count_rules sts)"
| "count_rules (AddChain q cb ss # sts) = count_rules sts"

lemma count_rules_append [simp]: "count_rules (xs @ ys) = count_rules xs + count_rules ys"
  by (induction xs rule: count_rules.induct) simp_all

lemma chains_of_append [simp]: "chains_of (xs @ ys) r = chains_of xs r @ chains_of ys r"
  by (induction xs r rule: chains_of.induct) simp_all

lemma steps_ok_append [simp]: "steps_ok n (xs @ ys) \<longleftrightarrow> steps_ok n xs \<and> steps_ok (n + count_rules xs) ys"
  by (induction n xs rule: steps_ok.induct) (auto split: grammar_step.splits)

text \<open>Chains added in a loop.\<close>

lemma chain_loop [simp]:
  "count_rules (map (\<lambda>t. AddChain q (cb t) (ss t)) ts) = 0"
  "chains_of (map (\<lambda>t. AddChain q (cb t) (ss t)) ts) r = (if q = r then map (\<lambda>t. (r, ss t, cb t)) ts else [])"
  "steps_ok n (map (\<lambda>t. AddChain q (cb t) (ss t)) ts) \<longleftrightarrow> (\<forall>t \<in> set ts. step_ok n (AddChain q (cb t) (ss t)))"
  by (induction ts) auto

definition built :: "('id, 'n, 's) LRParser \<Rightarrow> ('id, 'n, 's) grammar_step list \<Rightarrow> ('id, 'n, 's) LRParser \<Rightarrow> bool" where
  "built p steps p' \<longleftrightarrow> rules_ok (m_rules p') \<and> nonempty_chains (m_rules p') \<and> m_tokenizer p' = m_tokenizer p \<and>
     length (m_rules p') = length (m_rules p) + count_rules steps \<and>
     (\<forall>r < length (m_rules p'). rule_productions (m_rules p' ! r) =
        (if r < length (m_rules p) then rule_productions (m_rules p ! r) else []) @ chains_of steps r)"

lemma chains_of_outside: "steps_ok n steps \<Longrightarrow> n + count_rules steps \<le> r \<Longrightarrow> chains_of steps r = []"
  by (induction n steps rule: steps_ok.induct) (auto split: grammar_step.splits)

lemma build_grammar_spec:
  assumes "rules_ok (m_rules p)" "nonempty_chains (m_rules p)" "steps_ok (length (m_rules p)) steps"
  shows "\<exists>p'. build_grammar jt jr steps p = Inr p' \<and> built p steps p'"
  using assms
proof (induction steps arbitrary: p)
  case Nil
  then show ?case by (simp add: built_def)
next
  case (Cons st steps)
  show ?case
  proof (cases st)
    case (AddRule name)
    let ?q = "p\<lparr>m_rules := m_rules p @ [Rule_new name (length (m_rules p))]\<rparr>"
    have q: "rules_ok (m_rules ?q)" "nonempty_chains (m_rules ?q)"
      using Cons.prems(1,2) unfolding rules_ok_def nonempty_chains_def
      by (auto simp: Rule_new_def nth_append list_all_iff less_Suc_eq) (meson lessI less_imp_le node_ok_mono)
    from Cons.IH [OF q] Cons.prems(3) AddRule obtain p' where p': "build_grammar jt jr steps ?q = Inr p'" "built ?q steps p'"
      by auto
    moreover have "LRParser_addRule p name = Inr ?q" using Cons.prems(3) AddRule by (simp add: LRParser_addRule_def)
    moreover have "built p (st # steps) p'"
      using p'(2) AddRule unfolding built_def
      by (auto simp: nth_append Rule_new_def rule_productions_def less_Suc_eq split: if_splits)
    ultimately show ?thesis using AddRule by simp
  next
    case (AddChain r cb ss)
    let ?ch = "chain_symbols jt jr p (case cb of None \<Rightarrow> chain_new | Some f \<Rightarrow> chain_new_callback f) ss"
    let ?q = "LRParser_or p r ?ch"
    have ch: "list_all (node_ok (length (m_rules p))) (m_nodes ?ch)" "map sym_of (m_nodes ?ch) = ss" "m_callback ?ch = cb"
      using chain_symbols_nodes [OF Cons.prems(1), of ss "case cb of None \<Rightarrow> chain_new | Some f \<Rightarrow> chain_new_callback f" jt jr]
        Cons.prems(3) AddChain
      by (auto simp: chain_new_def chain_new_callback_def split: option.splits)
    have r: "r < length (m_rules p)" "ss \<noteq> []" "steps_ok (length (m_rules p)) steps" using Cons.prems(3) AddChain by simp_all
    then have "m_nodes ?ch \<noteq> []" using ch(2) by auto
    with Cons.prems(1,2) ch(1) r have q: "rules_ok (m_rules ?q)" "nonempty_chains (m_rules ?q)"
      by (auto simp: LRParser_or_def Rule_or_def rules_ok_def nonempty_chains_def nth_list_update)
    have len: "length (m_rules ?q) = length (m_rules p)" by (simp add: LRParser_or_def)
    from Cons.IH [OF q] r(3) len obtain p' where p': "build_grammar jt jr steps ?q = Inr p'" "built ?q steps p'" by auto
    have "m_rule_id (m_rules p ! r) = r" using Cons.prems(1) r(1) by (simp add: rules_ok_def)
    then have prods: "rule_productions (m_rules ?q ! i) =
        rule_productions (m_rules p ! i) @ (if i = r then [(r, ss, cb)] else [])" if "i < length (m_rules p)" for i
      using that r(1) ch(2,3) by (simp add: LRParser_or_def Rule_or_def rule_productions_def nth_list_update)
    have tok: "m_tokenizer ?q = m_tokenizer p" by (simp add: LRParser_or_def)
    have "built p (st # steps) p'"
      using p'(2) r(1) len tok unfolding built_def AddChain by (simp add: prods)
    with p' AddChain show ?thesis by simp
  qed
qed

text \<open>
  Every grammar built from an empty parser by steps that name rules already added, with chains
  that are not empty and at most 128 rules, is accepted by \<^verbatim>\<open>addRule\<close> and well-formed; its
  productions are the chains of the steps, rule by rule, and for one rule in the order of the steps.
\<close>

theorem grammar_is_built:
  assumes "steps_ok 0 steps"
  shows "\<exists>p. build_grammar jt jr steps (LRParser_new toks depth) = Inr p \<and>
    rules_ok (m_rules p) \<and> nonempty_chains (m_rules p) \<and> m_tokenizer p = toks \<and>
    length (m_rules p) = count_rules steps \<and>
    productions (m_rules p) = concat (map (chains_of steps) [0..<count_rules steps])"
proof -
  let ?p = "LRParser_new toks depth"
  have "rules_ok (m_rules ?p)" "nonempty_chains (m_rules ?p)" "steps_ok (length (m_rules ?p)) steps"
    using assms by (simp_all add: LRParser_new_def rules_ok_def nonempty_chains_def)
  from build_grammar_spec [OF this, of jt jr] obtain p where p: "build_grammar jt jr steps ?p = Inr p" "built ?p steps p" by blast
  moreover from this have len: "length (m_rules p) = count_rules steps" by (simp add: built_def LRParser_new_def)
  moreover have "map rule_productions (m_rules p) = map (chains_of steps) [0..<count_rules steps]"
    using p(2) len by (intro nth_equalityI) (simp_all add: built_def LRParser_new_def)
  ultimately show ?thesis by (auto simp: built_def productions_def LRParser_new_def)
qed

text \<open>The conditions of termination and of the callbacks on productions.\<close>

lemma productions_mem:
  assumes "rules_ok rules"
  shows "x \<in> set (productions rules) \<longleftrightarrow> (\<exists>r < length rules. \<exists>c \<in> set (m_chains (rules ! r)).
    x = (r, map sym_of (m_nodes c), m_callback c))"
proof -
  have "x \<in> set (productions rules) \<longleftrightarrow> (\<exists>r < length rules. x \<in> set (rule_productions (rules ! r)))"
    by (simp add: productions_def Bex_def) (metis in_set_conv_nth)
  moreover have "x \<in> set (rule_productions (rules ! r)) \<longleftrightarrow>
      (\<exists>c \<in> set (m_chains (rules ! r)). x = (r, map sym_of (m_nodes c), m_callback c))" if "r < length rules" for r
    using assms that by (auto simp: rule_productions_def rules_ok_def)
  ultimately show ?thesis by blast
qed

definition callback_contract :: "fault set \<Rightarrow> (nat \<Rightarrow> 'n option \<Rightarrow> bool) \<Rightarrow> ('s \<Rightarrow> bool) \<Rightarrow> nat \<Rightarrow> ('id, 'n, 's) production \<Rightarrow> bool" where
  "callback_contract F T I n = (\<lambda>(r, ss, cb). case cb of
       None \<Rightarrow> T r None
     | Some f \<Rightarrow> \<forall>nodes s. map sym_of nodes = ss \<longrightarrow> list_all (node_ok n) nodes \<longrightarrow> list_all (typed T) nodes \<longrightarrow> I s \<longrightarrow>
         result_ok F (\<lambda>(ok, pn, s'). I s' \<and> (ok \<longrightarrow> T r pn)) (f nodes s))"

lemma callbacks_ok_productions:
  assumes "rules_ok rules" "list_all (callback_contract F T I (length rules)) (productions rules)"
  shows "callbacks_ok F T I rules"
  unfolding callbacks_ok_def
proof (intro allI impI ballI)
  fix r c
  assume "r < length rules" "c \<in> set (m_chains (rules ! r))"
  then have "(r, map sym_of (m_nodes c), m_callback c) \<in> set (productions rules)"
    using productions_mem [OF assms(1)] by blast
  with assms(2) have "callback_contract F T I (length rules) (r, map sym_of (m_nodes c), m_callback c)"
    by (simp add: list_all_iff)
  then show "case m_callback c of None \<Rightarrow> T r None
      | Some cb \<Rightarrow> \<forall>nodes s. map sym_of nodes = map sym_of (m_nodes c) \<longrightarrow>
          list_all (node_ok (length rules)) nodes \<longrightarrow> list_all (typed T) nodes \<longrightarrow> I s \<longrightarrow>
          result_ok F (\<lambda>(ok, pn, s'). I s' \<and> (ok \<longrightarrow> T r pn)) (cb nodes s)"
    by (auto simp: callback_contract_def split: option.splits)
qed

definition production_ranked :: "(nat \<Rightarrow> nat) \<Rightarrow> ('id, 'n, 's) production \<Rightarrow> bool" where
  "production_ranked rank = (\<lambda>(r, ss, cb). case ss of [Nt q] \<Rightarrow> rank q < rank r | _ \<Rightarrow> True)"

lemma unit_ranked_productions:
  assumes "rules_ok rules" "list_all (production_ranked rank) (productions rules)" "\<forall>r < length rules. rank r < K"
  shows "unit_ranked rules rank K"
  unfolding unit_ranked_def list_all_iff
proof (intro allI impI conjI ballI)
  fix r c
  assume r: "r < length rules" and c: "c \<in> set (m_chains (rules ! r))"
  then have "(r, map sym_of (m_nodes c), m_callback c) \<in> set (productions rules)"
    using productions_mem [OF assms(1)] by blast
  with assms(2) have "production_ranked rank (r, map sym_of (m_nodes c), m_callback c)" by (simp add: list_all_iff)
  then show "case m_nodes c of [] \<Rightarrow> True | [x] \<Rightarrow> m_type x = RULE_NODE \<longrightarrow> rank (m_ruleId x) < rank r | x # y # xs \<Rightarrow> True"
    by (auto simp: production_ranked_def sym_of_def split: list.splits)
qed (use assms(3) in blast)

text \<open>What a callback may assume of an entry that matched a symbol.\<close>

definition token_text :: "string \<Rightarrow> 'id Token \<Rightarrow> string" where
  "token_text str t = take (m_tokenEnd t - m_tokenBegin t) (drop (m_tokenBegin t) str)"

fun sees :: "(nat \<Rightarrow> 'n option \<Rightarrow> bool) \<Rightarrow> 'id sym \<Rightarrow> ('id, 'n) TokenOrNode \<Rightarrow> bool" where
  "sees T (Tok i) x \<longleftrightarrow> m_type x = TOKEN \<and> Token_getId (m_token x) = Inr i \<and> m_pNode x = None \<and>
     (\<forall>str. Token_getToken str (m_token x) = Inr (token_text str (m_token x)))"
| "sees T (Nt r) x \<longleftrightarrow> m_type x = RULE_NODE \<and> T r (m_pNode x)"

lemma sees_entry: "node_ok n x \<Longrightarrow> typed T x \<Longrightarrow> sees T (sym_of x) x"
  by (auto simp: node_ok_def typed_def sym_of_def Token_getId_def Token_getToken_def token_text_def)

lemma callback_contract_sees:
  fixes f :: "('id, 'n, 's) tProc"
  assumes "\<And>nodes s. list_all2 (sees T) ss nodes \<Longrightarrow> I s \<Longrightarrow> result_ok F (\<lambda>(ok, pn, s'). I s' \<and> (ok \<longrightarrow> T r pn)) (f nodes s)"
  shows "callback_contract F T I n (r, ss, Some f)"
  unfolding callback_contract_def prod.case option.case
proof (intro allI impI)
  fix nodes :: "('id, 'n) TokenOrNode list" and s
  assume syms: "map sym_of nodes = ss" and "list_all (node_ok n) nodes" "list_all (typed T) nodes" and s: "I s"
  then have "sees T (sym_of x) x" if "x \<in> set nodes" for x
    using that by (intro sees_entry [of n]) (simp_all add: list_all_iff)
  then have "list_all2 (sees T) (map sym_of nodes) nodes"
    by (simp add: list_all2_map1 list_all2_same)
  with assms s syms show "result_ok F (\<lambda>(ok, pn, s'). I s' \<and> (ok \<longrightarrow> T r pn)) (f nodes s)" by blast
qed

lemma node_at_simps [simp]:
  "node_at (x # xs) 0 = Inr x"
  "node_at (x # xs) (Suc k) = node_at xs k"
  "node_at (x # xs) 1 = node_at xs 0"
  "node_at (x # xs) (numeral m) = node_at xs (pred_numeral m)"
  by (simp_all add: node_at_def nth_opt_def)

end
