(* ===== verification/TokenPatterns.thy ===== *)
theory TokenPatterns
  imports Tokenizer "HOL-Library.Sublist"
begin

text \<open>
  Tokenizers built from the strings of patterns, as the clients do, and the tokens they give in
  terms of the languages of the patterns: by \<open>regex_scan_correct\<close> a scan is determined by the
  language (\<open>scan_is\<close>), and the next token by the first pattern whose scan is not empty
  (\<open>next_is\<close>).
\<close>

section \<open>Patterns\<close>

text \<open>Compiling a list of patterns, one after the other, with the constructor that checks.\<close>

fun compile_patterns :: "nat \<Rightarrow> nat \<Rightarrow> ('id \<times> string) list \<Rightarrow> fault + 'id tokenizer_list" where
  "compile_patterns fuel junk [] = Inr []"
| "compile_patterns fuel junk ((i, pattern) # ps) =
     bind_result (RegExPattern_new fuel junk pattern) (\<lambda>r.
     bind_result (compile_patterns fuel junk ps) (\<lambda>rs. Inr ((i, r) # rs)))"

abbreviation range_atom :: "char \<Rightarrow> rexp" where "range_atom c \<equiv> Atom (ReToken RANGE c)"
abbreviation lit_atom :: "char \<Rightarrow> rexp" where "lit_atom c \<equiv> Atom (lit c)"

text \<open>Whether the compiler reads a string as the expression \<open>r\<close>, within its limits.\<close>

definition pattern_is :: "nat \<Rightarrow> string \<Rightarrow> rexp \<Rightarrow> bool" where
  "pattern_is fuel pattern r \<longleftrightarrow>
     (case escapePattern pattern of
        Inl e \<Rightarrow> False
      | Inr tokens \<Rightarrow> bind_result (expandPattern tokens) (infixToPostfix fuel) = Inr (Inr (postfix r))) \<and>
     loop_ok r \<and> atoms_ok r \<and> states_of r < 254"

lemmas pattern_defs = pattern_is_def escapePattern_def escapable_def range_escape_def push_token_def
  expandPattern_def infixToPostfix_def atom_ok_def lit_def Let_def eval_nat_numeral

text \<open>The scan of an input with a pattern of language \<open>L\<close>.\<close>

definition scan_is :: "string set \<Rightarrow> string \<Rightarrow> nat \<Rightarrow> bool" where
  "scan_is L input k \<longleftrightarrow> scan_result (\<lambda>j. take j input \<in> L) (length input) k"

definition pattern_scans :: "nat \<Rightarrow> RegExPattern \<Rightarrow> rexp \<Rightarrow> bool" where
  "pattern_scans tf p r \<longleftrightarrow> (\<forall>input. \<exists>k. RegExPattern_scan tf p input = Inr k \<and> scan_is (lang r) input k)"

lemma pattern_compiles:
  assumes "pattern_is fuel pattern r"
  shows "\<exists>p N. RegExPattern_new fuel junk pattern = Inr p \<and> (\<forall>tf \<ge> N. pattern_scans tf p r)"
proof -
  from assms obtain tokens ts where t: "escapePattern pattern = Inr tokens" "expandPattern tokens = Inr ts"
    "infixToPostfix fuel ts = Inr (Inr (postfix r))"
    by (auto simp: pattern_is_def bind_result_eq_Inr split: sum.splits)
  obtain m where m: "Nfa_build (postfix r) = Inr m" "machine_ok m (lang r)"
    using build_machine_ok [of r] assms by (auto simp: pattern_is_def)
  have "RegExPattern_new fuel junk pattern = Inr (Some m)"
    using t m(1) by (simp add: RegExPattern_new_def RegExPattern_build_def)
  with Nfa_scan_spec [OF m(2)] show ?thesis
    by (fastforce simp: pattern_scans_def scan_is_def RegExPattern_scan_def)
qed

text \<open>The same for a list of patterns.\<close>

definition patterns_are :: "nat \<Rightarrow> ('id \<times> string) list \<Rightarrow> ('id \<times> rexp) list \<Rightarrow> bool" where
  "patterns_are fuel ps rs \<longleftrightarrow> list_all2 (\<lambda>(i, pattern) (j, r). i = j \<and> pattern_is fuel pattern r) ps rs"

definition tokenizer_is :: "nat \<Rightarrow> 'id tokenizer_list \<Rightarrow> ('id \<times> rexp) list \<Rightarrow> bool" where
  "tokenizer_is tf toks rs \<longleftrightarrow> list_all2 (\<lambda>(i, p) (j, r). i = j \<and> pattern_scans tf p r) toks rs"

lemma patterns_compile:
  "patterns_are fuel ps rs \<Longrightarrow>
   \<exists>toks N. compile_patterns fuel junk ps = Inr toks \<and> (\<forall>tf \<ge> N. tokenizer_is tf toks rs)"
proof (induction ps arbitrary: rs)
  case Nil
  then show ?case by (simp add: patterns_are_def tokenizer_is_def)
next
  case (Cons x ps)
  obtain i pattern where x: "x = (i, pattern)" by (cases x)
  with Cons.prems obtain r rs' where rs: "rs = (i, r) # rs'" "pattern_is fuel pattern r" "patterns_are fuel ps rs'"
    by (auto simp: patterns_are_def list_all2_Cons1)
  from Cons.IH [OF rs(3)] obtain toks N where toks: "compile_patterns fuel junk ps = Inr toks"
    "\<forall>tf \<ge> N. tokenizer_is tf toks rs'" by blast
  from pattern_compiles [OF rs(2)] obtain p M where p: "RegExPattern_new fuel junk pattern = Inr p"
    "\<forall>tf \<ge> M. pattern_scans tf p r" by blast
  have "\<forall>tf \<ge> max M N. tokenizer_is tf ((i, p) # toks) ((i, r) # rs')"
    using toks(2) p(2) by (auto simp: tokenizer_is_def)
  with toks(1) p(1) show ?case unfolding x rs(1)
    by (intro exI [of _ "(i, p) # toks"] exI [of _ "max M N"] conjI) simp_all
qed

section \<open>The next token\<close>

fun next_in :: "('id \<times> string set) list \<Rightarrow> string \<Rightarrow> ('id \<times> nat) option \<Rightarrow> bool" where
  "next_in [] input res \<longleftrightarrow> res = None"
| "next_in ((i, L) # ls) input res \<longleftrightarrow>
     (\<exists>k. scan_is L input k \<and> (if k \<noteq> 0 then res = Some (i, k) else next_in ls input res))"

definition langs :: "('id \<times> rexp) list \<Rightarrow> ('id \<times> string set) list" where
  "langs rs = map (\<lambda>(i, r). (i, lang r)) rs"

definition next_is :: "('id \<times> rexp) list \<Rightarrow> string \<Rightarrow> ('id \<times> nat) option \<Rightarrow> bool" where
  "next_is rs = next_in (langs rs)"

lemma next_skip: "scan_is L input 0 \<Longrightarrow> next_in ls input res \<Longrightarrow> next_in ((i, L) # ls) input res"
  by auto

lemma next_hit: "scan_is L input k \<Longrightarrow> k \<noteq> 0 \<Longrightarrow> next_in ((i, L) # ls) input (Some (i, k))"
  by auto

lemma first_run_unique: "first_run P n k \<Longrightarrow> first_run P n k' \<Longrightarrow> k = k'"
proof -
  have le: "k \<le> k'" if a: "first_run P n k" and b: "first_run P n k'" for k k'
  proof (rule ccontr)
    assume "\<not> k \<le> k'"
    obtain s where s: "1 \<le> s" "s \<le> k" "k \<le> n" "\<forall>j. 1 \<le> j \<longrightarrow> j < s \<longrightarrow> \<not> P j" "\<forall>j. s \<le> j \<longrightarrow> j \<le> k \<longrightarrow> P j"
      using a by (auto simp: first_run_def)
    obtain s' where s': "1 \<le> s'" "s' \<le> k'" "k' \<le> n" "\<forall>j. s' \<le> j \<longrightarrow> j \<le> k' \<longrightarrow> P j" "k' < n \<longrightarrow> \<not> P (k' + 1)"
      using b by (auto simp: first_run_def)
    have "P k'" using s'(2,4) by simp
    then have "s \<le> k'" using s(4) s'(1,2) by (metis le_trans not_le)
    then have "P (k' + 1)" using s(5) \<open>\<not> k \<le> k'\<close> by simp
    with s'(5) s(3) \<open>\<not> k \<le> k'\<close> show False by simp
  qed
  show "first_run P n k \<Longrightarrow> first_run P n k' \<Longrightarrow> k = k'" using le by (blast intro: le_antisym)
qed

lemma scan_is_unique:
  assumes "scan_is L input k" "scan_is L input k'"
  shows "k = k'"
proof -
  let ?P = "\<lambda>j. take j input \<in> L" and ?n = "length input"
  have run: "\<not> (\<forall>j. 1 \<le> j \<longrightarrow> j \<le> ?n \<longrightarrow> \<not> ?P j)" if "first_run ?P ?n k" for k
  proof -
    from that obtain b where "1 \<le> b" "b \<le> k" "k \<le> ?n" "?P k" unfolding first_run_def by blast
    then show ?thesis by (metis le_trans)
  qed
  consider "first_run ?P ?n k" "first_run ?P ?n k'" | "k = 0" "k' = 0"
    using assms run [of k] run [of k'] unfolding scan_is_def scan_result_def by blast
  then show ?thesis by cases (auto dest: first_run_unique)
qed

lemma scan_is_bound: "scan_is L input k \<Longrightarrow> k \<le> length input"
  by (auto simp: scan_is_def scan_result_def first_run_def)

lemma next_is_first_match:
  "tokenizer_is tf toks rs \<Longrightarrow> next_is rs input res \<Longrightarrow> first_match (RegExPattern_scan tf) toks input = Inr res"
proof (induction rs arbitrary: toks)
  case Nil
  then show ?case by (simp add: tokenizer_is_def next_is_def langs_def)
next
  case (Cons x rs)
  obtain i r where x: "x = (i, r)" by (cases x)
  with Cons.prems(1) obtain p toks' where toks: "toks = (i, p) # toks'" "pattern_scans tf p r" "tokenizer_is tf toks' rs"
    by (auto simp: tokenizer_is_def list_all2_Cons2)
  from toks(2) obtain k where k: "RegExPattern_scan tf p input = Inr k" "scan_is (lang r) input k"
    by (auto simp: pattern_scans_def)
  from Cons.prems(2) obtain k' where "scan_is (lang r) input k'"
    "if k' \<noteq> 0 then res = Some (i, k') else next_is rs input res"
    by (auto simp: x next_is_def langs_def)
  with k Cons.IH [OF toks(3)] scan_is_unique [of "lang r" input k k'] show ?case
    by (simp add: toks(1) split: if_splits)
qed

lemma next_is_getNextToken:
  assumes "tokenizer_is tf toks rs"
  shows "next_is rs (drop pos str) (Some (i, k)) \<Longrightarrow> getNextToken tf toks jt str pos = Inr (True, Token_new i pos (pos + k))"
    and "next_is rs (drop pos str) None \<Longrightarrow> getNextToken tf toks jt str pos = Inr (False, Token_empty jt)"
  using next_is_first_match [OF assms] by (auto simp: getNextToken_def)

text \<open>A tokenizer of such patterns reads every text.\<close>

lemma first_match_total:
  assumes "tokenizer_is tf toks rs"
  shows "\<exists>res. first_match (RegExPattern_scan tf) toks input = Inr res"
  using assms
proof (induction toks arbitrary: rs)
  case (Cons x toks)
  then obtain i p r rs' where "x = (i, p)" "pattern_scans tf p r" "tokenizer_is tf toks rs'"
    by (cases x) (auto simp: tokenizer_is_def list_all2_Cons1)
  moreover from this obtain k where "RegExPattern_scan tf p input = Inr k" by (auto simp: pattern_scans_def)
  ultimately show ?case using Cons.IH by simp
qed simp

lemma tokens_exist:
  assumes "tokenizer_is tf toks rs"
  shows "\<exists>ts pos'. token_run tf toks jt str pos ts pos'"
proof (induction "length str - pos" arbitrary: pos rule: less_induct)
  case less
  obtain res where res: "first_match (RegExPattern_scan tf) toks (drop pos str) = Inr res"
    using first_match_total [OF assms] by blast
  show ?case
  proof (cases res)
    case None
    with res have "getNextToken tf toks jt str pos = Inr (False, Token_empty jt)" by (simp add: getNextToken_def)
    then show ?thesis using token_run.stop by blast
  next
    case (Some y)
    obtain i k where y: "y = (i, k)" by (cases y)
    with res Some have n: "getNextToken tf toks jt str pos = Inr (True, Token_new i pos (pos + k))"
      by (simp add: getNextToken_def)
    from less [OF getNextToken_measure [OF n]] obtain ts pos' where
      "token_run tf toks jt str (m_tokenEnd (Token_new i pos (pos + k))) ts pos'" by blast
    with n show ?thesis using token_run.step by blast
  qed
qed

section \<open>Scans with some languages\<close>

lemma tok_matches_simps [simp]:
  "tok_matches (lit c) d \<longleftrightarrow> d = c"
  "tok_matches (ReToken INV_LITERAL c) d \<longleftrightarrow> d \<noteq> c"
  "tok_matches (ReToken RANGE CHR ''.'') d"
  "tok_matches (ReToken RANGE CHR ''s'') d \<longleftrightarrow> d = CHR '' '' \<or> d = CHR 0x0A \<or> d = CHR 0x09 \<or> d = CHR 0x0D"
  "tok_matches (ReToken RANGE CHR ''d'') d \<longleftrightarrow> is_digit_ch d"
  "tok_matches (ReToken RANGE CHR ''w'') d \<longleftrightarrow> is_alpha_ch d \<or> d = CHR ''_'' \<or> is_digit_ch d"
  "tok_matches (ReToken RANGE CHR ''a'') d \<longleftrightarrow> is_alpha_ch d"
  by (auto simp: tok_matches_def lit_def new_state_ch_def state_matches_def)

lemma star_class: "star {[c] | c. P c} = {w. list_all P w}"
proof (rule set_eqI)
  fix w
  show "w \<in> star {[c] | c. P c} \<longleftrightarrow> w \<in> {w. list_all P w}"
  proof
    assume "w \<in> star {[c] | c. P c}"
    then show "w \<in> {w. list_all P w}" by (induction rule: star.induct) auto
  next
    assume "w \<in> {w. list_all P w}"
    then have "list_all P w" by simp
    then show "w \<in> star {[c] | c. P c}"
    proof (induction w)
      case (Cons c w)
      then have "[c] @ w \<in> star {[c] | c. P c}" by (intro star.star_app) auto
      then show ?case by simp
    qed (rule star_Nil)
  qed
qed

lemma scan_is_zero: "(\<And>w. w \<in> L \<Longrightarrow> w \<noteq> [] \<Longrightarrow> hd w \<noteq> c) \<Longrightarrow> scan_is L (c # rest) 0"
proof -
  assume L: "\<And>w. w \<in> L \<Longrightarrow> w \<noteq> [] \<Longrightarrow> hd w \<noteq> c"
  have "take j (c # rest) \<notin> L" if "1 \<le> j" for j
    using L [of "take j (c # rest)"] that by (cases j) auto
  then show ?thesis unfolding scan_is_def scan_result_def by blast
qed

text \<open>The end of a single run of matching prefixes.\<close>

lemma scan_is_run:
  assumes "1 \<le> b" "b \<le> k" "k \<le> length input"
    and "\<And>j. 1 \<le> j \<Longrightarrow> j < b \<Longrightarrow> take j input \<notin> L" "\<And>j. b \<le> j \<Longrightarrow> j \<le> k \<Longrightarrow> take j input \<in> L"
    and "k < length input \<Longrightarrow> take (k + 1) input \<notin> L"
  shows "scan_is L input k"
  unfolding scan_is_def scan_result_def first_run_def using assms by blast

lemma scan_is_char:
  assumes "P c"
  shows "scan_is {[c] | c. P c} (c # rest) 1"
proof (rule scan_is_run [of 1])
  show "take j (c # rest) \<in> {[c] | c. P c}" if "1 \<le> j" "j \<le> 1" for j
    using that assms by (simp add: le_antisym)
  show "take (1 + 1) (c # rest) \<notin> {[c] | c. P c}" if "1 < length (c # rest)"
    using that by (cases rest) auto
qed auto

lemma scan_is_word:
  assumes "A c" "list_all W v" "rest = [] \<or> \<not> W (hd rest)"
  shows "scan_is {c # v | c v. A c \<and> list_all W v} (c # v @ rest) (Suc (length v))"
proof (rule scan_is_run [of 1])
  show "take j (c # v @ rest) \<in> {c # v | c v. A c \<and> list_all W v}" if "1 \<le> j" "j \<le> Suc (length v)" for j
    using that assms(1,2) by (cases j) (auto simp: list_all_iff dest: in_set_takeD)
  show "take (Suc (length v) + 1) (c # v @ rest) \<notin> {c # v | c v. A c \<and> list_all W v}"
    if "Suc (length v) < length (c # v @ rest)"
    using that assms(3) by (cases rest) auto
qed auto

lemma scan_is_quoted:
  assumes "list_all (\<lambda>c. c \<noteq> q) v"
  shows "scan_is {q # v @ [q] | v. list_all (\<lambda>c. c \<noteq> q) v} (q # v @ q # rest) (length v + 2)"
proof (rule scan_is_run [of "length v + 2"])
  let ?L = "{q # v @ [q] | v. list_all (\<lambda>c. c \<noteq> q) v}"
  have in_L: "take (Suc j) (q # v @ q # rest) \<in> ?L \<longleftrightarrow> j = Suc (length v)" if "j \<le> Suc (Suc (length v))" "j \<le> Suc (length v + length rest)" for j
  proof
    assume "take (Suc j) (q # v @ q # rest) \<in> ?L"
    then obtain u where u: "take j (v @ q # rest) = u @ [q]" "list_all (\<lambda>c. c \<noteq> q) u" by auto
    have "j > length v"
    proof (rule ccontr)
      assume "\<not> j > length v"
      then have "take j v = u @ [q]" using u(1) by simp
      then have "q \<in> set (take j v)" by simp
      with assms show False by (auto simp: list_all_iff dest: in_set_takeD)
    qed
    moreover have "j \<noteq> Suc (Suc (length v))"
    proof
      assume "j = Suc (Suc (length v))"
      with u(1) that(2) obtain r rest' where "v @ q # [r] = u @ [q]" by (cases rest) auto
      then have "u = v @ [q]" by (simp flip: append_assoc add: append_eq_append_conv2)
      with u(2) show False by simp
    qed
    ultimately show "j = Suc (length v)" using that(1) by linarith
  next
    assume "j = Suc (length v)"
    with assms show "take (Suc j) (q # v @ q # rest) \<in> ?L" by simp
  qed
  show "take j (q # v @ q # rest) \<notin> ?L" if "1 \<le> j" "j < length v + 2" for j
    using in_L [of "j - 1"] that by (cases j) auto
  show "take j (q # v @ q # rest) \<in> ?L" if "length v + 2 \<le> j" "j \<le> length v + 2" for j
    using in_L [of "Suc (length v)"] that by (simp add: le_antisym)
  show "take (length v + 2 + 1) (q # v @ q # rest) \<notin> ?L" if "length v + 2 < length (q # v @ q # rest)"
    using in_L [of "Suc (Suc (length v))"] that by (simp add: Suc_le_eq)
qed auto

lemma conc_class:
  "conc {[c] | c. P c} X = {c # v | c v. P c \<and> v \<in> X}"
  "conc {[d]} X = {d # v | v. v \<in> X}"
  "conc X {[d]} = {v @ [d] | v. v \<in> X}"
proof -
  have "c # v \<in> conc {[c] | c. P c} X" if "P c" "v \<in> X" for c v
    using concI [of "[c]" "{[c] | c. P c}" v X] that by simp
  then show "conc {[c] | c. P c} X = {c # v | c v. P c \<and> v \<in> X}" by (auto simp: conc_def)
qed (auto simp: conc_def)

text \<open>Languages of single characters, of words and of quoted strings, with the token they give.\<close>

definition class_lang :: "(char \<Rightarrow> bool) \<Rightarrow> string set" where
  "class_lang P = {[c] | c. P c}"

definition word_lang :: "(char \<Rightarrow> bool) \<Rightarrow> (char \<Rightarrow> bool) \<Rightarrow> string set" where
  "word_lang A W = {c # v | c v. A c \<and> list_all W v}"

definition quoted_lang :: "char \<Rightarrow> string set" where
  "quoted_lang q = {q # v @ [q] | v. list_all (\<lambda>c. c \<noteq> q) v}"

lemma scan_is_empty: "scan_is L [] 0"
  by (simp add: scan_is_def scan_result_def)

lemma next_in_empty: "next_in ls [] None"
  by (induction ls) (auto intro: scan_is_empty)

lemma next_in_scan: "scan_is L input k \<Longrightarrow>
    next_in ((i, L) # ls) input res \<longleftrightarrow> (if k \<noteq> 0 then res = Some (i, k) else next_in ls input res)"
  using scan_is_unique by (auto split: if_splits)

declare next_in.simps(2) [simp del]

text \<open>The languages of some expressions.\<close>

lemma tok_matches_fun:
  "tok_matches (lit c) = (\<lambda>d. d = c)" "tok_matches (ReToken RANGE CHR ''.'') = (\<lambda>d. True)"
  "tok_matches (ReToken INV_LITERAL c) = (\<lambda>d. d \<noteq> c)"
  by (simp_all add: fun_eq_iff)

lemma lang_class: "lang (Atom t) = class_lang (tok_matches t)"
  by (simp add: class_lang_def)

lemma lang_word:
  "lang (Cat (Atom t) (Star (Atom u))) = word_lang (tok_matches t) (tok_matches u)"
  "lang (Plus (Atom t)) = word_lang (tok_matches t) (tok_matches t)"
  by (simp_all add: star_class conc_class(1) word_lang_def)

lemma lang_quoted: "lang (Cat (Cat (Atom (lit q)) (Star (Atom (ReToken INV_LITERAL q)))) (Atom (lit q))) = quoted_lang q"
  by (auto simp: star_class conc_class(2,3) quoted_lang_def)

lemma next_in_class [simp]:
  "next_in ((i, class_lang P) # ls) (c # rest) res \<longleftrightarrow> (if P c then res = Some (i, 1) else next_in ls (c # rest) res)"
proof (cases "P c")
  case True
  then have "scan_is (class_lang P) (c # rest) 1" unfolding class_lang_def by (rule scan_is_char)
  with True show ?thesis by (simp add: next_in_scan)
next
  case False
  then have "scan_is (class_lang P) (c # rest) 0" by (intro scan_is_zero) (auto simp: class_lang_def)
  with False show ?thesis by (simp add: next_in_scan)
qed

lemma next_in_word_skip [simp]:
  "\<not> A c \<Longrightarrow> next_in ((i, word_lang A W) # ls) (c # rest) res \<longleftrightarrow> next_in ls (c # rest) res"
proof -
  assume "\<not> A c"
  then have "scan_is (word_lang A W) (c # rest) 0" by (intro scan_is_zero) (auto simp: word_lang_def)
  then show ?thesis by (simp add: next_in_scan)
qed

lemma next_in_word:
  assumes "A c" "list_all W v" "rest = [] \<or> \<not> W (hd rest)"
  shows "next_in ((i, word_lang A W) # ls) (c # v @ rest) (Some (i, Suc (length v)))"
  using assms by (simp add: next_in_scan [OF scan_is_word [of A c W v rest, folded word_lang_def]])

lemma next_in_quoted_skip [simp]:
  "c \<noteq> q \<Longrightarrow> next_in ((i, quoted_lang q) # ls) (c # rest) res \<longleftrightarrow> next_in ls (c # rest) res"
proof -
  assume "c \<noteq> q"
  then have "scan_is (quoted_lang q) (c # rest) 0" by (intro scan_is_zero) (auto simp: quoted_lang_def)
  then show ?thesis by (simp add: next_in_scan)
qed

lemma next_in_quoted:
  assumes "list_all (\<lambda>c. c \<noteq> q) v"
  shows "next_in ((i, quoted_lang q) # ls) (q # v @ q # rest) (Some (i, length v + 2))"
  by (simp add: next_in_scan [OF scan_is_quoted [OF assms, folded quoted_lang_def]])


section \<open>Literal strings\<close>

definition lits :: "string \<Rightarrow> rexp" where
  "lits s = foldl (\<lambda>r d. Cat r (Atom (lit d))) (Atom (lit (hd s))) (tl s)"

lemma lang_lits: "s \<noteq> [] \<Longrightarrow> lang (lits s) = {s}"
proof -
  have "lang (foldl (\<lambda>r d. Cat r (Atom (lit d))) r cs) = {w @ cs | w. w \<in> lang r}" for r cs
    by (induction cs arbitrary: r) (auto simp: conc_class(3))
  moreover assume "s \<noteq> []"
  ultimately show ?thesis by (simp add: lits_def)
qed

lemma scan_is_literal: "s \<noteq> [] \<Longrightarrow> scan_is {s} input (if prefix s input then length s else 0)"
proof (cases "prefix s input")
  case True
  assume "s \<noteq> []"
  from True obtain rest where input: "input = s @ rest" by (auto simp: prefix_def)
  have "scan_is {s} input (length s)"
  proof (rule scan_is_run [of "length s"])
    show "1 \<le> length s" using \<open>s \<noteq> []\<close> by (simp add: Suc_le_eq)
    show "take j input \<notin> {s}" if "j < length s" for j using that by (auto dest: arg_cong [of _ _ length])
    show "take j input \<in> {s}" if "length s \<le> j" "j \<le> length s" for j
      using that by (simp add: input le_antisym)
    show "take (length s + 1) input \<notin> {s}" if "length s < length input"
      using that by (auto dest: arg_cong [of _ _ length])
  qed (simp_all add: input)
  with True show ?thesis by simp
next
  case False
  then have "take j input \<noteq> s" for j using take_is_prefix by metis
  with False show ?thesis by (simp add: scan_is_def scan_result_def)
qed

lemma next_in_literal:
  "s \<noteq> [] \<Longrightarrow> next_in ((i, {s}) # ls) input res \<longleftrightarrow>
     (if prefix s input then res = Some (i, length s) else next_in ls input res)"
  using next_in_scan [OF scan_is_literal [of s input], of i ls res] by simp

text \<open>A table of them.\<close>

lemma next_in_literals_skip:
  "\<forall>(j, s) \<in> set fs. s \<noteq> [] \<and> \<not> prefix s input \<Longrightarrow>
   next_in (map (\<lambda>(j, s). (j, {s})) fs @ ls) input res \<longleftrightarrow> next_in ls input res"
  by (induction fs) (auto simp: next_in_literal)

lemma next_in_literals_hit:
  assumes "(i, s) \<in> set fs" "prefix s input" "\<forall>(j, u) \<in> set fs. u \<noteq> [] \<and> (prefix u input \<longrightarrow> j = i \<and> u = s)"
  shows "next_in (map (\<lambda>(j, s). (j, {s})) fs @ ls) input (Some (i, length s))"
  using assms(1,3)
proof (induction fs)
  case (Cons f fs)
  obtain j u where f: "f = (j, u)" by (cases f)
  show ?case
  proof (cases "prefix u input")
    case True
    moreover have "u \<noteq> []" "j = i" "u = s" using Cons.prems f True by auto
    ultimately show ?thesis using next_in_literal [of s i] f by simp
  next
    case False
    with assms(2) Cons.prems f have "(i, s) \<in> set fs" by auto
    with False Cons f show ?thesis by (simp add: next_in_literal)
  qed
qed simp

end
