(* ===== verification/TokenLayout.thy ===== *)
theory TokenLayout
  imports LRGrammar TokenPatterns
begin

text \<open>
  Texts that show given tokens, for any patterns: what the clients of the parser say about the files
  they read.
\<close>

section \<open>Spelling\<close>

text \<open>Tokens of a text that are spelled like that.\<close>

definition spells :: "string \<Rightarrow> 'id Token \<Rightarrow> 'id \<times> string \<Rightarrow> bool" where
  "spells str t ix \<longleftrightarrow> m_valid t \<and> m_id t = fst ix \<and> token_text str t = snd ix"

definition spelled :: "string \<Rightarrow> ('id Token \<times> nat) list \<Rightarrow> ('id \<times> string) list \<Rightarrow> bool" where
  "spelled str ls txs \<longleftrightarrow> list_all2 (\<lambda>l. spells str (fst l)) ls txs"

lemma spelled_simps [simp]:
  "spelled str ls [] \<longleftrightarrow> ls = []"
  "spelled str ls ((i, x) # txs) \<longleftrightarrow> (\<exists>t line ls'. ls = (t, line) # ls' \<and> m_valid t \<and> m_id t = i \<and> token_text str t = x \<and> spelled str ls' txs)"
  by (auto simp: spelled_def spells_def list_all2_Cons2)

lemma spelled_append: "spelled str ls (xs @ ys) \<longleftrightarrow> (\<exists>us vs. ls = us @ vs \<and> spelled str us xs \<and> spelled str vs ys)"
  unfolding spelled_def by (auto simp: list_all2_append2 dest: list_all2_lengthD)

lemma spelled_append3:
  assumes "spelled str ls (xs @ ys @ zs)"
  obtains us vs ws where "ls = us @ vs @ ws" "spelled str us xs" "spelled str vs ys" "spelled str ws zs"
  using assms by (auto simp: spelled_append)

lemma entry_simps [simp]:
  "m_token (TokenOrNode_token jr t l) = t" "m_pNode (TokenOrNode_token jr t l) = None"
  "m_type (TokenOrNode_token jr t l) = TOKEN" "m_type (TokenOrNode_rule jt r l pn) = RULE_NODE"
  "m_line (TokenOrNode_token jr t l) = l" "m_line (TokenOrNode_rule jt r l pn) = l"
  "m_pNode (TokenOrNode_rule jt r l pn) = pn" "m_ruleId (TokenOrNode_rule jt r l pn) = r"
  by (simp_all add: TokenOrNode_token_def TokenOrNode_rule_def)

lemma valid_text: "m_valid t \<Longrightarrow> Token_getToken str t = Inr (token_text str t)" "m_valid t \<Longrightarrow> Token_getId t = Inr (m_id t)"
  by (simp_all add: Token_getToken_def token_text_def Token_getId_def)

lemma TrimQuotes_quoted: "TrimQuotes (CHR 0x22 # v @ [CHR 0x22]) = v"
  by (simp add: TrimQuotes_def substr_def)

section \<open>Layout\<close>

text \<open>
  A text that shows the tokens \<open>txs\<close>: one after the other, with any tokens to ignore between them,
  where each is read by the patterns as that token of that length.
\<close>

inductive displays :: "('id \<times> rexp) list \<Rightarrow> 'id \<Rightarrow> ('id \<times> string) list \<Rightarrow> string \<Rightarrow> bool" for rs ignore where
  nothing: "next_is rs text None \<Longrightarrow> displays rs ignore [] text"
| ignored: "next_is rs (x @ text) (Some (ignore, length x)) \<Longrightarrow> x \<noteq> [] \<Longrightarrow> displays rs ignore txs text \<Longrightarrow>
    displays rs ignore txs (x @ text)"
| shown: "next_is rs (x @ text) (Some (i, length x)) \<Longrightarrow> x \<noteq> [] \<Longrightarrow> i \<noteq> ignore \<Longrightarrow> displays rs ignore txs text \<Longrightarrow>
    displays rs ignore ((i, x) # txs) (x @ text)"

lemma displays_run:
  assumes "tokenizer_is tf toks rs"
  shows "displays rs ignore txs text \<Longrightarrow> drop pos str = text \<Longrightarrow>
    \<exists>ts pos'. token_run tf toks jt str pos ts pos' \<and> list_all2 (spells str) (filter (\<lambda>t. m_id t \<noteq> ignore) ts) txs"
proof (induction arbitrary: pos rule: displays.induct)
  case (nothing rest)
  then have "getNextToken tf toks jt str pos = Inr (False, Token_empty jt)"
    by (intro next_is_getNextToken(2) [OF assms]) simp
  then show ?case using token_run.stop by fastforce
next
  case (ignored x rest txs)
  then have "getNextToken tf toks jt str pos = Inr (True, Token_new ignore pos (pos + length x))"
    by (intro next_is_getNextToken(1) [OF assms]) simp
  moreover have "drop (pos + length x) str = rest"
    using arg_cong [OF ignored.prems, of "drop (length x)"] by (simp add: add.commute)
  from ignored.IH [OF this] obtain ts pos' where "token_run tf toks jt str (pos + length x) ts pos'"
    "list_all2 (spells str) (filter (\<lambda>t. m_id t \<noteq> ignore) ts) txs" by blast
  ultimately show ?case
    by (intro exI [of _ "Token_new ignore pos (pos + length x) # ts"] exI [of _ pos']) (auto intro: token_run.step)
next
  case (shown x rest i txs)
  then have "getNextToken tf toks jt str pos = Inr (True, Token_new i pos (pos + length x))"
    by (intro next_is_getNextToken(1) [OF assms]) simp
  moreover have "drop (pos + length x) str = rest"
    using arg_cong [OF shown.prems, of "drop (length x)"] by (simp add: add.commute)
  from shown.IH [OF this] obtain ts pos' where "token_run tf toks jt str (pos + length x) ts pos'"
    "list_all2 (spells str) (filter (\<lambda>t. m_id t \<noteq> ignore) ts) txs" by blast
  moreover have "spells str (Token_new i pos (pos + length x)) (i, x)"
    using shown.prems by (simp add: spells_def token_text_def)
  ultimately show ?case using shown.hyps
    by (intro exI [of _ "Token_new i pos (pos + length x) # ts"] exI [of _ pos']) (auto intro: token_run.step)
qed

end
