(* ===== verification/LRRuns.thy ===== *)
theory LRRuns
  imports LRGrammar
begin

text \<open>
  Evaluating the runs of larger grammars: only the productions that end with the symbol on the top of
  the stack matter, productions added by a loop are searched as one, and a run never makes the stack
  longer than the tokens it is given.
\<close>

section \<open>Searching\<close>

definition chains_nonempty :: "('id, 'n, 's) production list \<Rightarrow> bool" where
  "chains_nonempty ps \<longleftrightarrow> list_all (\<lambda>(r, ss, cb). ss \<noteq> []) ps"

definition ending :: "'id sym \<Rightarrow> ('id, 'n, 's) production list \<Rightarrow> ('id, 'n, 's) production list" where
  "ending x ps = filter (\<lambda>(r, ss, cb). last ss = x) ps"

lemma search_cong:
  "(\<And>s. search jt ps rst s = search jt qs rst s) \<Longrightarrow> search jt (p # ps) rst s = search jt (p # qs) rst s"
proof -
  assume "\<And>s. search jt ps rst s = search jt qs rst s"
  then have "search jt ps rst = search jt qs rst" by (rule ext)
  then show ?thesis by (cases p) (simp only: search.simps)
qed

lemma search_ending: "chains_nonempty ps \<Longrightarrow> search jt ps (x # R) s = search jt (ending (sym_of x) ps) (x # R) s"
proof (induction ps arbitrary: s)
  case (Cons p ps)
  obtain r ss cb where p: "p = (r, ss, cb)" by (cases p)
  with Cons.prems have ne: "ss \<noteq> []" "chains_nonempty ps" by (simp_all add: chains_nonempty_def)
  show ?case
  proof (cases "last ss = sym_of x")
    case True
    with p have "ending (sym_of x) (p # ps) = p # ending (sym_of x) ps" by (simp add: ending_def)
    then show ?thesis using search_cong [of jt ps "x # R" "ending (sym_of x) ps"] Cons.IH [OF ne(2)] by simp
  next
    case False
    obtain y ys where ss: "rev ss = y # ys" using ne(1) by (cases "rev ss") auto
    then have "y = last ss" by (metis last_rev list.sel(1) rev_rev_ident last_snoc rev.simps(2))
    with False ss have "\<not> on_top (rev ss) (x # R)" by (simp only: on_top.simps) simp
    moreover from False p have "ending (sym_of x) (p # ps) = ending (sym_of x) ps" by (simp add: ending_def)
    ultimately show ?thesis using Cons.IH [OF ne(2)] p by simp
  qed
qed (simp add: ending_def)

lemma search_loop_skip:
  "\<forall>t \<in> set ts. \<not> on_top (rev (ss t)) rst \<Longrightarrow>
   search jt (map (\<lambda>t. (r, ss t, cb)) ts @ ps) rst s = search jt ps rst s"
  by (induction ts) auto

lemma search_loop_hit:
  assumes "t \<in> set ts" "\<forall>u \<in> set ts. on_top (rev (ss u)) rst \<longleftrightarrow> u = t"
    and "f (rev (take (length (ss t)) rst)) s = Inr (True, pn, s')"
  shows "search jt (map (\<lambda>t. (r, ss t, Some f)) ts @ ps) rst s =
    Inr (Some (TokenOrNode_rule jt r (m_line (hd (rev (take (length (ss t)) rst)))) pn # drop (length (ss t)) rst), s')"
  using assms(1,2)
proof (induction ts)
  case (Cons u ts)
  show ?case
  proof (cases "u = t")
    case True
    with Cons.prems have "on_top (rev (ss u)) rst" by simp
    then show ?thesis unfolding True using assms(3) by (simp add: Let_def)
  next
    case False
    with Cons show ?thesis by simp
  qed
qed simp

section \<open>Lengths\<close>

lemma search_length:
  "chains_nonempty ps \<Longrightarrow> search jt ps rst s = Inr (Some rst', s') \<Longrightarrow> length rst' \<le> length rst"
proof (induction ps arbitrary: s)
  case (Cons p ps)
  obtain r ss cb where p: "p = (r, ss, cb)" by (cases p)
  with Cons.prems(1) have ne: "ss \<noteq> []" "chains_nonempty ps" by (simp_all add: chains_nonempty_def)
  show ?case
  proof (cases "on_top (rev ss) rst")
    case True
    then have "length ss \<le> length rst" using on_top_take [of "rev ss" rst] by simp
    then have "Suc (length (drop (length ss) rst)) \<le> length rst" using ne(1) by (cases ss) auto
    with True Cons p ne(2) show ?thesis
      by (cases cb) (auto simp: Let_def bind_result_eq_Inr split: if_splits)
  next
    case False
    with Cons p ne(2) show ?thesis by simp
  qed
qed simp

lemma settle_length:
  "chains_nonempty ps \<Longrightarrow> settle fuel jt ps rst s = Inr (rst', s') \<Longrightarrow> length rst' \<le> length rst"
proof (induction fuel arbitrary: rst s)
  case (Suc fuel)
  then obtain r s1 where r: "search jt ps rst s = Inr (r, s1)" by (auto simp: bind_result_eq_Inr)
  show ?case
  proof (cases r)
    case None
    with r Suc.prems show ?thesis by simp
  next
    case (Some rst1)
    with r search_length [OF Suc.prems(1)] have "length rst1 \<le> length rst" by blast
    moreover from Some r Suc have "length rst' \<le> length rst1" by simp
    ultimately show ?thesis by simp
  qed
qed simp

lemma feed_length:
  "chains_nonempty ps \<Longrightarrow> feed fuel jt jr ps ls rst s = Inr (rst', s') \<Longrightarrow> length rst' \<le> length rst + length ls"
proof (induction ls arbitrary: rst s)
  case (Cons l ls)
  obtain t line where l: "l = (t, line)" by (cases l)
  with Cons.prems(2) obtain rst1 s1 where "settle fuel jt ps (TokenOrNode_token jr t line # rst) s = Inr (rst1, s1)"
    "feed fuel jt jr ps ls rst1 s1 = Inr (rst', s')" by (auto simp: bind_result_eq_Inr)
  with settle_length [OF Cons.prems(1)] Cons.IH [OF Cons.prems(1)] show ?case by fastforce
qed simp

section \<open>Settling\<close>

lemma settle_stop: "search jt ps rst s = Inr (None, s) \<Longrightarrow> 0 < f \<Longrightarrow> settle f jt ps rst s = Inr (rst, s)"
  by (cases f) simp_all

lemma settle_step: "search jt ps rst s = Inr (Some rst', s') \<Longrightarrow> 0 < f \<Longrightarrow> settle f jt ps rst s = settle (f - 1) jt ps rst' s'"
  by (cases f) simp_all

text \<open>Tokens that end no production are pushed.\<close>

lemma feed_shifts:
  assumes "\<And>t l R. (t, l) \<in> set ls \<Longrightarrow> search jt ps (TokenOrNode_token jr t l # R) s = Inr (None, s)" "0 < f"
  shows "feed f jt jr ps ls R s = Inr (rev (map (\<lambda>(t, l). TokenOrNode_token jr t l) ls) @ R, s)"
  using assms(1)
proof (induction ls arbitrary: R)
  case (Cons x ls)
  obtain t l where x: "x = (t, l)" by (cases x)
  with Cons.prems have "settle f jt ps (TokenOrNode_token jr t l # R) s = Inr (TokenOrNode_token jr t l # R, s)"
    by (intro settle_stop [OF _ assms(2)] Cons.prems) simp
  then have "feed f jt jr ps (x # ls) R s = feed f jt jr ps ls (TokenOrNode_token jr t l # R) s"
    by (simp add: x)
  also have "\<dots> = Inr (rev (map (\<lambda>(t, l). TokenOrNode_token jr t l) ls) @ TokenOrNode_token jr t l # R, s)"
    by (rule Cons.IH) (rule Cons.prems, simp)
  finally show ?case by (simp add: x)
qed simp

end
