(* ===== verification/XmlParser.thy ===== *)
theory XmlParser
  imports LRGrammar TokenPatterns
begin

text \<open>
  The XML reader of \<^verbatim>\<open>CORE/UTIL/FILES/xml_parser.cpp\<close>: its token patterns, its grammar and its
  callbacks, run by the parser of \<open>LRParser\<close>. The nodes behind \<^verbatim>\<open>iNode *\<close> are the values of
  \<open>xml_value\<close>; a \<^verbatim>\<open>reinterpret_cast\<close> to another type than the node has, or of a null
  pointer that is then read, is \<open>Undefined\<close>. The state of the client is the \<^verbatim>\<open>XmlNode\<close>
  that \<^verbatim>\<open>XmlNodeBuilder\<close> holds as its target.
\<close>

section \<open>Tokens\<close>

datatype eTokens =
    IDENTIFIER
  | WS
  | EQUAL
  | NUMERIC
  | STRING
  | DEFINE
  | OCARROT
  | CCARROT
  | TERMINATOR
  | MISC

fun eTokens_names :: "eTokens \<Rightarrow> string" where
  "eTokens_names IDENTIFIER = ''IDENTIFIER''"
| "eTokens_names WS = ''WS''"
| "eTokens_names EQUAL = ''EQUAL''"
| "eTokens_names NUMERIC = ''NUMERIC''"
| "eTokens_names STRING = ''STRING''"
| "eTokens_names DEFINE = ''DEFINE''"
| "eTokens_names OCARROT = ''OCARROT''"
| "eTokens_names CCARROT = ''CCARROT''"
| "eTokens_names TERMINATOR = ''TERMINATOR''"
| "eTokens_names MISC = ''MISC''"

text \<open>The patterns of \<^verbatim>\<open>TokenizerFactory\<close>, in order.\<close>

definition xml_patterns :: "(eTokens \<times> string) list" where
  "xml_patterns =
     [(STRING, [CHR 0x22, CHR ''['', CHR ''^'', CHR 0x22, CHR '']'', CHR ''*'', CHR 0x22]),
      (IDENTIFIER, [CHR 0x5C, CHR ''a'', CHR 0x5C, CHR ''w'', CHR ''*'']),
      (OCARROT, ''<''),
      (CCARROT, ''>''),
      (EQUAL, ''=''),
      (NUMERIC, [CHR 0x5C, CHR ''d'', CHR ''+'']),
      (TERMINATOR, ''/''),
      (DEFINE, [CHR 0x5C, CHR ''?'']),
      (WS, [CHR 0x5C, CHR ''s'']),
      (MISC, ''.'')]"

definition TokenizerFactory :: "nat \<Rightarrow> nat \<Rightarrow> fault + eTokens tokenizer_list" where
  "TokenizerFactory fuel junk = compile_patterns fuel junk xml_patterns"

section \<open>Nodes\<close>

text \<open>\<^verbatim>\<open>std::map\<close> of strings, and its \<^verbatim>\<open>insert\<close>, which keeps the value of a key that is there.\<close>

type_synonym tAttributeMap = "string \<Rightarrow> string option"

definition map_insert :: "tAttributeMap \<Rightarrow> string \<times> string \<Rightarrow> tAttributeMap" where
  "map_insert m kv = (if m (fst kv) = None then m(fst kv := Some (snd kv)) else m)"

datatype XmlNode = XmlNode (x_name: string) (x_str: string) (x_attributes: tAttributeMap) (x_children: "XmlNode list")

definition XmlNode_new :: XmlNode where
  "XmlNode_new = XmlNode [] [] (\<lambda>_. None) []"

definition XmlNode_getName :: "XmlNode \<Rightarrow> string" where
  "XmlNode_getName n = x_name n"

text \<open>\<^verbatim>\<open>getAttribute\<close>: the value if the result is true; the output is left alone otherwise.\<close>

definition XmlNode_getAttribute :: "XmlNode \<Rightarrow> string \<Rightarrow> string \<Rightarrow> bool \<times> string" where
  "XmlNode_getAttribute n name v =
     (case x_attributes n name of None \<Rightarrow> (False, v) | Some w \<Rightarrow> (True, w))"

definition XmlNode_getChildCount :: "XmlNode \<Rightarrow> nat" where
  "XmlNode_getChildCount n = length (x_children n)"

definition XmlNode_getChild_index :: "XmlNode \<Rightarrow> nat \<Rightarrow> fault + XmlNode" where
  "XmlNode_getChild_index n index =
     (if index < length (x_children n) then Inr (x_children n ! index) else Inl CheckFailed)"

text \<open>The search by name from an index; the output is the index found, or left alone.\<close>

fun getChild_loop :: "string \<Rightarrow> XmlNode list \<Rightarrow> nat \<Rightarrow> nat \<Rightarrow> bool \<times> nat" where
  "getChild_loop name [] itr index = (False, index)"
| "getChild_loop name (c # cs) itr index =
     (if XmlNode_getName c = name then (True, itr) else getChild_loop name cs (Suc itr) index)"

definition XmlNode_getChild :: "XmlNode \<Rightarrow> string \<Rightarrow> nat \<Rightarrow> nat \<Rightarrow> fault + bool \<times> nat" where
  "XmlNode_getChild n name index startIndex =
     (if startIndex < length (x_children n)
      then Inr (getChild_loop name (drop startIndex (x_children n)) startIndex index)
      else Inl CheckFailed)"

section \<open>Callbacks\<close>

datatype xml_value =
    Attribute string string
  | AttributeMap tAttributeMap
  | XmlTag string tAttributeMap
  | NodeValue XmlNode
  | NodeList "XmlNode list"

type_synonym xml_node = "(eTokens, xml_value) TokenOrNode"
type_synonym xml_proc = "(eTokens, xml_value, XmlNode) tProc"

fun as_attribute :: "xml_value \<Rightarrow> fault + string \<times> string" where
  "as_attribute (Attribute k v) = Inr (k, v)"
| "as_attribute _ = Inl Undefined"

fun as_attributes :: "xml_value \<Rightarrow> fault + tAttributeMap" where
  "as_attributes (AttributeMap m) = Inr m"
| "as_attributes _ = Inl Undefined"

fun as_tag :: "xml_value \<Rightarrow> fault + string \<times> tAttributeMap" where
  "as_tag (XmlTag n m) = Inr (n, m)"
| "as_tag _ = Inl Undefined"

fun as_node :: "xml_value \<Rightarrow> fault + XmlNode" where
  "as_node (NodeValue n) = Inr n"
| "as_node _ = Inl Undefined"

fun as_nodes :: "xml_value \<Rightarrow> fault + XmlNode list" where
  "as_nodes (NodeList ns) = Inr ns"
| "as_nodes _ = Inl Undefined"

definition genAttribute :: "string \<Rightarrow> xml_proc" where
  "genAttribute str nodes s =
     bind_result (text_at str nodes 0) (\<lambda>k.
     bind_result (text_at str nodes 2) (\<lambda>v.
       Inr (True, Some (Attribute k (TrimQuotes v)), s)))"

definition genAttributeList :: xml_proc where
  "genAttributeList nodes s =
     bind_result (if length nodes = 1 then Inr (\<lambda>_. None) else cast_at as_attributes nodes 0) (\<lambda>rVal.
     bind_result (cast_at as_attribute nodes (if length nodes = 1 then 0 else 1)) (\<lambda>attrib.
       Inr (True, Some (AttributeMap (map_insert rVal attrib)), s)))"

definition genTag :: "string \<Rightarrow> xml_proc" where
  "genTag str nodes s =
     bind_result (node_at nodes 1) (\<lambda>x.
     bind_result (if m_type x = TOKEN
        then bind_result (Token_getId (m_token x)) (\<lambda>i. Inr (if i = TERMINATOR then 2 else 1))
        else Inr 1) (\<lambda>itr.
     bind_result (text_at str nodes itr) (\<lambda>name.
     bind_result (node_at nodes (itr + 1)) (\<lambda>y.
       case m_pNode y of
         Some v \<Rightarrow> bind_result (as_attributes v) (\<lambda>m. Inr (True, Some (XmlTag name m), s))
       | None \<Rightarrow> Inr (True, Some (XmlTag name (\<lambda>_. None)), s)))))"

text \<open>
  \<^verbatim>\<open>genNode\<close> for an open and a close tag, with or without nodes between them, or for a closed tag.
\<close>

definition genNode :: xml_proc where
  "genNode nodes s =
     bind_result (if length nodes = 1 then Inr []
        else if length nodes = 2 then Inr []
        else cast_at as_nodes nodes 1) (\<lambda>children.
     bind_result (if length nodes = 1 then Inr None
        else bind_result (cast_at as_tag nodes (if length nodes = 2 then 1 else 2)) (\<lambda>t. Inr (Some t))) (\<lambda>closeTag.
     bind_result (cast_at as_tag nodes 0) (\<lambda>openTag.
       if (case closeTag of None \<Rightarrow> False | Some t \<Rightarrow> fst t \<noteq> fst openTag)
       then Inr (False, None, s)
       else Inr (True, Some (NodeValue (XmlNode (fst openTag) [] (snd openTag) children)), s))))"

definition genNodeList :: xml_proc where
  "genNodeList nodes s =
     bind_result (if length nodes = 1 then Inr [] else cast_at as_nodes nodes 0) (\<lambda>rVal.
     bind_result (cast_at as_node nodes (if length nodes = 1 then 0 else 1)) (\<lambda>n.
       Inr (True, Some (NodeList (rVal @ [n])), s)))"

definition populateNode :: xml_proc where
  "populateNode nodes s =
     bind_result (cast_at as_nodes nodes 1) (\<lambda>ns.
       Inr (True, None, XmlNode ''root'' (x_str s) (x_attributes s) (x_children s @ ns)))"

section \<open>Grammar\<close>

text \<open>
  The rules by the order of \<^verbatim>\<open>addRule\<close>: 0 \<^verbatim>\<open>attribute\<close>, 1 \<^verbatim>\<open>attributeList\<close>,
  2 \<^verbatim>\<open>prolog\<close>, 3 \<^verbatim>\<open>tag\<close>, 4 \<^verbatim>\<open>closeTag\<close>, 5 \<^verbatim>\<open>closedTag\<close>, 6 \<^verbatim>\<open>node\<close>,
  7 \<^verbatim>\<open>nodeList\<close>, 8 \<^verbatim>\<open>xmlFile\<close>.
\<close>

definition xml_steps :: "string \<Rightarrow> (eTokens, xml_value, XmlNode) grammar_step list" where
  "xml_steps str =
     [AddRule ''attribute'',
      AddChain 0 (Some (genAttribute str)) [Tok IDENTIFIER, Tok EQUAL, Tok STRING],
      AddRule ''attributeList'',
      AddChain 1 (Some genAttributeList) [Nt 1, Nt 0],
      AddChain 1 (Some genAttributeList) [Nt 0],
      AddRule ''prolog'',
      AddChain 2 None [Tok OCARROT, Tok DEFINE, Tok IDENTIFIER, Nt 1, Tok DEFINE, Tok CCARROT],
      AddRule ''tag'',
      AddChain 3 (Some (genTag str)) [Tok OCARROT, Tok IDENTIFIER, Tok CCARROT],
      AddChain 3 (Some (genTag str)) [Tok OCARROT, Tok IDENTIFIER, Nt 1, Tok CCARROT],
      AddRule ''closeTag'',
      AddChain 4 (Some (genTag str)) [Tok OCARROT, Tok TERMINATOR, Tok IDENTIFIER, Tok CCARROT],
      AddRule ''closedTag'',
      AddChain 5 (Some (genTag str)) [Tok OCARROT, Tok IDENTIFIER, Tok TERMINATOR, Tok CCARROT],
      AddChain 5 (Some (genTag str)) [Tok OCARROT, Tok IDENTIFIER, Nt 1, Tok TERMINATOR, Tok CCARROT],
      AddRule ''node'',
      AddRule ''nodelist'',
      AddChain 6 (Some genNode) [Nt 3, Nt 4],
      AddChain 6 (Some genNode) [Nt 3, Nt 7, Nt 4],
      AddChain 6 (Some genNode) [Nt 5],
      AddChain 7 (Some genNodeList) [Nt 7, Nt 6],
      AddChain 7 (Some genNodeList) [Nt 6],
      AddRule ''xmlfile'',
      AddChain 8 None [Nt 2],
      AddChain 8 (Some populateNode) [Nt 8, Nt 7]]"

text \<open>
  \<^verbatim>\<open>XmlNode::parse\<close>, with the tokenizer that the static factory made: the status and the node
  after the call. The errors go to the log.
\<close>

definition XmlNode_parse :: "nat \<Rightarrow> nat \<Rightarrow> eTokens Token \<Rightarrow> nat \<Rightarrow> eTokens tokenizer_list \<Rightarrow> XmlNode \<Rightarrow> string \<Rightarrow> fault + status \<times> XmlNode" where
  "XmlNode_parse tf fuel jt jr g_tokenizer self fileData =
     bind_result (build_grammar jt jr (xml_steps fileData) (LRParser_new g_tokenizer 1024)) (\<lambda>p.
     bind_result (LRParser_parse tf fuel jt jr eTokens_names p WS fileData self) (\<lambda>(ok, msgs, self').
       Inr (status_of_bool ok, self')))"

end
