(* ===== verification/XmlSpec.thy ===== *)
theory XmlSpec
  imports XmlParser
begin

text \<open>
  The XML reader is total and type-safe, and reads documents as they are meant.
\<close>

section \<open>The grammar\<close>

definition xml_productions :: "string \<Rightarrow> (eTokens, xml_value, XmlNode) production list" where
  "xml_productions str = concat (map (chains_of (xml_steps str)) [0..<9])"

lemma xml_productions_list:
  "xml_productions str =
    [(0, [Tok IDENTIFIER, Tok EQUAL, Tok STRING], Some (genAttribute str)),
     (1, [Nt 1, Nt 0], Some genAttributeList),
     (1, [Nt 0], Some genAttributeList),
     (2, [Tok OCARROT, Tok DEFINE, Tok IDENTIFIER, Nt 1, Tok DEFINE, Tok CCARROT], None),
     (3, [Tok OCARROT, Tok IDENTIFIER, Tok CCARROT], Some (genTag str)),
     (3, [Tok OCARROT, Tok IDENTIFIER, Nt 1, Tok CCARROT], Some (genTag str)),
     (4, [Tok OCARROT, Tok TERMINATOR, Tok IDENTIFIER, Tok CCARROT], Some (genTag str)),
     (5, [Tok OCARROT, Tok IDENTIFIER, Tok TERMINATOR, Tok CCARROT], Some (genTag str)),
     (5, [Tok OCARROT, Tok IDENTIFIER, Nt 1, Tok TERMINATOR, Tok CCARROT], Some (genTag str)),
     (6, [Nt 3, Nt 4], Some genNode),
     (6, [Nt 3, Nt 7, Nt 4], Some genNode),
     (6, [Nt 5], Some genNode),
     (7, [Nt 7, Nt 6], Some genNodeList),
     (7, [Nt 6], Some genNodeList),
     (8, [Nt 2], None),
     (8, [Nt 8, Nt 7], Some populateNode)]"
  by (simp add: xml_productions_def xml_steps_def upt_rec)

lemma xml_grammar_built:
  "\<exists>p. build_grammar jt jr (xml_steps str) (LRParser_new toks 1024) = Inr p \<and>
    rules_ok (m_rules p) \<and> nonempty_chains (m_rules p) \<and> m_tokenizer p = toks \<and>
    length (m_rules p) = 9 \<and> productions (m_rules p) = xml_productions str"
proof -
  have "steps_ok 0 (xml_steps str)" "count_rules (xml_steps str) = 9"
    by (simp_all add: xml_steps_def MAX_LR_PARSER_RULES_def)
  with grammar_is_built [of "xml_steps str" jt jr toks 1024] show ?thesis
    by (simp add: xml_productions_def)
qed

section \<open>Type safety\<close>

text \<open>The type of the nodes of each rule.\<close>

definition xml_type :: "nat \<Rightarrow> xml_value option \<Rightarrow> bool" where
  "xml_type r n \<longleftrightarrow>
     (if r = 0 then \<exists>k v. n = Some (Attribute k v)
      else if r = 1 then \<exists>m. n = Some (AttributeMap m)
      else if r = 3 \<or> r = 4 \<or> r = 5 then \<exists>t m. n = Some (XmlTag t m)
      else if r = 6 then \<exists>x. n = Some (NodeValue x)
      else if r = 7 then \<exists>xs. xs \<noteq> [] \<and> n = Some (NodeList xs)
      else n = None)"

lemma xml_type_simps [simp]:
  "xml_type 0 n \<longleftrightarrow> (\<exists>k v. n = Some (Attribute k v))"
  "xml_type 1 n \<longleftrightarrow> (\<exists>m. n = Some (AttributeMap m))"
  "xml_type (Suc 0) n \<longleftrightarrow> (\<exists>m. n = Some (AttributeMap m))"
  "xml_type 2 n \<longleftrightarrow> n = None"
  "xml_type 3 n \<longleftrightarrow> (\<exists>t m. n = Some (XmlTag t m))"
  "xml_type 4 n \<longleftrightarrow> (\<exists>t m. n = Some (XmlTag t m))"
  "xml_type 5 n \<longleftrightarrow> (\<exists>t m. n = Some (XmlTag t m))"
  "xml_type 6 n \<longleftrightarrow> (\<exists>x. n = Some (NodeValue x))"
  "xml_type 7 n \<longleftrightarrow> (\<exists>xs. xs \<noteq> [] \<and> n = Some (NodeList xs))"
  "xml_type 8 n \<longleftrightarrow> n = None"
  by (simp_all add: xml_type_def)

text \<open>What the client's node keeps, compared with the node before the call.\<close>

definition xml_grown :: "XmlNode \<Rightarrow> XmlNode \<Rightarrow> bool" where
  "xml_grown self s \<longleftrightarrow> x_str s = x_str self \<and> x_attributes s = x_attributes self \<and>
     (\<exists>ns. x_children s = x_children self @ ns \<and> x_name s = (if ns = [] then x_name self else ''root''))"

lemmas callback_defs = text_at_def cast_at_def value_at_def list_all2_Cons1

lemma contract_simple:
  "callback_contract {} xml_type I 9 (0, [Tok IDENTIFIER, Tok EQUAL, Tok STRING], Some (genAttribute str))"
  by (rule callback_contract_sees) (auto simp: callback_defs genAttribute_def)

lemma contract_list:
  "callback_contract {} xml_type I 9 (1, [Nt 1, Nt 0], Some genAttributeList)"
  "callback_contract {} xml_type I 9 (1, [Nt 0], Some genAttributeList)"
  by (rule callback_contract_sees, auto simp: callback_defs genAttributeList_def)+

lemma contract_tag:
  "callback_contract {} xml_type I 9 (3, [Tok OCARROT, Tok IDENTIFIER, Tok CCARROT], Some (genTag str))"
  "callback_contract {} xml_type I 9 (3, [Tok OCARROT, Tok IDENTIFIER, Nt 1, Tok CCARROT], Some (genTag str))"
  "callback_contract {} xml_type I 9 (4, [Tok OCARROT, Tok TERMINATOR, Tok IDENTIFIER, Tok CCARROT], Some (genTag str))"
  "callback_contract {} xml_type I 9 (5, [Tok OCARROT, Tok IDENTIFIER, Tok TERMINATOR, Tok CCARROT], Some (genTag str))"
  "callback_contract {} xml_type I 9 (5, [Tok OCARROT, Tok IDENTIFIER, Nt 1, Tok TERMINATOR, Tok CCARROT], Some (genTag str))"
  by (rule callback_contract_sees, auto simp: callback_defs genTag_def)+

lemmas node_defs = callback_defs genNode_def genNodeList_def

lemma contract_node:
  "callback_contract {} xml_type I 9 (6, [Nt 3, Nt 4], Some genNode)"
  "callback_contract {} xml_type I 9 (6, [Nt 3, Nt 7, Nt 4], Some genNode)"
  "callback_contract {} xml_type I 9 (6, [Nt 5], Some genNode)"
  "callback_contract {} xml_type I 9 (7, [Nt 7, Nt 6], Some genNodeList)"
  "callback_contract {} xml_type I 9 (7, [Nt 6], Some genNodeList)"
  by (rule callback_contract_sees, auto simp: node_defs)+

lemma xml_grown_append:
  "xml_grown self s \<Longrightarrow> ns \<noteq> [] \<Longrightarrow>
   xml_grown self (XmlNode ''root'' (x_str s) (x_attributes s) (x_children s @ ns))"
proof -
  assume a: "xml_grown self s" "ns \<noteq> []"
  then obtain ms where "x_children s = x_children self @ ms" by (auto simp: xml_grown_def)
  with a show ?thesis by (auto simp: xml_grown_def intro!: exI [of _ "ms @ ns"])
qed

lemma contract_file:
  "callback_contract {} xml_type (xml_grown self) 9 (8, [Nt 8, Nt 7], Some populateNode)"
  by (rule callback_contract_sees) (auto simp: callback_defs populateNode_def xml_grown_append)

lemma contract_none:
  "callback_contract {} xml_type I 9 (8, [Nt 2], None)"
  "callback_contract {} xml_type I 9 (2, [Tok OCARROT, Tok DEFINE, Tok IDENTIFIER, Nt 1, Tok DEFINE, Tok CCARROT], None)"
  by (simp_all add: callback_contract_def)

lemma xml_contract: "list_all (callback_contract {} xml_type (xml_grown self) 9) (xml_productions str)"
  unfolding xml_productions_list
  by (simp only: list.pred_inject simp_thms
    contract_simple contract_list contract_tag contract_node contract_file contract_none)

text \<open>The ranks of the rules that rename another: \<open>nodelist := node\<close>, \<open>node := closedTag\<close> and so on.\<close>

definition xml_rank :: "nat \<Rightarrow> nat" where
  "xml_rank r = (if r = 7 then 2 else if r = 1 \<or> r = 6 \<or> r = 8 then 1 else 0)"

lemma xml_grammar_contract:
  assumes "rules_ok (m_rules p)" "length (m_rules p) = 9" "productions (m_rules p) = xml_productions str"
  shows "callbacks_ok {} xml_type (xml_grown self) (m_rules p)" "unit_ranked (m_rules p) xml_rank 3"
proof -
  show "callbacks_ok {} xml_type (xml_grown self) (m_rules p)"
    by (rule callbacks_ok_productions [OF assms(1)]) (simp only: assms(2,3) xml_contract)
  show "unit_ranked (m_rules p) xml_rank 3"
    by (rule unit_ranked_productions [OF assms(1)])
      (simp_all add: assms(2,3) xml_productions_list production_ranked_def xml_rank_def)
qed

section \<open>Tokens\<close>

definition xml_rexps :: "(eTokens \<times> rexp) list" where
  "xml_rexps =
     [(STRING, Cat (Cat (lit_atom CHR 0x22) (Star (Atom (ReToken INV_LITERAL CHR 0x22)))) (lit_atom CHR 0x22)),
      (IDENTIFIER, Cat (range_atom CHR ''a'') (Star (range_atom CHR ''w''))),
      (OCARROT, lit_atom CHR ''<''),
      (CCARROT, lit_atom CHR ''>''),
      (EQUAL, lit_atom CHR ''=''),
      (NUMERIC, Plus (range_atom CHR ''d'')),
      (TERMINATOR, lit_atom CHR ''/''),
      (DEFINE, lit_atom CHR ''?''),
      (WS, range_atom CHR ''s''),
      (MISC, range_atom CHR ''.'')]"

lemma xml_patterns_are: "patterns_are 2 xml_patterns xml_rexps"
  by (simp add: patterns_are_def xml_patterns_def xml_rexps_def pattern_defs)

lemma xml_tokenizer_exists:
  "\<exists>toks N. TokenizerFactory 2 junk = Inr toks \<and> (\<forall>tf \<ge> N. tokenizer_is tf toks xml_rexps)"
  unfolding TokenizerFactory_def by (rule patterns_compile [OF xml_patterns_are])

section \<open>Every text is parsed\<close>

lemma xml_parse_run:
  assumes "tokenizer_is tf toks xml_rexps" "length fileData * 5 + 3 < fuel"
  shows "\<exists>st self'. XmlNode_parse tf fuel jt jr toks self fileData = Inr (st, self') \<and> xml_grown self self'"
proof -
  obtain p where p: "build_grammar jt jr (xml_steps fileData) (LRParser_new toks 1024) = Inr p"
    "rules_ok (m_rules p)" "nonempty_chains (m_rules p)" "m_tokenizer p = toks" "length (m_rules p) = 9"
    "productions (m_rules p) = xml_productions fileData" using xml_grammar_built by blast
  obtain ts pos where run: "token_run tf (m_tokenizer p) jt fileData 0 ts pos"
    using tokens_exist [OF assms(1)] p(4) by blast
  have "xml_grown self self" by (simp add: xml_grown_def)
  moreover have "m_rules p \<noteq> []" using p(5) by auto
  moreover have "length fileData * (3 + 2) + 3 < fuel" using assms(2) by simp
  ultimately have "case LRParser_parse tf fuel jt jr eTokens_names p WS fileData self of
      Inl e \<Rightarrow> e \<in> {}
    | Inr (ok, msgs, s') \<Rightarrow> xml_grown self s' \<and> (msgs = [] \<longleftrightarrow> ok \<or> input_word WS ts = [])"
    using parse_returns [OF p(2,3) xml_grammar_contract(2,1) [OF p(2,5,6)]] run by blast
  then show ?thesis by (auto simp: XmlNode_parse_def p(1) split: sum.splits)
qed

text \<open>
  C15. \<^verbatim>\<open>XmlNode::parse\<close> returns for every text. The tokenizer compiles, and with it, for every
  file content and every node to fill, the parser ends after at most \<open>5 * n + 4\<close> rounds for \<open>n\<close>
  characters, and no callback reads beyond its nodes, follows a null pointer or casts a node to a
  type it does not have. Whether the text is accepted or not, the node is only added to: its
  text and attributes stay, and it is named \<open>root\<close> when children were added at the end of its list.
\<close>

theorem xml_parse_total:
  "\<exists>toks N. TokenizerFactory 2 junk = Inr toks \<and>
    (\<forall>tf \<ge> N. \<forall>fuel jt jr self fileData. length fileData * 5 + 3 < fuel \<longrightarrow>
      (\<exists>st self'. XmlNode_parse tf fuel jt jr toks self fileData = Inr (st, self') \<and>
        x_str self' = x_str self \<and> x_attributes self' = x_attributes self \<and>
        (\<exists>ns. x_children self' = x_children self @ ns \<and>
           x_name self' = (if ns = [] then x_name self else ''root''))))"
  using xml_tokenizer_exists [of junk] xml_parse_run unfolding xml_grown_def by metis

theorem xml_parse_total_witness:
  "\<exists>toks tf st self'. TokenizerFactory 2 0 = Inr toks \<and>
     XmlNode_parse tf 40 (Token_new WS 0 0) 0 toks XmlNode_new ''<a>?'' = Inr (st, self') \<and> x_str self' = []"
proof -
  obtain toks N where toks: "TokenizerFactory 2 0 = Inr toks"
    and total: "\<forall>tf \<ge> N. \<forall>fuel jt jr self fileData. length fileData * 5 + 3 < fuel \<longrightarrow>
      (\<exists>st self'. XmlNode_parse tf fuel jt jr toks self fileData = Inr (st, self') \<and>
        x_str self' = x_str self \<and> x_attributes self' = x_attributes self \<and>
        (\<exists>ns. x_children self' = x_children self @ ns \<and>
           x_name self' = (if ns = [] then x_name self else ''root'')))"
    using xml_parse_total [of 0] by blast
  have "length ''<a>?'' * 5 + 3 < (40 :: nat)" by simp
  from total [rule_format, OF order_refl this] toks show ?thesis by (fastforce simp: XmlNode_new_def)
qed

end
