(* ===== verification/XmlDoc.thy ===== *)
theory XmlDoc
  imports XmlSpec TokenLayout
begin

text \<open>
  What XML documents mean to the reader: a syntax of documents, the tokens they are written with, and
  the tree that the reader makes of them.
\<close>

section \<open>Documents\<close>

datatype xml_elem =
    Element string "(string \<times> string) list" "xml_elem list"
  | Closed string "(string \<times> string) list"

text \<open>The tree: of an attribute that is repeated the first value counts.\<close>

definition attr_map :: "(string \<times> string) list \<Rightarrow> tAttributeMap" where
  "attr_map as = foldl map_insert (\<lambda>_. None) as"

fun elem_node :: "xml_elem \<Rightarrow> XmlNode" where
  "elem_node (Element n as es) = XmlNode n [] (attr_map as) (map elem_node es)"
| "elem_node (Closed n as) = XmlNode n [] (attr_map as) []"

text \<open>The tokens, with their texts.\<close>

definition attr_tokens :: "string \<times> string \<Rightarrow> (eTokens \<times> string) list" where
  "attr_tokens kv = [(IDENTIFIER, fst kv), (EQUAL, ''=''), (STRING, CHR 0x22 # snd kv @ [CHR 0x22])]"

definition attrs_tokens :: "(string \<times> string) list \<Rightarrow> (eTokens \<times> string) list" where
  "attrs_tokens as = concat (map attr_tokens as)"

fun elem_tokens :: "xml_elem \<Rightarrow> (eTokens \<times> string) list" where
  "elem_tokens (Element n as es) =
     [(OCARROT, ''<''), (IDENTIFIER, n)] @ attrs_tokens as @ [(CCARROT, ''>'')] @
     concat (map elem_tokens es) @
     [(OCARROT, ''<''), (TERMINATOR, ''/''), (IDENTIFIER, n), (CCARROT, ''>'')]"
| "elem_tokens (Closed n as) =
     [(OCARROT, ''<''), (IDENTIFIER, n)] @ attrs_tokens as @ [(TERMINATOR, ''/''), (CCARROT, ''>'')]"

definition doc_tokens :: "string \<Rightarrow> (string \<times> string) list \<Rightarrow> xml_elem list \<Rightarrow> (eTokens \<times> string) list" where
  "doc_tokens target as es =
     [(OCARROT, ''<''), (DEFINE, ''?''), (IDENTIFIER, target)] @ attrs_tokens as @ [(DEFINE, ''?''), (CCARROT, ''>'')] @
     concat (map elem_tokens es)"

section \<open>Reductions of the grammar\<close>

abbreviation tok :: "nat \<Rightarrow> eTokens Token \<Rightarrow> nat \<Rightarrow> xml_node" where "tok jr t l \<equiv> TokenOrNode_token jr t l"
abbreviation nd :: "eTokens Token \<Rightarrow> nat \<Rightarrow> nat \<Rightarrow> xml_value \<Rightarrow> xml_node" where "nd jt r l v \<equiv> TokenOrNode_rule jt r l (Some v)"
abbreviation fl :: "eTokens Token \<Rightarrow> nat \<Rightarrow> xml_node" where "fl jt l \<equiv> TokenOrNode_rule jt 8 l None"

lemmas callbacks = genAttribute_def genAttributeList_def genTag_def genNode_def genNodeList_def populateNode_def
  text_at_def cast_at_def value_at_def valid_text

lemma settle_shift:
  "m_id t \<notin> {STRING, CCARROT} \<Longrightarrow> settle (Suc f) jt (xml_productions str) (tok jr t l # R) s = Inr (tok jr t l # R, s)"
  by (auto simp: xml_productions_list)

lemma settle_attribute:
  assumes "spelled str [(t1, l1), (t2, l2), (t3, l3)] (attr_tokens kv)"
  shows "settle (Suc (Suc (Suc f))) jt (xml_productions str) (tok jr t3 l3 # tok jr t2 l2 # tok jr t1 l1 # tok jr t l # R) s =
      Inr (nd jt 1 l1 (AttributeMap (map_insert (\<lambda>_. None) kv)) # tok jr t l # R, s)"
    and "settle (Suc (Suc (Suc f))) jt (xml_productions str) (tok jr t3 l3 # tok jr t2 l2 # tok jr t1 l1 # nd jt 1 l (AttributeMap m) # R) s =
      Inr (nd jt 1 l (AttributeMap (map_insert m kv)) # R, s)"
  using assms by (auto simp: xml_productions_list attr_tokens_def callbacks TrimQuotes_quoted)

text \<open>
  Where a node can come to stand: after an open tag, after the nodes of an open tag, and at the end of
  the file; and what becomes of the stack and the client then.
\<close>

inductive placed :: "eTokens Token \<Rightarrow> xml_node list \<Rightarrow> XmlNode \<Rightarrow> XmlNode list \<Rightarrow> xml_node list \<Rightarrow> XmlNode \<Rightarrow> bool" for jt where
  none: "placed jt R s [] R s"
| first: "ns \<noteq> [] \<Longrightarrow> placed jt (nd jt 3 l tag # R) s ns (nd jt 7 l' (NodeList ns) # nd jt 3 l tag # R) s"
| more: "ns \<noteq> [] \<Longrightarrow> placed jt (nd jt 7 l (NodeList ms) # nd jt 3 l' tag # R) s ns (nd jt 7 l (NodeList (ms @ ns)) # nd jt 3 l' tag # R) s"
| top: "ns \<noteq> [] \<Longrightarrow> placed jt [fl jt l] s ns [fl jt l] (XmlNode ''root'' (x_str s) (x_attributes s) (x_children s @ ns))"

definition open_end :: "eTokens Token \<Rightarrow> xml_node list \<Rightarrow> bool" where
  "open_end jt R \<longleftrightarrow> (\<exists>l tag R'. R = nd jt 3 l tag # R') \<or>
     (\<exists>l ms l' tag R'. R = nd jt 7 l (NodeList ms) # nd jt 3 l' tag # R') \<or> (\<exists>l. R = [fl jt l])"

lemma settle_node:
  assumes "open_end jt R"
  shows "\<exists>R' s'. settle (Suc (Suc (Suc (Suc f)))) jt (xml_productions str) (nd jt 6 l (NodeValue n) # R) s = Inr (R', s') \<and>
    placed jt R s [n] R' s'"
  using assms unfolding open_end_def
proof (elim disjE exE)
  fix l' tag R' assume R: "R = nd jt 3 l' tag # R'"
  have "settle (Suc (Suc (Suc (Suc f)))) jt (xml_productions str) (nd jt 6 l (NodeValue n) # R) s =
    Inr (nd jt 7 l (NodeList [n]) # R, s)" unfolding R by (simp add: xml_productions_list callbacks)
  then show ?thesis using placed.first [of "[n]"] R by blast
next
  fix l' ms l'' tag R' assume R: "R = nd jt 7 l' (NodeList ms) # nd jt 3 l'' tag # R'"
  have "settle (Suc (Suc (Suc (Suc f)))) jt (xml_productions str) (nd jt 6 l (NodeValue n) # R) s =
    Inr (nd jt 7 l' (NodeList (ms @ [n])) # nd jt 3 l'' tag # R', s)" unfolding R by (simp add: xml_productions_list callbacks)
  then show ?thesis using placed.more [of "[n]"] R by blast
next
  fix l' assume R: "R = [fl jt l']"
  have "settle (Suc (Suc (Suc (Suc f)))) jt (xml_productions str) (nd jt 6 l (NodeValue n) # R) s =
    Inr ([fl jt l'], XmlNode ''root'' (x_str s) (x_attributes s) (x_children s @ [n]))"
    unfolding R by (simp add: xml_productions_list callbacks)
  then show ?thesis using placed.top [of "[n]"] R by blast
qed

lemma settle_open_tag:
  assumes "m_valid t" "m_id t = OCARROT" "m_valid u" "m_id u = IDENTIFIER" "m_valid v" "m_id v = CCARROT"
  shows "settle (Suc (Suc f)) jt (xml_productions str) (tok jr v l3 # tok jr u l2 # tok jr t l1 # R) s =
      Inr (nd jt 3 l1 (XmlTag (token_text str u) (\<lambda>_. None)) # R, s)"
    and "settle (Suc (Suc f)) jt (xml_productions str) (tok jr v l3 # nd jt 1 l (AttributeMap m) # tok jr u l2 # tok jr t l1 # R) s =
      Inr (nd jt 3 l1 (XmlTag (token_text str u) m) # R, s)"
  using assms by (simp_all add: xml_productions_list callbacks)

lemma settle_closed_tag:
  assumes "m_valid t" "m_id t = OCARROT" "m_valid u" "m_id u = IDENTIFIER" "m_valid w" "m_id w = TERMINATOR" "m_valid v" "m_id v = CCARROT"
  shows "settle (Suc (Suc f)) jt (xml_productions str) (tok jr v l4 # tok jr w l3 # tok jr u l2 # tok jr t l1 # R) s =
      settle f jt (xml_productions str) (nd jt 6 l1 (NodeValue (XmlNode (token_text str u) [] (\<lambda>_. None) [])) # R) s"
    and "settle (Suc (Suc f)) jt (xml_productions str) (tok jr v l4 # tok jr w l3 # nd jt 1 l (AttributeMap m) # tok jr u l2 # tok jr t l1 # R) s =
      settle f jt (xml_productions str) (nd jt 6 l1 (NodeValue (XmlNode (token_text str u) [] m [])) # R) s"
  using assms by (simp_all add: xml_productions_list callbacks)

lemma settle_close_tag:
  assumes "m_valid t" "m_id t = OCARROT" "m_valid u" "m_id u = IDENTIFIER" "m_valid w" "m_id w = TERMINATOR" "m_valid v" "m_id v = CCARROT"
    and "token_text str u = n"
  shows "settle (Suc (Suc f)) jt (xml_productions str) (tok jr v l4 # tok jr u l3 # tok jr w l2 # tok jr t l1 # nd jt 3 l (XmlTag n m) # R) s =
      settle f jt (xml_productions str) (nd jt 6 l (NodeValue (XmlNode n [] m [])) # R) s"
    and "settle (Suc (Suc f)) jt (xml_productions str) (tok jr v l4 # tok jr u l3 # tok jr w l2 # tok jr t l1 # nd jt 7 l' (NodeList ns) # nd jt 3 l (XmlTag n m) # R) s =
      settle f jt (xml_productions str) (nd jt 6 l (NodeValue (XmlNode n [] m ns)) # R) s"
  using assms by (simp_all add: xml_productions_list callbacks)

section \<open>Runs of documents\<close>

text \<open>With at least six rounds for every token.\<close>

abbreviation plus6 :: "nat \<Rightarrow> nat" where "plus6 f \<equiv> Suc (Suc (Suc (Suc (Suc (Suc f)))))"

lemma feed_one_attr:
  assumes "spelled str ls (attr_tokens kv)"
  shows "\<exists>l'. feed (plus6 f) jt jr (xml_productions str) ls (tok jr t l # R) s =
      Inr (nd jt 1 l' (AttributeMap (map_insert (\<lambda>_. None) kv)) # tok jr t l # R, s)"
    and "feed (plus6 f) jt jr (xml_productions str) ls (nd jt 1 l (AttributeMap m) # R) s =
      Inr (nd jt 1 l (AttributeMap (map_insert m kv)) # R, s)"
proof -
  from assms obtain t1 l1 t2 l2 t3 l3 where ls: "ls = [(t1, l1), (t2, l2), (t3, l3)]"
    by (auto simp: attr_tokens_def)
  with assms have ids: "m_id t1 = IDENTIFIER" "m_id t2 = EQUAL" by (simp_all add: attr_tokens_def)
  note sh = settle_shift [of t1] settle_shift [of t2]
  note at = settle_attribute [OF assms [unfolded ls], where jr = jr]
  show "\<exists>l'. feed (plus6 f) jt jr (xml_productions str) ls (tok jr t l # R) s =
      Inr (nd jt 1 l' (AttributeMap (map_insert (\<lambda>_. None) kv)) # tok jr t l # R, s)"
    unfolding ls by (simp only: feed.simps sh ids bind_result_simps prod.case at(1) insert_iff empty_iff eTokens.distinct simp_thms) blast
  show "feed (plus6 f) jt jr (xml_productions str) ls (nd jt 1 l (AttributeMap m) # R) s =
      Inr (nd jt 1 l (AttributeMap (map_insert m kv)) # R, s)"
    unfolding ls by (simp only: feed.simps sh ids bind_result_simps prod.case at(2) insert_iff empty_iff eTokens.distinct simp_thms)
qed

lemma feed_more_attrs:
  "spelled str ls (attrs_tokens as) \<Longrightarrow>
   feed (plus6 f) jt jr (xml_productions str) ls (nd jt 1 l (AttributeMap m) # R) s =
     Inr (nd jt 1 l (AttributeMap (foldl map_insert m as)) # R, s)"
proof (induction as arbitrary: ls m)
  case (Cons kv as)
  then obtain us vs where ls: "ls = us @ vs" "spelled str us (attr_tokens kv)" "spelled str vs (attrs_tokens as)"
    by (auto simp: attrs_tokens_def spelled_append)
  show ?case unfolding ls(1) feed_append feed_one_attr(2) [OF ls(2)] using Cons.IH [OF ls(3)] by simp
qed (simp add: attrs_tokens_def)

lemma feed_attrs:
  assumes "spelled str ls (attrs_tokens as)" "as \<noteq> []"
  shows "\<exists>l'. feed (plus6 f) jt jr (xml_productions str) ls (tok jr t l # R) s =
     Inr (nd jt 1 l' (AttributeMap (attr_map as)) # tok jr t l # R, s)"
proof -
  obtain kv as' where as: "as = kv # as'" using assms(2) by (cases as) auto
  with assms(1) obtain us vs where ls: "ls = us @ vs" "spelled str us (attr_tokens kv)" "spelled str vs (attrs_tokens as')"
    by (auto simp: attrs_tokens_def spelled_append)
  from feed_one_attr(1) [OF ls(2)] obtain l' where
    "feed (plus6 f) jt jr (xml_productions str) us (tok jr t l # R) s =
      Inr (nd jt 1 l' (AttributeMap (map_insert (\<lambda>_. None) kv)) # tok jr t l # R, s)" by blast
  then show ?thesis using feed_more_attrs [OF ls(3)] unfolding ls(1) feed_append as attr_map_def by (simp del: One_nat_def) blast
qed

text \<open>An open tag, up to its end.\<close>

lemma feed_open_tag:
  assumes "spelled str ls ([(OCARROT, ''<''), (IDENTIFIER, n)] @ attrs_tokens as @ [(CCARROT, ''>'')])"
  shows "\<exists>l. feed (plus6 f) jt jr (xml_productions str) ls R s = Inr (nd jt 3 l (XmlTag n (attr_map as)) # R, s)"
proof -
  from assms obtain t1 l1 t2 l2 us t3 l3 where ls: "ls = (t1, l1) # (t2, l2) # us @ [(t3, l3)]"
    and us: "spelled str us (attrs_tokens as)"
    and t: "m_valid t1" "m_id t1 = OCARROT" "m_valid t2" "m_id t2 = IDENTIFIER" "m_valid t3" "m_id t3 = CCARROT"
      "token_text str t2 = n"
    by (auto simp: spelled_append)
  note sh = settle_shift [of t1, simplified t eTokens.distinct insert_iff empty_iff simp_thms]
    settle_shift [of t2, simplified t eTokens.distinct insert_iff empty_iff simp_thms]
  note tag = settle_open_tag [OF t(1-6), where jr = jr]
  show ?thesis
  proof (cases "as = []")
    case True
    with us have "us = []" by (simp add: attrs_tokens_def)
    with True t(7) show ?thesis unfolding ls by (simp add: sh tag attr_map_def del: settle.simps One_nat_def) blast
  next
    case False
    from feed_attrs [OF us False] obtain l' where
      "feed (plus6 f) jt jr (xml_productions str) us (tok jr t2 l2 # tok jr t1 l1 # R) s =
        Inr (nd jt 1 l' (AttributeMap (attr_map as)) # tok jr t2 l2 # tok jr t1 l1 # R, s)" by blast
    then show ?thesis unfolding ls using t(7) by (simp add: sh tag feed_append del: settle.simps One_nat_def) blast
  qed
qed

lemma feed_closed_tag:
  assumes "spelled str ls (elem_tokens (Closed n as))" "open_end jt R"
  shows "\<exists>R' s'. feed (plus6 f) jt jr (xml_productions str) ls R s = Inr (R', s') \<and>
    placed jt R s [elem_node (Closed n as)] R' s'"
proof -
  from assms(1) obtain t1 l1 t2 l2 us t3 l3 t4 l4 where ls: "ls = (t1, l1) # (t2, l2) # us @ [(t3, l3), (t4, l4)]"
    and us: "spelled str us (attrs_tokens as)"
    and t: "m_valid t1" "m_id t1 = OCARROT" "m_valid t2" "m_id t2 = IDENTIFIER" "m_valid t3" "m_id t3 = TERMINATOR"
      "m_valid t4" "m_id t4 = CCARROT" "token_text str t2 = n"
    by (auto simp: spelled_append)
  note sh = settle_shift [of t1, simplified t eTokens.distinct insert_iff empty_iff simp_thms]
    settle_shift [of t2, simplified t eTokens.distinct insert_iff empty_iff simp_thms]
    settle_shift [of t3, simplified t eTokens.distinct insert_iff empty_iff simp_thms]
  note tag = settle_closed_tag [OF t(1-8), where jr = jr and f = "Suc (Suc (Suc (Suc f)))"]
  have node: "\<exists>R' s'. settle (Suc (Suc (Suc (Suc f)))) jt (xml_productions str)
      (nd jt 6 l1 (NodeValue (XmlNode n [] (attr_map as) [])) # R) s = Inr (R', s') \<and>
    placed jt R s [elem_node (Closed n as)] R' s'"
    using settle_node [OF assms(2)] by simp
  show ?thesis
  proof (cases "as = []")
    case True
    with us have "us = []" by (simp add: attrs_tokens_def)
    with True t(9) node show ?thesis unfolding ls by (simp add: sh tag attr_map_def del: settle.simps One_nat_def) auto
  next
    case False
    from feed_attrs [OF us False] obtain l' where
      "feed (plus6 f) jt jr (xml_productions str) us (tok jr t2 l2 # tok jr t1 l1 # R) s =
        Inr (nd jt 1 l' (AttributeMap (attr_map as)) # tok jr t2 l2 # tok jr t1 l1 # R, s)" by blast
    then show ?thesis unfolding ls using t(9) node by (simp add: sh tag feed_append del: settle.simps One_nat_def) auto
  qed
qed

lemma placed_open_end: "placed jt R s ns R' s' \<Longrightarrow> open_end jt R \<Longrightarrow> open_end jt R'"
  by (induction rule: placed.induct) (auto simp: open_end_def)

lemma placed_tag: "placed jt (nd jt 3 l tag # R) s ns R' s' \<Longrightarrow>
    s' = s \<and> (ns = [] \<and> R' = nd jt 3 l tag # R \<or> ns \<noteq> [] \<and> (\<exists>l'. R' = nd jt 7 l' (NodeList ns) # nd jt 3 l tag # R))"
  by (erule placed.cases) (auto simp: TokenOrNode_rule_def)

lemma placed_nodes: "placed jt (nd jt 7 l (NodeList ms) # nd jt 3 l' tag # R) s ns R' s' \<Longrightarrow>
    s' = s \<and> R' = nd jt 7 l (NodeList (ms @ ns)) # nd jt 3 l' tag # R"
  by (erule placed.cases) (auto simp: TokenOrNode_rule_def)

lemma placed_file: "placed jt [fl jt l] s ns R' s' \<Longrightarrow>
    R' = [fl jt l] \<and> s' = (if ns = [] then s else XmlNode ''root'' (x_str s) (x_attributes s) (x_children s @ ns))"
  by (erule placed.cases) (auto simp: TokenOrNode_rule_def)

lemma placed_append:
  assumes "placed jt R s ns R1 s1" "placed jt R1 s1 ms R2 s2"
  shows "placed jt R s (ns @ ms) R2 s2"
  using assms
proof (cases rule: placed.cases)
  case none
  with assms(2) show ?thesis by simp
next
  case (first l tag R0 l')
  with placed_nodes [of jt l' ns l tag R0 s1 ms R2 s2] assms(2) show ?thesis
    by (auto intro: placed.first)
next
  case (more l ks l' tag R0)
  with placed_nodes [of jt l "ks @ ns" l' tag R0 s1 ms R2 s2] assms(2) show ?thesis
    using placed.more [of "ns @ ms"] by auto
next
  case (top l)
  with placed_file [of jt l s1 ms R2 s2] assms(2) show ?thesis
    using placed.top [of "ns @ ms" jt l s] by auto
qed

lemma feed_elems:
  assumes "\<And>e ls R s. e \<in> set es \<Longrightarrow> spelled str ls (elem_tokens e) \<Longrightarrow> open_end jt R \<Longrightarrow>
    \<exists>R' s'. feed (plus6 f) jt jr (xml_productions str) ls R s = Inr (R', s') \<and> placed jt R s [elem_node e] R' s'"
  shows "spelled str ls (concat (map elem_tokens es)) \<Longrightarrow> open_end jt R \<Longrightarrow>
    \<exists>R' s'. feed (plus6 f) jt jr (xml_productions str) ls R s = Inr (R', s') \<and> placed jt R s (map elem_node es) R' s'"
  using assms
proof (induction es arbitrary: ls R s)
  case Nil
  then show ?case by (auto intro: placed.none)
next
  case (Cons e es)
  then obtain us vs where ls: "ls = us @ vs" "spelled str us (elem_tokens e)" "spelled str vs (concat (map elem_tokens es))"
    by (auto simp: spelled_append)
  from Cons.prems(3) [OF _ ls(2) Cons.prems(2), of s] obtain R1 s1 where
    1: "feed (plus6 f) jt jr (xml_productions str) us R s = Inr (R1, s1)" "placed jt R s [elem_node e] R1 s1" by auto
  from Cons.IH [OF ls(3) placed_open_end [OF 1(2) Cons.prems(2)] Cons.prems(3), of s1] obtain R2 s2 where
    2: "feed (plus6 f) jt jr (xml_productions str) vs R1 s1 = Inr (R2, s2)" "placed jt R1 s1 (map elem_node es) R2 s2" by auto
  show ?case using 1 2 placed_append [OF 1(2) 2(2)] by (simp add: ls(1) feed_append)
qed

lemma feed_elem:
  "spelled str ls (elem_tokens e) \<Longrightarrow> open_end jt R \<Longrightarrow>
    \<exists>R' s'. feed (plus6 f) jt jr (xml_productions str) ls R s = Inr (R', s') \<and> placed jt R s [elem_node e] R' s'"
proof (induction e arbitrary: ls R s)
  case (Closed n as)
  then show ?case by (rule feed_closed_tag)
next
  case (Element n as es)
  let ?ps = "xml_productions str"
  let ?open = "[(OCARROT, ''<''), (IDENTIFIER, n)] @ attrs_tokens as @ [(CCARROT, ''>'')]"
  let ?close = "[(OCARROT, ''<''), (TERMINATOR, ''/''), (IDENTIFIER, n), (CCARROT, ''>'')]"
  have "spelled str ls (?open @ concat (map elem_tokens es) @ ?close)" using Element.prems(1) by simp
  then obtain us vs ws where ls: "ls = us @ vs @ ws" and us: "spelled str us ?open"
    and vs: "spelled str vs (concat (map elem_tokens es))" and "spelled str ws ?close" by (rule spelled_append3)
  then obtain t1 l1 t2 l2 t3 l3 t4 l4 where ws: "ws = [(t1, l1), (t2, l2), (t3, l3), (t4, l4)]"
    and t: "m_valid t1" "m_id t1 = OCARROT" "m_valid t3" "m_id t3 = IDENTIFIER" "m_valid t2" "m_id t2 = TERMINATOR"
      "m_valid t4" "m_id t4 = CCARROT" "token_text str t3 = n"
    by auto
  note sh = settle_shift [of t1, simplified t eTokens.distinct insert_iff empty_iff simp_thms]
    settle_shift [of t2, simplified t eTokens.distinct insert_iff empty_iff simp_thms]
    settle_shift [of t3, simplified t eTokens.distinct insert_iff empty_iff simp_thms]
  note close = settle_close_tag [OF t, where jr = jr and f = "Suc (Suc (Suc (Suc f)))"]
  from feed_open_tag [OF us] obtain l where
    1: "feed (plus6 f) jt jr ?ps us R s = Inr (nd jt 3 l (XmlTag n (attr_map as)) # R, s)" by blast
  have "open_end jt (nd jt 3 l (XmlTag n (attr_map as)) # R)" by (auto simp: open_end_def)
  from feed_elems [OF Element.IH vs this, of s] obtain R2 s2 where
    2: "feed (plus6 f) jt jr ?ps vs (nd jt 3 l (XmlTag n (attr_map as)) # R) s = Inr (R2, s2)"
    and R2: "placed jt (nd jt 3 l (XmlTag n (attr_map as)) # R) s (map elem_node es) R2 s2" by blast
  from settle_node [OF Element.prems(2)] obtain R' s' where
    node: "settle (Suc (Suc (Suc (Suc f)))) jt ?ps (nd jt 6 l (NodeValue (elem_node (Element n as es))) # R) s = Inr (R', s')"
    and res: "placed jt R s [elem_node (Element n as es)] R' s'" by blast
  have "feed (plus6 f) jt jr ?ps ws R2 s2 = Inr (R', s')"
    unfolding ws using placed_tag [OF R2] node
    by (elim conjE disjE exE) (simp_all add: sh close del: settle.simps One_nat_def)
  then have "feed (plus6 f) jt jr ?ps ls R s = Inr (R', s')"
    unfolding ls feed_append 1 bind_result_simps prod.case 2 .
  with res show ?case by blast
qed

text \<open>A whole document.\<close>

lemma feed_doc:
  assumes "spelled str ls (doc_tokens target as es)" "as \<noteq> []"
  shows "\<exists>l. feed (plus6 f) jt jr (xml_productions str) ls [] s = Inr ([fl jt l],
    if es = [] then s else XmlNode ''root'' (x_str s) (x_attributes s) (x_children s @ map elem_node es))"
proof -
  let ?ps = "xml_productions str"
  from assms(1) obtain t1 l1 t2 l2 t3 l3 us t4 l4 t5 l5 vs where
    ls: "ls = [(t1, l1), (t2, l2), (t3, l3)] @ us @ [(t4, l4), (t5, l5)] @ vs"
    and us: "spelled str us (attrs_tokens as)" and vs: "spelled str vs (concat (map elem_tokens es))"
    and t: "m_valid t1" "m_id t1 = OCARROT" "m_valid t2" "m_id t2 = DEFINE" "m_valid t3" "m_id t3 = IDENTIFIER"
      "m_valid t4" "m_id t4 = DEFINE" "m_valid t5" "m_id t5 = CCARROT"
    by (fastforce simp: spelled_append doc_tokens_def)
  note sh = settle_shift [of t1, simplified t eTokens.distinct insert_iff empty_iff simp_thms]
    settle_shift [of t2, simplified t eTokens.distinct insert_iff empty_iff simp_thms]
    settle_shift [of t3, simplified t eTokens.distinct insert_iff empty_iff simp_thms]
    settle_shift [of t4, simplified t eTokens.distinct insert_iff empty_iff simp_thms]
  have 1: "feed (plus6 f) jt jr ?ps [(t1, l1), (t2, l2), (t3, l3)] [] s = Inr ([tok jr t3 l3, tok jr t2 l2, tok jr t1 l1], s)"
    by (simp add: sh del: settle.simps)
  from feed_attrs [OF us assms(2)] obtain l where
    2: "feed (plus6 f) jt jr ?ps us [tok jr t3 l3, tok jr t2 l2, tok jr t1 l1] s =
      Inr ([nd jt 1 l (AttributeMap (attr_map as)), tok jr t3 l3, tok jr t2 l2, tok jr t1 l1], s)" by blast
  have "settle (plus6 f) jt ?ps [tok jr t5 l5, tok jr t4 l4, nd jt 1 l (AttributeMap (attr_map as)), tok jr t3 l3, tok jr t2 l2, tok jr t1 l1] s =
      Inr ([fl jt l1], s)" using t by (simp add: xml_productions_list)
  then have 3: "feed (plus6 f) jt jr ?ps [(t4, l4), (t5, l5)]
      [nd jt 1 l (AttributeMap (attr_map as)), tok jr t3 l3, tok jr t2 l2, tok jr t1 l1] s = Inr ([fl jt l1], s)"
    by (simp add: sh del: settle.simps One_nat_def)
  have "open_end jt [fl jt l1]" unfolding open_end_def by blast
  from feed_elems [OF feed_elem vs this, where f = f and jr = jr and s = s] obtain R s' where
    4: "feed (plus6 f) jt jr ?ps vs [fl jt l1] s = Inr (R, s')" "placed jt [fl jt l1] s (map elem_node es) R s'" by blast
  have "feed (plus6 f) jt jr ?ps ls [] s = Inr (R, s')"
    unfolding ls feed_append 1 bind_result_simps prod.case 2 3 4(1) ..
  with placed_file [OF 4(2)] show ?thesis by auto
qed

section \<open>The text of a document\<close>

definition word_char :: "char \<Rightarrow> bool" where
  "word_char c \<longleftrightarrow> is_alpha_ch c \<or> c = CHR ''_'' \<or> is_digit_ch c"

definition space_char :: "char \<Rightarrow> bool" where
  "space_char c \<longleftrightarrow> c = CHR '' '' \<or> c = CHR 0x0A \<or> c = CHR 0x09 \<or> c = CHR 0x0D"

text \<open>The texts that tokens may have.\<close>

fun text_ok :: "eTokens \<Rightarrow> string \<Rightarrow> bool" where
  "text_ok IDENTIFIER x \<longleftrightarrow> (case x of [] \<Rightarrow> False | c # v \<Rightarrow> is_alpha_ch c \<and> list_all word_char v)"
| "text_ok STRING x \<longleftrightarrow> (\<exists>v. x = CHR 0x22 # v @ [CHR 0x22] \<and> list_all (\<lambda>c. c \<noteq> CHR 0x22) v)"
| "text_ok OCARROT x \<longleftrightarrow> x = ''<''"
| "text_ok CCARROT x \<longleftrightarrow> x = ''>''"
| "text_ok EQUAL x \<longleftrightarrow> x = ''=''"
| "text_ok TERMINATOR x \<longleftrightarrow> x = ''/''"
| "text_ok DEFINE x \<longleftrightarrow> x = ''?''"
| "text_ok _ x \<longleftrightarrow> False"

text \<open>
  A text that shows the tokens: one after the other, with any blanks between them, and at least one
  between an identifier and a character that could belong to it.
\<close>

inductive layout :: "(eTokens \<times> string) list \<Rightarrow> string \<Rightarrow> bool" where
  nothing: "layout [] []"
| blank: "space_char c \<Longrightarrow> layout txs text \<Longrightarrow> layout txs (c # text)"
| shown: "text_ok i x \<Longrightarrow> (i = IDENTIFIER \<Longrightarrow> text = [] \<or> \<not> word_char (hd text)) \<Longrightarrow> layout txs text \<Longrightarrow>
    layout ((i, x) # txs) (x @ text)"

lemma xml_langs:
  "langs xml_rexps =
    [(STRING, quoted_lang CHR 0x22), (IDENTIFIER, word_lang is_alpha_ch word_char),
     (OCARROT, class_lang (\<lambda>c. c = CHR ''<'')), (CCARROT, class_lang (\<lambda>c. c = CHR ''>'')),
     (EQUAL, class_lang (\<lambda>c. c = CHR ''='')), (NUMERIC, word_lang is_digit_ch is_digit_ch),
     (TERMINATOR, class_lang (\<lambda>c. c = CHR ''/'')), (DEFINE, class_lang (\<lambda>c. c = CHR ''?'')),
     (WS, class_lang space_char), (MISC, class_lang (\<lambda>c. True))]"
proof -
  have "tok_matches (ReToken RANGE CHR ''w'') = word_char" "tok_matches (ReToken RANGE CHR ''a'') = is_alpha_ch"
    "tok_matches (ReToken RANGE CHR ''d'') = is_digit_ch" "tok_matches (ReToken RANGE CHR ''s'') = space_char"
    by (simp_all add: fun_eq_iff word_char_def space_char_def)
  then show ?thesis
    by (simp add: langs_def xml_rexps_def lang_class lang_word lang_quoted tok_matches_fun del: lang.simps)
qed

lemma next_blank: "space_char c \<Longrightarrow> next_is xml_rexps (c # rest) (Some (WS, 1))"
  by (auto simp: next_is_def xml_langs space_char_def is_alpha_ch_def is_digit_ch_def)

lemma next_shown:
  assumes "text_ok i x" "i = IDENTIFIER \<Longrightarrow> text = [] \<or> \<not> word_char (hd text)"
  shows "next_is xml_rexps (x @ text) (Some (i, length x))" "x \<noteq> []"
proof -
  have "next_is xml_rexps (x @ text) (Some (i, length x)) \<and> x \<noteq> []"
  proof (cases i)
    case IDENTIFIER
    with assms obtain c v where x: "x = c # v" "is_alpha_ch c" "list_all word_char v" by (cases x) auto
    then have "c \<noteq> CHR 0x22" by (auto simp: is_alpha_ch_def)
    with x assms(2) IDENTIFIER show ?thesis by (simp add: next_is_def xml_langs next_in_word)
  next
    case STRING
    with assms(1) obtain v where "x = CHR 0x22 # v @ [CHR 0x22]" "list_all (\<lambda>c. c \<noteq> CHR 0x22) v" by auto
    with STRING show ?thesis by (simp add: next_is_def xml_langs next_in_quoted [simplified])
  qed (use assms in \<open>simp_all add: next_is_def xml_langs is_alpha_ch_def is_digit_ch_def\<close>)
  then show "next_is xml_rexps (x @ text) (Some (i, length x))" "x \<noteq> []" by simp_all
qed

lemma layout_displays: "layout txs text \<Longrightarrow> displays xml_rexps WS txs text"
proof (induction rule: layout.induct)
  case nothing
  show ?case by (rule displays.nothing) (simp add: next_is_def next_in_empty)
next
  case (blank c txs rest)
  then show ?case using displays.ignored [of xml_rexps "[c]" rest WS txs] by (simp add: next_blank [simplified])
next
  case (shown i x rest txs)
  note n = next_shown [OF shown.hyps(1,2)]
  have "i \<noteq> WS" using shown.hyps(1) by auto
  with n shown show ?case by (intro displays.shown)
qed

text \<open>
  C9. A document is read as what it says. Take any document with a prolog that has attributes, and any
  text that shows its tokens, with any blanks. Then, with the tokenizer of the program and enough
  fuel, \<^verbatim>\<open>XmlNode::parse\<close> returns OK and adds the trees of the elements, in order, to the children
  of the node; of repeated attributes of one element the first counts, and the text content of nodes
  is never set.
\<close>

theorem xml_document_read:
  "\<exists>toks N. TokenizerFactory 2 junk = Inr toks \<and>
    (\<forall>tf \<ge> N. \<forall>fuel jt jr self target as es fileData.
      layout (doc_tokens target as es) fileData \<longrightarrow> as \<noteq> [] \<longrightarrow> 6 \<le> fuel \<longrightarrow>
      XmlNode_parse tf fuel jt jr toks self fileData =
        Inr (OK, if es = [] then self
                 else XmlNode ''root'' (x_str self) (x_attributes self) (x_children self @ map elem_node es)))"
proof -
  obtain toks N where toks: "TokenizerFactory 2 junk = Inr toks" "\<forall>tf \<ge> N. tokenizer_is tf toks xml_rexps"
    using xml_tokenizer_exists by blast
  have "XmlNode_parse tf fuel jt jr toks self fileData =
        Inr (OK, if es = [] then self
                 else XmlNode ''root'' (x_str self) (x_attributes self) (x_children self @ map elem_node es))"
    if tf: "N \<le> tf" and lay: "layout (doc_tokens target as es) fileData" and as: "as \<noteq> []" and fuel: "6 \<le> fuel"
    for tf fuel jt jr self target as es fileData
  proof -
    obtain p where p: "build_grammar jt jr (xml_steps fileData) (LRParser_new toks 1024) = Inr p"
      "rules_ok (m_rules p)" "nonempty_chains (m_rules p)" "m_tokenizer p = toks" "length (m_rules p) = 9"
      "productions (m_rules p) = xml_productions fileData" using xml_grammar_built by blast
    obtain ts pos where run: "token_run tf (m_tokenizer p) jt fileData 0 ts pos"
      and ts: "list_all2 (spells fileData) (filter (\<lambda>t. m_id t \<noteq> WS) ts) (doc_tokens target as es)"
      using displays_run [OF _ layout_displays [OF lay], of tf toks 0 fileData jt] toks(2) tf p(4) by auto
    obtain f where f: "fuel = plus6 f" using fuel by (auto simp: le_iff_add)
    have "LRParser_parse tf fuel jt jr eTokens_names p WS fileData self = Inr (True, [],
        if es = [] then self
        else XmlNode ''root'' (x_str self) (x_attributes self) (x_children self @ map elem_node es))"
    proof (rule parse_from_feed [OF p(2,3) _ run])
      show "m_rules p \<noteq> []" using p(5) by auto
      fix ls :: "(eTokens Token \<times> nat) list"
      assume "map fst ls = filter (\<lambda>t. m_id t \<noteq> WS) ts"
      then have "spelled fileData ls (doc_tokens target as es)"
        using ts unfolding spelled_def by (metis list_all2_map1)
      from feed_doc [OF this as, of f jt jr self] p(5,6) f
      show "\<exists>x. feed fuel jt jr (productions (m_rules p)) ls [] self = Inr ([x],
          if es = [] then self
          else XmlNode ''root'' (x_str self) (x_attributes self) (x_children self @ map elem_node es)) \<and>
        m_ruleId x = length (m_rules p) - 1" by auto
    qed
    then show ?thesis by (simp add: XmlNode_parse_def p(1) status_of_bool_def)
  qed
  with toks(1) show ?thesis by blast
qed

text \<open>One text of a document: a blank after every token.\<close>

definition print_tokens :: "(eTokens \<times> string) list \<Rightarrow> string" where
  "print_tokens txs = concat (map (\<lambda>ix. snd ix @ '' '') txs)"

lemma layout_print: "list_all (\<lambda>ix. text_ok (fst ix) (snd ix)) txs \<Longrightarrow> layout txs (print_tokens txs)"
proof (induction txs)
  case (Cons ix txs)
  have "layout txs (CHR '' '' # print_tokens txs)" using Cons by (intro layout.blank) (simp_all add: space_char_def)
  then have "layout ((fst ix, snd ix) # txs) (snd ix @ CHR '' '' # print_tokens txs)"
    using Cons.prems by (intro layout.shown) (simp_all add: word_char_def is_alpha_ch_def is_digit_ch_def)
  then show ?case by (simp add: print_tokens_def)
qed (simp add: print_tokens_def layout.nothing)

definition sample_elem :: xml_elem where
  "sample_elem = Element ''a'' [(''b'', ''x''), (''b'', ''y'')] [Closed ''c'' [], Element ''d'' [] []]"

lemma sample_layout:
  "layout (doc_tokens ''xml'' [(''v'', ''1'')] [sample_elem]) (print_tokens (doc_tokens ''xml'' [(''v'', ''1'')] [sample_elem]))"
  by (rule layout_print) (simp add: doc_tokens_def attrs_tokens_def attr_tokens_def sample_elem_def is_alpha_ch_def word_char_def)

theorem xml_document_read_witness:
  "\<exists>toks tf. TokenizerFactory 2 0 = Inr toks \<and>
     XmlNode_parse tf 6 (Token_new WS 0 0) 0 toks XmlNode_new (print_tokens (doc_tokens ''xml'' [(''v'', ''1'')] [sample_elem])) =
       Inr (OK, XmlNode ''root'' [] (\<lambda>_. None) [elem_node sample_elem])"
proof -
  obtain toks N where toks: "TokenizerFactory 2 0 = Inr toks"
    and read: "\<forall>tf \<ge> N. \<forall>fuel jt jr self target as es fileData.
      layout (doc_tokens target as es) fileData \<longrightarrow> as \<noteq> [] \<longrightarrow> 6 \<le> fuel \<longrightarrow>
      XmlNode_parse tf fuel jt jr toks self fileData =
        Inr (OK, if es = [] then self
                 else XmlNode ''root'' (x_str self) (x_attributes self) (x_children self @ map elem_node es))"
    using xml_document_read [of 0] by blast
  from read [rule_format, OF order_refl sample_layout, of 6 "Token_new WS 0 0" 0 XmlNode_new] toks
  show ?thesis by (auto simp: XmlNode_new_def)
qed

end
