(* ===== verification/LexicalCast.thy ===== *)
theory LexicalCast
  imports RegEx StringUtil
begin

text \<open>
  The casts of strings of \<^verbatim>\<open>CORE/UTIL/lexical_cast.h\<close>, with what they use of the C library: \<^verbatim>\<open>atoi\<close>,
  \<^verbatim>\<open>atol\<close> and the extraction of integers from a stringstream. \<^verbatim>\<open>atoi\<close> and \<^verbatim>\<open>atol\<close> never report an
  error; their behaviour on a number that their type cannot hold is undefined, here the fault
  \<open>NotRepresentable\<close>. The width of \<^verbatim>\<open>long\<close> depends on the platform and is a parameter.
\<close>

definition digits_value :: "string \<Rightarrow> int" where
  "digits_value ds = foldl (\<lambda>n d. 10 * n + (int (of_char d) - 48)) 0 ds"

definition isspace :: "char \<Rightarrow> bool" where
  "isspace c \<longleftrightarrow> c = CHR '' '' \<or> (9 \<le> (of_char c :: nat) \<and> (of_char c :: nat) \<le> 13)"

definition atoi_value :: "string \<Rightarrow> int" where
  "atoi_value s =
     (let t = dropWhile isspace s in
      case t of
        [] \<Rightarrow> 0
      | c # r \<Rightarrow>
          if c = CHR ''-'' then - digits_value (takeWhile is_digit_ch r)
          else if c = CHR ''+'' then digits_value (takeWhile is_digit_ch r)
          else digits_value (takeWhile is_digit_ch t))"

definition is_int :: "string \<Rightarrow> bool" where
  "is_int s \<longleftrightarrow> - (2 ^ 31) \<le> atoi_value s \<and> atoi_value s < 2 ^ 31"

definition lexical_cast_s32 :: "string \<Rightarrow> fault + s32" where
  "lexical_cast_s32 s = (if is_int s then Inr (word_of_int (atoi_value s)) else Inl NotRepresentable)"

definition lexical_cast_u32 :: "nat \<Rightarrow> string \<Rightarrow> fault + u32" where
  "lexical_cast_u32 long s =
     (if - (2 ^ (long - 1)) \<le> atoi_value s \<and> atoi_value s < 2 ^ (long - 1)
      then Inr (word_of_int (atoi_value s)) else Inl NotRepresentable)"

text \<open>Every word but two is false, and no word fails.\<close>

definition lexical_cast_bool :: "string \<Rightarrow> bool" where
  "lexical_cast_bool s \<longleftrightarrow> s = ''true'' \<or> s = ''1''"

text \<open>
  \<^verbatim>\<open>stream >> b\<close> for an integer: a sign and digits after white space. Without digits, or if the
  number is too large, the stream fails; an unsigned type takes the negative of a number.
\<close>

definition stream_number :: "string \<Rightarrow> (bool \<times> int) option" where
  "stream_number s =
     (let t = dropWhile isspace s;
          neg = (t \<noteq> [] \<and> hd t = CHR ''-'');
          r = (if t \<noteq> [] \<and> hd t \<in> {CHR ''-'', CHR ''+''} then tl t else t);
          ds = takeWhile is_digit_ch r
      in if ds = [] then None else Some (neg, digits_value ds))"

definition lexical_cast_u64 :: "string \<Rightarrow> u64 option" where
  "lexical_cast_u64 s =
     (case stream_number s of
        None \<Rightarrow> None
      | Some (neg, v) \<Rightarrow> if v < 2 ^ 64 then Some (word_of_int (if neg then - v else v)) else None)"

definition lexical_cast_s64 :: "string \<Rightarrow> u64 option" where
  "lexical_cast_s64 s =
     (case stream_number s of
        None \<Rightarrow> None
      | Some (neg, v) \<Rightarrow>
          let x = (if neg then - v else v) in
          if - (2 ^ 63) \<le> x \<and> x < 2 ^ 63 then Some (word_of_int x) else None)"

text \<open>
  The casts to a string by way of a stream: the number is written in decimal, and a word is read. The
  string stays as it is if there is none.
\<close>

fun decimal :: "nat \<Rightarrow> string" where
  "decimal n = (if n < 10 then [char_of (48 + n)] else decimal (n div 10) @ [char_of (48 + n mod 10)])"

declare decimal.simps [simp del]

definition decimal_int :: "int \<Rightarrow> string" where
  "decimal_int x = (if x < 0 then CHR ''-'' # decimal (nat (- x)) else decimal (nat x))"

definition stream_word :: "string \<Rightarrow> string \<Rightarrow> bool \<times> string" where
  "stream_word written b =
     (let w = takeWhile (\<lambda>c. \<not> isspace c) (dropWhile isspace written)
      in if w = [] then (False, b) else (True, w))"

section \<open>Numbers that are printed\<close>

lemma digit_char:
  assumes "n < 10"
  shows "of_char (char_of (48 + n) :: char) = (48 + n :: nat)" "is_digit_ch (char_of (48 + n))"
  using assms by (simp_all add: is_digit_ch_def)

lemma decimal_digits: "decimal n \<noteq> []" "list_all is_digit_ch (decimal n)"
  by (induction n rule: decimal.induct; subst decimal.simps; simp add: digit_char)+

lemma digits_value_snoc: "digits_value (ds @ [d]) = 10 * digits_value ds + (int (of_char d) - 48)"
  by (simp add: digits_value_def)

lemma decimal_value: "digits_value (decimal n) = int n"
proof (induction n rule: decimal.induct)
  case (1 n)
  show ?case
  proof (cases "n < 10")
    case True
    then show ?thesis by (subst decimal.simps) (simp add: digits_value_def digit_char(1) del: of_nat_of_char)
  next
    case False
    have "10 * (n div 10) + n mod 10 = n" by simp
    then have "10 * int (n div 10) + int (n mod 10) = int n" by (metis of_nat_add of_nat_mult of_nat_numeral)
    then show ?thesis using 1 [OF False] False
      by (subst decimal.simps) (simp add: digits_value_snoc digit_char(1) del: of_nat_of_char)
  qed
qed

lemma digit_no_space: "is_digit_ch c \<Longrightarrow> \<not> isspace c" "is_digit_ch c \<Longrightarrow> c \<noteq> CHR ''-''" "is_digit_ch c \<Longrightarrow> c \<noteq> CHR ''+''"
  by (auto simp: is_digit_ch_def isspace_def)

lemma decimal_take [simp]: "takeWhile is_digit_ch (decimal n) = decimal n"
  using decimal_digits(2) by (simp add: takeWhile_eq_all_conv list_all_iff)

lemma decimal_hd:
  obtains c v where "decimal n = c # v" "is_digit_ch c"
  using decimal_digits [of n] by (cases "decimal n") auto

lemma no_sign_space: "\<not> isspace CHR ''-''" "\<not> isspace CHR ''+''"
  by (simp_all add: isspace_def)

lemma decimal_int_chars: "c \<in> set (decimal_int x) \<Longrightarrow> \<not> isspace c"
  using decimal_digits(2) digit_no_space(1) no_sign_space(1)
  by (auto simp: decimal_int_def list_all_iff split: if_splits)

lemma stream_word_decimal [simp]: "stream_word (decimal_int x) b = (True, decimal_int x)"
proof -
  have ne: "decimal_int x \<noteq> []" by (simp add: decimal_int_def decimal_digits(1))
  have d: "dropWhile isspace (decimal_int x) = decimal_int x"
    using ne decimal_int_chars [of "hd (decimal_int x)" x] by (simp add: dropWhile_eq_self_iff)
  have t: "takeWhile (\<lambda>c. \<not> isspace c) (decimal_int x) = decimal_int x"
    using decimal_int_chars by (simp add: takeWhile_eq_all_conv)
  show ?thesis unfolding stream_word_def Let_def d t using ne by simp
qed

lemma stream_number_decimal: "stream_number (decimal_int x) = Some (x < 0, \<bar>x\<bar>)"
proof -
  obtain c v where d: "decimal (nat x) = c # v" "is_digit_ch c" by (rule decimal_hd)
  note [simp] = decimal_digits(1) decimal_value no_sign_space
  show ?thesis
  proof (cases "x < 0")
    case True
    then show ?thesis by (simp add: stream_number_def decimal_int_def)
  next
    case False
    have s: "\<not> isspace c" "c \<noteq> CHR ''-''" "c \<noteq> CHR ''+''" using digit_no_space [OF d(2)] by simp_all
    have "stream_number (c # v) = Some (False, digits_value (takeWhile is_digit_ch (c # v)))"
      unfolding stream_number_def using s d(2) by (simp add: Let_def)
    also have "takeWhile is_digit_ch (c # v) = c # v" using decimal_take [of "nat x"] d(1) by simp
    finally have "stream_number (decimal (nat x)) = Some (False, int (nat x))" using d(1) decimal_value [of "nat x"] by simp
    then show ?thesis using False by (simp add: decimal_int_def)
  qed
qed

lemma atoi_decimal: "atoi_value (decimal_int x) = x"
proof -
  obtain c v where d: "decimal (nat x) = c # v" "is_digit_ch c" by (rule decimal_hd)
  note [simp] = decimal_digits(1) decimal_value no_sign_space
  show ?thesis
  proof (cases "x < 0")
    case True
    then show ?thesis by (simp add: atoi_value_def decimal_int_def)
  next
    case False
    have s: "\<not> isspace c" "c \<noteq> CHR ''-''" "c \<noteq> CHR ''+''" using digit_no_space [OF d(2)] by simp_all
    have "atoi_value (c # v) = digits_value (takeWhile is_digit_ch (c # v))"
      unfolding atoi_value_def using s by (simp add: Let_def)
    also have "takeWhile is_digit_ch (c # v) = c # v" using decimal_take [of "nat x"] d(1) by simp
    finally have "atoi_value (decimal (nat x)) = int (nat x)" using d(1) decimal_value [of "nat x"] by simp
    then show ?thesis using False by (simp add: decimal_int_def)
  qed
qed

text \<open>A printed number is read as the same bits, where its type can hold it.\<close>

lemma read_printed:
  "0 \<le> x \<Longrightarrow> x < 2 ^ 64 \<Longrightarrow> lexical_cast_u64 (decimal_int x) = Some (word_of_int x)"
  "- (2 ^ 63) \<le> x \<Longrightarrow> x < 2 ^ 63 \<Longrightarrow> lexical_cast_s64 (decimal_int x) = Some (word_of_int x)"
  "- (2 ^ 31) \<le> x \<Longrightarrow> x < 2 ^ 31 \<Longrightarrow> lexical_cast_s32 (decimal_int x) = Inr (word_of_int x)"
  "- (2 ^ (long - 1)) \<le> x \<Longrightarrow> x < 2 ^ (long - 1) \<Longrightarrow> lexical_cast_u32 long (decimal_int x) = Inr (word_of_int x)"
  by (simp_all add: lexical_cast_u64_def lexical_cast_s64_def lexical_cast_s32_def lexical_cast_u32_def is_int_def
      stream_number_decimal atoi_decimal)

lemma read_printed_overflow: "2 ^ 63 \<le> x \<Longrightarrow> lexical_cast_s64 (decimal_int x) = None"
  by (simp add: lexical_cast_s64_def stream_number_decimal)

end
