(* ===== verification/ProtoParser.thy ===== *)
theory ProtoParser
  imports LRGrammar TokenPatterns ProtoBuf LexicalCast
begin

text \<open>
  The reader of proto definitions of \<^verbatim>\<open>TOOLS/protoc/proto_parser.cpp\<close>: its token patterns, its
  grammar and its callbacks, run by the parser of \<open>LRParser\<close>. The nodes behind \<^verbatim>\<open>iNode *\<close> are the
  values of \<open>proto_value\<close>; a \<^verbatim>\<open>reinterpret_cast\<close> to another type than the node has is
  \<open>Undefined\<close>. The state of the client is the \<^verbatim>\<open>ProtoDef\<close> that \<^verbatim>\<open>ProtoDefBuilder\<close> fills.
\<close>

section \<open>Tokens\<close>

text \<open>\<open>STR\<close> of the source is \<open>STR_TOKEN\<close> here, as \<open>STR\<close> is syntax of HOL.\<close>

datatype eTokenTypes =
    PACKAGE
  | IMPORT
  | MESSAGE
  | SERVICE
  | ENUM
  | RPC
  | RETURNS
  | REPEATED
  | INT64
  | UINT64
  | SINT64
  | FIXED64
  | SFIXED64
  | DOUBLE
  | FLOAT
  | INT32
  | UINT32
  | SINT32
  | FIXED32
  | SFIXED32
  | STRING
  | BYTES
  | BOOL
  | IDENT
  | STR_TOKEN
  | WS
  | NUM
  | EOL
  | EQUALS
  | COMMENT
  | OPEN_BRACE
  | CLOSE_BRACE
  | OPEN_PEREN
  | CLOSE_PEREN

fun eTokenTypes_names :: "eTokenTypes \<Rightarrow> string" where
  "eTokenTypes_names PACKAGE = ''PACKAGE''"
| "eTokenTypes_names IMPORT = ''IMPORT''"
| "eTokenTypes_names MESSAGE = ''MESSAGE''"
| "eTokenTypes_names SERVICE = ''SERVICE''"
| "eTokenTypes_names ENUM = ''ENUM''"
| "eTokenTypes_names RPC = ''RPC''"
| "eTokenTypes_names RETURNS = ''RETURNS''"
| "eTokenTypes_names REPEATED = ''REPEATED''"
| "eTokenTypes_names INT64 = ''INT64''"
| "eTokenTypes_names UINT64 = ''UINT64''"
| "eTokenTypes_names SINT64 = ''SINT64''"
| "eTokenTypes_names FIXED64 = ''FIXED64''"
| "eTokenTypes_names SFIXED64 = ''SFIXED64''"
| "eTokenTypes_names DOUBLE = ''DOUBLE''"
| "eTokenTypes_names FLOAT = ''FLOAT''"
| "eTokenTypes_names INT32 = ''INT32''"
| "eTokenTypes_names UINT32 = ''UINT32''"
| "eTokenTypes_names SINT32 = ''SINT32''"
| "eTokenTypes_names FIXED32 = ''FIXED32''"
| "eTokenTypes_names SFIXED32 = ''SFIXED32''"
| "eTokenTypes_names STRING = ''STRING''"
| "eTokenTypes_names BYTES = ''BYTES''"
| "eTokenTypes_names BOOL = ''BOOL''"
| "eTokenTypes_names IDENT = ''IDENT''"
| "eTokenTypes_names STR_TOKEN = ''STR''"
| "eTokenTypes_names WS = ''WS''"
| "eTokenTypes_names NUM = ''NUM''"
| "eTokenTypes_names EOL = ''EOL''"
| "eTokenTypes_names EQUALS = ''EQUALS''"
| "eTokenTypes_names COMMENT = ''COMMENT''"
| "eTokenTypes_names OPEN_BRACE = ''OPEN_BRACE''"
| "eTokenTypes_names CLOSE_BRACE = ''CLOSE_BRACE''"
| "eTokenTypes_names OPEN_PEREN = ''OPEN_PEREN''"
| "eTokenTypes_names CLOSE_PEREN = ''CLOSE_PEREN''"

text \<open>The numbers of the tokens, in the order of the enumeration.\<close>

fun token_value :: "eTokenTypes \<Rightarrow> int" where
  "token_value PACKAGE = 0"
| "token_value IMPORT = 1"
| "token_value MESSAGE = 2"
| "token_value SERVICE = 3"
| "token_value ENUM = 4"
| "token_value RPC = 5"
| "token_value RETURNS = 6"
| "token_value REPEATED = 7"
| "token_value INT64 = 8"
| "token_value UINT64 = 9"
| "token_value SINT64 = 10"
| "token_value FIXED64 = 11"
| "token_value SFIXED64 = 12"
| "token_value DOUBLE = 13"
| "token_value FLOAT = 14"
| "token_value INT32 = 15"
| "token_value UINT32 = 16"
| "token_value SINT32 = 17"
| "token_value FIXED32 = 18"
| "token_value SFIXED32 = 19"
| "token_value STRING = 20"
| "token_value BYTES = 21"
| "token_value BOOL = 22"
| "token_value IDENT = 23"
| "token_value STR_TOKEN = 24"
| "token_value WS = 25"
| "token_value NUM = 26"
| "token_value EOL = 27"
| "token_value EQUALS = 28"
| "token_value COMMENT = 29"
| "token_value OPEN_BRACE = 30"
| "token_value CLOSE_BRACE = 31"
| "token_value OPEN_PEREN = 32"
| "token_value CLOSE_PEREN = 33"

text \<open>The patterns of \<^verbatim>\<open>parse\<close>, in order; the keywords include the blank after them.\<close>

definition proto_patterns :: "(eTokenTypes \<times> string) list" where
  "proto_patterns =
     [(WS, [CHR ''('', CHR ''['', CHR '' '', CHR 0x09, CHR 0x0A, CHR 0x0D, CHR '']'', CHR ''*'', CHR '')'', CHR ''|'', CHR ''('', CHR ''/'', CHR ''/'', CHR ''.'', CHR ''*'', CHR 0x0A, CHR '')'']),
      (STR_TOKEN, [CHR 0x22, CHR ''['', CHR ''^'', CHR 0x22, CHR '']'', CHR ''*'', CHR 0x22]),
      (EOL, '';''),
      (EQUALS, ''=''),
      (OPEN_BRACE, ''{''),
      (CLOSE_BRACE, ''}''),
      (OPEN_PEREN, [CHR 0x5C, CHR ''('']),
      (CLOSE_PEREN, [CHR 0x5C, CHR '')'']),
      (PACKAGE, ''package ''),
      (IMPORT, ''import ''),
      (MESSAGE, ''message ''),
      (SERVICE, ''service ''),
      (ENUM, ''enum ''),
      (RPC, ''rpc ''),
      (RETURNS, ''returns ''),
      (REPEATED, [CHR 0x5C, CHR ''['', CHR 0x5C, CHR '']'', CHR '' '']),
      (DOUBLE, ''double ''),
      (FLOAT, ''float ''),
      (INT32, ''int32 ''),
      (INT64, ''int64 ''),
      (UINT32, ''uint32 ''),
      (UINT64, ''uint64 ''),
      (SINT32, ''sint32 ''),
      (SINT64, ''sint64 ''),
      (FIXED32, ''fixed32 ''),
      (FIXED64, ''fixed64 ''),
      (SFIXED32, ''sfixed32 ''),
      (SFIXED64, ''sfixed64 ''),
      (BOOL, ''bool ''),
      (STRING, ''string ''),
      (BYTES, ''bytes ''),
      (NUM, [CHR 0x5C, CHR ''d'', CHR ''*'', CHR ''('', CHR 0x5C, CHR ''.'', CHR 0x5C, CHR ''d'', CHR ''+'', CHR '')'', CHR ''?'']),
      (IDENT, [CHR 0x5C, CHR ''a'', CHR ''['', CHR 0x5C, CHR ''.'', CHR 0x5C, CHR ''w'', CHR '']'', CHR ''*''])]"

section \<open>Nodes\<close>

datatype proto_value =
    FieldValue FieldDef
  | FieldList "FieldDef list"
  | RpcValue RpcFunctionDef
  | RpcList "RpcFunctionDef list"
  | EnumValue EnumDef
  | MessageValue MessageDef

type_synonym proto_node = "(eTokenTypes, proto_value) TokenOrNode"
type_synonym proto_proc = "(eTokenTypes, proto_value, ProtoDef) tProc"

fun as_field :: "proto_value \<Rightarrow> fault + FieldDef" where
  "as_field (FieldValue x) = Inr x"
| "as_field _ = Inl Undefined"

fun as_field_list :: "proto_value \<Rightarrow> fault + FieldDef list" where
  "as_field_list (FieldList xs) = Inr xs"
| "as_field_list _ = Inl Undefined"

fun as_rpc :: "proto_value \<Rightarrow> fault + RpcFunctionDef" where
  "as_rpc (RpcValue x) = Inr x"
| "as_rpc _ = Inl Undefined"

fun as_rpc_list :: "proto_value \<Rightarrow> fault + RpcFunctionDef list" where
  "as_rpc_list (RpcList xs) = Inr xs"
| "as_rpc_list _ = Inl Undefined"

fun as_enum :: "proto_value \<Rightarrow> fault + EnumDef" where
  "as_enum (EnumValue x) = Inr x"
| "as_enum _ = Inl Undefined"

fun as_message :: "proto_value \<Rightarrow> fault + MessageDef" where
  "as_message (MessageValue x) = Inr x"
| "as_message _ = Inl Undefined"

definition id_at :: "proto_node list \<Rightarrow> nat \<Rightarrow> fault + eTokenTypes" where
  "id_at nodes i = bind_result (node_at nodes i) (\<lambda>x. Token_getId (m_token x))"

section \<open>Callbacks\<close>

definition setPackage :: "string \<Rightarrow> proto_proc" where
  "setPackage str nodes s =
     (if p_package s \<noteq> [] then Inr (False, None, s)
      else bind_result (text_at str nodes 1) (\<lambda>t. Inr (True, None, s\<lparr>p_package := t\<rparr>)))"

definition addImport :: "string \<Rightarrow> proto_proc" where
  "addImport str nodes s =
     bind_result (text_at str nodes 1) (\<lambda>t.
       Inr (True, None, s\<lparr>p_imports := p_imports s @ [TrimQuotes t]\<rparr>))"

definition addService :: "string \<Rightarrow> proto_proc" where
  "addService str nodes s =
     bind_result (text_at str nodes 1) (\<lambda>name.
     bind_result (cast_at as_rpc_list nodes 3) (\<lambda>rpcs.
       Inr (True, None, s\<lparr>p_services := p_services s @
         [\<lparr>s_name = name, s_package = [], s_functions = rpcs\<rparr>]\<rparr>)))"

fun fixPackage :: "MessageDef \<Rightarrow> string \<Rightarrow> MessageDef" where
  "fixPackage (MessageDef name pkg messages fds enums) package =
     MessageDef name (''::'' @ package) (map (\<lambda>m. fixPackage m (package @ ''::'' @ name)) messages) fds enums"

text \<open>The length of the package is enough fuel for its replacement (\<open>replace_str_spec\<close>).\<close>

definition addMessage :: proto_proc where
  "addMessage nodes s =
     bind_result (cast_at as_message nodes 1) (\<lambda>message.
     bind_result (ReplaceStr (length (p_package s)) (p_package s) ''.'' ''::'') (\<lambda>package.
       Inr (True, None, s\<lparr>p_messages := p_messages s @ [fixPackage message package]\<rparr>)))"

text \<open>
  The value of an enumeration: the constructor of its node leaves \<^verbatim>\<open>m_type\<close> and \<^verbatim>\<open>m_repeated\<close>
  uninitialised and the callback does not set them, \<open>junk\<close> is what they hold.
\<close>

definition genEnumField :: "u32 \<times> bool \<Rightarrow> string \<Rightarrow> proto_proc" where
  "genEnumField junk str nodes s =
     bind_result (text_at str nodes 0) (\<lambda>name.
     bind_result (text_at str nodes 2) (\<lambda>num.
     bind_result (lexical_cast_s32 num) (\<lambda>n.
       Inr (True, Some (FieldValue \<lparr>f_name = name, f_msgType = [], f_type = fst junk,
         f_fieldNum = n, f_repeated = snd junk\<rparr>), s))))"

definition genFieldList :: proto_proc where
  "genFieldList nodes s =
     bind_result (cast_at as_field nodes 0) (\<lambda>x. Inr (True, Some (FieldList [x]), s))"

definition appendFieldList :: proto_proc where
  "appendFieldList nodes s =
     bind_result (cast_at as_field_list nodes 0) (\<lambda>xs.
     bind_result (cast_at as_field nodes 1) (\<lambda>x. Inr (True, Some (FieldList (xs @ [x])), s)))"

definition genRpc :: "string \<Rightarrow> proto_proc" where
  "genRpc str nodes s =
     bind_result (text_at str nodes 1) (\<lambda>name.
     bind_result (text_at str nodes 3) (\<lambda>param.
     bind_result (text_at str nodes 7) (\<lambda>ret.
       Inr (True, Some (RpcValue \<lparr>r_name = name, r_return = ret, r_param = param\<rparr>), s))))"

definition genRpcList :: proto_proc where
  "genRpcList nodes s =
     bind_result (cast_at as_rpc nodes 0) (\<lambda>x. Inr (True, Some (RpcList [x]), s))"

definition appendRpcList :: proto_proc where
  "appendRpcList nodes s =
     bind_result (cast_at as_rpc_list nodes 0) (\<lambda>xs.
     bind_result (cast_at as_rpc nodes 1) (\<lambda>x. Inr (True, Some (RpcList (xs @ [x])), s)))"

definition genEnum :: "string \<Rightarrow> proto_proc" where
  "genEnum str nodes s =
     bind_result (text_at str nodes 1) (\<lambda>name.
     bind_result (cast_at as_field_list nodes 3) (\<lambda>xs.
       Inr (True, Some (EnumValue \<lparr>e_name = name, e_values = xs\<rparr>), s)))"

definition genField :: "string \<Rightarrow> proto_proc" where
  "genField str nodes s =
     bind_result (id_at nodes 0) (\<lambda>i.
     bind_result (if i = IDENT
        then bind_result (text_at str nodes 0) (\<lambda>t. Inr (field_type_value FIELD_MSG, t))
        else Inr (word_of_int (token_value i - token_value INT64), [])) (\<lambda>(ty, msgType).
     bind_result (text_at str nodes 1) (\<lambda>name.
     bind_result (id_at nodes 2) (\<lambda>j.
     bind_result (text_at str nodes (if j = REPEATED then 4 else 3)) (\<lambda>num.
     bind_result (lexical_cast_s32 num) (\<lambda>n.
       Inr (True, Some (FieldValue \<lparr>f_name = name, f_msgType = msgType, f_type = ty,
         f_fieldNum = n, f_repeated = (j = REPEATED)\<rparr>), s)))))))"

definition finalizeMessage :: "string \<Rightarrow> proto_proc" where
  "finalizeMessage str nodes s =
     bind_result (text_at str nodes 1) (\<lambda>name.
     bind_result (cast_at as_message nodes 3) (\<lambda>def.
       Inr (True, Some (MessageValue (MessageDef name (ProtoBuf.m_package def) (m_messages def) (m_fields def) (m_enums def))), s)))"

definition add_child :: "MessageDef \<Rightarrow> MessageDef \<Rightarrow> MessageDef" where
  "add_child def child = MessageDef (ProtoBuf.m_name def) (ProtoBuf.m_package def) (m_messages def @ [child]) (m_fields def) (m_enums def)"

definition genMessageBodyMessage :: proto_proc where
  "genMessageBodyMessage nodes s =
     bind_result (cast_at as_message nodes 0) (\<lambda>def.
     bind_result (cast_at as_message nodes 1) (\<lambda>child.
       Inr (True, Some (MessageValue (add_child def child)), s)))"

definition genMessageMessageBody :: proto_proc where
  "genMessageMessageBody nodes s =
     bind_result (cast_at as_message nodes 0) (\<lambda>child.
     bind_result (cast_at as_message nodes 1) (\<lambda>def.
       Inr (True, Some (MessageValue (add_child def child)), s)))"

definition genMessageEnum :: proto_proc where
  "genMessageEnum nodes s =
     bind_result (if length nodes = 1 then Inr empty_message else cast_at as_message nodes 0) (\<lambda>def.
     bind_result (cast_at as_enum nodes (if length nodes = 1 then 0 else 1)) (\<lambda>e.
       Inr (True, Some (MessageValue (MessageDef (ProtoBuf.m_name def) (ProtoBuf.m_package def) (m_messages def) (m_fields def) (m_enums def @ [e]))), s)))"

definition genMessageField :: proto_proc where
  "genMessageField nodes s =
     bind_result (if length nodes = 1 then Inr empty_message else cast_at as_message nodes 0) (\<lambda>def.
     bind_result (cast_at as_field nodes (if length nodes = 1 then 0 else 1)) (\<lambda>x.
       Inr (True, Some (MessageValue (MessageDef (ProtoBuf.m_name def) (ProtoBuf.m_package def) (m_messages def) (m_fields def @ [x]) (m_enums def))), s)))"

section \<open>Grammar\<close>

text \<open>The tokens from \<^verbatim>\<open>INT64\<close> to \<^verbatim>\<open>BOOL\<close>, over which the loops for the fields run.\<close>

definition field_types :: "eTokenTypes list" where
  "field_types = [INT64, UINT64, SINT64, FIXED64, SFIXED64, DOUBLE, FLOAT, INT32, UINT32, SINT32,
     FIXED32, SFIXED32, STRING, BYTES, BOOL]"

text \<open>
  The rules by the order of \<^verbatim>\<open>addRule\<close>: 0 \<^verbatim>\<open>package\<close>, 1 \<^verbatim>\<open>import\<close>, 2 \<^verbatim>\<open>field\<close>,
  3 \<^verbatim>\<open>enumfield\<close>, 4 \<^verbatim>\<open>enumfieldList\<close>, 5 \<^verbatim>\<open>enum\<close>, 6 \<^verbatim>\<open>messageBody\<close>, 7 \<^verbatim>\<open>message\<close>,
  8 \<^verbatim>\<open>serviceRpc\<close>, 9 \<^verbatim>\<open>serviceRpcList\<close>, 10 \<^verbatim>\<open>service\<close>, 11 \<^verbatim>\<open>file\<close>.
\<close>

definition proto_steps :: "u32 \<times> bool \<Rightarrow> string \<Rightarrow> (eTokenTypes, proto_value, ProtoDef) grammar_step list" where
  "proto_steps junk str =
     [AddRule ''package'',
      AddChain 0 (Some (setPackage str)) [Tok PACKAGE, Tok IDENT, Tok EOL],
      AddRule ''import'',
      AddChain 1 (Some (addImport str)) [Tok IMPORT, Tok STR_TOKEN, Tok EOL],
      AddRule ''field''] @
     map (\<lambda>t. AddChain 2 (Some (genField str)) [Tok t, Tok IDENT, Tok EQUALS, Tok NUM, Tok EOL]) field_types @
     map (\<lambda>t. AddChain 2 (Some (genField str)) [Tok t, Tok IDENT, Tok REPEATED, Tok EQUALS, Tok NUM, Tok EOL]) field_types @
     [AddChain 2 (Some (genField str)) [Tok IDENT, Tok IDENT, Tok EQUALS, Tok NUM, Tok EOL],
      AddChain 2 (Some (genField str)) [Tok IDENT, Tok IDENT, Tok REPEATED, Tok EQUALS, Tok NUM, Tok EOL],
      AddRule ''enumfield'',
      AddChain 3 (Some (genEnumField junk str)) [Tok IDENT, Tok EQUALS, Tok NUM, Tok EOL],
      AddRule ''enumfieldList'',
      AddChain 4 (Some appendFieldList) [Nt 4, Nt 3],
      AddChain 4 (Some genFieldList) [Nt 3],
      AddRule ''enum'',
      AddChain 5 (Some (genEnum str)) [Tok ENUM, Tok IDENT, Tok OPEN_BRACE, Nt 4, Tok CLOSE_BRACE],
      AddRule ''messageBody'',
      AddRule ''message'',
      AddChain 7 (Some (finalizeMessage str)) [Tok MESSAGE, Tok IDENT, Tok OPEN_BRACE, Nt 6, Tok CLOSE_BRACE],
      AddChain 6 (Some genMessageMessageBody) [Nt 7, Nt 6],
      AddChain 6 (Some genMessageBodyMessage) [Nt 6, Nt 7],
      AddChain 6 (Some genMessageEnum) [Nt 6, Nt 5],
      AddChain 6 (Some genMessageField) [Nt 6, Nt 2],
      AddChain 6 (Some genMessageEnum) [Nt 5],
      AddChain 6 (Some genMessageField) [Nt 2],
      AddRule ''serviceRpc'',
      AddChain 8 (Some (genRpc str)) [Tok RPC, Tok IDENT, Tok OPEN_PEREN, Tok IDENT, Tok CLOSE_PEREN,
        Tok RETURNS, Tok OPEN_PEREN, Tok IDENT, Tok CLOSE_PEREN, Tok EOL],
      AddRule ''serviceRpcList'',
      AddChain 9 (Some appendRpcList) [Nt 9, Nt 8],
      AddChain 9 (Some genRpcList) [Nt 8],
      AddRule ''service'',
      AddChain 10 (Some (addService str)) [Tok SERVICE, Tok IDENT, Tok OPEN_BRACE, Nt 9, Tok CLOSE_BRACE],
      AddRule ''file'',
      AddChain 11 None [Nt 0],
      AddChain 11 None [Nt 11, Nt 1],
      AddChain 11 None [Nt 11, Nt 10],
      AddChain 11 (Some addMessage) [Nt 11, Nt 7]]"

text \<open>\<^verbatim>\<open>parse\<close>: whether the file is accepted, and the definition as the call leaves it.\<close>

definition proto_tokenizer :: "nat \<Rightarrow> nat \<Rightarrow> fault + eTokenTypes tokenizer_list" where
  "proto_tokenizer pf js = compile_patterns pf js proto_patterns"

definition proto_parse :: "nat \<Rightarrow> nat \<Rightarrow> nat \<Rightarrow> nat \<Rightarrow> eTokenTypes Token \<Rightarrow> nat \<Rightarrow> u32 \<times> bool \<Rightarrow> ProtoDef \<Rightarrow> string \<Rightarrow> fault + bool \<times> ProtoDef" where
  "proto_parse pf js tf fuel jt jr junk def fileData =
     bind_result (proto_tokenizer pf js) (\<lambda>toks.
     bind_result (build_grammar jt jr (proto_steps junk fileData) (LRParser_new toks 1024)) (\<lambda>p.
     bind_result (LRParser_parse tf fuel jt jr eTokenTypes_names p WS fileData def) (\<lambda>(ok, msgs, def').
       Inr (ok, def'))))"

end
