(* ===== verification/ProtoSpec.thy ===== *)
theory ProtoSpec
  imports ProtoParser
begin

text \<open>
  The reader of proto definitions is total and type-safe: for every text it returns, or has met a
  number that is not an \<^verbatim>\<open>int\<close>.
\<close>

section \<open>The grammar\<close>

definition proto_productions :: "u32 \<times> bool \<Rightarrow> string \<Rightarrow> (eTokenTypes, proto_value, ProtoDef) production list" where
  "proto_productions junk str = concat (map (chains_of (proto_steps junk str)) [0..<12])"

lemma proto_productions_list:
  "proto_productions junk str =
    [(0, [Tok PACKAGE, Tok IDENT, Tok EOL], Some (setPackage str)),
     (1, [Tok IMPORT, Tok STR_TOKEN, Tok EOL], Some (addImport str))] @
    map (\<lambda>t. (2, [Tok t, Tok IDENT, Tok EQUALS, Tok NUM, Tok EOL], Some (genField str))) field_types @
    map (\<lambda>t. (2, [Tok t, Tok IDENT, Tok REPEATED, Tok EQUALS, Tok NUM, Tok EOL], Some (genField str))) field_types @
    [(2, [Tok IDENT, Tok IDENT, Tok EQUALS, Tok NUM, Tok EOL], Some (genField str)),
     (2, [Tok IDENT, Tok IDENT, Tok REPEATED, Tok EQUALS, Tok NUM, Tok EOL], Some (genField str)),
     (3, [Tok IDENT, Tok EQUALS, Tok NUM, Tok EOL], Some (genEnumField junk str)),
     (4, [Nt 4, Nt 3], Some appendFieldList),
     (4, [Nt 3], Some genFieldList),
     (5, [Tok ENUM, Tok IDENT, Tok OPEN_BRACE, Nt 4, Tok CLOSE_BRACE], Some (genEnum str)),
     (6, [Nt 7, Nt 6], Some genMessageMessageBody),
     (6, [Nt 6, Nt 7], Some genMessageBodyMessage),
     (6, [Nt 6, Nt 5], Some genMessageEnum),
     (6, [Nt 6, Nt 2], Some genMessageField),
     (6, [Nt 5], Some genMessageEnum),
     (6, [Nt 2], Some genMessageField),
     (7, [Tok MESSAGE, Tok IDENT, Tok OPEN_BRACE, Nt 6, Tok CLOSE_BRACE], Some (finalizeMessage str)),
     (8, [Tok RPC, Tok IDENT, Tok OPEN_PEREN, Tok IDENT, Tok CLOSE_PEREN, Tok RETURNS, Tok OPEN_PEREN,
        Tok IDENT, Tok CLOSE_PEREN, Tok EOL], Some (genRpc str)),
     (9, [Nt 9, Nt 8], Some appendRpcList),
     (9, [Nt 8], Some genRpcList),
     (10, [Tok SERVICE, Tok IDENT, Tok OPEN_BRACE, Nt 9, Tok CLOSE_BRACE], Some (addService str)),
     (11, [Nt 0], None),
     (11, [Nt 11, Nt 1], None),
     (11, [Nt 11, Nt 10], None),
     (11, [Nt 11, Nt 7], Some addMessage)]"
  by (simp add: proto_productions_def proto_steps_def upt_rec)

lemma proto_grammar_built:
  "\<exists>p. build_grammar jt jr (proto_steps junk str) (LRParser_new toks 1024) = Inr p \<and>
    rules_ok (m_rules p) \<and> nonempty_chains (m_rules p) \<and> m_tokenizer p = toks \<and>
    length (m_rules p) = 12 \<and> productions (m_rules p) = proto_productions junk str"
proof -
  have "steps_ok 0 (proto_steps junk str)" "count_rules (proto_steps junk str) = 12"
    by (simp_all add: proto_steps_def MAX_LR_PARSER_RULES_def)
  with grammar_is_built [of "proto_steps junk str" jt jr toks 1024] show ?thesis
    by (simp add: proto_productions_def)
qed

section \<open>Numbers and packages\<close>

text \<open>All numbers that can be read somewhere in a text are of type \<^verbatim>\<open>int\<close>.\<close>

definition numbers_ok :: "string \<Rightarrow> bool" where
  "numbers_ok str \<longleftrightarrow> (\<forall>i n. is_int (take n (drop i str)))"

lemma token_text_is_int: "numbers_ok str \<Longrightarrow> is_int (token_text str t)"
  by (simp add: numbers_ok_def token_text_def)

text \<open>The package with the separators of C++.\<close>

definition package_path :: "string \<Rightarrow> string" where
  "package_path p = concat (map (\<lambda>c. if c = CHR ''.'' then ''::'' else [c]) p)"

lemma count_matches_le: "count_matches m input \<le> Suc (length input)"
proof (induction "length input" arbitrary: input rule: less_induct)
  case less
  show ?case
  proof (cases "find_str m input")
    case (Some i)
    have "count_matches m (drop (i + 1) input) \<le> Suc (length (drop (i + 1) input))" if "i < length input"
      using that by (intro less) simp
    with Some show ?thesis by (subst count_matches.simps) auto
  qed (subst count_matches.simps, simp)
qed


lemma replaced_dots: "replaced ''.'' ''::'' p = package_path p"
proof (induction p)
  case (Cons c p)
  show ?case
  proof (cases "c = CHR ''.''")
    case True
    show ?thesis unfolding True using Cons by (subst replaced.simps) (simp add: package_path_def)
  next
    case False
    with Cons show ?thesis by (subst replaced.simps) (auto simp: package_path_def)
  qed
qed (subst replaced.simps, simp add: package_path_def)

lemma package_replaced:
  assumes "length p < 2 ^ 61"
  shows "ReplaceStr (length p) p ''.'' ''::'' = Inr (package_path p)"
proof -
  let ?n = "length p + count_matches ''.'' p + 1"
  have "replace_reserve p ''.'' ''::'' = word_of_nat ?n"
    by (simp add: replace_reserve_def Let_def)
  moreover have n: "?n < 2 ^ 63" using assms count_matches_le [of "''.''" p] by simp
  moreover have "unat (word_of_nat ?n :: u64) = ?n" unfolding unat_of_nat using n
    by (intro mod_less) simp
  ultimately have "unat (replace_reserve p ''.'' ''::'') = ?n" by simp
  then have "replace_reserve p ''.'' ''::'' < 2 ^ 63" using n by (simp add: word_less_nat_alt)
  moreover have "''.'' \<noteq> []" by simp
  ultimately show ?thesis using replace_loop_replaced [of "''.''" p "length p"]
    by (simp add: ReplaceStr_def replaced_dots)
qed

section \<open>Type safety\<close>

text \<open>
  What is true of the definitions that are made: a field has one of the types a field can be
  declared with, and names a message exactly if it is of that type; an enumeration has values.
\<close>

definition fd_ok :: "FieldDef \<Rightarrow> bool" where
  "fd_ok x \<longleftrightarrow> unat (f_type x) < 15 \<and> f_msgType x = [] \<or> f_type x = field_type_value FIELD_MSG"

definition enum_ok :: "EnumDef \<Rightarrow> bool" where
  "enum_ok e \<longleftrightarrow> e_values e \<noteq> []"

fun msg_ok :: "MessageDef \<Rightarrow> bool" where
  "msg_ok (MessageDef n p ms fs es) \<longleftrightarrow> list_all msg_ok ms \<and> list_all fd_ok fs \<and> list_all enum_ok es"

lemma msg_ok_iff: "msg_ok m \<longleftrightarrow> list_all msg_ok (m_messages m) \<and> list_all fd_ok (m_fields m) \<and> list_all enum_ok (m_enums m)"
  by (cases m) simp

lemma msg_ok_fixPackage: "msg_ok m \<Longrightarrow> msg_ok (fixPackage m p)"
  by (induction m p rule: fixPackage.induct) (simp add: list_all_iff)

lemma empty_message_ok [simp]: "msg_ok empty_message"
  by (simp add: empty_message_def)

text \<open>The types of the nodes of each rule.\<close>

definition proto_type :: "nat \<Rightarrow> proto_value option \<Rightarrow> bool" where
  "proto_type r n \<longleftrightarrow>
     (if r = 2 then \<exists>x. n = Some (FieldValue x) \<and> fd_ok x
      else if r = 3 then \<exists>x. n = Some (FieldValue x)
      else if r = 4 then \<exists>xs. n = Some (FieldList xs) \<and> xs \<noteq> []
      else if r = 5 then \<exists>e. n = Some (EnumValue e) \<and> enum_ok e
      else if r = 6 \<or> r = 7 then \<exists>m. n = Some (MessageValue m) \<and> msg_ok m
      else if r = 8 then \<exists>x. n = Some (RpcValue x)
      else if r = 9 then \<exists>xs. n = Some (RpcList xs) \<and> xs \<noteq> []
      else n = None)"

lemma proto_type_simps [simp]:
  "proto_type 0 n \<longleftrightarrow> n = None"
  "proto_type (Suc 0) n \<longleftrightarrow> n = None"
  "proto_type 1 n \<longleftrightarrow> n = None"
  "proto_type 2 n \<longleftrightarrow> (\<exists>x. n = Some (FieldValue x) \<and> fd_ok x)"
  "proto_type 3 n \<longleftrightarrow> (\<exists>x. n = Some (FieldValue x))"
  "proto_type 4 n \<longleftrightarrow> (\<exists>xs. n = Some (FieldList xs) \<and> xs \<noteq> [])"
  "proto_type 5 n \<longleftrightarrow> (\<exists>e. n = Some (EnumValue e) \<and> enum_ok e)"
  "proto_type 6 n \<longleftrightarrow> (\<exists>m. n = Some (MessageValue m) \<and> msg_ok m)"
  "proto_type 7 n \<longleftrightarrow> (\<exists>m. n = Some (MessageValue m) \<and> msg_ok m)"
  "proto_type 8 n \<longleftrightarrow> (\<exists>x. n = Some (RpcValue x))"
  "proto_type 9 n \<longleftrightarrow> (\<exists>xs. n = Some (RpcList xs) \<and> xs \<noteq> [])"
  "proto_type 10 n \<longleftrightarrow> n = None"
  "proto_type 11 n \<longleftrightarrow> n = None"
  by (simp_all add: proto_type_def)

text \<open>What the call does to the definition, wherever it stops.\<close>

definition proto_grown :: "ProtoDef \<Rightarrow> ProtoDef \<Rightarrow> bool" where
  "proto_grown d s \<longleftrightarrow> (p_package d = [] \<or> p_package s = p_package d) \<and>
     (\<exists>is ms rs. p_imports s = p_imports d @ is \<and>
       p_messages s = p_messages d @ ms \<and> list_all msg_ok ms \<and>
       p_services s = p_services d @ rs \<and> list_all (\<lambda>r. s_functions r \<noteq> []) rs)"

definition package_bound :: "ProtoDef \<Rightarrow> bool" where
  "package_bound s \<longleftrightarrow> length (p_package s) < 2 ^ 61"

definition proto_inv :: "ProtoDef \<Rightarrow> ProtoDef \<Rightarrow> bool" where
  "proto_inv d s \<longleftrightarrow> proto_grown d s \<and> package_bound s"

lemma proto_inv_simps:
  "proto_inv d s \<Longrightarrow> p_package s = [] \<Longrightarrow> length t < 2 ^ 61 \<Longrightarrow> proto_inv d (s\<lparr>p_package := t\<rparr>)"
  "proto_inv d s \<Longrightarrow> proto_inv d (s\<lparr>p_imports := p_imports s @ [x]\<rparr>)"
  "proto_inv d s \<Longrightarrow> msg_ok m \<Longrightarrow> proto_inv d (s\<lparr>p_messages := p_messages s @ [m]\<rparr>)"
  "proto_inv d s \<Longrightarrow> s_functions r \<noteq> [] \<Longrightarrow> proto_inv d (s\<lparr>p_services := p_services s @ [r]\<rparr>)"
  unfolding proto_inv_def proto_grown_def package_bound_def by force+

definition number_faults :: "string \<Rightarrow> fault set" where
  "number_faults str = (if numbers_ok str then {} else {NotRepresentable})"

lemma number_read: "result_ok (number_faults str) (\<lambda>_. True) (lexical_cast_s32 (token_text str t))"
  by (auto simp: lexical_cast_s32_def number_faults_def token_text_is_int)

lemma result_ok_number:
  "(\<And>n. result_ok (number_faults str) Q (f n)) \<Longrightarrow>
   result_ok (number_faults str) Q (bind_result (lexical_cast_s32 (token_text str t)) f)"
  using number_read by (rule result_ok_bind)

lemmas proto_access = text_at_def cast_at_def value_at_def id_at_def list_all2_Cons1

abbreviation keeps :: "string \<Rightarrow> ProtoDef \<Rightarrow> (eTokenTypes, proto_value, ProtoDef) production \<Rightarrow> bool" where
  "keeps str d \<equiv> callback_contract (number_faults str) proto_type (proto_inv d) 12"

lemma field_type_range: "t \<in> set field_types \<Longrightarrow> t \<noteq> IDENT \<and> unat (word_of_int (token_value t - 8) :: u32) < 15"
  by (auto simp: field_types_def)

lemma keeps_field:
  assumes "t \<in> set field_types \<or> t = IDENT"
  shows "keeps str d (2, [Tok t, Tok IDENT, Tok EQUALS, Tok NUM, Tok EOL], Some (genField str))"
    and "keeps str d (2, [Tok t, Tok IDENT, Tok REPEATED, Tok EQUALS, Tok NUM, Tok EOL], Some (genField str))"
  using assms
  by - (rule callback_contract_sees,
    auto simp: proto_access genField_def fd_ok_def dest!: field_type_range intro!: result_ok_number)+

lemma keeps_enum:
  "keeps str d (3, [Tok IDENT, Tok EQUALS, Tok NUM, Tok EOL], Some (genEnumField junk str))"
  "keeps str d (4, [Nt 4, Nt 3], Some appendFieldList)"
  "keeps str d (4, [Nt 3], Some genFieldList)"
  "keeps str d (5, [Tok ENUM, Tok IDENT, Tok OPEN_BRACE, Nt 4, Tok CLOSE_BRACE], Some (genEnum str))"
  by (rule callback_contract_sees, auto simp: proto_access genEnumField_def appendFieldList_def genFieldList_def
    genEnum_def enum_ok_def intro!: result_ok_number)+

lemmas message_callbacks = genMessageMessageBody_def genMessageBodyMessage_def genMessageEnum_def genMessageField_def
  finalizeMessage_def add_child_def

lemma keeps_message:
  "keeps str d (6, [Nt 7, Nt 6], Some genMessageMessageBody)"
  "keeps str d (6, [Nt 6, Nt 7], Some genMessageBodyMessage)"
  "keeps str d (6, [Nt 6, Nt 5], Some genMessageEnum)"
  "keeps str d (6, [Nt 6, Nt 2], Some genMessageField)"
  "keeps str d (6, [Nt 5], Some genMessageEnum)"
  "keeps str d (6, [Nt 2], Some genMessageField)"
  "keeps str d (7, [Tok MESSAGE, Tok IDENT, Tok OPEN_BRACE, Nt 6, Tok CLOSE_BRACE], Some (finalizeMessage str))"
  by (rule callback_contract_sees, auto simp: proto_access message_callbacks msg_ok_iff empty_message_def)+

lemma keeps_service:
  "keeps str d (8, [Tok RPC, Tok IDENT, Tok OPEN_PEREN, Tok IDENT, Tok CLOSE_PEREN, Tok RETURNS, Tok OPEN_PEREN,
     Tok IDENT, Tok CLOSE_PEREN, Tok EOL], Some (genRpc str))"
  "keeps str d (9, [Nt 9, Nt 8], Some appendRpcList)"
  "keeps str d (9, [Nt 8], Some genRpcList)"
  "keeps str d (10, [Tok SERVICE, Tok IDENT, Tok OPEN_BRACE, Nt 9, Tok CLOSE_BRACE], Some (addService str))"
  by (rule callback_contract_sees, auto simp: proto_access genRpc_def appendRpcList_def genRpcList_def
    addService_def proto_inv_simps)+

lemma token_text_length: "length (token_text str t) \<le> length str"
  by (simp add: token_text_def)

lemma inv_package_replaced:
  "proto_inv d s \<Longrightarrow> ReplaceStr (length (p_package s)) (p_package s) ''.'' ''::'' = Inr (package_path (p_package s))"
  by (rule package_replaced) (simp add: proto_inv_def package_bound_def)

lemma keeps_file:
  assumes "length str < 2 ^ 61"
  shows "keeps str d (0, [Tok PACKAGE, Tok IDENT, Tok EOL], Some (setPackage str))"
    and "keeps str d (1, [Tok IMPORT, Tok STR_TOKEN, Tok EOL], Some (addImport str))"
    and "keeps str d (11, [Nt 0], None)" "keeps str d (11, [Nt 11, Nt 1], None)" "keeps str d (11, [Nt 11, Nt 10], None)"
    and "keeps str d (11, [Nt 11, Nt 7], Some addMessage)"
proof -
  have len: "length (token_text str t) < 2 ^ 61" for t using token_text_length [of str t] assms by linarith
  show "keeps str d (0, [Tok PACKAGE, Tok IDENT, Tok EOL], Some (setPackage str))"
    by (rule callback_contract_sees) (auto simp: proto_access setPackage_def proto_inv_simps len [simplified])
  show "keeps str d (1, [Tok IMPORT, Tok STR_TOKEN, Tok EOL], Some (addImport str))"
    by (rule callback_contract_sees) (auto simp: proto_access addImport_def proto_inv_simps)
  show "keeps str d (11, [Nt 11, Nt 7], Some addMessage)"
    by (rule callback_contract_sees) (auto simp: proto_access addMessage_def proto_inv_simps msg_ok_fixPackage
      inv_package_replaced)
qed (simp_all add: callback_contract_def)

lemma proto_contract:
  assumes "length str < 2 ^ 61"
  shows "list_all (keeps str d) (proto_productions junk str)"
proof -
  have "list_all (keeps str d) (map (\<lambda>t. (2, [Tok t, Tok IDENT, Tok EQUALS, Tok NUM, Tok EOL], Some (genField str))) field_types)"
    "list_all (keeps str d) (map (\<lambda>t. (2, [Tok t, Tok IDENT, Tok REPEATED, Tok EQUALS, Tok NUM, Tok EOL], Some (genField str))) field_types)"
    using keeps_field by (auto simp: list_all_iff)
  moreover have "keeps str d (2, [Tok IDENT, Tok IDENT, Tok EQUALS, Tok NUM, Tok EOL], Some (genField str))"
    "keeps str d (2, [Tok IDENT, Tok IDENT, Tok REPEATED, Tok EQUALS, Tok NUM, Tok EOL], Some (genField str))"
    using keeps_field by blast+
  ultimately show ?thesis unfolding proto_productions_list list_all_append
    by (simp only: list.pred_inject simp_thms keeps_enum keeps_message keeps_service keeps_file [OF assms])
qed

text \<open>The ranks of the rules that rename another.\<close>

definition proto_rank :: "nat \<Rightarrow> nat" where
  "proto_rank r = (if r = 4 \<or> r = 6 \<or> r = 9 \<or> r = 11 then 1 else 0)"

lemma proto_grammar_contract:
  assumes "rules_ok (m_rules p)" "length (m_rules p) = 12" "productions (m_rules p) = proto_productions junk str"
  shows "length str < 2 ^ 61 \<Longrightarrow> callbacks_ok (number_faults str) proto_type (proto_inv d) (m_rules p)"
    and "unit_ranked (m_rules p) proto_rank 2"
proof -
  show "callbacks_ok (number_faults str) proto_type (proto_inv d) (m_rules p)" if "length str < 2 ^ 61"
    by (rule callbacks_ok_productions [OF assms(1)]) (simp only: assms(2,3) proto_contract [OF that])
  show "unit_ranked (m_rules p) proto_rank 2"
    by (rule unit_ranked_productions [OF assms(1)])
      (simp_all add: assms(2,3) proto_productions_list production_ranked_def proto_rank_def list_all_iff ball_Un)
qed

section \<open>Tokens\<close>

text \<open>The tokens that are always the same, with their texts.\<close>

definition fixed_texts :: "(eTokenTypes \<times> string) list" where
  "fixed_texts =
     [(EOL, '';''), (EQUALS, ''=''), (OPEN_BRACE, ''{''), (CLOSE_BRACE, ''}''), (OPEN_PEREN, ''(''),
      (CLOSE_PEREN, '')''), (PACKAGE, ''package ''), (IMPORT, ''import ''), (MESSAGE, ''message ''),
      (SERVICE, ''service ''), (ENUM, ''enum ''), (RPC, ''rpc ''), (RETURNS, ''returns ''),
      (REPEATED, ''[] ''), (DOUBLE, ''double ''), (FLOAT, ''float ''), (INT32, ''int32 ''),
      (INT64, ''int64 ''), (UINT32, ''uint32 ''), (UINT64, ''uint64 ''), (SINT32, ''sint32 ''),
      (SINT64, ''sint64 ''), (FIXED32, ''fixed32 ''), (FIXED64, ''fixed64 ''), (SFIXED32, ''sfixed32 ''),
      (SFIXED64, ''sfixed64 ''), (BOOL, ''bool ''), (STRING, ''string ''), (BYTES, ''bytes '')]"

definition proto_rexps :: "(eTokenTypes \<times> rexp) list" where
  "proto_rexps =
     [(WS, Alt (Star (Alt (lit_atom CHR '' '') (Alt (lit_atom CHR 0x09) (Alt (lit_atom CHR 0x0A) (lit_atom CHR 0x0D)))))
        (Cat (Cat (Cat (lit_atom CHR ''/'') (lit_atom CHR ''/'')) (Star (range_atom CHR ''.''))) (lit_atom CHR 0x0A))),
      (STR_TOKEN, Cat (Cat (lit_atom CHR 0x22) (Star (Atom (ReToken INV_LITERAL CHR 0x22)))) (lit_atom CHR 0x22))] @
     map (\<lambda>(i, s). (i, lits s)) fixed_texts @
     [(NUM, Cat (Star (range_atom CHR ''d'')) (Opt (Cat (lit_atom CHR ''.'') (Plus (range_atom CHR ''d''))))),
      (IDENT, Cat (range_atom CHR ''a'') (Star (Alt (lit_atom CHR ''.'') (range_atom CHR ''w''))))]"

lemma proto_patterns_are: "patterns_are 4 proto_patterns proto_rexps"
  by (simp add: patterns_are_def proto_patterns_def proto_rexps_def fixed_texts_def lits_def pattern_defs)

lemma proto_tokenizer_exists:
  "\<exists>toks N. proto_tokenizer 4 js = Inr toks \<and> (\<forall>tf \<ge> N. tokenizer_is tf toks proto_rexps)"
  unfolding proto_tokenizer_def by (rule patterns_compile [OF proto_patterns_are])

section \<open>Every text is parsed\<close>

lemma proto_parse_run:
  assumes "proto_tokenizer pf js = Inr toks" "tokenizer_is tf toks proto_rexps"
    and "length fileData < 2 ^ 61" "length (p_package def) < 2 ^ 61" "length fileData * 4 + 2 < fuel"
  shows "case proto_parse pf js tf fuel jt jr junk def fileData of
      Inl e \<Rightarrow> e \<in> number_faults fileData
    | Inr (ok, def') \<Rightarrow> proto_grown def def'"
proof -
  obtain p where p: "build_grammar jt jr (proto_steps junk fileData) (LRParser_new toks 1024) = Inr p"
    "rules_ok (m_rules p)" "nonempty_chains (m_rules p)" "m_tokenizer p = toks" "length (m_rules p) = 12"
    "productions (m_rules p) = proto_productions junk fileData" using proto_grammar_built by blast
  obtain ts pos where run: "token_run tf (m_tokenizer p) jt fileData 0 ts pos"
    using tokens_exist [OF assms(2)] p(4) by blast
  have inv: "proto_inv def def" using assms(4) by (simp add: proto_inv_def proto_grown_def package_bound_def)
  have rules: "m_rules p \<noteq> []" using p(5) by auto
  have fuel: "length fileData * (2 + 2) + 2 < fuel" using assms(5) by simp
  have "case LRParser_parse tf fuel jt jr eTokenTypes_names p WS fileData def of
      Inl e \<Rightarrow> e \<in> number_faults fileData
    | Inr (ok, msgs, s') \<Rightarrow> proto_inv def s' \<and> (msgs = [] \<longleftrightarrow> ok \<or> input_word WS ts = [])"
    by (rule parse_returns [OF p(2,3) proto_grammar_contract(2) [OF p(2,5,6)]
      proto_grammar_contract(1) [OF p(2,5,6) assms(3)] inv rules run fuel])
  then show ?thesis by (auto simp: proto_parse_def assms(1) p(1) proto_inv_def split: sum.splits)
qed

text \<open>
  C16. \<^verbatim>\<open>proto::parse\<close> returns for every text, but for its numbers. Its tokenizer compiles, and for
  every text and every definition to fill, with packages of a possible size, the parser ends after at
  most \<open>4 * n + 3\<close> rounds for \<open>n\<close> characters; no callback reads beyond its nodes or casts a
  node to a type it does not have. The only fault is a number that \<^verbatim>\<open>atoi\<close> cannot represent, and only
  for a text that has such a number. Whether the text is accepted or not, the definition is only
  added to: a package is set once, imports, messages and services are appended, at any depth of the new
  messages every field has a type that can be declared (so not \<^verbatim>\<open>FIELD_ENUM\<close>) and every
  enumeration has values, and every new service has functions.
\<close>

theorem proto_parse_total:
  "\<exists>N. \<forall>tf \<ge> N. \<forall>fuel jt jr junk def fileData.
     length fileData < 2 ^ 61 \<longrightarrow> length (p_package def) < 2 ^ 61 \<longrightarrow> length fileData * 4 + 2 < fuel \<longrightarrow>
     (case proto_parse 4 js tf fuel jt jr junk def fileData of
        Inl e \<Rightarrow> e = NotRepresentable \<and> \<not> numbers_ok fileData
      | Inr (ok, def') \<Rightarrow>
          (p_package def = [] \<or> p_package def' = p_package def) \<and>
          (\<exists>is ms rs. p_imports def' = p_imports def @ is \<and>
             p_messages def' = p_messages def @ ms \<and> list_all msg_ok ms \<and>
             p_services def' = p_services def @ rs \<and> list_all (\<lambda>r. s_functions r \<noteq> []) rs))"
proof -
  obtain toks N where toks: "proto_tokenizer 4 js = Inr toks" "\<forall>tf \<ge> N. tokenizer_is tf toks proto_rexps"
    using proto_tokenizer_exists by blast
  have faults: "e \<in> number_faults str \<longleftrightarrow> e = NotRepresentable \<and> \<not> numbers_ok str" for e str
    by (simp add: number_faults_def)
  show ?thesis
  proof (intro exI [of _ N] allI impI)
    fix tf fuel jt jr junk and def :: ProtoDef and fileData :: string
    assume "N \<le> tf" "length fileData < 2 ^ 61" "length (p_package def) < 2 ^ 61" "length fileData * 4 + 2 < fuel"
    with toks proto_parse_run [of 4 js toks tf fileData def fuel jt jr junk]
    show "case proto_parse 4 js tf fuel jt jr junk def fileData of
        Inl e \<Rightarrow> e = NotRepresentable \<and> \<not> numbers_ok fileData
      | Inr (ok, def') \<Rightarrow>
          (p_package def = [] \<or> p_package def' = p_package def) \<and>
          (\<exists>is ms rs. p_imports def' = p_imports def @ is \<and>
             p_messages def' = p_messages def @ ms \<and> list_all msg_ok ms \<and>
             p_services def' = p_services def @ rs \<and> list_all (\<lambda>r. s_functions r \<noteq> []) rs)"
      unfolding faults proto_grown_def by blast
  qed
qed

definition no_definitions :: ProtoDef where
  "no_definitions = \<lparr>p_package = [], p_imports = [], p_messages = [], p_services = []\<rparr>"

theorem proto_parse_total_witness:
  "\<exists>tf. case proto_parse 4 0 tf 100 (Token_new WS 0 0) 0 (0, False) no_definitions ''message X'' of
      Inl e \<Rightarrow> e = NotRepresentable
    | Inr (ok, def') \<Rightarrow> list_all msg_ok (p_messages def')"
proof -
  have a: "length ''message X'' < (2 ^ 61 :: nat)" "length (p_package no_definitions) < (2 ^ 61 :: nat)"
    "length ''message X'' * 4 + 2 < (100 :: nat)" by (simp_all add: no_definitions_def)
  obtain N where "\<forall>tf \<ge> N. \<forall>fuel jt jr junk def fileData.
     length fileData < 2 ^ 61 \<longrightarrow> length (p_package def) < 2 ^ 61 \<longrightarrow> length fileData * 4 + 2 < fuel \<longrightarrow>
     (case proto_parse 4 0 tf fuel jt jr junk def fileData of
        Inl e \<Rightarrow> e = NotRepresentable \<and> \<not> numbers_ok fileData
      | Inr (ok, def') \<Rightarrow>
          (p_package def = [] \<or> p_package def' = p_package def) \<and>
          (\<exists>is ms rs. p_imports def' = p_imports def @ is \<and>
             p_messages def' = p_messages def @ ms \<and> list_all msg_ok ms \<and>
             p_services def' = p_services def @ rs \<and> list_all (\<lambda>r. s_functions r \<noteq> []) rs))"
    using proto_parse_total [of 0] by blast
  from this [rule_format, OF order_refl a, of "Token_new WS 0 0" 0 "(0, False)"]
  show ?thesis by (intro exI [of _ N]) (auto simp: no_definitions_def split: sum.splits)
qed

end
