(* ===== verification/ProtoText.thy ===== *)
theory ProtoText
  imports ProtoSpec TokenLayout
begin

text \<open>
  The texts of proto definitions: which texts show given tokens, and that the patterns read them so.
\<close>

section \<open>The text of a file\<close>

definition blank_char :: "char \<Rightarrow> bool" where
  "blank_char c \<longleftrightarrow> c = CHR '' '' \<or> c = CHR 0x09 \<or> c = CHR 0x0A \<or> c = CHR 0x0D"

definition ident_char :: "char \<Rightarrow> bool" where
  "ident_char c \<longleftrightarrow> c = CHR ''.'' \<or> is_alpha_ch c \<or> c = CHR ''_'' \<or> is_digit_ch c"

text \<open>The texts that tokens may have, before the text that follows.\<close>

fun text_ok :: "eTokenTypes \<Rightarrow> string \<Rightarrow> string \<Rightarrow> bool" where
  "text_ok IDENT x rest \<longleftrightarrow> (case x of [] \<Rightarrow> False | c # v \<Rightarrow> is_alpha_ch c \<and> list_all ident_char v) \<and>
     (rest = [] \<or> \<not> ident_char (hd rest)) \<and> list_all (\<lambda>(i, s). \<not> prefix s (x @ rest)) fixed_texts"
| "text_ok NUM x rest \<longleftrightarrow> x \<noteq> [] \<and> list_all is_digit_ch x \<and> (rest = [] \<or> \<not> is_digit_ch (hd rest))"
| "text_ok STR_TOKEN x rest \<longleftrightarrow> (\<exists>v. x = CHR 0x22 # v @ [CHR 0x22] \<and> list_all (\<lambda>c. c \<noteq> CHR 0x22) v)"
| "text_ok i x rest \<longleftrightarrow> (i, x) \<in> set fixed_texts"

text \<open>
  A text that shows the tokens: one after the other, between them blanks and comments to the end of the
  line. An identifier ends before a character that could not belong to it, and is not read as a
  keyword, which is a word with the blank after it.
\<close>

inductive proto_layout :: "(eTokenTypes \<times> string) list \<Rightarrow> string \<Rightarrow> bool" where
  nothing: "proto_layout [] []"
| blanks: "w \<noteq> [] \<Longrightarrow> list_all blank_char w \<Longrightarrow> rest = [] \<or> \<not> blank_char (hd rest) \<Longrightarrow>
    proto_layout txs rest \<Longrightarrow> proto_layout txs (w @ rest)"
| comment: "list_all (\<lambda>c. c \<noteq> CHR 0x0A) w \<Longrightarrow> 0 < n \<Longrightarrow> rest = [] \<or> hd rest \<noteq> CHR 0x0A \<Longrightarrow>
    proto_layout txs rest \<Longrightarrow> proto_layout txs (''//'' @ w @ replicate n CHR 0x0A @ rest)"
| shown: "text_ok i x rest \<Longrightarrow> proto_layout txs rest \<Longrightarrow> proto_layout ((i, x) # txs) (x @ rest)"

definition blank_lang :: "string set" where
  "blank_lang = {w. list_all blank_char w} \<union> {''//'' @ w @ [CHR 0x0A] | w. True}"

definition number_lang :: "string set" where
  "number_lang = {u @ v | u v. list_all is_digit_ch u \<and>
     (v = [] \<or> (\<exists>w. v = CHR ''.'' # w \<and> w \<noteq> [] \<and> list_all is_digit_ch w))}"

lemma union_class: "class_lang P \<union> class_lang Q = class_lang (\<lambda>c. P c \<or> Q c)"
  by (auto simp: class_lang_def)

lemma star_class_lang: "star (class_lang P) = {w. list_all P w}"
  by (simp add: class_lang_def star_class)

lemma proto_langs:
  "langs proto_rexps =
    (WS, blank_lang) # (STR_TOKEN, quoted_lang CHR 0x22) # map (\<lambda>(i, s). (i, {s})) fixed_texts @
    [(NUM, number_lang), (IDENT, word_lang is_alpha_ch ident_char)]"
proof -
  have ws: "lang (Alt (Star (Alt (lit_atom CHR '' '') (Alt (lit_atom CHR 0x09) (Alt (lit_atom CHR 0x0A) (lit_atom CHR 0x0D)))))
        (Cat (Cat (Cat (lit_atom CHR ''/'') (lit_atom CHR ''/'')) (Star (range_atom CHR ''.''))) (lit_atom CHR 0x0A))) = blank_lang"
  proof -
    have "star (class_lang (\<lambda>c. c = CHR '' '') \<union> (class_lang (\<lambda>c. c = CHR 0x09) \<union>
        (class_lang (\<lambda>c. c = CHR 0x0A) \<union> class_lang (\<lambda>c. c = CHR 0x0D)))) = {w. list_all blank_char w}"
      unfolding union_class star_class_lang blank_char_def by simp
    moreover have "conc (conc (conc {''/''} {''/''}) UNIV) {[CHR 0x0A]} = {''//'' @ w @ [CHR 0x0A] | w. True}"
      by (auto simp: conc_class(2,3)) (auto simp: conc_def)
    moreover have "star {[c] | c. True} = UNIV" using star_class [of "\<lambda>_. True"] by (simp add: list_all_iff)
    ultimately show ?thesis
      by (simp add: blank_lang_def lang_class tok_matches_fun star_class_lang) (simp add: class_lang_def)
  qed
  have num: "lang (Cat (Star (range_atom CHR ''d'')) (Opt (Cat (lit_atom CHR ''.'') (Plus (range_atom CHR ''d''))))) = number_lang"
  proof -
    have "{c # v | c v. is_digit_ch c \<and> list_all is_digit_ch v} = {w. w \<noteq> [] \<and> list_all is_digit_ch w}"
      by (auto simp: neq_Nil_conv)
    then have "lang (Cat (Star (range_atom CHR ''d'')) (Opt (Cat (lit_atom CHR ''.'') (Plus (range_atom CHR ''d''))))) =
        conc {u. list_all is_digit_ch u} ({[]} \<union> {CHR ''.'' # w | w. w \<noteq> [] \<and> list_all is_digit_ch w})"
      by (simp add: star_class conc_class(1,2))
    also have "\<dots> = number_lang" unfolding conc_def number_lang_def by (rule Collect_cong) blast
    finally show ?thesis .
  qed
  have ident: "lang (Cat (range_atom CHR ''a'') (Star (Alt (lit_atom CHR ''.'') (range_atom CHR ''w'')))) =
      word_lang is_alpha_ch ident_char"
  proof -
    have "lang (Alt (lit_atom CHR ''.'') (range_atom CHR ''w'')) = class_lang ident_char"
      by (auto simp: class_lang_def ident_char_def)
    then show ?thesis by (simp add: star_class_lang) (simp add: conc_class(1) word_lang_def)
  qed
  have fixed: "map (\<lambda>(i, r). (i, lang r)) (map (\<lambda>(i, s). (i, lits s)) fixed_texts) = map (\<lambda>(i, s). (i, {s})) fixed_texts"
    by (simp add: fixed_texts_def lang_lits)
  show ?thesis
    unfolding langs_def proto_rexps_def by (simp only: list.map map_append append.simps prod.case ws num ident lang_quoted fixed)
qed

lemma scan_blanks:
  assumes "w \<noteq> []" "list_all blank_char w" "rest = [] \<or> \<not> blank_char (hd rest)"
  shows "scan_is blank_lang (w @ rest) (length w)"
proof (rule scan_is_run [of 1])
  obtain c v where w: "w = c # v" using assms(1) by (cases w) auto
  show "take j (w @ rest) \<in> blank_lang" if "1 \<le> j" "j \<le> length w" for j
    using assms(2) that by (auto simp: blank_lang_def list_all_iff dest: in_set_takeD)
  show "take (length w + 1) (w @ rest) \<notin> blank_lang" if "length w < length (w @ rest)"
    using assms that w by (cases rest) (auto simp: blank_lang_def blank_char_def)
qed (use assms in \<open>auto simp: Suc_le_eq\<close>)

lemma scan_comment:
  assumes "list_all (\<lambda>c. c \<noteq> CHR 0x0A) w" "0 < n" "rest = [] \<or> hd rest \<noteq> CHR 0x0A"
  shows "scan_is blank_lang (''//'' @ w @ replicate n CHR 0x0A @ rest) (2 + length w + n)"
proof (rule scan_is_run [of "3 + length w"])
  let ?in = "''//'' @ w @ replicate n CHR 0x0A @ rest"
  have in_lang: "1 \<le> j \<Longrightarrow> take j ?in \<in> blank_lang \<longleftrightarrow> (\<exists>u. take j ?in = ''//'' @ u @ [CHR 0x0A])" for j
    by (cases j) (auto simp: blank_lang_def blank_char_def)
  show "take j ?in \<notin> blank_lang" if j: "1 \<le> j" "j < 3 + length w" for j
  proof
    assume "take j ?in \<in> blank_lang"
    then obtain u where u: "take j ?in = ''//'' @ u @ [CHR 0x0A]" using in_lang [OF j(1)] by blast
    moreover from j(2) have "take j ?in = take j (''//'' @ w)" by (simp add: take_Cons' not_less) 
    ultimately have "take j (''//'' @ w) = ''//'' @ u @ [CHR 0x0A]" by (rule trans [OF sym, rotated])
    then have "drop 2 (take j (''//'' @ w)) = drop 2 (''//'' @ u @ [CHR 0x0A])" by (rule arg_cong)
    then have "CHR 0x0A \<in> set (drop 2 (take j (''//'' @ w)))" by (simp only:) simp
    then have "CHR 0x0A \<in> set w" by (auto simp: drop_take dest: in_set_takeD)
    with assms(1) show False by (auto simp: list_all_iff)
  qed
  show "take j ?in \<in> blank_lang" if "3 + length w \<le> j" "j \<le> 2 + length w + n" for j
  proof -
    define k where "k = j - (3 + length w)"
    then have j: "j = 3 + length w + k" "k < n" using that by simp_all
    from j(1) have "j = Suc (Suc (length w + Suc k))" by simp
    then have "take j ?in = ''//'' @ w @ take (Suc k) (replicate n CHR 0x0A)" using j(2) by simp
    moreover have "take (Suc k) (replicate n CHR 0x0A) = replicate (Suc k) CHR 0x0A" using j(2) by (simp only: take_replicate) simp
    ultimately have "take j ?in = ''//'' @ w @ replicate (Suc k) CHR 0x0A" by (simp only:)
    also have "\<dots> = ''//'' @ (w @ replicate k CHR 0x0A) @ [CHR 0x0A]" by (simp add: replicate_append_same)
    finally show ?thesis using in_lang [of j] j by auto
  qed
  show "take (2 + length w + n + 1) ?in \<notin> blank_lang" if "2 + length w + n < length ?in"
  proof -
    from that obtain c r where r: "rest = c # r" by (cases rest) auto
    then have "take (2 + length w + n + 1) ?in = (''//'' @ w @ replicate n CHR 0x0A) @ [c]" by simp
    then show ?thesis using in_lang [of "2 + length w + n + 1"] assms(3) r by (auto simp del: append_assoc)
  qed
qed (use assms in auto)

lemma scan_no_blank: "\<not> blank_char c \<Longrightarrow> c \<noteq> CHR ''/'' \<Longrightarrow> scan_is blank_lang (c # rest) 0"
  by (rule scan_is_zero) (auto simp: blank_lang_def neq_Nil_conv)

lemma scan_number:
  assumes "x \<noteq> []" "list_all is_digit_ch x" "rest = [] \<or> \<not> is_digit_ch (hd rest)"
  shows "scan_is number_lang (x @ rest) (length x)"
proof (rule scan_is_run [of 1])
  show "take j (x @ rest) \<in> number_lang" if "1 \<le> j" "j \<le> length x" for j
    using assms(2) that by (auto simp: number_lang_def list_all_iff dest: in_set_takeD)
  show "take (length x + 1) (x @ rest) \<notin> number_lang" if "length x < length (x @ rest)"
  proof -
    from that obtain c r where r: "rest = c # r" by (cases rest) auto
    have "False" if "x @ [c] = u @ v" "list_all is_digit_ch u"
      "v = [] \<or> (\<exists>w. v = CHR ''.'' # w \<and> w \<noteq> [] \<and> list_all is_digit_ch w)" for u v
    proof (cases "v = []")
      case True
      then have "u = x @ [c]" using that(1) by simp
      with that(2) assms(3) r show False by simp
    next
      case False
      with that(3) obtain w where w: "v = CHR ''.'' # w" "w \<noteq> []" "list_all is_digit_ch w" by blast
      then have "last v = c" "last v = last w" using that(1) False by (metis last_appendR last_snoc) (simp add: w)
      with w assms(3) r show False by (metis last_in_set list_all_iff list.sel(1) list.discI)
    qed
    then show ?thesis by (auto simp: r number_lang_def)
  qed
qed (use assms in \<open>auto simp: Suc_le_eq\<close>)

lemma scan_no_number: "\<not> is_digit_ch c \<Longrightarrow> c \<noteq> CHR ''.'' \<Longrightarrow> scan_is number_lang (c # rest) 0"
  by (rule scan_is_zero) (auto simp: number_lang_def neq_Nil_conv Cons_eq_append_conv)

section \<open>Tokens\<close>

text \<open>
  No fixed text is the beginning of another: some are one character, with which no other begins, the
  others end with their only blank.
\<close>

lemma fixed_texts_all:
  "list_all (\<lambda>(i, s). s \<noteq> [] \<and> \<not> blank_char (hd s) \<and> \<not> is_digit_ch (hd s) \<and> hd s \<noteq> CHR ''/'' \<and> hd s \<noteq> CHR 0x22 \<and> i \<noteq> WS \<and>
     (if hd s \<in> set '';={}()'' then length s = 1 else last s = CHR '' '' \<and> CHR '' '' \<notin> set (butlast s))) fixed_texts"
  by (simp add: fixed_texts_def blank_char_def is_digit_ch_def)

lemma fixed_text:
  assumes "(i, s) \<in> set fixed_texts"
  shows "s \<noteq> []" "\<not> blank_char (hd s)" "\<not> is_digit_ch (hd s)" "hd s \<noteq> CHR ''/''" "hd s \<noteq> CHR 0x22" "i \<noteq> WS"
    and "hd s \<in> set '';={}()'' \<Longrightarrow> length s = 1"
    and "hd s \<notin> set '';={}()'' \<Longrightarrow> last s = CHR '' '' \<and> CHR '' '' \<notin> set (butlast s)"
  using bspec [OF fixed_texts_all [unfolded list_all_iff] assms] by (simp_all only: prod.case if_True if_False simp_thms)

lemma fixed_distinct: "(i, s) \<in> set fixed_texts \<Longrightarrow> (j, s) \<in> set fixed_texts \<Longrightarrow> i = j"
proof -
  assume a: "(i, s) \<in> set fixed_texts" "(j, s) \<in> set fixed_texts"
  have "distinct (map snd fixed_texts)" by (simp add: fixed_texts_def)
  then have "inj_on snd (set fixed_texts)" by (simp add: distinct_map)
  from inj_onD [OF this _ a] show "i = j" by simp
qed

lemma fixed_prefix:
  assumes "(j, u) \<in> set fixed_texts" "(i, s) \<in> set fixed_texts" "prefix u s"
  shows "u = s"
proof -
  obtain v where s: "s = u @ v" using assms(3) by (auto simp: prefix_def)
  have ne: "u \<noteq> []" using fixed_text(1) [OF assms(1)] .
  then have hd: "hd s = hd u" using s by simp
  show ?thesis
  proof (cases "hd u \<in> set '';={}()''")
    case True
    then have "length s = 1" using fixed_text(7) [OF assms(2)] hd by simp
    with s ne show ?thesis by (cases u) auto
  next
    case False
    then have ends: "last u = CHR '' ''" "CHR '' '' \<notin> set (butlast s)"
      using fixed_text(8) [OF assms(1)] fixed_text(8) [OF assms(2)] hd by simp_all
    have "v = []"
    proof (rule ccontr)
      assume "v \<noteq> []"
      then have "last u \<in> set (butlast s)" using ne by (simp add: s butlast_append)
      with ends show False by simp
    qed
    with s show ?thesis by simp
  qed
qed

lemma next_proto:
  assumes "\<not> blank_char c" "c \<noteq> CHR ''/''"
  shows "next_is proto_rexps (c # rest) res \<longleftrightarrow>
    next_in ((STR_TOKEN, quoted_lang CHR 0x22) # map (\<lambda>(i, s). (i, {s})) fixed_texts @
      [(NUM, number_lang), (IDENT, word_lang is_alpha_ch ident_char)]) (c # rest) res"
  using assms by (simp add: next_is_def proto_langs next_in_scan [OF scan_no_blank])

lemma next_shown_fixed:
  assumes "(i, x) \<in> set fixed_texts"
  shows "next_is proto_rexps (x @ rest) (Some (i, length x))"
proof -
  obtain c v where x: "x = c # v" "\<not> blank_char c" "c \<noteq> CHR ''/''" "c \<noteq> CHR 0x22"
    using fixed_text [OF assms] by (cases x) auto
  have "\<forall>(j, u) \<in> set fixed_texts. u \<noteq> [] \<and> (prefix u (x @ rest) \<longrightarrow> j = i \<and> u = x)"
  proof (clarify, intro conjI impI)
    fix j u
    assume u: "(j, u) \<in> set fixed_texts"
    then show "u \<noteq> []" by (rule fixed_text(1))
    assume "prefix u (x @ rest)"
    then have "prefix u x \<or> prefix x u" by (meson prefix_same_cases prefixI)
    then show "u = x" using fixed_prefix [OF u assms] fixed_prefix [OF assms u] by blast
    with fixed_distinct u assms show "j = i" by blast
  qed
  then have "next_in (map (\<lambda>(i, s). (i, {s})) fixed_texts @ [(NUM, number_lang), (IDENT, word_lang is_alpha_ch ident_char)])
      (x @ rest) (Some (i, length x))"
    by (intro next_in_literals_hit [OF assms]) simp_all
  with x show ?thesis by (simp add: next_proto)
qed

lemma no_fixed: "(\<forall>(i, s) \<in> set fixed_texts. \<not> prefix s input) \<Longrightarrow>
    next_in (map (\<lambda>(i, s). (i, {s})) fixed_texts @ ls) input res \<longleftrightarrow> next_in ls input res"
  by (rule next_in_literals_skip) (use fixed_text(1) in blast)

lemma next_shown_ident:
  assumes "text_ok IDENT x rest"
  shows "next_is proto_rexps (x @ rest) (Some (IDENT, length x))"
proof -
  from assms obtain c v where x: "x = c # v" "is_alpha_ch c" "list_all ident_char v" by (cases x) auto
  then have c: "\<not> blank_char c" "c \<noteq> CHR ''/''" "c \<noteq> CHR 0x22" "\<not> is_digit_ch c" "c \<noteq> CHR ''.''"
    by (auto simp: is_alpha_ch_def blank_char_def is_digit_ch_def)
  have "\<forall>(i, s) \<in> set fixed_texts. \<not> prefix s (x @ rest)" using assms by (simp add: list_all_iff)
  from no_fixed [OF this] x c assms show ?thesis
    by (simp add: next_proto next_in_scan [OF scan_no_number] next_in_word)
qed

lemma next_shown_number:
  assumes "text_ok NUM x rest"
  shows "next_is proto_rexps (x @ rest) (Some (NUM, length x))"
proof -
  from assms obtain c v where x: "x = c # v" "is_digit_ch c" by (cases x) auto
  then have c: "\<not> blank_char c" "c \<noteq> CHR ''/''" "c \<noteq> CHR 0x22"
    by (auto simp: blank_char_def is_digit_ch_def)
  have "\<forall>(i, s) \<in> set fixed_texts. \<not> prefix s (x @ rest)" 
  proof (clarify)
    fix i s
    assume "(i, s) \<in> set fixed_texts" "prefix s (x @ rest)"
    with fixed_text(1,3) [of i s] x show False by (cases s) simp_all
  qed
  from no_fixed [OF this] next_in_scan [OF scan_number [of x rest], of NUM] x c assms show ?thesis
    by (simp add: next_proto)
qed

lemma next_shown_string:
  assumes "text_ok STR_TOKEN x rest"
  shows "next_is proto_rexps (x @ rest) (Some (STR_TOKEN, length x))"
  using assms next_in_quoted [of "CHR 0x22" _ STR_TOKEN _ rest]
  by (auto simp: next_proto blank_char_def)

lemma next_proto_shown:
  assumes "text_ok i x rest"
  shows "next_is proto_rexps (x @ rest) (Some (i, length x)) \<and> x \<noteq> [] \<and> i \<noteq> WS"
proof (cases "i \<in> {IDENT, NUM, STR_TOKEN}")
  case True
  with assms next_shown_ident [of x rest] next_shown_number [of x rest] next_shown_string [of x rest]
  show ?thesis by auto
next
  case False
  with assms have i: "(i, x) \<in> set fixed_texts" by (cases i) auto
  from fixed_text(1,6) [OF i] next_shown_fixed [OF i] show ?thesis by simp
qed

lemma proto_layout_displays: "proto_layout txs str \<Longrightarrow> displays proto_rexps WS txs str"
proof (induction rule: proto_layout.induct)
  case nothing
  show ?case by (rule displays.nothing) (simp add: next_is_def next_in_empty)
next
  case (blanks w rest txs)
  have "next_is proto_rexps (w @ rest) (Some (WS, length w))"
    using blanks.hyps(1) next_in_scan [OF scan_blanks [OF blanks.hyps(1-3)], of WS] by (simp add: next_is_def proto_langs)
  then show ?case using blanks by (intro displays.ignored)
next
  case (comment w n rest txs)
  have "next_is proto_rexps ((''//'' @ w @ replicate n CHR 0x0A) @ rest) (Some (WS, length (''//'' @ w @ replicate n CHR 0x0A)))"
    using next_in_scan [OF scan_comment [OF comment.hyps(1-3)], of WS] by (simp add: next_is_def proto_langs)
  from displays.ignored [OF this] comment.IH show ?case by simp
next
  case (shown i x rest txs)
  with next_proto_shown show ?case by (intro displays.shown) auto
qed

end
