(* ===== verification/ProtoDoc.thy ===== *)
theory ProtoDoc
  imports ProtoText LRRuns
begin

text \<open>
  What files of proto definitions mean to the reader: a syntax of files, the tokens they are written
  with, and the definition that the reader makes of them.
\<close>

section \<open>Files\<close>

datatype field_type = Basic eTokenTypes | Named string

text \<open>Items of a message: fields (type, name, whether repeated, number), enumerations, messages.\<close>

datatype proto_item =
    ItemField field_type string bool string
  | ItemEnum string "(string \<times> string) list"
  | ItemMessage string "proto_item list"

text \<open>Declarations of a file; a function of a service has a name, a parameter and a result.\<close>

datatype proto_decl =
    DeclImport string
  | DeclService string "(string \<times> string \<times> string) list"
  | DeclMessage string "proto_item list"

fun is_message :: "proto_item \<Rightarrow> bool" where
  "is_message (ItemMessage _ _) = True"
| "is_message _ = False"

text \<open>
  What the grammar asks for: known types, numbers that are an \<^verbatim>\<open>int\<close>, enumerations and services that
  are not empty, and in every message something else than messages.
\<close>

definition number_ok :: "string \<Rightarrow> bool" where
  "number_ok x \<longleftrightarrow> x \<noteq> [] \<and> list_all is_digit_ch x \<and> digits_value x < 2 ^ 31"

fun item_ok :: "proto_item \<Rightarrow> bool" where
  "item_ok (ItemField ty name rep num) \<longleftrightarrow>
     (case ty of Basic t \<Rightarrow> t \<in> set field_types | Named _ \<Rightarrow> True) \<and> number_ok num"
| "item_ok (ItemEnum name vs) \<longleftrightarrow> vs \<noteq> [] \<and> list_all (\<lambda>v. number_ok (snd v)) vs"
| "item_ok (ItemMessage name is) \<longleftrightarrow> list_all item_ok is \<and> \<not> list_all is_message is"

fun decl_ok :: "proto_decl \<Rightarrow> bool" where
  "decl_ok (DeclImport x) \<longleftrightarrow> True"
| "decl_ok (DeclService name rs) \<longleftrightarrow> rs \<noteq> []"
| "decl_ok (DeclMessage name is) \<longleftrightarrow> item_ok (ItemMessage name is)"

text \<open>The tokens, with their texts.\<close>

definition kw :: "eTokenTypes \<Rightarrow> eTokenTypes \<times> string" where
  "kw t = (t, the (map_of fixed_texts t))"

definition field_tokens :: "field_type \<Rightarrow> string \<Rightarrow> bool \<Rightarrow> string \<Rightarrow> (eTokenTypes \<times> string) list" where
  "field_tokens ty name rep num =
     [case ty of Basic t \<Rightarrow> kw t | Named x \<Rightarrow> (IDENT, x), (IDENT, name)] @ (if rep then [kw REPEATED] else []) @
     [kw EQUALS, (NUM, num), kw EOL]"

definition value_tokens :: "string \<times> string \<Rightarrow> (eTokenTypes \<times> string) list" where
  "value_tokens v = [(IDENT, fst v), kw EQUALS, (NUM, snd v), kw EOL]"

fun item_tokens :: "proto_item \<Rightarrow> (eTokenTypes \<times> string) list" where
  "item_tokens (ItemField ty name rep num) = field_tokens ty name rep num"
| "item_tokens (ItemEnum name vs) =
     [kw ENUM, (IDENT, name), kw OPEN_BRACE] @ concat (map value_tokens vs) @ [kw CLOSE_BRACE]"
| "item_tokens (ItemMessage name is) =
     [kw MESSAGE, (IDENT, name), kw OPEN_BRACE] @ concat (map item_tokens is) @ [kw CLOSE_BRACE]"

definition rpc_tokens :: "string \<times> string \<times> string \<Rightarrow> (eTokenTypes \<times> string) list" where
  "rpc_tokens = (\<lambda>(name, param, ret).
     [kw RPC, (IDENT, name), kw OPEN_PEREN, (IDENT, param), kw CLOSE_PEREN,
      kw RETURNS, kw OPEN_PEREN, (IDENT, ret), kw CLOSE_PEREN, kw EOL])"

fun decl_tokens :: "proto_decl \<Rightarrow> (eTokenTypes \<times> string) list" where
  "decl_tokens (DeclImport x) = [kw IMPORT, (STR_TOKEN, CHR 0x22 # x @ [CHR 0x22]), kw EOL]"
| "decl_tokens (DeclService name rs) =
     [kw SERVICE, (IDENT, name), kw OPEN_BRACE] @ concat (map rpc_tokens rs) @ [kw CLOSE_BRACE]"
| "decl_tokens (DeclMessage name is) = item_tokens (ItemMessage name is)"

definition file_tokens :: "string \<Rightarrow> proto_decl list \<Rightarrow> (eTokenTypes \<times> string) list" where
  "file_tokens pkg ds = [kw PACKAGE, (IDENT, pkg), kw EOL] @ concat (map decl_tokens ds)"

section \<open>Their definitions\<close>

definition declared_type :: "eTokenTypes \<Rightarrow> eFieldType" where
  "declared_type t = the (map_of
     [(INT64, FIELD_INT64), (UINT64, FIELD_UINT64), (SINT64, FIELD_SINT64), (FIXED64, FIELD_FIXED64),
      (SFIXED64, FIELD_SFIXED64), (DOUBLE, FIELD_DOUBLE), (FLOAT, FIELD_FLOAT), (INT32, FIELD_INT32),
      (UINT32, FIELD_UINT32), (SINT32, FIELD_SINT32), (FIXED32, FIELD_FIXED32), (SFIXED32, FIELD_SFIXED32),
      (STRING, FIELD_STRING), (BYTES, FIELD_BYTES), (BOOL, FIELD_BOOL)] t)"

definition field_of :: "field_type \<Rightarrow> string \<Rightarrow> bool \<Rightarrow> string \<Rightarrow> FieldDef" where
  "field_of ty name rep num =
     \<lparr>f_name = name, f_msgType = (case ty of Basic t \<Rightarrow> [] | Named x \<Rightarrow> x),
      f_type = field_type_value (case ty of Basic t \<Rightarrow> declared_type t | Named x \<Rightarrow> FIELD_MSG),
      f_fieldNum = word_of_int (digits_value num), f_repeated = rep\<rparr>"

definition value_of :: "u32 \<times> bool \<Rightarrow> string \<times> string \<Rightarrow> FieldDef" where
  "value_of junk v = \<lparr>f_name = fst v, f_msgType = [], f_type = fst junk,
     f_fieldNum = word_of_int (digits_value (snd v)), f_repeated = snd junk\<rparr>"

definition fields_of :: "proto_item list \<Rightarrow> FieldDef list" where
  "fields_of is = concat (map (\<lambda>i. case i of ItemField ty name rep num \<Rightarrow> [field_of ty name rep num] | _ \<Rightarrow> []) is)"

definition enums_of :: "u32 \<times> bool \<Rightarrow> proto_item list \<Rightarrow> EnumDef list" where
  "enums_of junk is = concat (map (\<lambda>i. case i of
     ItemEnum name vs \<Rightarrow> [\<lparr>e_name = name, e_values = map (value_of junk) vs\<rparr>] | _ \<Rightarrow> []) is)"

text \<open>
  The messages in a message: those before the first field or enumeration are reduced only when that
  is there, last one first.
\<close>

definition in_order :: "proto_item list \<Rightarrow> proto_item list" where
  "in_order is = rev (takeWhile is_message is) @ filter is_message (dropWhile is_message is)"

lemma in_order_set: "set (in_order is) = {i \<in> set is. is_message i}"
proof -
  have "set is = set (takeWhile is_message is) \<union> set (dropWhile is_message is)"
    by (metis set_append takeWhile_dropWhile_id)
  then show ?thesis by (auto simp: in_order_def dest: set_takeWhileD)
qed

function item_def :: "u32 \<times> bool \<Rightarrow> string \<Rightarrow> proto_item \<Rightarrow> MessageDef" where
  "item_def junk path (ItemMessage name is) =
     MessageDef name (''::'' @ path) (map (item_def junk (path @ ''::'' @ name)) (in_order is))
       (fields_of is) (enums_of junk is)"
| "item_def junk path (ItemField ty name rep num) = empty_message"
| "item_def junk path (ItemEnum name vs) = empty_message"
  by pat_completeness auto
termination
proof (relation "measure (\<lambda>(junk, path, i). size i)", simp)
  fix junk path name "is" x
  assume "x \<in> set (in_order is)"
  then have "x \<in> set is" by (simp add: in_order_set)
  then have "size x < Suc (size_list size is)" by (simp add: size_list_estimation' less_Suc_eq_le)
  then show "((junk, path @ ''::'' @ name, x), junk, path, ItemMessage name is) \<in> measure (\<lambda>(junk, path, i). size i)"
    by simp
qed

definition add_decl :: "u32 \<times> bool \<Rightarrow> ProtoDef \<Rightarrow> proto_decl \<Rightarrow> ProtoDef" where
  "add_decl junk s d = (case d of
     DeclImport x \<Rightarrow> s\<lparr>p_imports := p_imports s @ [x]\<rparr>
   | DeclService name rs \<Rightarrow> s\<lparr>p_services := p_services s @ [\<lparr>s_name = name, s_package = [],
       s_functions = map (\<lambda>(name, param, ret). \<lparr>r_name = name, r_return = ret, r_param = param\<rparr>) rs\<rparr>]\<rparr>
   | DeclMessage name is \<Rightarrow> s\<lparr>p_messages := p_messages s @
       [item_def junk (package_path (p_package s)) (ItemMessage name is)]\<rparr>)"

section \<open>Searches of the grammar\<close>

abbreviation tok :: "nat \<Rightarrow> eTokenTypes Token \<Rightarrow> nat \<Rightarrow> proto_node" where "tok jr t l \<equiv> TokenOrNode_token jr t l"
abbreviation nd :: "eTokenTypes Token \<Rightarrow> nat \<Rightarrow> nat \<Rightarrow> proto_value \<Rightarrow> proto_node" where "nd jt r l v \<equiv> TokenOrNode_rule jt r l (Some v)"
abbreviation nul :: "eTokenTypes Token \<Rightarrow> nat \<Rightarrow> nat \<Rightarrow> proto_node" where "nul jt r l \<equiv> TokenOrNode_rule jt r l None"

lemma proto_nonempty: "chains_nonempty (proto_productions junk str)"
  by (simp add: chains_nonempty_def proto_productions_list list_all_iff ball_Un)

lemma sym_entry [simp]:
  "sym_of (TokenOrNode_token jr t l) = Tok (m_id t)" "sym_of (TokenOrNode_rule jt r l pn) = Nt r"
  by (simp_all add: sym_of_def)

lemma proto_search: "search jt (proto_productions junk str) (x # R) s = search jt (ending (sym_of x) (proto_productions junk str)) (x # R) s"
  by (rule search_ending [OF proto_nonempty])

lemma ending_token: "i \<noteq> EOL \<Longrightarrow> i \<noteq> CLOSE_BRACE \<Longrightarrow> ending (Tok i) (proto_productions junk str) = []"
  by (simp add: ending_def proto_productions_list filter_empty_conv)

lemma ending_brace: "ending (Tok CLOSE_BRACE) (proto_productions junk str) =
   [(5, [Tok ENUM, Tok IDENT, Tok OPEN_BRACE, Nt 4, Tok CLOSE_BRACE], Some (genEnum str)),
    (7, [Tok MESSAGE, Tok IDENT, Tok OPEN_BRACE, Nt 6, Tok CLOSE_BRACE], Some (finalizeMessage str)),
    (10, [Tok SERVICE, Tok IDENT, Tok OPEN_BRACE, Nt 9, Tok CLOSE_BRACE], Some (addService str))]"
  by (simp add: ending_def proto_productions_list filter_empty_conv filter_map comp_def)

lemma ending_eol: "ending (Tok EOL) (proto_productions junk str) =
    [(0, [Tok PACKAGE, Tok IDENT, Tok EOL], Some (setPackage str)),
     (1, [Tok IMPORT, Tok STR_TOKEN, Tok EOL], Some (addImport str))] @
    map (\<lambda>t. (2, [Tok t, Tok IDENT, Tok EQUALS, Tok NUM, Tok EOL], Some (genField str))) field_types @
    map (\<lambda>t. (2, [Tok t, Tok IDENT, Tok REPEATED, Tok EQUALS, Tok NUM, Tok EOL], Some (genField str))) field_types @
    [(2, [Tok IDENT, Tok IDENT, Tok EQUALS, Tok NUM, Tok EOL], Some (genField str)),
     (2, [Tok IDENT, Tok IDENT, Tok REPEATED, Tok EQUALS, Tok NUM, Tok EOL], Some (genField str)),
     (3, [Tok IDENT, Tok EQUALS, Tok NUM, Tok EOL], Some (genEnumField junk str)),
     (8, [Tok RPC, Tok IDENT, Tok OPEN_PEREN, Tok IDENT, Tok CLOSE_PEREN, Tok RETURNS, Tok OPEN_PEREN,
        Tok IDENT, Tok CLOSE_PEREN, Tok EOL], Some (genRpc str))]"
  by (simp add: ending_def proto_productions_list filter_map comp_def)

lemma ending_rule:
  "ending (Nt 0) (proto_productions junk str) = [(11, [Nt 0], None)]"
  "ending (Nt 1) (proto_productions junk str) = [(11, [Nt 11, Nt 1], None)]"
  "ending (Nt 2) (proto_productions junk str) = [(6, [Nt 6, Nt 2], Some genMessageField), (6, [Nt 2], Some genMessageField)]"
  "ending (Nt 3) (proto_productions junk str) = [(4, [Nt 4, Nt 3], Some appendFieldList), (4, [Nt 3], Some genFieldList)]"
  "ending (Nt 4) (proto_productions junk str) = []"
  "ending (Nt 5) (proto_productions junk str) = [(6, [Nt 6, Nt 5], Some genMessageEnum), (6, [Nt 5], Some genMessageEnum)]"
  "ending (Nt 6) (proto_productions junk str) = [(6, [Nt 7, Nt 6], Some genMessageMessageBody)]"
  "ending (Nt 7) (proto_productions junk str) = [(6, [Nt 6, Nt 7], Some genMessageBodyMessage), (11, [Nt 11, Nt 7], Some addMessage)]"
  "ending (Nt 8) (proto_productions junk str) = [(9, [Nt 9, Nt 8], Some appendRpcList), (9, [Nt 8], Some genRpcList)]"
  "ending (Nt 9) (proto_productions junk str) = []"
  "ending (Nt 10) (proto_productions junk str) = [(11, [Nt 11, Nt 10], None)]"
  "ending (Nt 11) (proto_productions junk str) = []"
  by (simp_all add: ending_def proto_productions_list filter_empty_conv)

lemma search_shift:
  "m_id t \<noteq> EOL \<Longrightarrow> m_id t \<noteq> CLOSE_BRACE \<Longrightarrow> search jt (proto_productions junk str) (tok jr t l # R) s = Inr (None, s)"
  unfolding proto_search by (simp add: ending_token)

text \<open>Tokens up to one that can end a production.\<close>

lemma feed_pushes:
  assumes "list_all (\<lambda>(t, l). m_id t \<noteq> EOL \<and> m_id t \<noteq> CLOSE_BRACE) ls" "0 < f"
  shows "feed f jt jr (proto_productions junk str) ls R s = Inr (rev (map (\<lambda>(t, l). tok jr t l) ls) @ R, s)"
  using assms by (intro feed_shifts search_shift) (auto simp: list_all_iff)

lemma feed_completes:
  assumes "list_all (\<lambda>(t, l). m_id t \<noteq> EOL \<and> m_id t \<noteq> CLOSE_BRACE) us" "0 < f"
    and "search jt (proto_productions junk str) (tok jr t l # rev (map (\<lambda>(t, l). tok jr t l) us) @ R) s = Inr (Some st, s')"
  shows "feed f jt jr (proto_productions junk str) (us @ [(t, l)]) R s = settle (f - 1) jt (proto_productions junk str) st s'"
proof -
  have "feed f jt jr (proto_productions junk str) (us @ [(t, l)]) R s =
      feed f jt jr (proto_productions junk str) [(t, l)] (rev (map (\<lambda>(t, l). tok jr t l) us) @ R) s"
    by (simp add: feed_append feed_pushes [OF assms(1,2)] del: feed.simps)
  then show ?thesis using settle_step [OF assms(3,2)]
    by (cases "settle (f - 1) jt (proto_productions junk str) st s'") auto
qed

section \<open>Fields, values and functions\<close>

lemma number_read_ok: "number_ok x \<Longrightarrow> lexical_cast_s32 x = Inr (word_of_int (digits_value x))"
proof -
  assume x: "number_ok x"
  then obtain c v where c: "x = c # v" "is_digit_ch c" by (cases x) (auto simp: number_ok_def)
  then have "\<not> isspace c" "c \<noteq> CHR ''-''" "c \<noteq> CHR ''+''"
    by (auto simp: is_digit_ch_def isspace_def)
  then have "atoi_value x = digits_value (takeWhile is_digit_ch x)"
    by (simp add: c(1) atoi_value_def Let_def del: takeWhile.simps)
  moreover have "takeWhile is_digit_ch x = x"
    using x by (simp add: number_ok_def takeWhile_eq_all_conv list_all_iff)
  ultimately have "atoi_value x = digits_value x" by (simp only:)
  moreover have "0 \<le> digits_value x"
  proof -
    have "0 \<le> n \<Longrightarrow> list_all is_digit_ch ds \<Longrightarrow> 0 \<le> foldl (\<lambda>n d. 10 * n + (int (of_char d) - 48)) (n :: int) ds" for n ds
    proof (induction ds arbitrary: n)
      case (Cons d ds)
      then have "48 \<le> (of_char d :: nat)" by (simp add: is_digit_ch_def)
      with Cons.prems(1) have "0 \<le> 10 * n + (int (of_char d) - 48)" by simp
      from Cons.IH [OF this] Cons.prems(2) show ?case by simp
    qed simp
    with x show ?thesis by (simp add: digits_value_def number_ok_def)
  qed
  ultimately show ?thesis using x by (simp add: lexical_cast_s32_def is_int_def number_ok_def)
qed

lemma declared_type_value:
  "t \<in> set field_types \<Longrightarrow> word_of_int (token_value t) - 8 = field_type_value (declared_type t)"
  by (auto simp: field_types_def declared_type_def)

lemmas proto_callbacks = genField_def genEnumField_def genFieldList_def appendFieldList_def genRpc_def genRpcList_def
  appendRpcList_def genEnum_def finalizeMessage_def setPackage_def addImport_def addService_def
  text_at_def cast_at_def value_at_def id_at_def valid_text number_read_ok

lemma field_types_not [simp]: "IDENT \<notin> set field_types"
  by (simp add: field_types_def)

lemma feed_field:
  assumes "spelled str ls (field_tokens ty name rep num)" "item_ok (ItemField ty name rep num)" "0 < f"
  shows "\<exists>l. feed f jt jr (proto_productions junk str) ls R s =
    settle (f - 1) jt (proto_productions junk str) (nd jt 2 l (FieldValue (field_of ty name rep num)) # R) s"
proof -
  note defs = field_tokens_def kw_def field_of_def
  let ?loop1 = "\<lambda>qs. map (\<lambda>t. (2, [Tok t, Tok IDENT, Tok EQUALS, Tok NUM, Tok EOL], Some (genField str))) field_types @ qs"
  let ?loop2 = "\<lambda>qs. map (\<lambda>t. (2, [Tok t, Tok IDENT, Tok REPEATED, Tok EQUALS, Tok NUM, Tok EOL], Some (genField str))) field_types @ qs"
  have type_id: "(case ty of Basic t \<Rightarrow> t | Named _ \<Rightarrow> IDENT) \<notin> {EOL, CLOSE_BRACE}"
    using assms(2) by (auto split: field_type.splits simp: field_types_def)
  show ?thesis
  proof (cases rep)
    case False
    from assms(1) False obtain t1 l1 t2 l2 t3 l3 t4 l4 t5 l5 where
      ls: "ls = [(t1, l1), (t2, l2), (t3, l3), (t4, l4)] @ [(t5, l5)]"
      and t: "m_valid t1" "m_valid t2" "m_valid t3" "m_valid t4" "m_valid t5" "m_id t2 = IDENT" "m_id t3 = EQUALS"
        "m_id t4 = NUM" "m_id t5 = EOL" "token_text str t2 = name" "token_text str t4 = num"
        "m_id t1 = (case ty of Basic t \<Rightarrow> t | Named _ \<Rightarrow> IDENT)"
        "\<And>x. ty = Named x \<Longrightarrow> token_text str t1 = x"
      by (cases ty) (auto simp: defs)
    have t1: "m_id t1 \<noteq> EOL" "m_id t1 \<noteq> CLOSE_BRACE" using t(12) type_id by auto
    let ?st = "[tok jr t5 l5, tok jr t4 l4, tok jr t3 l3, tok jr t2 l2, tok jr t1 l1] @ R"
    have "search jt (proto_productions junk str) ?st s = Inr (Some (nd jt 2 l1 (FieldValue (field_of ty name rep num)) # R), s)"
    proof (cases ty)
      case (Basic u)
      have hit: "search jt (?loop1 qs) ?st s = Inr (Some (nd jt 2 l1 (FieldValue (field_of ty name rep num)) # R), s)" for qs
        by (rule trans [OF search_loop_hit [where t = u]])
          (use assms(2) t Basic False in \<open>auto simp: defs proto_callbacks declared_type_value\<close>)
      show ?thesis using t hit by (simp add: proto_search ending_eol)
    next
      case (Named x)
      have skip: "search jt (?loop1 qs) ?st s = search jt qs ?st s" "search jt (?loop2 qs) ?st s = search jt qs ?st s" for qs
        using t Named by (auto intro!: search_loop_skip simp: field_types_def)
      show ?thesis using t Named False skip assms(2) by (simp add: proto_search ending_eol proto_callbacks defs)
    qed
    then show ?thesis unfolding ls using t t1 assms(3)
      by (intro exI [of _ l1] feed_completes) auto
  next
    case True
    from assms(1) True obtain t1 l1 t2 l2 t3 l3 t4 l4 t5 l5 t6 l6 where
      ls: "ls = [(t1, l1), (t2, l2), (t3, l3), (t4, l4), (t5, l5)] @ [(t6, l6)]"
      and t: "m_valid t1" "m_valid t2" "m_valid t3" "m_valid t4" "m_valid t5" "m_valid t6" "m_id t2 = IDENT"
        "m_id t3 = REPEATED" "m_id t4 = EQUALS" "m_id t5 = NUM" "m_id t6 = EOL"
        "token_text str t2 = name" "token_text str t5 = num"
        "m_id t1 = (case ty of Basic t \<Rightarrow> t | Named _ \<Rightarrow> IDENT)"
        "\<And>x. ty = Named x \<Longrightarrow> token_text str t1 = x"
      by (cases ty) (auto simp: defs)
    have t1: "m_id t1 \<noteq> EOL" "m_id t1 \<noteq> CLOSE_BRACE" using t(14) type_id by auto
    let ?st = "[tok jr t6 l6, tok jr t5 l5, tok jr t4 l4, tok jr t3 l3, tok jr t2 l2, tok jr t1 l1] @ R"
    have skip1: "search jt (?loop1 qs) ?st s = search jt qs ?st s" for qs
      using t by (auto intro!: search_loop_skip)
    have "search jt (proto_productions junk str) ?st s = Inr (Some (nd jt 2 l1 (FieldValue (field_of ty name rep num)) # R), s)"
    proof (cases ty)
      case (Basic u)
      have hit: "search jt (?loop2 qs) ?st s = Inr (Some (nd jt 2 l1 (FieldValue (field_of ty name rep num)) # R), s)" for qs
        by (rule trans [OF search_loop_hit [where t = u]])
          (use assms(2) t Basic True in \<open>auto simp: defs proto_callbacks declared_type_value\<close>)
      show ?thesis using t skip1 hit by (simp add: proto_search ending_eol)
    next
      case (Named x)
      have skip: "search jt (?loop2 qs) ?st s = search jt qs ?st s" for qs
        using t Named by (auto intro!: search_loop_skip simp: field_types_def)
      show ?thesis using t Named True skip1 skip assms(2) by (simp add: proto_search ending_eol proto_callbacks defs)
    qed
    then show ?thesis unfolding ls using t t1 assms(3)
      by (intro exI [of _ l1] feed_completes) auto
  qed
qed

lemma feed_value:
  assumes "spelled str ls (value_tokens v)" "number_ok (snd v)" "sym_of x = Tok OPEN_BRACE \<or> sym_of x = Nt 4" "0 < f"
  shows "\<exists>l. feed f jt jr (proto_productions junk str) ls (x # R) s =
    settle (f - 1) jt (proto_productions junk str) (nd jt 3 l (FieldValue (value_of junk v)) # x # R) s"
proof -
  from assms(1) obtain t1 l1 t2 l2 t3 l3 t4 l4 where ls: "ls = [(t1, l1), (t2, l2), (t3, l3)] @ [(t4, l4)]"
    and t: "m_valid t1" "m_valid t2" "m_valid t3" "m_valid t4" "m_id t1 = IDENT" "m_id t2 = EQUALS" "m_id t3 = NUM" "m_id t4 = EOL"
      "token_text str t1 = fst v" "token_text str t3 = snd v"
    by (auto simp: value_tokens_def kw_def)
  let ?st = "[tok jr t4 l4, tok jr t3 l3, tok jr t2 l2, tok jr t1 l1] @ x # R"
  have skip: "search jt (map (\<lambda>t. (2, [Tok t, Tok IDENT, Tok EQUALS, Tok NUM, Tok EOL], Some (genField str))) field_types @ qs) ?st s = search jt qs ?st s"
    "search jt (map (\<lambda>t. (2, [Tok t, Tok IDENT, Tok REPEATED, Tok EQUALS, Tok NUM, Tok EOL], Some (genField str))) field_types @ qs) ?st s = search jt qs ?st s" for qs
    using t assms(3) by (auto intro!: search_loop_skip simp: field_types_def)
  have "search jt (proto_productions junk str) ?st s = Inr (Some (nd jt 3 l1 (FieldValue (value_of junk v)) # x # R), s)"
    using t skip assms(2,3) by (auto simp: proto_search ending_eol proto_callbacks value_of_def)
  then show ?thesis unfolding ls using t assms(4) by (intro exI [of _ l1] feed_completes) auto
qed

text \<open>A value after an opening brace, and after values.\<close>

lemma settle_value:
  assumes "3 < f"
  shows "m_id t = OPEN_BRACE \<Longrightarrow> settle (f - 1) jt (proto_productions junk str) (nd jt 3 l (FieldValue x) # tok jr t l' # R) s =
      Inr (nd jt 4 l (FieldList [x]) # tok jr t l' # R, s)"
    and "settle (f - 1) jt (proto_productions junk str) (nd jt 3 l (FieldValue x) # nd jt 4 l' (FieldList xs) # R) s =
      Inr (nd jt 4 l' (FieldList (xs @ [x])) # R, s)"
proof -
  define n where "n = f - 3"
  have n: "f - 1 = Suc (Suc n)" using assms by (simp add: n_def)
  show "m_id t = OPEN_BRACE \<Longrightarrow> settle (f - 1) jt (proto_productions junk str) (nd jt 3 l (FieldValue x) # tok jr t l' # R) s =
      Inr (nd jt 4 l (FieldList [x]) # tok jr t l' # R, s)"
    "settle (f - 1) jt (proto_productions junk str) (nd jt 3 l (FieldValue x) # nd jt 4 l' (FieldList xs) # R) s =
      Inr (nd jt 4 l' (FieldList (xs @ [x])) # R, s)"
    unfolding n by (simp_all add: proto_search ending_rule proto_callbacks)
qed

lemma feed_more_values:
  "spelled str ls (concat (map value_tokens vs)) \<Longrightarrow> list_all (\<lambda>v. number_ok (snd v)) vs \<Longrightarrow> 3 < f \<Longrightarrow>
   feed f jt jr (proto_productions junk str) ls (nd jt 4 l (FieldList xs) # R) s =
     Inr (nd jt 4 l (FieldList (xs @ map (value_of junk) vs)) # R, s)"
proof (induction vs arbitrary: ls xs)
  case (Cons v vs)
  then obtain us ws where ls: "ls = us @ ws" "spelled str us (value_tokens v)" "spelled str ws (concat (map value_tokens vs))"
    by (auto simp: spelled_append)
  obtain l' where "feed f jt jr (proto_productions junk str) us (nd jt 4 l (FieldList xs) # R) s =
      settle (f - 1) jt (proto_productions junk str) (nd jt 3 l' (FieldValue (value_of junk v)) # nd jt 4 l (FieldList xs) # R) s"
    using feed_value [OF ls(2), of "nd jt 4 l (FieldList xs)" f jt jr junk R s] Cons.prems(2,3) by auto
  then show ?case unfolding ls(1) feed_append using settle_value(2) [OF Cons.prems(3)] Cons.IH [OF ls(3)] Cons.prems by simp
qed simp

lemma feed_values:
  assumes "spelled str ls (concat (map value_tokens vs))" "list_all (\<lambda>v. number_ok (snd v)) vs" "vs \<noteq> []"
    and "m_id t = OPEN_BRACE" "3 < f"
  shows "\<exists>l'. feed f jt jr (proto_productions junk str) ls (tok jr t l # R) s =
     Inr (nd jt 4 l' (FieldList (map (value_of junk) vs)) # tok jr t l # R, s)"
proof -
  obtain v vs' where vs: "vs = v # vs'" using assms(3) by (cases vs) auto
  with assms(1) obtain us ws where ls: "ls = us @ ws" "spelled str us (value_tokens v)" "spelled str ws (concat (map value_tokens vs'))"
    by (auto simp: spelled_append)
  obtain l' where "feed f jt jr (proto_productions junk str) us (tok jr t l # R) s =
      settle (f - 1) jt (proto_productions junk str) (nd jt 3 l' (FieldValue (value_of junk v)) # tok jr t l # R) s"
    using feed_value [OF ls(2), of "tok jr t l" f jt jr junk R s] assms(2,4,5) vs by auto
  then have "feed f jt jr (proto_productions junk str) ls (tok jr t l # R) s =
     Inr (nd jt 4 l' (FieldList (map (value_of junk) vs)) # tok jr t l # R, s)"
    unfolding ls(1) feed_append using settle_value(1) [OF assms(5)] feed_more_values [OF ls(3) _ assms(5)] assms(2,4) vs by simp
  then show ?thesis by blast
qed

lemma feed_enum:
  assumes "spelled str ls (item_tokens (ItemEnum name vs))" "item_ok (ItemEnum name vs)" "3 < f"
  shows "\<exists>l. feed f jt jr (proto_productions junk str) ls R s = settle (f - 1) jt (proto_productions junk str)
    (nd jt 5 l (EnumValue \<lparr>e_name = name, e_values = map (value_of junk) vs\<rparr>) # R) s"
proof -
  from assms(1) obtain t1 l1 t2 l2 t3 l3 us t4 l4 where ls: "ls = [(t1, l1), (t2, l2), (t3, l3)] @ us @ [(t4, l4)]"
    and us: "spelled str us (concat (map value_tokens vs))"
    and t: "m_valid t1" "m_id t1 = ENUM" "m_valid t2" "m_id t2 = IDENT" "token_text str t2 = name" "m_valid t3" "m_id t3 = OPEN_BRACE"
      "m_valid t4" "m_id t4 = CLOSE_BRACE"
    by (auto simp: spelled_append kw_def)
  have 1: "feed f jt jr (proto_productions junk str) [(t1, l1), (t2, l2), (t3, l3)] R s =
      Inr (tok jr t3 l3 # tok jr t2 l2 # tok jr t1 l1 # R, s)"
    using t assms(3) by (simp add: feed_pushes del: feed.simps)
  obtain l where 2: "feed f jt jr (proto_productions junk str) us (tok jr t3 l3 # tok jr t2 l2 # tok jr t1 l1 # R) s =
      Inr (nd jt 4 l (FieldList (map (value_of junk) vs)) # tok jr t3 l3 # tok jr t2 l2 # tok jr t1 l1 # R, s)"
    using feed_values [OF us _ _ t(7) assms(3)] assms(2) by fastforce
  have 3: "feed f jt jr (proto_productions junk str) ([] @ [(t4, l4)])
      (nd jt 4 l (FieldList (map (value_of junk) vs)) # tok jr t3 l3 # tok jr t2 l2 # tok jr t1 l1 # R) s =
    settle (f - 1) jt (proto_productions junk str)
      (nd jt 5 l1 (EnumValue \<lparr>e_name = name, e_values = map (value_of junk) vs\<rparr>) # R) s"
    using t assms(3) by (intro feed_completes) (simp_all add: proto_search ending_brace proto_callbacks)
  have "feed f jt jr (proto_productions junk str) ls R s = settle (f - 1) jt (proto_productions junk str)
    (nd jt 5 l1 (EnumValue \<lparr>e_name = name, e_values = map (value_of junk) vs\<rparr>) # R) s"
    unfolding ls feed_append 1 bind_result_simps prod.case 2 3 [unfolded append_Nil] ..
  then show ?thesis by blast
qed

text \<open>Functions of a service.\<close>

definition rpc_of :: "string \<times> string \<times> string \<Rightarrow> RpcFunctionDef" where
  "rpc_of = (\<lambda>(name, param, ret). \<lparr>r_name = name, r_return = ret, r_param = param\<rparr>)"

lemma feed_rpc:
  assumes "spelled str ls (rpc_tokens v)" "0 < f"
  shows "\<exists>l. feed f jt jr (proto_productions junk str) ls R s =
    settle (f - 1) jt (proto_productions junk str) (nd jt 8 l (RpcValue (rpc_of v)) # R) s"
proof -
  obtain name param ret where v: "v = (name, param, ret)" by (cases v) auto
  from assms(1) obtain t1 l1 t2 l2 t3 l3 t4 l4 t5 l5 t6 l6 t7 l7 t8 l8 t9 l9 t10 l10 where
    ls: "ls = [(t1, l1), (t2, l2), (t3, l3), (t4, l4), (t5, l5), (t6, l6), (t7, l7), (t8, l8), (t9, l9)] @ [(t10, l10)]"
    and valid: "m_valid t1" "m_valid t2" "m_valid t3" "m_valid t4" "m_valid t5" "m_valid t6" "m_valid t7" "m_valid t8"
      "m_valid t9" "m_valid t10"
    and ids: "m_id t1 = RPC" "m_id t2 = IDENT" "m_id t3 = OPEN_PEREN" "m_id t4 = IDENT" "m_id t5 = CLOSE_PEREN"
      "m_id t6 = RETURNS" "m_id t7 = OPEN_PEREN" "m_id t8 = IDENT" "m_id t9 = CLOSE_PEREN" "m_id t10 = EOL"
    and texts: "token_text str t2 = name" "token_text str t4 = param" "token_text str t8 = ret"
    by (auto simp: rpc_tokens_def kw_def v)
  let ?st = "[tok jr t10 l10, tok jr t9 l9, tok jr t8 l8, tok jr t7 l7, tok jr t6 l6, tok jr t5 l5, tok jr t4 l4, tok jr t3 l3,
    tok jr t2 l2, tok jr t1 l1] @ R"
  have skip: "search jt (map (\<lambda>t. (2, [Tok t, Tok IDENT, Tok EQUALS, Tok NUM, Tok EOL], Some (genField str))) field_types @ qs) ?st s = search jt qs ?st s"
    "search jt (map (\<lambda>t. (2, [Tok t, Tok IDENT, Tok REPEATED, Tok EQUALS, Tok NUM, Tok EOL], Some (genField str))) field_types @ qs) ?st s = search jt qs ?st s" for qs
    using ids by (auto intro!: search_loop_skip)
  have "search jt (proto_productions junk str) ?st s = Inr (Some (nd jt 8 l1 (RpcValue (rpc_of v)) # R), s)"
    using valid ids texts skip by (simp add: proto_search ending_eol proto_callbacks rpc_of_def v)
  then show ?thesis unfolding ls using ids assms(2) by (intro exI [of _ l1] feed_completes) auto
qed

lemma settle_rpc:
  assumes "3 < f"
  shows "m_id t = OPEN_BRACE \<Longrightarrow> settle (f - 1) jt (proto_productions junk str) (nd jt 8 l (RpcValue x) # tok jr t l' # R) s =
      Inr (nd jt 9 l (RpcList [x]) # tok jr t l' # R, s)"
    and "settle (f - 1) jt (proto_productions junk str) (nd jt 8 l (RpcValue x) # nd jt 9 l' (RpcList xs) # R) s =
      Inr (nd jt 9 l' (RpcList (xs @ [x])) # R, s)"
proof -
  define n where "n = f - 3"
  have n: "f - 1 = Suc (Suc n)" using assms by (simp add: n_def)
  show "m_id t = OPEN_BRACE \<Longrightarrow> settle (f - 1) jt (proto_productions junk str) (nd jt 8 l (RpcValue x) # tok jr t l' # R) s =
      Inr (nd jt 9 l (RpcList [x]) # tok jr t l' # R, s)"
    "settle (f - 1) jt (proto_productions junk str) (nd jt 8 l (RpcValue x) # nd jt 9 l' (RpcList xs) # R) s =
      Inr (nd jt 9 l' (RpcList (xs @ [x])) # R, s)"
    unfolding n by (simp_all add: proto_search ending_rule proto_callbacks)
qed

lemma feed_more_rpcs:
  "spelled str ls (concat (map rpc_tokens vs)) \<Longrightarrow> 3 < f \<Longrightarrow>
   feed f jt jr (proto_productions junk str) ls (nd jt 9 l (RpcList xs) # R) s =
     Inr (nd jt 9 l (RpcList (xs @ map rpc_of vs)) # R, s)"
proof (induction vs arbitrary: ls xs)
  case (Cons v vs)
  then obtain us ws where ls: "ls = us @ ws" "spelled str us (rpc_tokens v)" "spelled str ws (concat (map rpc_tokens vs))"
    by (auto simp: spelled_append)
  obtain l' where "feed f jt jr (proto_productions junk str) us (nd jt 9 l (RpcList xs) # R) s =
      settle (f - 1) jt (proto_productions junk str) (nd jt 8 l' (RpcValue (rpc_of v)) # nd jt 9 l (RpcList xs) # R) s"
    using feed_rpc [OF ls(2), of f jt jr junk _ s] Cons.prems(2) by auto
  then show ?case unfolding ls(1) feed_append using settle_rpc(2) [OF Cons.prems(2)] Cons.IH [OF ls(3)] Cons.prems by simp
qed simp

lemma feed_rpcs:
  assumes "spelled str ls (concat (map rpc_tokens vs))" "vs \<noteq> []" "m_id t = OPEN_BRACE" "3 < f"
  shows "\<exists>l'. feed f jt jr (proto_productions junk str) ls (tok jr t l # R) s =
     Inr (nd jt 9 l' (RpcList (map rpc_of vs)) # tok jr t l # R, s)"
proof -
  obtain v vs' where vs: "vs = v # vs'" using assms(2) by (cases vs) auto
  with assms(1) obtain us ws where ls: "ls = us @ ws" "spelled str us (rpc_tokens v)" "spelled str ws (concat (map rpc_tokens vs'))"
    by (auto simp: spelled_append)
  obtain l' where "feed f jt jr (proto_productions junk str) us (tok jr t l # R) s =
      settle (f - 1) jt (proto_productions junk str) (nd jt 8 l' (RpcValue (rpc_of v)) # tok jr t l # R) s"
    using feed_rpc [OF ls(2), of f jt jr junk _ s] assms(4) by auto
  then have "feed f jt jr (proto_productions junk str) ls (tok jr t l # R) s =
     Inr (nd jt 9 l' (RpcList (map rpc_of vs)) # tok jr t l # R, s)"
    unfolding ls(1) feed_append using settle_rpc(1) [OF assms(4)] feed_more_rpcs [OF ls(3) assms(4)] assms(3) vs by simp
  then show ?thesis by blast
qed

section \<open>Messages\<close>

text \<open>
  The nodes that stand for a message or for the body of one, and the stack inside a message after some
  of its items: messages, or a body that has taken them in.
\<close>

definition stands_for :: "u32 \<times> bool \<Rightarrow> MessageDef \<Rightarrow> proto_item \<Rightarrow> bool" where
  "stands_for junk m i \<longleftrightarrow> (\<forall>path. fixPackage m path = item_def junk path i)"

definition body_of :: "u32 \<times> bool \<Rightarrow> MessageDef \<Rightarrow> proto_item list \<Rightarrow> proto_item list \<Rightarrow> bool" where
  "body_of junk d ms is \<longleftrightarrow> list_all2 (stands_for junk) (m_messages d) ms \<and>
     m_fields d = fields_of is \<and> m_enums d = enums_of junk is"

inductive body_stack :: "u32 \<times> bool \<Rightarrow> eTokenTypes Token \<Rightarrow> proto_node list \<Rightarrow> proto_item list \<Rightarrow> proto_node list \<Rightarrow> bool" for junk jt base where
  none: "body_stack junk jt base [] base"
| lead: "body_stack junk jt base is R \<Longrightarrow> list_all is_message is \<Longrightarrow> is_message i \<Longrightarrow> stands_for junk m i \<Longrightarrow>
    body_stack junk jt base (is @ [i]) (nd jt 7 l (MessageValue m) # R)"
| body: "\<not> list_all is_message is \<Longrightarrow> body_of junk d (in_order is) is \<Longrightarrow>
    body_stack junk jt base is (nd jt 6 l (MessageValue d) # base)"

lemma in_order_messages: "list_all is_message is \<Longrightarrow> in_order is = rev is"
  by (simp add: in_order_def takeWhile_eq_all_conv [THEN iffD2] dropWhile_eq_Nil_conv [THEN iffD2] list_all_iff)

lemma in_order_snoc:
  assumes "\<not> list_all is_message is"
  shows "in_order (is @ [i]) = in_order is @ (if is_message i then [i] else [])"
proof -
  from assms obtain x where "x \<in> set is" "\<not> is_message x" by (auto simp: list_all_iff)
  then show ?thesis by (simp add: in_order_def takeWhile_append1 dropWhile_append1)
qed

lemma in_order_first: "list_all is_message is \<Longrightarrow> \<not> is_message i \<Longrightarrow> in_order (is @ [i]) = rev is"
  by (simp add: in_order_def takeWhile_append2 dropWhile_append2 list_all_iff)

lemma fields_enums_append:
  "fields_of (xs @ ys) = fields_of xs @ fields_of ys" "enums_of junk (xs @ ys) = enums_of junk xs @ enums_of junk ys"
  by (simp_all add: fields_of_def enums_of_def)

lemma fields_enums_messages: "list_all is_message is \<Longrightarrow> fields_of is = [] \<and> enums_of junk is = []"
proof (induction "is")
  case (Cons i "is")
  then show ?case by (cases i) (simp_all add: fields_of_def enums_of_def)
qed (simp add: fields_of_def enums_of_def)

definition brace_top :: "proto_node list \<Rightarrow> bool" where
  "brace_top base \<longleftrightarrow> (\<exists>jr t l B. base = tok jr t l # B \<and> m_id t = OPEN_BRACE)"

text \<open>The first body takes in the messages before it.\<close>

lemma settle_body:
  "brace_top base \<Longrightarrow> 0 < f \<Longrightarrow> settle f jt (proto_productions junk str) (nd jt 6 l v # base) s = Inr (nd jt 6 l v # base, s)"
  by (rule settle_stop) (auto simp: brace_top_def proto_search ending_rule)

lemma settle_collapse:
  "body_stack junk jt base is R \<Longrightarrow> list_all is_message is \<Longrightarrow> brace_top base \<Longrightarrow> length R < f \<Longrightarrow>
   \<exists>l' ms. list_all2 (stands_for junk) ms (rev is) \<and>
     settle f jt (proto_productions junk str) (nd jt 6 l (MessageValue d) # R) s =
       Inr (nd jt 6 l' (MessageValue (MessageDef (ProtoBuf.m_name d) (ProtoBuf.m_package d) (m_messages d @ ms) (m_fields d) (m_enums d))) # base, s)"
proof (induction arbitrary: f l d rule: body_stack.induct)
  case none
  then show ?case using settle_body [OF none.prems(2), of f jt junk str l "MessageValue d" s]
    by (intro exI [of _ l] exI [of _ "[]"]) simp
next
  case (lead "is" R i m l0)
  have "search jt (proto_productions junk str) (nd jt 6 l (MessageValue d) # nd jt 7 l0 (MessageValue m) # R) s =
      Inr (Some (nd jt 6 l0 (MessageValue (add_child d m)) # R), s)"
    by (simp add: proto_search ending_rule genMessageMessageBody_def cast_at_def value_at_def)
  then have step: "settle f jt (proto_productions junk str) (nd jt 6 l (MessageValue d) # nd jt 7 l0 (MessageValue m) # R) s =
      settle (f - 1) jt (proto_productions junk str) (nd jt 6 l0 (MessageValue (add_child d m)) # R) s"
    using lead.prems(3) by (intro settle_step) auto
  have "length R < f - 1" using lead.prems(3) by simp
  from lead.IH [OF lead.hyps(2) lead.prems(2) this, of l0 "add_child d m"]
  obtain l' ms where "list_all2 (stands_for junk) ms (rev is)"
    "settle (f - 1) jt (proto_productions junk str) (nd jt 6 l0 (MessageValue (add_child d m)) # R) s =
       Inr (nd jt 6 l' (MessageValue (MessageDef (ProtoBuf.m_name d) (ProtoBuf.m_package d) (m_messages d @ m # ms) (m_fields d) (m_enums d))) # base, s)"
    by (auto simp: add_child_def)
  with step lead.hyps(4) show ?case by (intro exI [of _ l'] exI [of _ "m # ms"]) simp
qed simp

text \<open>An item that is not a message, and a message.\<close>

lemma body_cases [consumes 2, case_names body first]:
  assumes "body_stack junk jt base is R" "brace_top base"
  obtains (body) l d where "\<not> list_all is_message is" "body_of junk d (in_order is) is" "R = nd jt 6 l (MessageValue d) # base"
  | (first) y B where "list_all is_message is" "R = y # B" "sym_of y = Tok OPEN_BRACE \<or> sym_of y = Nt 7"
  using assms by (cases rule: body_stack.cases) (auto simp: brace_top_def)

lemma body_add:
  assumes stack: "body_stack junk jt base is R" "brace_top base" "length R + 2 < f" and i: "\<not> is_message i"
    and after: "\<And>d l0 B. search jt (proto_productions junk str) (x # nd jt 6 l0 (MessageValue d) # B) s =
      Inr (Some (nd jt 6 l0 (MessageValue (upd d)) # B), s)"
    and alone: "\<And>y B. sym_of y = Tok OPEN_BRACE \<or> sym_of y = Nt 7 \<Longrightarrow> search jt (proto_productions junk str) (x # y # B) s =
      Inr (Some (nd jt 6 (m_line x) (MessageValue (upd empty_message)) # y # B), s)"
    and upd: "\<And>d. m_messages (upd d) = m_messages d" "\<And>d. m_fields (upd d) = m_fields d @ fields_of [i]"
      "\<And>d. m_enums (upd d) = m_enums d @ enums_of junk [i]"
  shows "\<exists>R'. settle f jt (proto_productions junk str) (x # R) s = Inr (R', s) \<and> body_stack junk jt base (is @ [i]) R'"
  using stack(1,2)
proof (cases rule: body_cases)
  case (body l d)
  have "settle f jt (proto_productions junk str) (x # R) s = Inr (nd jt 6 l (MessageValue (upd d)) # base, s)"
    using settle_step [OF after, of f l d base] settle_body [OF stack(2)] stack(3) body(3) by simp
  moreover have "body_of junk (upd d) (in_order (is @ [i])) (is @ [i])"
    using body(2) upd i by (simp add: body_of_def in_order_snoc [OF body(1)] fields_enums_append)
  then have "body_stack junk jt base (is @ [i]) (nd jt 6 l (MessageValue (upd d)) # base)"
    using body(1) by (intro body_stack.body) simp_all
  ultimately show ?thesis by blast
next
  case (first y B)
  have "settle f jt (proto_productions junk str) (x # R) s =
      settle (f - 1) jt (proto_productions junk str) (nd jt 6 (m_line x) (MessageValue (upd empty_message)) # R) s"
    unfolding first(2) using settle_step [OF alone [OF first(3)], of f B] stack(3) by simp
  moreover have less: "length R < f - 1" using stack(3) by simp
  then obtain l' ms where ms: "list_all2 (stands_for junk) ms (rev is)"
    "settle (f - 1) jt (proto_productions junk str) (nd jt 6 (m_line x) (MessageValue (upd empty_message)) # R) s =
      Inr (nd jt 6 l' (MessageValue (MessageDef (ProtoBuf.m_name (upd empty_message)) (ProtoBuf.m_package (upd empty_message))
        (m_messages (upd empty_message) @ ms) (m_fields (upd empty_message)) (m_enums (upd empty_message)))) # base, s)"
    using settle_collapse [OF stack(1) first(1) stack(2) less, of str "m_line x" "upd empty_message" s] by blast
  moreover have "body_of junk (MessageDef (ProtoBuf.m_name (upd empty_message)) (ProtoBuf.m_package (upd empty_message))
        (m_messages (upd empty_message) @ ms) (m_fields (upd empty_message)) (m_enums (upd empty_message)))
      (in_order (is @ [i])) (is @ [i])"
    using ms(1) upd i fields_enums_messages [OF first(1)]
    by (simp add: body_of_def in_order_first [OF first(1)] fields_enums_append empty_message_def)
  then have "body_stack junk jt base (is @ [i]) (nd jt 6 l' (MessageValue (MessageDef (ProtoBuf.m_name (upd empty_message)) (ProtoBuf.m_package (upd empty_message))
        (m_messages (upd empty_message) @ ms) (m_fields (upd empty_message)) (m_enums (upd empty_message)))) # base)"
    using i by (intro body_stack.body) simp_all
  ultimately show ?thesis using ms(2) by auto
qed

lemma body_field:
  assumes "body_stack junk jt base is R" "brace_top base" "length R + 2 < f"
  shows "\<exists>R'. settle f jt (proto_productions junk str) (nd jt 2 l (FieldValue (field_of ty name rep num)) # R) s = Inr (R', s) \<and>
    body_stack junk jt base (is @ [ItemField ty name rep num]) R'"
  by (rule body_add [OF assms, where upd = "\<lambda>d. MessageDef (ProtoBuf.m_name d) (ProtoBuf.m_package d) (m_messages d)
      (m_fields d @ [field_of ty name rep num]) (m_enums d)"])
    (auto simp: proto_search ending_rule genMessageField_def cast_at_def value_at_def fields_of_def enums_of_def)

lemma body_enum:
  assumes "body_stack junk jt base is R" "brace_top base" "length R + 2 < f"
  shows "\<exists>R'. settle f jt (proto_productions junk str) (nd jt 5 l (EnumValue \<lparr>e_name = name, e_values = map (value_of junk) vs\<rparr>) # R) s = Inr (R', s) \<and>
    body_stack junk jt base (is @ [ItemEnum name vs]) R'"
  by (rule body_add [OF assms, where upd = "\<lambda>d. MessageDef (ProtoBuf.m_name d) (ProtoBuf.m_package d) (m_messages d)
      (m_fields d) (m_enums d @ [\<lparr>e_name = name, e_values = map (value_of junk) vs\<rparr>])"])
    (auto simp: proto_search ending_rule genMessageEnum_def cast_at_def value_at_def fields_of_def enums_of_def)

lemma body_message:
  assumes "body_stack junk jt base is R" "brace_top base" "2 < f" "stands_for junk m i" "is_message i"
  shows "\<exists>R'. settle f jt (proto_productions junk str) (nd jt 7 l (MessageValue m) # R) s = Inr (R', s) \<and>
    body_stack junk jt base (is @ [i]) R'"
  using assms(1,2)
proof (cases rule: body_cases)
  case (body l0 d)
  have "search jt (proto_productions junk str) (nd jt 7 l (MessageValue m) # R) s =
      Inr (Some (nd jt 6 l0 (MessageValue (add_child d m)) # base), s)"
    unfolding body(3) by (simp add: proto_search ending_rule genMessageBodyMessage_def cast_at_def value_at_def)
  from settle_step [OF this, of f]
  have "settle f jt (proto_productions junk str) (nd jt 7 l (MessageValue m) # R) s =
      Inr (nd jt 6 l0 (MessageValue (add_child d m)) # base, s)"
    using settle_body [OF assms(2)] assms(3) by simp
  moreover have "body_of junk (add_child d m) (in_order (is @ [i])) (is @ [i])"
    using body(2) assms(4,5) fields_enums_messages [of "[i]"]
    by (simp add: body_of_def in_order_snoc [OF body(1)] fields_enums_append add_child_def list_all2_appendI)
  then have "body_stack junk jt base (is @ [i]) (nd jt 6 l0 (MessageValue (add_child d m)) # base)"
    using body(1) by (intro body_stack.body) simp_all
  ultimately show ?thesis by blast
next
  case (first y B)
  then have "settle f jt (proto_productions junk str) (nd jt 7 l (MessageValue m) # R) s = Inr (nd jt 7 l (MessageValue m) # R, s)"
    using assms(3) by (intro settle_stop) (auto simp: proto_search ending_rule)
  with body_stack.lead [OF assms(1) first(1) assms(5,4)] show ?thesis by blast
qed

text \<open>What feeding an item does to the stack inside a message, and all items of one.\<close>

definition item_fed :: "u32 \<times> bool \<Rightarrow> string \<Rightarrow> proto_item \<Rightarrow> bool" where
  "item_fed junk str i \<longleftrightarrow> (\<forall>f jt jr base is R ls s. spelled str ls (item_tokens i) \<longrightarrow> body_stack junk jt base is R \<longrightarrow>
     brace_top base \<longrightarrow> length R + length ls + 5 \<le> f \<longrightarrow>
     (\<exists>R'. feed f jt jr (proto_productions junk str) ls R s = Inr (R', s) \<and> body_stack junk jt base (is @ [i]) R'))"

lemma feed_items:
  "list_all (item_fed junk str) items \<Longrightarrow> spelled str ls (concat (map item_tokens items)) \<Longrightarrow> body_stack junk jt base is R \<Longrightarrow>
   brace_top base \<Longrightarrow> length R + length ls + 5 \<le> f \<Longrightarrow>
   \<exists>R'. feed f jt jr (proto_productions junk str) ls R s = Inr (R', s) \<and> body_stack junk jt base (is @ items) R'"
proof (induction items arbitrary: "is" R ls)
  case Nil
  then show ?case by simp
next
  case (Cons i items)
  from Cons.prems(2) obtain us vs where ls: "ls = us @ vs" "spelled str us (item_tokens i)"
    "spelled str vs (concat (map item_tokens items))" by (auto simp: spelled_append)
  have "item_fed junk str i" "length R + length us + 5 \<le> f" using Cons.prems(1,5) ls(1) by simp_all
  then obtain R1 where 1: "feed f jt jr (proto_productions junk str) us R s = Inr (R1, s)"
    "body_stack junk jt base (is @ [i]) R1"
    using ls(2) Cons.prems(3,4) unfolding item_fed_def by blast
  have "length R1 + length vs + 5 \<le> f" using feed_length [OF proto_nonempty 1(1)] Cons.prems(5) ls(1) by simp
  with Cons.IH [OF _ ls(3) 1(2) Cons.prems(4)] Cons.prems(1) obtain R2 where
    "feed f jt jr (proto_productions junk str) vs R1 s = Inr (R2, s)" "body_stack junk jt base ((is @ [i]) @ items) R2" by auto
  with 1(1) show ?case unfolding ls(1) feed_append by simp
qed

lemma fixPackage_all: "list_all2 (stands_for junk) ms is \<Longrightarrow> map (\<lambda>m. fixPackage m p) ms = map (item_def junk p) is"
  by (induction rule: list_all2_induct) (simp_all add: stands_for_def)

lemma feed_message:
  assumes "list_all (item_fed junk str) items" "\<not> list_all is_message items"
    and "spelled str ls (item_tokens (ItemMessage name items))" "length R + length ls + 5 \<le> f"
  shows "\<exists>l m. stands_for junk m (ItemMessage name items) \<and> feed f jt jr (proto_productions junk str) ls R s =
    settle (f - 1) jt (proto_productions junk str) (nd jt 7 l (MessageValue m) # R) s"
proof -
  from assms(3) obtain t1 l1 t2 l2 t3 l3 us t4 l4 where ls: "ls = [(t1, l1), (t2, l2), (t3, l3)] @ us @ [(t4, l4)]"
    and us: "spelled str us (concat (map item_tokens items))"
    and t: "m_valid t1" "m_id t1 = MESSAGE" "m_valid t2" "m_id t2 = IDENT" "token_text str t2 = name" "m_valid t3" "m_id t3 = OPEN_BRACE"
      "m_valid t4" "m_id t4 = CLOSE_BRACE"
    by (auto simp: spelled_append kw_def)
  let ?base = "tok jr t3 l3 # tok jr t2 l2 # tok jr t1 l1 # R"
  have 1: "feed f jt jr (proto_productions junk str) [(t1, l1), (t2, l2), (t3, l3)] R s = Inr (?base, s)"
    using t assms(4) by (simp add: feed_pushes del: feed.simps)
  have base: "brace_top ?base" using t(7) unfolding brace_top_def by blast
  have "length ?base + length us + 5 \<le> f" using assms(4) ls by simp
  from feed_items [OF assms(1) us body_stack.none base this] obtain R1 where
    2: "feed f jt jr (proto_productions junk str) us ?base s = Inr (R1, s)" "body_stack junk jt ?base ([] @ items) R1" by blast
  from 2(2) base obtain l d where R1: "R1 = nd jt 6 l (MessageValue d) # ?base" "body_of junk d (in_order items) items"
    by (cases rule: body_cases) (use assms(2) in auto)
  define m where "m = MessageDef name (ProtoBuf.m_package d) (m_messages d) (m_fields d) (m_enums d)"
  have "stands_for junk m (ItemMessage name items)"
    using R1(2) by (simp add: stands_for_def m_def body_of_def fixPackage_all)
  moreover have "feed f jt jr (proto_productions junk str) ([] @ [(t4, l4)]) R1 s =
      settle (f - 1) jt (proto_productions junk str) (nd jt 7 l1 (MessageValue m) # R) s"
    using t assms(4) unfolding R1(1) by (intro feed_completes) (simp_all add: proto_search ending_brace proto_callbacks m_def)
  then have "feed f jt jr (proto_productions junk str) ls R s =
      settle (f - 1) jt (proto_productions junk str) (nd jt 7 l1 (MessageValue m) # R) s"
    unfolding ls feed_append 1 bind_result_simps prod.case 2(1) append_Nil .
  ultimately show ?thesis by blast
qed

lemma items_fed: "item_ok i \<Longrightarrow> item_fed junk str i"
proof (induction i)
  case (ItemField ty name rep num)
  show ?case unfolding item_fed_def
  proof (intro allI impI)
    fix f jt jr base "is" R and ls :: "(eTokenTypes Token \<times> nat) list" and s
    assume a: "spelled str ls (item_tokens (ItemField ty name rep num))" "body_stack junk jt base is R" "brace_top base"
      "length R + length ls + 5 \<le> f"
    obtain l where "feed f jt jr (proto_productions junk str) ls R s =
        settle (f - 1) jt (proto_productions junk str) (nd jt 2 l (FieldValue (field_of ty name rep num)) # R) s"
      using feed_field [of str ls ty name rep num f jt jr junk R s] a(1,4) ItemField by auto
    moreover have "length R + 2 < f - 1" using a(4) by simp
    from body_field [OF a(2,3) this] show "\<exists>R'. feed f jt jr (proto_productions junk str) ls R s = Inr (R', s) \<and>
        body_stack junk jt base (is @ [ItemField ty name rep num]) R'" unfolding calculation .
  qed
next
  case (ItemEnum name vs)
  show ?case unfolding item_fed_def
  proof (intro allI impI)
    fix f jt jr base "is" R and ls :: "(eTokenTypes Token \<times> nat) list" and s
    assume a: "spelled str ls (item_tokens (ItemEnum name vs))" "body_stack junk jt base is R" "brace_top base"
      "length R + length ls + 5 \<le> f"
    obtain l where "feed f jt jr (proto_productions junk str) ls R s =
        settle (f - 1) jt (proto_productions junk str) (nd jt 5 l (EnumValue \<lparr>e_name = name, e_values = map (value_of junk) vs\<rparr>) # R) s"
      using feed_enum [OF a(1) ItemEnum, of f jt jr junk R s] a(4) by auto
    moreover have "length R + 2 < f - 1" using a(4) by simp
    from body_enum [OF a(2,3) this] show "\<exists>R'. feed f jt jr (proto_productions junk str) ls R s = Inr (R', s) \<and>
        body_stack junk jt base (is @ [ItemEnum name vs]) R'" unfolding calculation .
  qed
next
  case (ItemMessage name items)
  then have fed: "list_all (item_fed junk str) items" "\<not> list_all is_message items" by (auto simp: list_all_iff)
  show ?case unfolding item_fed_def
  proof (intro allI impI)
    fix f jt jr base "is" R and ls :: "(eTokenTypes Token \<times> nat) list" and s
    assume a: "spelled str ls (item_tokens (ItemMessage name items))" "body_stack junk jt base is R" "brace_top base"
      "length R + length ls + 5 \<le> f"
    from feed_message [OF fed a(1,4)] obtain l m where "stands_for junk m (ItemMessage name items)"
      "feed f jt jr (proto_productions junk str) ls R s = settle (f - 1) jt (proto_productions junk str) (nd jt 7 l (MessageValue m) # R) s"
      by blast
    with body_message [OF a(2,3), of "f - 1" m "ItemMessage name items" str l s] a(4)
    show "\<exists>R'. feed f jt jr (proto_productions junk str) ls R s = Inr (R', s) \<and>
        body_stack junk jt base (is @ [ItemMessage name items]) R'" by simp
  qed
qed

section \<open>Declarations and files\<close>

lemma settle_file:
  assumes "2 < f"
  shows "settle f jt (proto_productions junk str) [nul jt 1 l', nul jt 11 l] s = Inr ([nul jt 11 l], s)"
    and "settle f jt (proto_productions junk str) [nul jt 10 l', nul jt 11 l] s = Inr ([nul jt 11 l], s)"
    and "settle f jt (proto_productions junk str) [nul jt 0 l] s = Inr ([nul jt 11 l], s)"
    and "length (p_package s) < 2 ^ 61 \<Longrightarrow>
      settle f jt (proto_productions junk str) [nd jt 7 l' (MessageValue m), nul jt 11 l] s =
        Inr ([nul jt 11 l], s\<lparr>p_messages := p_messages s @ [fixPackage m (package_path (p_package s))]\<rparr>)"
proof -
  define n where "n = f - 2"
  have n: "f = Suc (Suc n)" using assms by (simp add: n_def)
  show "settle f jt (proto_productions junk str) [nul jt 1 l', nul jt 11 l] s = Inr ([nul jt 11 l], s)"
    "settle f jt (proto_productions junk str) [nul jt 10 l', nul jt 11 l] s = Inr ([nul jt 11 l], s)"
    "settle f jt (proto_productions junk str) [nul jt 0 l] s = Inr ([nul jt 11 l], s)"
    unfolding n by (simp_all add: proto_search ending_rule del: One_nat_def)
  show "settle f jt (proto_productions junk str) [nd jt 7 l' (MessageValue m), nul jt 11 l] s =
        Inr ([nul jt 11 l], s\<lparr>p_messages := p_messages s @ [fixPackage m (package_path (p_package s))]\<rparr>)"
    if "length (p_package s) < 2 ^ 61"
    unfolding n using package_replaced [OF that]
    by (simp add: proto_search ending_rule addMessage_def cast_at_def value_at_def)
qed

lemma feed_decl:
  assumes "spelled str ls (decl_tokens d)" "decl_ok d" "length (p_package s) < 2 ^ 61" "length ls + 6 \<le> f"
  shows "feed f jt jr (proto_productions junk str) ls [nul jt 11 l] s = Inr ([nul jt 11 l], add_decl junk s d)"
proof (cases d)
  case (DeclImport x)
  with assms(1) obtain t1 l1 t2 l2 t3 l3 where ls: "ls = [(t1, l1), (t2, l2)] @ [(t3, l3)]"
    and t: "m_valid t1" "m_id t1 = IMPORT" "m_valid t2" "m_id t2 = STR_TOKEN" "m_valid t3" "m_id t3 = EOL"
      "token_text str t2 = CHR 0x22 # x @ [CHR 0x22]" by (auto simp: kw_def)
  have "search jt (proto_productions junk str) (tok jr t3 l3 # rev (map (\<lambda>(t, l). tok jr t l) [(t1, l1), (t2, l2)]) @ [nul jt 11 l]) s =
      Inr (Some [nul jt 1 l1, nul jt 11 l], s\<lparr>p_imports := p_imports s @ [x]\<rparr>)"
    using t TrimQuotes_quoted [of x] by (simp add: proto_search ending_eol proto_callbacks del: One_nat_def)
  from feed_completes [OF _ _ this, of f] settle_file(1) [of "f - 1"] t assms(4) show ?thesis
    unfolding ls DeclImport by (simp add: add_decl_def del: feed.simps One_nat_def)
next
  case (DeclService name rs)
  with assms(1) obtain t1 l1 t2 l2 t3 l3 us t4 l4 where ls: "ls = [(t1, l1), (t2, l2), (t3, l3)] @ us @ [(t4, l4)]"
    and us: "spelled str us (concat (map rpc_tokens rs))"
    and t: "m_valid t1" "m_id t1 = SERVICE" "m_valid t2" "m_id t2 = IDENT" "token_text str t2 = name" "m_valid t3" "m_id t3 = OPEN_BRACE"
      "m_valid t4" "m_id t4 = CLOSE_BRACE"
    by (auto simp: spelled_append kw_def)
  let ?R = "[tok jr t2 l2, tok jr t1 l1, nul jt 11 l]"
  have 1: "feed f jt jr (proto_productions junk str) [(t1, l1), (t2, l2), (t3, l3)] [nul jt 11 l] s = Inr (tok jr t3 l3 # ?R, s)"
    using t assms(4) by (simp add: feed_pushes del: feed.simps)
  obtain l' where 2: "feed f jt jr (proto_productions junk str) us (tok jr t3 l3 # ?R) s =
      Inr (nd jt 9 l' (RpcList (map rpc_of rs)) # tok jr t3 l3 # ?R, s)"
    using feed_rpcs [OF us _ t(7), of f jt jr junk l3 ?R s] assms(2,4) DeclService by auto
  have "feed f jt jr (proto_productions junk str) ([] @ [(t4, l4)]) (nd jt 9 l' (RpcList (map rpc_of rs)) # tok jr t3 l3 # ?R) s =
      settle (f - 1) jt (proto_productions junk str) [nul jt 10 l1, nul jt 11 l] (add_decl junk s d)"
    using t assms(4) by (intro feed_completes) (simp_all add: proto_search ending_brace proto_callbacks DeclService add_decl_def rpc_of_def)
  then have 3: "feed f jt jr (proto_productions junk str) [(t4, l4)] (nd jt 9 l' (RpcList (map rpc_of rs)) # tok jr t3 l3 # ?R) s =
      Inr ([nul jt 11 l], add_decl junk s d)" using settle_file(2) [of "f - 1"] assms(4) by simp
  show ?thesis unfolding ls feed_append 1 bind_result_simps prod.case 2 3 ..
next
  case (DeclMessage name items)
  have "item_ok (ItemMessage name items)" using assms(2) DeclMessage by simp
  then have items: "list_all (item_fed junk str) items" "\<not> list_all is_message items"
    using items_fed by (auto simp: list_all_iff)
  have "spelled str ls (item_tokens (ItemMessage name items))" "length [nul jt 11 l] + length ls + 5 \<le> f"
    using assms(1,4) DeclMessage by simp_all
  from feed_message [OF items this, of jt jr s] obtain l' m where m: "stands_for junk m (ItemMessage name items)"
    "feed f jt jr (proto_productions junk str) ls [nul jt 11 l] s =
      settle (f - 1) jt (proto_productions junk str) [nd jt 7 l' (MessageValue m), nul jt 11 l] s" by blast
  show ?thesis unfolding m(2) using settle_file(4) [OF _ assms(3), of "f - 1" jt junk str l' m l] assms(4) m(1)
    by (simp add: DeclMessage add_decl_def stands_for_def)
qed

lemma add_decl_package [simp]: "p_package (add_decl junk s d) = p_package s"
  by (cases d) (simp_all add: add_decl_def)

lemma feed_decls:
  "spelled str ls (concat (map decl_tokens ds)) \<Longrightarrow> list_all decl_ok ds \<Longrightarrow> length (p_package s) < 2 ^ 61 \<Longrightarrow> length ls + 6 \<le> f \<Longrightarrow>
   feed f jt jr (proto_productions junk str) ls [nul jt 11 l] s = Inr ([nul jt 11 l], foldl (add_decl junk) s ds)"
proof (induction ds arbitrary: ls s)
  case (Cons d ds)
  from Cons.prems(1) obtain us vs where ls: "ls = us @ vs" "spelled str us (decl_tokens d)" "spelled str vs (concat (map decl_tokens ds))"
    by (auto simp: spelled_append)
  from feed_decl [OF ls(2), of s f jt jr junk l] Cons.IH [OF ls(3), of "add_decl junk s d"] Cons.prems
  show ?case unfolding ls(1) feed_append by simp
qed simp

lemma feed_file:
  assumes "spelled str ls (file_tokens pkg ds)" "list_all decl_ok ds" "p_package s = []" "length pkg < 2 ^ 61" "length ls + 6 \<le> f"
  shows "\<exists>l. feed f jt jr (proto_productions junk str) ls [] s =
    Inr ([nul jt 11 l], foldl (add_decl junk) (s\<lparr>p_package := pkg\<rparr>) ds)"
proof -
  from assms(1) obtain t1 l1 t2 l2 t3 l3 vs where ls: "ls = ([(t1, l1), (t2, l2)] @ [(t3, l3)]) @ vs"
    and vs: "spelled str vs (concat (map decl_tokens ds))"
    and t: "m_valid t1" "m_id t1 = PACKAGE" "m_valid t2" "m_id t2 = IDENT" "token_text str t2 = pkg" "m_valid t3" "m_id t3 = EOL"
    by (auto simp: file_tokens_def spelled_append kw_def)
  have "feed f jt jr (proto_productions junk str) ([(t1, l1), (t2, l2)] @ [(t3, l3)]) [] s =
      settle (f - 1) jt (proto_productions junk str) [nul jt 0 l1] (s\<lparr>p_package := pkg\<rparr>)"
    using t assms(3,5) by (intro feed_completes) (simp_all add: proto_search ending_eol proto_callbacks)
  then have "feed f jt jr (proto_productions junk str) ([(t1, l1), (t2, l2)] @ [(t3, l3)]) [] s =
      Inr ([nul jt 11 l1], s\<lparr>p_package := pkg\<rparr>)" using settle_file(3) [of "f - 1"] assms(5) by simp
  then have "feed f jt jr (proto_productions junk str) ls [] s =
      Inr ([nul jt 11 l1], foldl (add_decl junk) (s\<lparr>p_package := pkg\<rparr>) ds)"
    unfolding ls(1) feed_append [of _ _ _ _ _ vs] using feed_decls [OF vs assms(2), of "s\<lparr>p_package := pkg\<rparr>" f jt jr junk l1] assms(4,5) ls by simp
  then show ?thesis by blast
qed

text \<open>
  C10. A file is read as what it says. Take any package and declarations that are well-formed, and any
  text that shows their tokens, with any blanks and comments between them. Then, with enough fuel,
  \<^verbatim>\<open>proto::parse\<close> accepts the text, sets the package and adds, in the order of the file, the imports
  without their quotes, the services with their functions and the messages with their fields,
  enumerations and messages, each with the path of namespaces it is in as package. In a message, the
  messages before its first field or enumeration come in reverse order. The values of enumerations have
  their names and numbers; their type and whether they are repeated stay uninitialised.
\<close>

theorem proto_file_read:
  "\<exists>N. \<forall>tf \<ge> N. \<forall>fuel jt jr junk def pkg ds fileData.
     proto_layout (file_tokens pkg ds) fileData \<longrightarrow> list_all decl_ok ds \<longrightarrow> p_package def = [] \<longrightarrow>
     length pkg < 2 ^ 61 \<longrightarrow> length (file_tokens pkg ds) + 6 \<le> fuel \<longrightarrow>
     proto_parse 4 js tf fuel jt jr junk def fileData =
       Inr (True, foldl (add_decl junk) (def\<lparr>p_package := pkg\<rparr>) ds)"
proof -
  obtain toks N where toks: "proto_tokenizer 4 js = Inr toks" "\<forall>tf \<ge> N. tokenizer_is tf toks proto_rexps"
    using proto_tokenizer_exists by blast
  have "proto_parse 4 js tf fuel jt jr junk def fileData = Inr (True, foldl (add_decl junk) (def\<lparr>p_package := pkg\<rparr>) ds)"
    if tf: "N \<le> tf" and lay: "proto_layout (file_tokens pkg ds) fileData" and ok: "list_all decl_ok ds" "p_package def = []"
      "length pkg < 2 ^ 61" and fuel: "length (file_tokens pkg ds) + 6 \<le> fuel"
    for tf fuel jt jr junk pkg ds fileData and "def" :: ProtoDef
  proof -
    obtain p where p: "build_grammar jt jr (proto_steps junk fileData) (LRParser_new toks 1024) = Inr p"
      "rules_ok (m_rules p)" "nonempty_chains (m_rules p)" "m_tokenizer p = toks" "length (m_rules p) = 12"
      "productions (m_rules p) = proto_productions junk fileData" using proto_grammar_built by blast
    obtain ts pos where run: "token_run tf (m_tokenizer p) jt fileData 0 ts pos"
      and ts: "list_all2 (spells fileData) (filter (\<lambda>t. m_id t \<noteq> WS) ts) (file_tokens pkg ds)"
      using displays_run [OF _ proto_layout_displays [OF lay], of tf toks 0 fileData jt] toks(2) tf p(4) by auto
    have "LRParser_parse tf fuel jt jr eTokenTypes_names p WS fileData def =
        Inr (True, [], foldl (add_decl junk) (def\<lparr>p_package := pkg\<rparr>) ds)"
    proof (rule parse_from_feed [OF p(2,3) _ run])
      show "m_rules p \<noteq> []" using p(5) by auto
      fix ls :: "(eTokenTypes Token \<times> nat) list"
      assume ls: "map fst ls = filter (\<lambda>t. m_id t \<noteq> WS) ts"
      then have "spelled fileData ls (file_tokens pkg ds)"
        using ts unfolding spelled_def by (metis list_all2_map1)
      moreover from this have "length ls = length (file_tokens pkg ds)" unfolding spelled_def by (rule list_all2_lengthD)
      ultimately obtain l where "feed fuel jt jr (proto_productions junk fileData) ls [] def =
          Inr ([nul jt 11 l], foldl (add_decl junk) (def\<lparr>p_package := pkg\<rparr>) ds)"
        using feed_file [of fileData ls pkg ds "def" fuel jt jr junk] ok fuel by auto
      with p(5,6) show "\<exists>x. feed fuel jt jr (productions (m_rules p)) ls [] def =
          Inr ([x], foldl (add_decl junk) (def\<lparr>p_package := pkg\<rparr>) ds) \<and> m_ruleId x = length (m_rules p) - 1" by auto
    qed
    then show ?thesis by (simp add: proto_parse_def toks(1) p(1))
  qed
  then show ?thesis by blast
qed

section \<open>Printing\<close>

text \<open>A text of given tokens: a blank after each. Names must not be keywords.\<close>

definition proto_print :: "(eTokenTypes \<times> string) list \<Rightarrow> string" where
  "proto_print txs = concat (map (\<lambda>ix. snd ix @ '' '') txs)"

definition name_ok :: "string \<Rightarrow> bool" where
  "name_ok x \<longleftrightarrow> x \<noteq> [] \<and> is_alpha_ch (hd x) \<and> list_all ident_char (tl x) \<and> x @ '' '' \<notin> snd ` set fixed_texts"

fun token_ok :: "eTokenTypes \<Rightarrow> string \<Rightarrow> bool" where
  "token_ok IDENT x \<longleftrightarrow> name_ok x"
| "token_ok NUM x \<longleftrightarrow> x \<noteq> [] \<and> list_all is_digit_ch x"
| "token_ok STR_TOKEN x \<longleftrightarrow> (\<exists>v. x = CHR 0x22 # v @ [CHR 0x22] \<and> list_all (\<lambda>c. c \<noteq> CHR 0x22) v)"
| "token_ok i x \<longleftrightarrow> (i, x) \<in> set fixed_texts"

lemma keyword_free:
  assumes "name_ok x" "(i, s) \<in> set fixed_texts"
  shows "\<not> prefix s (x @ '' '' @ tail)"
proof
  assume "prefix s (x @ '' '' @ tail)"
  then obtain r where r: "x @ '' '' @ tail = s @ r" by (auto simp: prefix_def)
  obtain c v where x: "x = c # v" "is_alpha_ch c" "list_all ident_char v" using assms(1) by (cases x) (auto simp: name_ok_def)
  have s: "s \<noteq> []" "hd s = c" using fixed_text(1) [OF assms(2)] r x(1) by (cases s; auto)+
  then have "hd s \<notin> set '';={}()''" using x(2) by (auto simp: is_alpha_ch_def)
  from fixed_text(8) [OF assms(2) this] have last: "last s = CHR '' ''" and ends2: "CHR '' '' \<notin> set (butlast s)" by blast+
  have ends: "s = butlast s @ '' ''" using append_butlast_last_id [OF s(1), symmetric] unfolding last .
  have "\<not> ident_char CHR '' ''" "\<not> is_alpha_ch CHR '' ''" by (simp_all add: ident_char_def is_alpha_ch_def is_digit_ch_def)
  then have "CHR '' '' \<notin> set x" using x unfolding x(1) list_all_iff by (metis set_ConsD)
  then have "takeWhile (\<lambda>c. c \<noteq> CHR '' '') (x @ '' '' @ tail) = x" by (subst takeWhile_append2) auto
  moreover have "takeWhile (\<lambda>c. c \<noteq> CHR '' '') (butlast s @ '' '' @ r) = butlast s" using ends2 by (subst takeWhile_append2) auto
  moreover have "x @ '' '' @ tail = butlast s @ '' '' @ r" using r ends by (metis append_assoc)
  ultimately have "x = butlast s" by (simp only:)
  then have "x @ '' '' = snd (i, s)" using ends by (simp only: snd_conv)
  with assms show False unfolding name_ok_def by blast
qed

lemma token_ok_first: "token_ok i x \<Longrightarrow> x \<noteq> [] \<and> \<not> blank_char (hd x)"
proof (cases "i \<in> {IDENT, NUM, STR_TOKEN}")
  case True
  assume "token_ok i x"
  with True show ?thesis
    by (cases x) (auto simp: name_ok_def blank_char_def is_alpha_ch_def is_digit_ch_def)
next
  case False
  assume "token_ok i x"
  with False have "(i, x) \<in> set fixed_texts" by (cases i) auto
  with fixed_text(1,2) show ?thesis by blast
qed

lemma token_ok_text:
  assumes "token_ok i x"
  shows "text_ok i x ('' '' @ tail)"
proof (cases "i = IDENT")
  case True
  with assms keyword_free [of x _ _ tail] show ?thesis
    by (cases x) (auto simp: name_ok_def ident_char_def is_alpha_ch_def is_digit_ch_def list_all_iff)
next
  case False
  with assms show ?thesis by (cases i) (auto simp: is_digit_ch_def)
qed

lemma proto_layout_print:
  "list_all (\<lambda>(i, x). token_ok i x) txs \<Longrightarrow> proto_layout txs (proto_print txs)"
proof (induction txs)
  case (Cons ix txs)
  obtain i x where ix: "ix = (i, x)" by (cases ix)
  have "proto_print txs = [] \<or> \<not> blank_char (hd (proto_print txs))"
    using Cons.prems token_ok_first by (cases txs) (auto simp: proto_print_def hd_append)
  with Cons have "proto_layout txs ('' '' @ proto_print txs)" by (intro proto_layout.blanks) (auto simp: blank_char_def)
  then have "proto_layout ((i, x) # txs) (x @ '' '' @ proto_print txs)"
    using Cons.prems ix by (intro proto_layout.shown token_ok_text) simp_all
  then show ?case by (simp add: proto_print_def ix)
qed (simp add: proto_print_def proto_layout.nothing)

definition sample_decls :: "proto_decl list" where
  "sample_decls =
     [DeclImport ''f'',
      DeclMessage ''M'' [ItemMessage ''A'' [ItemField (Basic BOOL) ''x'' False ''1''],
        ItemMessage ''B'' [ItemEnum ''E'' [(''V'', ''0'')]], ItemField (Named ''A'') ''y'' True ''12''],
      DeclService ''S'' [(''g'', ''M'', ''A'')]]"

lemma proto_sample_ok: "list_all decl_ok sample_decls"
  by (simp add: sample_decls_def number_ok_def digits_value_def is_digit_ch_def field_types_def)

lemma proto_sample_layout: "proto_layout (file_tokens ''a.b'' sample_decls) (proto_print (file_tokens ''a.b'' sample_decls))"
  by (rule proto_layout_print)
    (simp add: file_tokens_def sample_decls_def field_tokens_def value_tokens_def rpc_tokens_def kw_def name_ok_def
      fixed_texts_def is_alpha_ch_def ident_char_def is_digit_ch_def)

lemma proto_sample_definition:
  "p_messages (foldl (add_decl junk) (no_definitions\<lparr>p_package := ''a.b''\<rparr>) sample_decls) =
    [MessageDef ''M'' ''::a::b''
      [MessageDef ''B'' ''::a::b::M'' [] [] [\<lparr>e_name = ''E'', e_values = [value_of junk (''V'', ''0'')]\<rparr>],
       MessageDef ''A'' ''::a::b::M'' [] [field_of (Basic BOOL) ''x'' False ''1''] []]
      [field_of (Named ''A'') ''y'' True ''12''] []]"
  by (simp add: sample_decls_def add_decl_def no_definitions_def package_path_def in_order_def fields_of_def enums_of_def)

theorem proto_file_read_witness:
  "\<exists>tf def'. proto_parse 4 0 tf 100 (Token_new WS 0 0) 0 (0, False) no_definitions
      (proto_print (file_tokens ''a.b'' sample_decls)) = Inr (True, def') \<and>
    map ProtoBuf.m_name (concat (map m_messages (p_messages def'))) = [''B'', ''A'']"
proof -
  have a: "p_package no_definitions = []" "length ''a.b'' < (2 ^ 61 :: nat)"
    "length (file_tokens ''a.b'' sample_decls) + 6 \<le> 100"
    by (simp_all add: no_definitions_def file_tokens_def sample_decls_def field_tokens_def value_tokens_def rpc_tokens_def)
  obtain N where "\<forall>tf \<ge> N. \<forall>fuel jt jr junk def pkg ds fileData.
     proto_layout (file_tokens pkg ds) fileData \<longrightarrow> list_all decl_ok ds \<longrightarrow> p_package def = [] \<longrightarrow>
     length pkg < 2 ^ 61 \<longrightarrow> length (file_tokens pkg ds) + 6 \<le> fuel \<longrightarrow>
     proto_parse 4 0 tf fuel jt jr junk def fileData =
       Inr (True, foldl (add_decl junk) (def\<lparr>p_package := pkg\<rparr>) ds)"
    using proto_file_read [of 0] by blast
  from this [rule_format, OF order_refl proto_sample_layout proto_sample_ok a, of "Token_new WS 0 0" 0 "(0, False)"]
  show ?thesis by (intro exI conjI) (assumption, simp add: proto_sample_definition)
qed

end
