(* ===== verification/StateMachine.thy ===== *)
theory StateMachine
  imports Fishy_Prelude StringUtil
begin

text \<open>
  The state machine of \<^verbatim>\<open>CORE/UTIL/state_machine.cpp\<close>. The virtual functions of the states are
  the client's: they are a parameter, functions of the state they are called on and of the
  client's own memory (a type variable), that give the new memory and the transition they ask
  for through \<^verbatim>\<open>requestTransition\<close>, when they do. The calls that the machine makes of them are
  recorded in order, as its observable behaviour.
\<close>

section \<open>States and clients\<close>

type_synonym StateID = int

definition STATE_INVALID :: StateID where
  "STATE_INVALID = 0"

text \<open>The transitions are a \<^verbatim>\<open>std::set\<close>, listed in increasing order.\<close>

record iState =
  s_id :: StateID
  s_debugName :: string
  s_validTransitions :: "StateID list"

text \<open>\<^verbatim>\<open>GetUniquestateId\<close>: the counter before and after, and the id.\<close>

definition GetUniquestateId :: "StateID \<Rightarrow> StateID \<times> StateID" where
  "GetUniquestateId counter = (counter, counter + 1)"

datatype hook = OnInit | OnTerm | OnEnter | OnExit

datatype call = Called hook StateID | Updated StateID

record 'e client =
  c_hook :: "hook \<Rightarrow> iState \<Rightarrow> 'e \<Rightarrow> 'e \<times> StateID option"
  c_update :: "iState \<Rightarrow> 'e \<Rightarrow> 'e \<times> StateID option \<times> status"

section \<open>The machine\<close>

record StateInfo =
  i_id :: StateID
  i_pState :: iState

record 'e machine =
  m_states :: "StateInfo list"
  m_curStateID :: StateID
  m_nextStateID :: StateID
  m_client :: 'e
  m_calls :: "call list"

definition StateMachine_new :: "'e \<Rightarrow> 'e machine" where
  "StateMachine_new e =
     \<lparr>m_states = [], m_curStateID = STATE_INVALID, m_nextStateID = STATE_INVALID, m_client = e, m_calls = []\<rparr>"

definition getCurrentState :: "'e machine \<Rightarrow> StateID" where
  "getCurrentState m = m_curStateID m"

text \<open>\<^verbatim>\<open>std::find\<close> by id.\<close>

definition find_state :: "StateInfo list \<Rightarrow> StateID \<Rightarrow> StateInfo option" where
  "find_state infos i = List.find (\<lambda>info. i_id info = i) infos"

text \<open>The id goes through a variable of type \<^verbatim>\<open>int\<close>, which keeps its low 32 bits.\<close>

definition int_of_long :: "StateID \<Rightarrow> int" where
  "int_of_long i = (i + 2 ^ 31) mod 2 ^ 32 - 2 ^ 31"

definition addState :: "'e machine \<Rightarrow> iState \<Rightarrow> status \<times> 'e machine" where
  "addState m pState =
     (let i = int_of_long (s_id pState) in
      if find_state (m_states m) i \<noteq> None then (BAD_ARGUMENT, m)
      else (let m = m\<lparr>m_states := m_states m @ [\<lparr>i_id = i, i_pState = pState\<rparr>]\<rparr> in
            if m_curStateID m = STATE_INVALID \<and> m_nextStateID m = STATE_INVALID
            then (OK, m\<lparr>m_nextStateID := i\<rparr>) else (OK, m)))"

text \<open>The argument \<open>i\<close> is only asserted about.\<close>

definition requestTransition :: "'e machine \<Rightarrow> StateID \<Rightarrow> StateID \<Rightarrow> 'e machine" where
  "requestTransition m i id_next = m\<lparr>m_nextStateID := id_next\<rparr>"

definition request_opt :: "'e machine \<Rightarrow> StateID option \<Rightarrow> 'e machine" where
  "request_opt m r = (case r of None \<Rightarrow> m | Some n \<Rightarrow> requestTransition m (m_curStateID m) n)"

definition call_hook :: "'e client \<Rightarrow> hook \<Rightarrow> StateInfo \<Rightarrow> 'e machine \<Rightarrow> 'e machine" where
  "call_hook c k info m =
     (case c_hook c k (i_pState info) (m_client m) of (e, r) \<Rightarrow>
        request_opt (m\<lparr>m_client := e, m_calls := m_calls m @ [Called k (i_id info)]\<rparr>) r)"

text \<open>
  The loop of \<^verbatim>\<open>changeStates\<close>: both ids are read again for every state, so a transition that
  \<^verbatim>\<open>onExit\<close> asks for has its effect on the rest of the loop.
\<close>

fun change_loop :: "'e client \<Rightarrow> StateInfo list \<Rightarrow> StateInfo option \<Rightarrow> 'e machine \<Rightarrow> StateInfo option \<times> 'e machine" where
  "change_loop c [] pNext m = (pNext, m)"
| "change_loop c (info # infos) pNext m =
     (if i_id info = m_curStateID m then change_loop c infos pNext (call_hook c OnExit info m)
      else if i_id info = m_nextStateID m then change_loop c infos (Some info) m
      else change_loop c infos pNext m)"

definition changeStates :: "'e client \<Rightarrow> 'e machine \<Rightarrow> 'e machine" where
  "changeStates c m =
     (if m_curStateID m \<noteq> m_nextStateID m then
        (case change_loop c (m_states m) None m of (pNext, m) \<Rightarrow>
           case pNext of
             Some info \<Rightarrow> (let m = call_hook c OnEnter info m in m\<lparr>m_curStateID := m_nextStateID m\<rparr>)
           | None \<Rightarrow> m\<lparr>m_curStateID := STATE_INVALID\<rparr>)
      else m)"

definition sm_update :: "'e client \<Rightarrow> 'e machine \<Rightarrow> status \<times> 'e machine" where
  "sm_update c m =
     (let m = changeStates c m in
      case find_state (m_states m) (m_curStateID m) of
        None \<Rightarrow> (BAD_STATE, m)
      | Some info \<Rightarrow>
          (case c_update c (i_pState info) (m_client m) of (e, r, st) \<Rightarrow>
             (st, request_opt (m\<lparr>m_client := e, m_calls := m_calls m @ [Updated (i_id info)]\<rparr>) r)))"

definition sm_init :: "'e client \<Rightarrow> 'e machine \<Rightarrow> 'e machine" where
  "sm_init c m = fold (call_hook c OnInit) (m_states m) m"

definition sm_term :: "'e client \<Rightarrow> 'e machine \<Rightarrow> 'e machine" where
  "sm_term c m =
     (let m = (case find_state (m_states m) (m_curStateID m) of
                 Some info \<Rightarrow> call_hook c OnExit info m
               | None \<Rightarrow> m);
          m = fold (call_hook c OnTerm) (m_states m) m
      in m\<lparr>m_states := []\<rparr>)"

text \<open>The position of a state; the number of states when it is not there.\<close>

fun state_index :: "StateInfo list \<Rightarrow> StateID \<Rightarrow> nat" where
  "state_index [] i = 0"
| "state_index (info # infos) i = (if i_id info = i then 0 else Suc (state_index infos i))"

definition dot_label :: "nat \<Rightarrow> StateInfo \<Rightarrow> string" where
  "dot_label n info = ''  state_'' @ show_nat n @ '' [label='' @ [CHR 0x22] @ s_debugName (i_pState info) @ [CHR 0x22] @ ''];'' @ [CHR 0x0A]"

definition dot_edges :: "StateInfo list \<Rightarrow> nat \<Rightarrow> StateInfo \<Rightarrow> string" where
  "dot_edges infos n info =
     concat (map (\<lambda>t. ''  state_'' @ show_nat n @ '' -> state_'' @ show_nat (state_index infos t) @ '';'' @ [CHR 0x0A])
       (s_validTransitions (i_pState info)))"

definition getDotFile :: "'e machine \<Rightarrow> string" where
  "getDotFile m =
     ''digraph statemachine {'' @ [CHR 0x0A] @
     concat (map2 dot_label [0..<length (m_states m)] (m_states m)) @
     concat (map2 (dot_edges (m_states m)) [0..<length (m_states m)] (m_states m)) @
     ''}'' @ [CHR 0x0A]"

section \<open>The life cycle of the states\<close>

text \<open>
  The contract of \<^verbatim>\<open>iState\<close>: a state is entered when no other state is active, left when it is the
  active one, and updated only between. The value is the state that is active after the calls,
  or \<open>None\<close> when the calls break the contract.
\<close>

fun life_step :: "call \<Rightarrow> StateID option option \<Rightarrow> StateID option option" where
  "life_step (Called OnEnter i) (Some None) = Some (Some i)"
| "life_step (Called OnExit i) (Some (Some j)) = (if i = j then Some None else None)"
| "life_step (Updated i) (Some (Some j)) = (if i = j then Some (Some j) else None)"
| "life_step (Called OnInit i) s = s"
| "life_step (Called OnTerm i) s = s"
| "life_step _ _ = None"

definition lifecycle :: "call list \<Rightarrow> StateID option option" where
  "lifecycle calls = fold life_step calls (Some None)"

lemma lifecycle_simps [simp]:
  "lifecycle [] = Some None"
  "lifecycle (calls @ [x]) = life_step x (lifecycle calls)"
  by (simp_all add: lifecycle_def)

text \<open>The client's operations in any order, before it terminates the machine.\<close>

datatype sm_op = Add iState | Update | Request StateID StateID | Init

fun sm_exec :: "'e client \<Rightarrow> sm_op \<Rightarrow> 'e machine \<Rightarrow> 'e machine" where
  "sm_exec c (Add s) m = snd (addState m s)"
| "sm_exec c Update m = snd (sm_update c m)"
| "sm_exec c (Request i n) m = requestTransition m i n"
| "sm_exec c Init m = sm_init c m"

definition active :: "'e machine \<Rightarrow> StateID option" where
  "active m = (if m_curStateID m \<in> i_id ` set (m_states m) then Some (m_curStateID m) else None)"

text \<open>A client whose functions \<^verbatim>\<open>onEnter\<close> and \<^verbatim>\<open>onExit\<close> ask for no transition.\<close>

definition quiet :: "'e client \<Rightarrow> bool" where
  "quiet c \<longleftrightarrow> (\<forall>s e. snd (c_hook c OnEnter s e) = None \<and> snd (c_hook c OnExit s e) = None)"

definition op_ok :: "sm_op \<Rightarrow> bool" where
  "op_ok f = (case f of Add s \<Rightarrow> 0 < s_id s \<and> s_id s < 2 ^ 31 | _ \<Rightarrow> True)"

definition sm_invar :: "'e machine \<Rightarrow> bool" where
  "sm_invar m \<longleftrightarrow> distinct (map i_id (m_states m)) \<and> STATE_INVALID \<notin> i_id ` set (m_states m) \<and>
     (m_curStateID m = STATE_INVALID \<or> m_curStateID m \<in> i_id ` set (m_states m)) \<and>
     lifecycle (m_calls m) = Some (active m)"

lemma request_opt_simps [simp]:
  "m_states (request_opt m r) = m_states m" "m_curStateID (request_opt m r) = m_curStateID m"
  "m_calls (request_opt m r) = m_calls m" "m_client (request_opt m r) = m_client m"
  by (simp_all add: request_opt_def requestTransition_def split: option.splits)

lemma call_hook_simps [simp]:
  "m_states (call_hook c k info m) = m_states m" "m_curStateID (call_hook c k info m) = m_curStateID m"
  "m_calls (call_hook c k info m) = m_calls m @ [Called k (i_id info)]"
  by (simp_all add: call_hook_def split: prod.splits)

lemma quiet_next [simp]:
  "quiet c \<Longrightarrow> m_nextStateID (call_hook c OnEnter info m) = m_nextStateID m"
  "quiet c \<Longrightarrow> m_nextStateID (call_hook c OnExit info m) = m_nextStateID m"
  by (auto simp: call_hook_def quiet_def request_opt_def split: prod.splits option.splits)
    (metis option.distinct(1) snd_conv)+

lemma find_state_Some: "find_state infos i = Some info \<Longrightarrow> info \<in> set infos \<and> i_id info = i"
  by (auto simp: find_state_def find_Some_iff)

lemma find_state_mem: "find_state infos i = Some info \<Longrightarrow> i \<in> i_id ` set infos"
  using find_state_Some by fastforce

lemma find_state_None: "find_state infos i = None \<longleftrightarrow> i \<notin> i_id ` set infos"
  by (auto simp: find_state_def find_None_iff)

text \<open>The loop leaves the active state, when it is there, and finds the next.\<close>

lemma change_loop_spec:
  assumes "quiet c" "distinct (map i_id infos)" "m_curStateID m \<noteq> m_nextStateID m"
    and "change_loop c infos pNext m = (res, m')"
  shows "m_states m' = m_states m \<and> m_curStateID m' = m_curStateID m \<and> m_nextStateID m' = m_nextStateID m \<and>
    m_calls m' = m_calls m @ (if m_curStateID m \<in> i_id ` set infos then [Called OnExit (m_curStateID m)] else []) \<and>
    res = (case find_state infos (m_nextStateID m) of None \<Rightarrow> pNext | Some info \<Rightarrow> Some info)"
  using assms(2-4)
proof (induction infos arbitrary: pNext m)
  case Nil
  then show ?case by (simp add: find_state_def)
next
  case (Cons info infos)
  show ?case
  proof (cases "i_id info = m_curStateID m")
    case True
    with Cons.prems have "m_curStateID m \<notin> i_id ` set infos" by auto
    with Cons.IH [of "call_hook c OnExit info m" pNext] Cons.prems True assms(1) show ?thesis
      by (simp add: find_state_def)
  next
    case cur: False
    show ?thesis
    proof (cases "i_id info = m_nextStateID m")
      case True
      with Cons.prems have "find_state infos (m_nextStateID m) = None" by (auto simp: find_state_None)
      with Cons.IH [of m "Some info"] Cons.prems cur True show ?thesis by (simp add: find_state_def)
    next
      case False
      with Cons.IH [of m pNext] Cons.prems cur show ?thesis by (auto simp: find_state_def)
    qed
  qed
qed

lemma changeStates_invar:
  assumes "quiet c" "sm_invar m"
  shows "sm_invar (changeStates c m)"
proof (cases "m_curStateID m = m_nextStateID m")
  case False
  obtain res m' where loop: "change_loop c (m_states m) None m = (res, m')" by (meson surj_pair)
  note spec = change_loop_spec [OF assms(1) _ False loop]
  have d: "distinct (map i_id (m_states m))" using assms(2) by (simp add: sm_invar_def)
  from spec [OF d] have m': "m_states m' = m_states m" "m_nextStateID m' = m_nextStateID m" by simp_all
  have life: "lifecycle (m_calls m') = Some None"
    using spec [OF d] assms(2) by (auto simp: sm_invar_def active_def)
  show ?thesis
  proof (cases res)
    case None
    with loop False have eq: "changeStates c m = m'\<lparr>m_curStateID := STATE_INVALID\<rparr>" by (simp add: changeStates_def)
    show ?thesis unfolding eq using assms(2) life m' by (simp add: sm_invar_def active_def)
  next
    case (Some info)
    with spec [OF d] have "find_state (m_states m) (m_nextStateID m) = Some info"
      by (auto split: option.splits)
    then have info: "info \<in> set (m_states m)" "i_id info = m_nextStateID m" by (auto dest: find_state_Some)
    from loop False Some have eq: "changeStates c m =
        (call_hook c OnEnter info m')\<lparr>m_curStateID := m_nextStateID (call_hook c OnEnter info m')\<rparr>"
      by (simp add: changeStates_def Let_def)
    from info have "m_nextStateID m \<in> i_id ` set (m_states m)" by (metis imageI)
    then show ?thesis unfolding eq using assms life m' info(2) by (simp add: sm_invar_def active_def)
  qed
qed (simp add: changeStates_def assms)

lemma sm_update_invar:
  assumes "quiet c" "sm_invar m"
  shows "sm_invar (snd (sm_update c m))"
proof -
  let ?m = "changeStates c m"
  have inv: "sm_invar ?m" by (rule changeStates_invar [OF assms])
  show ?thesis
  proof (cases "find_state (m_states ?m) (m_curStateID ?m)")
    case None
    with inv show ?thesis by (simp add: sm_update_def Let_def)
  next
    case (Some info)
    obtain e r st where u: "c_update c (i_pState info) (m_client ?m) = (e, r, st)" by (metis prod_cases3)
    with find_state_Some [OF Some] find_state_mem [OF Some] inv show ?thesis by (simp add: sm_update_def Let_def Some u sm_invar_def active_def)
  qed
qed

lemma int_of_long_id: "0 < i \<Longrightarrow> i < 2 ^ 31 \<Longrightarrow> int_of_long i = i"
  by (simp add: int_of_long_def)

lemma addState_invar:
  assumes "sm_invar m" "op_ok (Add s)"
  shows "sm_invar (snd (addState m s))"
proof -
  from assms(2) have "int_of_long (s_id s) = s_id s" "s_id s \<noteq> STATE_INVALID"
    by (simp_all add: op_ok_def int_of_long_id STATE_INVALID_def)
  with assms(1) show ?thesis
    by (auto simp: addState_def Let_def find_state_None sm_invar_def active_def)
qed

lemma fold_hooks:
  assumes "\<And>i s. life_step (Called k i) s = s"
  shows "lifecycle (m_calls (fold (call_hook c k) infos m)) = lifecycle (m_calls m) \<and>
    m_states (fold (call_hook c k) infos m) = m_states m \<and> m_curStateID (fold (call_hook c k) infos m) = m_curStateID m"
  by (induction infos arbitrary: m) (simp_all add: assms)

lemma sm_exec_invar:
  assumes "quiet c" "sm_invar m" "op_ok f"
  shows "sm_invar (sm_exec c f m)"
proof (cases f)
  case (Add s)
  with assms addState_invar show ?thesis by simp
next
  case Update
  with sm_update_invar [OF assms(1,2)] show ?thesis by simp
next
  case (Request i n)
  with assms(2) show ?thesis by (simp add: requestTransition_def sm_invar_def active_def)
next
  case Init
  with fold_hooks [of OnInit c "m_states m" m] assms(2) show ?thesis
    by (simp add: sm_init_def sm_invar_def active_def)
qed

lemma sm_run_invar:
  "quiet c \<Longrightarrow> sm_invar m \<Longrightarrow> list_all op_ok ops \<Longrightarrow> sm_invar (fold (sm_exec c) ops m)"
  by (induction ops arbitrary: m) (auto intro: sm_exec_invar)

lemma sm_new_invar: "sm_invar (StateMachine_new e)"
  by (simp add: sm_invar_def StateMachine_new_def active_def)

lemma sm_term_life:
  assumes "sm_invar m"
  shows "lifecycle (m_calls (sm_term c m)) = Some None"
proof (cases "find_state (m_states m) (m_curStateID m)")
  case None
  then have "active m = None" by (simp add: active_def find_state_None)
  with None assms fold_hooks [of OnTerm c "m_states m" m] show ?thesis
    by (simp add: sm_term_def Let_def sm_invar_def)
next
  case (Some info)
  then have "active m = Some (i_id info)"
    using find_state_mem [OF Some] by (simp add: active_def find_state_Some)
  with Some assms fold_hooks [of OnTerm c "m_states m" "call_hook c OnExit info m"] show ?thesis
    by (simp add: sm_term_def Let_def sm_invar_def)
qed


text \<open>A client that records nothing and asks for the transitions of a table.\<close>

definition table_client :: "(hook \<times> StateID \<times> StateID) list \<Rightarrow> unit client" where
  "table_client t =
     \<lparr>c_hook = (\<lambda>k s e. (e, map_of (map (\<lambda>(k, i, n). ((k, i), n)) t) (k, s_id s))),
      c_update = (\<lambda>s e. (e, None, OK))\<rparr>"

definition plain_state :: "StateID \<Rightarrow> iState" where
  "plain_state i = \<lparr>s_id = i, s_debugName = ''state'', s_validTransitions = []\<rparr>"


lemmas sm_defs = sm_update_def changeStates_def addState_def call_hook_def request_opt_def requestTransition_def
  table_client_def plain_state_def find_state_def StateMachine_new_def STATE_INVALID_def int_of_long_def sm_term_def

text \<open>
  Where the contract fails. When \<^verbatim>\<open>onEnter\<close> of state 1 asks for state 2, the machine makes
  state 2 its current state, although it was never entered, and updates it; state 1 is never
  left. And \<^verbatim>\<open>term\<close> does not reset the current state: a machine that gets its states again
  updates the former current state, which has been left and not entered again.
\<close>

theorem state_lifecycle_broken:
  "m_calls (fold (sm_exec (table_client [(OnEnter, 1, 2)])) [Add (plain_state 1), Add (plain_state 2), Update]
      (StateMachine_new ())) = [Called OnEnter 1, Updated 2] \<and>
   (let c = table_client []; m = fold (sm_exec c) [Add (plain_state 1), Update] (StateMachine_new ()) in
      m_calls (fold (sm_exec c) [Add (plain_state 1), Update] (sm_term c m)) =
        [Called OnEnter 1, Updated 1, Called OnExit 1, Called OnTerm 1, Updated 1])"
  by (simp add: sm_defs Let_def)

end
