(* ===== verification/MemFs.thy ===== *)
theory MemFs
  imports VfsPath
begin

text \<open>
  The file system in memory of \<^verbatim>\<open>CORE/VFS/FILESYSTEMS/filesys_mem.cpp\<close>, with the blobs of
  \<^verbatim>\<open>CORE/MEMORY/blob.h\<close> it keeps. A blob is an address and a size: its bytes belong to the
  client and are shared by all copies, so the memory is explicit, a function from addresses
  to bytes. An access outside a blob is the fault \<open>OutOfBounds\<close>. The operations run under one
  mutex and are sequential here.
\<close>

section \<open>Blobs\<close>

type_synonym heap = "nat \<Rightarrow> u8"

record Blob =
  b_size :: nat
  b_data :: nat

definition Blob_empty :: Blob where
  "Blob_empty = \<lparr>b_size = 0, b_data = 0\<rparr>"

definition Blob_new :: "nat \<Rightarrow> nat \<Rightarrow> Blob" where
  "Blob_new data sz = \<lparr>b_size = sz, b_data = data\<rparr>"

definition Blob_trimSize :: "Blob \<Rightarrow> nat \<Rightarrow> Blob" where
  "Blob_trimSize b sz = b\<lparr>b_size := sz\<rparr>"

definition blob_bytes :: "heap \<Rightarrow> Blob \<Rightarrow> u8 list" where
  "blob_bytes m b = map m [b_data b..<b_data b + b_size b]"

text \<open>\<^verbatim>\<open>memcpy\<close> from and to a blob.\<close>

definition blob_load :: "heap \<Rightarrow> Blob \<Rightarrow> int \<Rightarrow> nat \<Rightarrow> fault + u8 list" where
  "blob_load m b pos n =
     (if 0 \<le> pos \<and> nat pos + n \<le> b_size b then Inr (map (\<lambda>i. m (b_data b + nat pos + i)) [0..<n])
      else Inl OutOfBounds)"

definition blob_store :: "heap \<Rightarrow> Blob \<Rightarrow> int \<Rightarrow> u8 list \<Rightarrow> fault + heap" where
  "blob_store m b pos bs =
     (if 0 \<le> pos \<and> nat pos + length bs \<le> b_size b
      then let a = b_data b + nat pos in
           Inr (\<lambda>i. if a \<le> i \<and> i < a + length bs then bs ! (i - a) else m i)
      else Inl OutOfBounds)"

section \<open>Files\<close>

record FileStats =
  m_exists :: bool
  m_isDir :: bool
  m_modifiedTime :: nat
  m_size :: nat

definition FileStats_new :: FileStats where
  "FileStats_new = \<lparr>m_exists = False, m_isDir = False, m_modifiedTime = 0, m_size = 0\<rparr>"

record FileInfo =
  m_writeableBlob :: Blob
  m_readableBlob :: Blob
  m_stats :: FileStats
  m_readonly :: bool

text \<open>An open file holds a copy of the file's information, and a position.\<close>

record MemFileHandle =
  m_info :: FileInfo
  m_pos :: int

definition open_base :: "FileInfo \<Rightarrow> MemFileHandle" where
  "open_base fileInfo = \<lparr>m_info = fileInfo, m_pos = 0\<rparr>"

definition mf_length :: "MemFileHandle \<Rightarrow> int" where
  "mf_length h = int (m_size (m_stats (m_info h)))"

text \<open>A character, or \<^verbatim>\<open>EOF\<close>.\<close>

definition EOF_INT :: int where
  "EOF_INT = -1"

definition past_end :: "MemFileHandle \<Rightarrow> bool" where
  "past_end h \<longleftrightarrow> m_pos h < 0 \<or> nat (m_pos h) > b_size (m_readableBlob (m_info h))"

definition mf_overflow :: "MemFileHandle \<Rightarrow> heap \<Rightarrow> int \<Rightarrow> fault + int \<times> heap" where
  "mf_overflow h m ch =
     (if m_readonly (m_info h) then Inl CheckFailed
      else if past_end h then Inr (EOF_INT, m)
      else bind_result (blob_store m (m_writeableBlob (m_info h)) (m_pos h) [word_of_int ch]) (\<lambda>m.
        Inr (ch, m)))"

definition mf_showmanyc :: "MemFileHandle \<Rightarrow> int" where
  "mf_showmanyc h = int (m_size (m_stats (m_info h))) - m_pos h"

definition mf_underflow :: "MemFileHandle \<Rightarrow> heap \<Rightarrow> fault + int" where
  "mf_underflow h m =
     (if past_end h then Inr EOF_INT
      else bind_result (blob_load m (m_readableBlob (m_info h)) (m_pos h) 1) (\<lambda>bs.
        Inr (uint (hd bs))))"

definition mf_uflow :: "MemFileHandle \<Rightarrow> heap \<Rightarrow> fault + int \<times> MemFileHandle" where
  "mf_uflow h m =
     (if nat (m_pos h) + 1 > b_size (m_readableBlob (m_info h)) then Inr (EOF_INT, h)
      else bind_result (blob_load m (m_readableBlob (m_info h)) (m_pos h) 1) (\<lambda>bs.
        Inr (uint (hd bs), h\<lparr>m_pos := m_pos h + 1\<rparr>)))"

definition mf_xsgetn :: "MemFileHandle \<Rightarrow> heap \<Rightarrow> int \<Rightarrow> fault + (int \<times> u8 list) \<times> MemFileHandle" where
  "mf_xsgetn h m sz =
     (let actual = min sz (int (m_size (m_stats (m_info h))) - m_pos h);
          h' = h\<lparr>m_pos := m_pos h + actual\<rparr>
      in if actual > 0
         then bind_result (blob_load m (m_readableBlob (m_info h)) (m_pos h) (nat actual)) (\<lambda>bs.
                Inr ((actual, bs), h'))
         else Inr ((actual, []), h'))"

definition mf_xsputn :: "MemFileHandle \<Rightarrow> heap \<Rightarrow> u8 list \<Rightarrow> fault + int \<times> MemFileHandle \<times> heap" where
  "mf_xsputn h m buffer =
     (if m_readonly (m_info h) then Inl CheckFailed
      else let actual = min (int (length buffer)) (int (b_size (m_readableBlob (m_info h))) - m_pos h);
               pos' = m_pos h + actual;
               stats = m_stats (m_info h);
               h' = h\<lparr>m_pos := pos', m_info := (m_info h)\<lparr>m_stats := stats\<lparr>m_size := max (nat pos') (m_size stats)\<rparr>\<rparr>\<rparr>
           in if actual > 0
              then bind_result (blob_store m (m_writeableBlob (m_info h)) (m_pos h) (take (nat actual) buffer)) (\<lambda>m.
                     Inr (actual, h', m))
              else Inr (actual, h', m))"

datatype seekdir = Beg | End | Cur

definition clamp :: "int \<Rightarrow> int \<Rightarrow> int \<Rightarrow> int" where
  "clamp val lo hi = max (min val hi) lo"

definition mf_seekoff :: "MemFileHandle \<Rightarrow> int \<Rightarrow> seekdir \<Rightarrow> int \<times> MemFileHandle" where
  "mf_seekoff h off way =
     (let pos = (case way of
                   Beg \<Rightarrow> 0 + off
                 | End \<Rightarrow> int (m_size (m_stats (m_info h))) + off
                 | Cur \<Rightarrow> m_pos h + off);
          pos = clamp pos 0 (int (m_size (m_stats (m_info h))))
      in (pos, h\<lparr>m_pos := pos\<rparr>))"

definition mf_seekpos :: "MemFileHandle \<Rightarrow> int \<Rightarrow> int \<times> MemFileHandle" where
  "mf_seekpos h pos = mf_seekoff h pos Beg"

section \<open>The file system\<close>

text \<open>\<^verbatim>\<open>std::ios_base::openmode\<close>, a set of flags.\<close>

datatype open_flag = App | Ate | Binary | In | Out | Trunc

type_synonym openmode = "open_flag set"

type_synonym tMountId = u32

text \<open>\<^verbatim>\<open>m_mounts\<close> and \<^verbatim>\<open>m_files\<close>, and the client's memory.\<close>

record MemFileSystem =
  m_mounts :: "tMountId \<rightharpoonup> openmode"
  m_files :: "string \<rightharpoonup> FileInfo"

definition MemFileSystem_new :: MemFileSystem where
  "MemFileSystem_new = \<lparr>m_mounts = Map.empty, m_files = Map.empty\<rparr>"

definition mem_mount :: "MemFileSystem \<Rightarrow> tMountId \<Rightarrow> Path \<Rightarrow> openmode \<Rightarrow> status \<times> MemFileSystem" where
  "mem_mount fs mountId path mode =
     (if \<not> path_isParent (new_path ''memfile/'') path then (BAD_ARGUMENT, fs)
      else (OK, fs\<lparr>m_mounts := (m_mounts fs)(mountId \<mapsto> mode)\<rparr>))"

definition mem_unmount :: "MemFileSystem \<Rightarrow> tMountId \<Rightarrow> status \<times> MemFileSystem" where
  "mem_unmount fs mountId =
     (if m_mounts fs mountId = None then (OUT_OF_BOUNDS, fs)
      else (OK, fs\<lparr>m_mounts := (m_mounts fs)(mountId := None)\<rparr>))"

definition mem_open :: "MemFileSystem \<Rightarrow> tMountId \<Rightarrow> Path \<Rightarrow> openmode \<Rightarrow> fault + status \<times> MemFileHandle option" where
  "mem_open fs mountId filename mode =
     (case m_mounts fs mountId of
        None \<Rightarrow> Inl CheckFailed
      | Some mount_mode \<Rightarrow>
          if mount_mode \<inter> mode \<noteq> mode then Inr (BAD_ARGUMENT, None)
          else (case m_files fs (m_path filename) of
                  None \<Rightarrow> Inr (NOT_FOUND, None)
                | Some info \<Rightarrow>
                    if m_readonly info \<and> Out \<in> mode then Inr (BAD_ARGUMENT, None)
                    else Inr (OK, Some (open_base info))))"

definition mem_remove :: "MemFileSystem \<Rightarrow> tMountId \<Rightarrow> Path \<Rightarrow> bool \<Rightarrow> status \<times> bool \<times> MemFileSystem" where
  "mem_remove fs mountId dir ret =
     (if path_empty dir then (BAD_ARGUMENT, ret, fs)
      else if m_files fs (m_path dir) = None then (OK, False, fs)
      else (OK, True, fs\<lparr>m_files := (m_files fs)(m_path dir := None)\<rparr>))"

definition mem_stat :: "MemFileSystem \<Rightarrow> tMountId \<Rightarrow> Path \<Rightarrow> FileStats \<Rightarrow> status \<times> FileStats" where
  "mem_stat fs mountId path ret =
     (if path_empty path then (BAD_ARGUMENT, ret)
      else (OK, case m_files fs (m_path path) of None \<Rightarrow> ret | Some info \<Rightarrow> m_stats info))"

definition mem_mkdir :: "MemFileSystem \<Rightarrow> tMountId \<Rightarrow> Path \<Rightarrow> bool \<Rightarrow> status \<times> bool" where
  "mem_mkdir fs mountId dir ret = (if path_empty dir then (BAD_ARGUMENT, ret) else (OK, True))"

definition mem_rmdir :: "MemFileSystem \<Rightarrow> tMountId \<Rightarrow> Path \<Rightarrow> bool \<Rightarrow> status \<times> bool" where
  "mem_rmdir fs mountId dir ret = (if path_empty dir then (BAD_ARGUMENT, ret) else (OK, True))"

text \<open>The two overloads of \<^verbatim>\<open>create\<close>; \<open>now\<close> is the value of \<^verbatim>\<open>GetTicks\<close>.\<close>

definition mem_create_const :: "MemFileSystem \<Rightarrow> Path \<Rightarrow> Blob \<Rightarrow> nat \<Rightarrow> status \<times> MemFileSystem" where
  "mem_create_const fs path blob now =
     (if m_files fs (m_path path) \<noteq> None then (BAD_ARGUMENT, fs)
      else let info = \<lparr>m_writeableBlob = Blob_empty, m_readableBlob = blob,
             m_stats = \<lparr>m_exists = True, m_isDir = False, m_modifiedTime = now, m_size = b_size blob\<rparr>,
             m_readonly = True\<rparr>
           in (OK, fs\<lparr>m_files := (m_files fs)(m_path path \<mapsto> info)\<rparr>))"

definition mem_create :: "MemFileSystem \<Rightarrow> Path \<Rightarrow> Blob \<Rightarrow> nat \<Rightarrow> status \<times> MemFileSystem" where
  "mem_create fs path blob now =
     (if m_files fs (m_path path) \<noteq> None then (BAD_ARGUMENT, fs)
      else let info = \<lparr>m_writeableBlob = blob, m_readableBlob = blob,
             m_stats = \<lparr>m_exists = True, m_isDir = False, m_modifiedTime = now, m_size = 0\<rparr>,
             m_readonly = False\<rparr>
           in (OK, fs\<lparr>m_files := (m_files fs)(m_path path \<mapsto> info)\<rparr>))"

section \<open>A handle is a file with a position\<close>

text \<open>
  The specification: a file is its bytes and a position in them, with a limit on the bytes.
\<close>

definition file_bytes :: "heap \<Rightarrow> MemFileHandle \<Rightarrow> u8 list" where
  "file_bytes m h = take (m_size (m_stats (m_info h))) (blob_bytes m (m_readableBlob (m_info h)))"

definition handle_ok :: "MemFileHandle \<Rightarrow> bool" where
  "handle_ok h \<longleftrightarrow> m_size (m_stats (m_info h)) \<le> b_size (m_readableBlob (m_info h)) \<and>
     0 \<le> m_pos h \<and> m_pos h \<le> int (m_size (m_stats (m_info h))) \<and>
     (\<not> m_readonly (m_info h) \<longrightarrow> m_writeableBlob (m_info h) = m_readableBlob (m_info h))"

definition write_at :: "nat \<Rightarrow> u8 list \<Rightarrow> u8 list \<Rightarrow> u8 list" where
  "write_at pos bs file = take pos file @ bs @ drop (pos + length bs) file"

lemma length_write_at: "pos + length bs \<le> length c \<Longrightarrow> length (write_at pos bs c) = length c"
  by (simp add: write_at_def)

lemma nth_write_at:
  "pos + length bs \<le> length c \<Longrightarrow> i < length c \<Longrightarrow>
   write_at pos bs c ! i = (if pos \<le> i \<and> i < pos + length bs then bs ! (i - pos) else c ! i)"
  by (auto simp: write_at_def nth_append)

lemma nth_blob_bytes: "i < b_size b \<Longrightarrow> blob_bytes m b ! i = m (b_data b + i)"
  by (simp add: blob_bytes_def)

lemma length_blob_bytes [simp]: "length (blob_bytes m b) = b_size b"
  by (simp add: blob_bytes_def)

lemma blob_load_bytes:
  assumes "0 \<le> pos" "nat pos + n \<le> b_size b"
  shows "blob_load m b pos n = Inr (take n (drop (nat pos) (blob_bytes m b)))"
proof -
  have "map (\<lambda>i. m (b_data b + nat pos + i)) [0..<n] = take n (drop (nat pos) (blob_bytes m b))"
    using assms(2) by (intro nth_equalityI) (simp_all add: nth_blob_bytes add.assoc)
  with assms show ?thesis by (simp add: blob_load_def)
qed

lemma blob_store_bytes:
  assumes "0 \<le> pos" "nat pos + length bs \<le> b_size b"
  shows "\<exists>m'. blob_store m b pos bs = Inr m' \<and> blob_bytes m' b = write_at (nat pos) bs (blob_bytes m b) \<and>
    (\<forall>i. i < b_data b \<or> b_data b + b_size b \<le> i \<longrightarrow> m' i = m i)"
proof -
  let ?a = "b_data b + nat pos"
  let ?m = "\<lambda>i. if ?a \<le> i \<and> i < ?a + length bs then bs ! (i - ?a) else m i"
  have "blob_bytes ?m b = write_at (nat pos) bs (blob_bytes m b)"
  proof (rule nth_equalityI)
    show "length (blob_bytes ?m b) = length (write_at (nat pos) bs (blob_bytes m b))"
      using assms(2) by (simp add: length_write_at)
  next
    fix i assume "i < length (blob_bytes ?m b)"
    then have i: "i < b_size b" by simp
    then have "i - nat pos = b_data b + i - ?a" by simp
    with i assms(2) show "blob_bytes ?m b ! i = write_at (nat pos) bs (blob_bytes m b) ! i"
      by (simp only: nth_blob_bytes nth_write_at length_blob_bytes) simp
  qed
  moreover have "blob_store m b pos bs = Inr ?m" using assms by (simp add: blob_store_def Let_def)
  moreover have "\<forall>i. i < b_data b \<or> b_data b + b_size b \<le> i \<longrightarrow> ?m i = m i" using assms(2) by auto
  ultimately show ?thesis by blast
qed

lemma write_at_take:
  assumes "p \<le> n" "p + length bs \<le> length c"
  shows "take (max (p + length bs) n) (write_at p bs c) = write_at p bs (take n c)"
proof (cases "p + length bs \<le> n")
  case True
  then have "max (p + length bs) n = n" by simp
  with True assms show ?thesis by (simp add: write_at_def drop_take)
next
  case False
  then have "max (p + length bs) n = p + length bs" by simp
  with False assms show ?thesis by (simp add: write_at_def)
qed

lemma write_at_Nil [simp]: "write_at p [] c = c"
  by (simp add: write_at_def)

lemma length_file_bytes: "handle_ok h \<Longrightarrow> length (file_bytes m h) = m_size (m_stats (m_info h))"
  by (simp add: file_bytes_def handle_ok_def min_def)

lemma xsgetn_spec:
  assumes "handle_ok h" "0 \<le> sz"
    and "k = min (nat sz) (length (file_bytes m h) - nat (m_pos h))"
  shows "mf_xsgetn h m sz = Inr ((int k, take k (drop (nat (m_pos h)) (file_bytes m h))), h\<lparr>m_pos := m_pos h + int k\<rparr>)"
    and "handle_ok (h\<lparr>m_pos := m_pos h + int k\<rparr>)"
proof -
  let ?n = "m_size (m_stats (m_info h))"
  have k: "min sz (int ?n - m_pos h) = int k" "nat (m_pos h) + k \<le> ?n"
    using assms by (auto simp: length_file_bytes handle_ok_def min_def)
  have fits: "0 \<le> m_pos h" "nat (m_pos h) + k \<le> b_size (m_readableBlob (m_info h))"
    using assms(1) k(2) by (simp_all add: handle_ok_def)
  have "take k (drop (nat (m_pos h)) (blob_bytes m (m_readableBlob (m_info h)))) =
      take k (drop (nat (m_pos h)) (file_bytes m h))"
    using k(2) by (simp add: file_bytes_def drop_take min_def)
  with blob_load_bytes [OF fits, of m] k(1)
  show "mf_xsgetn h m sz = Inr ((int k, take k (drop (nat (m_pos h)) (file_bytes m h))), h\<lparr>m_pos := m_pos h + int k\<rparr>)"
    by (cases "k = 0") (simp_all add: mf_xsgetn_def Let_def)
  show "handle_ok (h\<lparr>m_pos := m_pos h + int k\<rparr>)"
    using assms(1) k(2) by (simp add: handle_ok_def)
qed

lemma seekoff_spec:
  assumes "handle_ok h"
  shows "case mf_seekoff h off way of (q, h') \<Rightarrow>
      handle_ok h' \<and> h' = h\<lparr>m_pos := q\<rparr> \<and>
      q = clamp ((case way of Beg \<Rightarrow> 0 | End \<Rightarrow> int (length (file_bytes m h)) | Cur \<Rightarrow> m_pos h) + off) 0
           (int (length (file_bytes m h)))"
  using assms length_file_bytes [OF assms, of m]
  by (cases way) (auto simp: mf_seekoff_def handle_ok_def clamp_def Let_def)

lemma xsputn_spec:
  assumes "handle_ok h" "\<not> m_readonly (m_info h)"
    and "k = min (length bs) (b_size (m_readableBlob (m_info h)) - nat (m_pos h))"
  shows "\<exists>h' m'. mf_xsputn h m bs = Inr (int k, h', m') \<and> handle_ok h' \<and> m_pos h' = int (nat (m_pos h) + k) \<and>
    file_bytes m' h' = write_at (nat (m_pos h)) (take k bs) (file_bytes m h) \<and>
    (\<forall>i. i < b_data (m_readableBlob (m_info h)) \<or>
       b_data (m_readableBlob (m_info h)) + b_size (m_readableBlob (m_info h)) \<le> i \<longrightarrow> m' i = m i)"
proof -
  let ?b = "m_readableBlob (m_info h)" and ?n = "m_size (m_stats (m_info h))" and ?p = "nat (m_pos h)"
  have h: "m_writeableBlob (m_info h) = ?b" "0 \<le> m_pos h" "?p \<le> ?n" "?n \<le> b_size ?b"
    using assms(1,2) by (auto simp: handle_ok_def)
  then have k: "min (int (length bs)) (int (b_size ?b) - m_pos h) = int k" "?p + k \<le> b_size ?b" "k \<le> length bs"
    using assms(3) by auto
  let ?h = "h\<lparr>m_pos := m_pos h + int k, m_info := (m_info h)\<lparr>m_stats := (m_stats (m_info h))
      \<lparr>m_size := max (nat (m_pos h + int k)) ?n\<rparr>\<rparr>\<rparr>"
  have pos: "nat (m_pos h + int k) = ?p + k" using h(2) by simp
  have ok: "handle_ok ?h" using h k assms(2) by (auto simp: handle_ok_def pos)
  obtain m' where m': "blob_store m ?b (m_pos h) (take k bs) = Inr m'"
    "blob_bytes m' ?b = write_at ?p (take k bs) (blob_bytes m ?b)"
    "\<forall>i. i < b_data ?b \<or> b_data ?b + b_size ?b \<le> i \<longrightarrow> m' i = m i"
    using blob_store_bytes [OF h(2), of "take k bs" ?b m] k by auto
  have stored: "blob_store m ?b (m_pos h) [] = Inr m" if "k = 0"
    using h by (auto simp: blob_store_def Let_def fun_eq_iff)
  have "mf_xsputn h m bs = Inr (int k, ?h, if k = 0 then m else m')"
    using assms(2) h(1) k(1) m'(1) by (simp add: mf_xsputn_def Let_def)
  moreover have "file_bytes (if k = 0 then m else m') ?h = write_at ?p (take k bs) (file_bytes m h)"
  proof (cases "k = 0")
    case True
    with h(3) pos show ?thesis by (simp add: file_bytes_def)
  next
    case False
    from k have "length (take k bs) = k" by simp
    with write_at_take [of ?p ?n "take k bs" "blob_bytes m ?b"] h(3) k False m'(2) show ?thesis
      by (simp add: file_bytes_def pos)
  qed
  moreover have "m_pos ?h = int (?p + k)" using h(2) by simp
  moreover have "\<forall>i. i < b_data ?b \<or> b_data ?b + b_size ?b \<le> i \<longrightarrow> (if k = 0 then m else m') i = m i"
    using m'(3) by simp
  ultimately show ?thesis using ok by blast
qed


text \<open>An empty file over a blob of four bytes, in a file system with one mount.\<close>

definition sample_path :: Path where
  "sample_path = Path ''memfile/a''"

definition sample_fs :: MemFileSystem where
  "sample_fs = snd (mem_create (snd (mem_mount MemFileSystem_new 1 (Path ''memfile/'') {In, Out}))
     sample_path (Blob_new 100 4) 7)"

definition sample_handle :: MemFileHandle where
  "sample_handle = open_base
     \<lparr>m_writeableBlob = Blob_new 100 4, m_readableBlob = Blob_new 100 4,
      m_stats = \<lparr>m_exists = True, m_isDir = False, m_modifiedTime = 7, m_size = 0\<rparr>, m_readonly = False\<rparr>"

lemma memfile_parent: "path_isParent (new_path ''memfile/'') (Path ''memfile/'')"
  by (simp add: path_isParent_def new_path_def cleanPath_def)

lemma sample_fs_eq:
  "sample_fs = \<lparr>m_mounts = [1 \<mapsto> {In, Out}], m_files = [''memfile/a'' \<mapsto> m_info sample_handle]\<rparr>"
  by (simp add: sample_fs_def mem_mount_def mem_create_def memfile_parent MemFileSystem_new_def sample_path_def
    sample_handle_def open_base_def)

lemma sample_handle_ok: "handle_ok sample_handle"
  by (simp add: handle_ok_def sample_handle_def open_base_def)


text \<open>
  What the copy of the file's information in each handle loses, and the bounds of the
  character operations. Two bytes written through a handle on an empty file are in the memory of
  the blob, but the file system keeps the size 0: \<^verbatim>\<open>stat\<close> and a new handle see an empty file, and
  nothing can be read back. A handle at the end of its blob reads and writes one byte beyond it
  in \<^verbatim>\<open>underflow\<close> and \<^verbatim>\<open>overflow\<close>. At the end of a file that is smaller than its blob, \<^verbatim>\<open>underflow\<close>
  returns a byte that is not in the file. And \<^verbatim>\<open>overflow\<close> does not move the position, so of two
  characters only the second stays.
\<close>

theorem memfile_faults:
  "(\<exists>h' m'. mem_open sample_fs 1 sample_path {In, Out} = Inr (OK, Some sample_handle) \<and>
      mf_xsputn sample_handle m [x, y] = Inr (2, h', m') \<and> m' 100 = x \<and> m' 101 = y \<and> file_bytes m' h' = [x, y] \<and>
      m_size (snd (mem_stat sample_fs 1 sample_path FileStats_new)) = 0 \<and>
      mf_xsgetn sample_handle m' 2 = Inr ((0, []), sample_handle)) \<and>
   (let h = sample_handle\<lparr>m_pos := 4\<rparr> in
      mf_underflow h m = Inl OutOfBounds \<and> mf_overflow h m ch = Inl OutOfBounds) \<and>
   mf_underflow sample_handle m = Inr (uint (m 100)) \<and> length (file_bytes m sample_handle) = 0 \<and>
   (\<exists>m1 m2. mf_overflow sample_handle m 65 = Inr (65, m1) \<and> mf_overflow sample_handle m1 66 = Inr (66, m2) \<and>
      m2 100 = 66 \<and> m2 101 = m 101)"
proof (intro conjI)
  let ?m1 = "\<lambda>i. if 100 \<le> i \<and> i < 102 then [x, y] ! (i - 100) else m i"
  let ?h = "sample_handle\<lparr>m_pos := 2, m_info := (m_info sample_handle)\<lparr>m_stats := (m_stats (m_info sample_handle))\<lparr>m_size := 2\<rparr>\<rparr>\<rparr>"
  have "mf_xsputn sample_handle m [x, y] = Inr (2, ?h, ?m1)"
    by (simp add: mf_xsputn_def sample_handle_def open_base_def Blob_new_def blob_store_def Let_def fun_eq_iff)
  moreover have "file_bytes ?m1 ?h = [x, y]"
    by (simp add: file_bytes_def blob_bytes_def sample_handle_def open_base_def Blob_new_def upt_rec)
  ultimately show "\<exists>h' m'. mem_open sample_fs 1 sample_path {In, Out} = Inr (OK, Some sample_handle) \<and>
      mf_xsputn sample_handle m [x, y] = Inr (2, h', m') \<and> m' 100 = x \<and> m' 101 = y \<and> file_bytes m' h' = [x, y] \<and>
      m_size (snd (mem_stat sample_fs 1 sample_path FileStats_new)) = 0 \<and>
      mf_xsgetn sample_handle m' 2 = Inr ((0, []), sample_handle)"
    by (intro exI [of _ ?h] exI [of _ ?m1])
      (simp add: sample_fs_eq mem_open_def mem_stat_def path_empty_def sample_path_def sample_handle_def
        open_base_def mf_xsgetn_def)
next
  show "let h = sample_handle\<lparr>m_pos := 4\<rparr> in
      mf_underflow h m = Inl OutOfBounds \<and> mf_overflow h m ch = Inl OutOfBounds"
    by (simp add: mf_underflow_def mf_overflow_def past_end_def sample_handle_def open_base_def Blob_new_def
      blob_load_def blob_store_def)
next
  show "mf_underflow sample_handle m = Inr (uint (m 100))"
    by (simp add: mf_underflow_def past_end_def sample_handle_def open_base_def Blob_new_def blob_load_def)
next
  show "length (file_bytes m sample_handle) = 0"
    by (simp add: length_file_bytes [OF sample_handle_ok], simp add: sample_handle_def open_base_def)
next
  let ?w = "\<lambda>c m i. if 100 \<le> i \<and> i < 101 then [c] ! (i - 100) else m i"
  have "mf_overflow sample_handle mm c = Inr (c, ?w (word_of_int c) mm)" for mm c
    by (simp add: mf_overflow_def past_end_def sample_handle_def open_base_def Blob_new_def blob_store_def Let_def fun_eq_iff)
  then show "\<exists>m1 m2. mf_overflow sample_handle m 65 = Inr (65, m1) \<and> mf_overflow sample_handle m1 66 = Inr (66, m2) \<and>
      m2 100 = 66 \<and> m2 101 = m 101"
    by simp
qed

end
