(* ===== verification/Vfs.thy ===== *)
theory Vfs
  imports MemFs
begin

text \<open>
  The virtual file system of \<^verbatim>\<open>CORE/VFS/vfs_internal.cpp\<close>: a table of mount points over a list
  of file systems, and the search of the file system that handles a path. The file systems are
  an interface (\<^verbatim>\<open>iFileSystem\<close>): a record of functions on their common state, a type
  variable; the type of open files is another. The file system in memory is an instance of it.
\<close>

section \<open>File systems\<close>

record DirectoryNode =
  d_stats :: FileStats
  d_path :: Path
  d_mountId :: tMountId

definition INVALID_MOUNT_ID :: tMountId where
  "INVALID_MOUNT_ID = -1"

definition DirectoryNode_new :: DirectoryNode where
  "DirectoryNode_new = \<lparr>d_stats = FileStats_new, d_path = Path [], d_mountId = INVALID_MOUNT_ID\<rparr>"

definition DirectoryNode_eq :: "DirectoryNode \<Rightarrow> DirectoryNode \<Rightarrow> bool" where
  "DirectoryNode_eq a b \<longleftrightarrow> m_path (d_path a) = m_path (d_path b) \<and> d_mountId a = d_mountId b"

record ('s, 'h) file_system =
  fs_mount :: "tMountId \<Rightarrow> Path \<Rightarrow> openmode \<Rightarrow> 's \<Rightarrow> status \<times> 's"
  fs_unmount :: "tMountId \<Rightarrow> 's \<Rightarrow> status \<times> 's"
  fs_open :: "tMountId \<Rightarrow> Path \<Rightarrow> openmode \<Rightarrow> 's \<Rightarrow> fault + (status \<times> 'h option) \<times> 's"
  fs_close :: "'h \<Rightarrow> 's \<Rightarrow> 's"
  fs_remove :: "tMountId \<Rightarrow> Path \<Rightarrow> bool \<Rightarrow> 's \<Rightarrow> (status \<times> bool) \<times> 's"
  fs_stat :: "tMountId \<Rightarrow> Path \<Rightarrow> FileStats \<Rightarrow> 's \<Rightarrow> status \<times> FileStats"
  fs_mkdir :: "tMountId \<Rightarrow> Path \<Rightarrow> bool \<Rightarrow> 's \<Rightarrow> (status \<times> bool) \<times> 's"
  fs_rmdir :: "tMountId \<Rightarrow> Path \<Rightarrow> bool \<Rightarrow> 's \<Rightarrow> (status \<times> bool) \<times> 's"
  fs_iterate :: "tMountId \<Rightarrow> Path \<Rightarrow> bool \<Rightarrow> 's \<Rightarrow> DirectoryNode list"
  fs_sgetn :: "'h \<Rightarrow> nat \<Rightarrow> 's \<Rightarrow> fault + u8 list \<times> 'h"
  fs_sputn :: "'h \<Rightarrow> u8 list \<Rightarrow> 's \<Rightarrow> fault + nat \<times> 'h \<times> 's"
  fs_is_stdio :: bool

text \<open>
  \<^verbatim>\<open>MemFileSystem\<close> as a file system; its state comes with the memory of the blobs. A negative
  count of bytes that its \<^verbatim>\<open>xsgetn\<close> can return is a huge number for the caller.
\<close>

definition mem_fs :: "(MemFileSystem \<times> heap, MemFileHandle) file_system" where
  "mem_fs =
     \<lparr>fs_mount = (\<lambda>i p mode (s, m). case mem_mount s i p mode of (st, s) \<Rightarrow> (st, s, m)),
      fs_unmount = (\<lambda>i (s, m). case mem_unmount s i of (st, s) \<Rightarrow> (st, s, m)),
      fs_open = (\<lambda>i p mode (s, m). bind_result (mem_open s i p mode) (\<lambda>r. Inr (r, s, m))),
      fs_close = (\<lambda>h w. w),
      fs_remove = (\<lambda>i p ret (s, m). case mem_remove s i p ret of (st, ret, s) \<Rightarrow> ((st, ret), s, m)),
      fs_stat = (\<lambda>i p ret (s, m). mem_stat s i p ret),
      fs_mkdir = (\<lambda>i p ret (s, m). (mem_mkdir s i p ret, s, m)),
      fs_rmdir = (\<lambda>i p ret (s, m). (mem_rmdir s i p ret, s, m)),
      fs_iterate = (\<lambda>i p rec w. []),
      fs_sgetn = (\<lambda>h n (s, m). bind_result (mf_xsgetn h m (int n)) (\<lambda>((k, bs), h).
        if k < 0 then Inl OutOfBounds else Inr (bs, h))),
      fs_sputn = (\<lambda>h bs (s, m). bind_result (mf_xsputn h m bs) (\<lambda>(k, h, m). Inr (nat k, h, s, m))),
      fs_is_stdio = False\<rparr>"

section \<open>The mount table\<close>

record MountPoint =
  mp_id :: tMountId
  mp_fileSys :: nat
  mp_src :: Path
  mp_dest :: Path

text \<open>
  \<^verbatim>\<open>VfsDetail\<close>, with the state of the file systems. It is an object with static storage, so
  the members that its constructor does not set are zero. The mutex is not recursive: to lock
  it in a thread that holds it is undefined.
\<close>

record ('s, 'h) Vfs =
  v_mountPoints :: "MountPoint list"
  v_fileSystems :: "('s, 'h) file_system list"
  v_id :: u32
  v_secure :: bool
  v_locked :: bool
  v_world :: 's

definition Vfs_new :: "('s, 'h) file_system list \<Rightarrow> 's \<Rightarrow> ('s, 'h) Vfs" where
  "Vfs_new fss w = \<lparr>v_mountPoints = [], v_fileSystems = fss, v_id = 0, v_secure = False, v_locked = False, v_world = w\<rparr>"

definition with_lock :: "(('s, 'h) Vfs \<Rightarrow> fault + 'a \<times> ('s, 'h) Vfs) \<Rightarrow> ('s, 'h) Vfs \<Rightarrow> fault + 'a \<times> ('s, 'h) Vfs" where
  "with_lock body v =
     (if v_locked v then Inl Undefined
      else bind_result (body (v\<lparr>v_locked := True\<rparr>)) (\<lambda>(r, v). Inr (r, v\<lparr>v_locked := False\<rparr>)))"

definition NextMountId :: "('s, 'h) Vfs \<Rightarrow> tMountId \<times> ('s, 'h) Vfs" where
  "NextMountId v = (v_id v, v\<lparr>v_id := v_id v + 1\<rparr>)"

definition addFileSys :: "('s, 'h) file_system \<Rightarrow> ('s, 'h) Vfs \<Rightarrow> fault + unit \<times> ('s, 'h) Vfs" where
  "addFileSys fileSys = with_lock (\<lambda>v. Inr ((), v\<lparr>v_fileSystems := v_fileSystems v @ [fileSys]\<rparr>))"

definition setSecurePathing :: "bool \<Rightarrow> ('s, 'h) Vfs \<Rightarrow> fault + unit \<times> ('s, 'h) Vfs" where
  "setSecurePathing secure = with_lock (\<lambda>v. Inr ((), v\<lparr>v_secure := secure\<rparr>))"

text \<open>The loop of \<^verbatim>\<open>mount\<close>: the index of the first file system that takes the path.\<close>

fun mount_loop :: "('s, 'h) file_system list \<Rightarrow> nat \<Rightarrow> tMountId \<Rightarrow> Path \<Rightarrow> openmode \<Rightarrow> 's \<Rightarrow> nat option \<times> 's" where
  "mount_loop [] n i path mode w = (None, w)"
| "mount_loop (fs # fss) n i path mode w =
     (case fs_mount fs i path mode w of (st, w) \<Rightarrow>
        if status_ok st then (Some n, w) else mount_loop fss (Suc n) i path mode w)"

definition TMP_PATH :: string where
  "TMP_PATH = ''tmp/''"

definition vfs_mount :: "Path \<Rightarrow> Path \<Rightarrow> openmode \<Rightarrow> bool \<Rightarrow> ('s, 'h) Vfs \<Rightarrow> fault + tMountId \<times> ('s, 'h) Vfs" where
  "vfs_mount src dest mode userChecks = with_lock (\<lambda>v.
     let resolvedPath = (if v_secure v then resolve src else src) in
     if v_secure v \<and> path_empty resolvedPath then Inr (INVALID_MOUNT_ID, v)
     else if userChecks \<and> m_path dest = TMP_PATH then Inl CheckFailed
     else (case NextMountId v of (mountId, v) \<Rightarrow>
       case mount_loop (v_fileSystems v) 0 mountId resolvedPath mode (v_world v) of
         (None, w) \<Rightarrow> Inr (INVALID_MOUNT_ID, v\<lparr>v_world := w\<rparr>)
       | (Some n, w) \<Rightarrow>
           Inr (mountId, v\<lparr>v_world := w, v_mountPoints := v_mountPoints v @
             [\<lparr>mp_id = mountId, mp_fileSys = n, mp_src = resolvedPath, mp_dest = resolve dest\<rparr>]\<rparr>)))"

definition Mount :: "Path \<Rightarrow> Path \<Rightarrow> openmode \<Rightarrow> ('s, 'h) Vfs \<Rightarrow> fault + tMountId \<times> ('s, 'h) Vfs" where
  "Mount src dest mode = vfs_mount src dest mode True"

text \<open>
  The loop of \<^verbatim>\<open>unmount\<close>, with fuel: when the file system refuses, the iterator stays where it is
  and the loop asks it again.
\<close>

fun unmount_loop :: "nat \<Rightarrow> ('s, 'h) file_system list \<Rightarrow> tMountId \<Rightarrow> MountPoint list \<Rightarrow> MountPoint list \<Rightarrow> 's \<Rightarrow> fault + bool \<times> MountPoint list \<times> 's" where
  "unmount_loop fuel fss i done [] w = Inr (False, done, w)"
| "unmount_loop fuel fss i done (mp # mps) w =
     (if mp_id mp = i then
        (case nth_opt fss (mp_fileSys mp) of
           None \<Rightarrow> Inl OutOfBounds
         | Some fs \<Rightarrow>
             (case fs_unmount fs (mp_id mp) w of (st, w) \<Rightarrow>
                if status_ok st then Inr (True, done @ mps, w)
                else (case fuel of
                        0 \<Rightarrow> Inl Diverges
                      | Suc fuel \<Rightarrow> unmount_loop fuel fss i done (mp # mps) w)))
      else unmount_loop fuel fss i (done @ [mp]) mps w)"

definition vfs_unmount :: "nat \<Rightarrow> tMountId \<Rightarrow> ('s, 'h) Vfs \<Rightarrow> fault + bool \<times> ('s, 'h) Vfs" where
  "vfs_unmount fuel mountId = with_lock (\<lambda>v.
     if mountId = INVALID_MOUNT_ID then Inr (True, v)
     else bind_result (unmount_loop fuel (v_fileSystems v) mountId [] (v_mountPoints v) (v_world v)) (\<lambda>(r, mps, w).
       Inr (r, v\<lparr>v_mountPoints := mps, v_world := w\<rparr>)))"

fun unmount_each :: "('s, 'h) file_system list \<Rightarrow> MountPoint list \<Rightarrow> 's \<Rightarrow> fault + 's" where
  "unmount_each fss [] w = Inr w"
| "unmount_each fss (mp # mps) w =
     (case nth_opt fss (mp_fileSys mp) of
        None \<Rightarrow> Inl OutOfBounds
      | Some fs \<Rightarrow> unmount_each fss mps (snd (fs_unmount fs (mp_id mp) w)))"

definition vfs_unmountAll :: "('s, 'h) Vfs \<Rightarrow> fault + unit \<times> ('s, 'h) Vfs" where
  "vfs_unmountAll = with_lock (\<lambda>v.
     bind_result (unmount_each (v_fileSystems v) (v_mountPoints v) (v_world v)) (\<lambda>w.
       Inr ((), v\<lparr>v_mountPoints := [], v_world := w\<rparr>)))"

section \<open>Finding the file system of a path\<close>

type_synonym ('s, 'h, 'r) visitor =
  "tMountId \<Rightarrow> Path \<Rightarrow> 'r \<Rightarrow> ('s, 'h) file_system \<Rightarrow> 's \<Rightarrow> fault + (bool \<times> 'r) \<times> 's"

text \<open>The loop of \<^verbatim>\<open>findFileSysOperation\<close>, over the mount points from the last to the first.\<close>

fun find_loop :: "bool \<Rightarrow> ('s, 'h) file_system list \<Rightarrow> Path \<Rightarrow> ('s, 'h, 'r) visitor \<Rightarrow> MountPoint list \<Rightarrow> 'r \<Rightarrow> 's \<Rightarrow> fault + (bool \<times> 'r) \<times> 's" where
  "find_loop secure fss inPath func [] ret w = Inr ((False, ret), w)"
| "find_loop secure fss inPath func (mp # mps) ret w =
     (case nth_opt fss (mp_fileSys mp) of
        None \<Rightarrow> Inl OutOfBounds
      | Some fs \<Rightarrow>
          bind_result
            (if \<not> secure \<and> fs_is_stdio fs then func (mp_id mp) inPath ret fs w else Inr ((False, ret), w))
            (\<lambda>((ok, ret), w).
               if ok then Inr ((True, ret), w)
               else bind_result
                 (if path_isParent (mp_dest mp) inPath
                  then func (mp_id mp) (path_append (mp_src mp) (path_stripParent inPath (mp_dest mp))) ret fs w
                  else Inr ((False, ret), w))
                 (\<lambda>((ok, ret), w).
                    if ok then Inr ((True, ret), w) else find_loop secure fss inPath func mps ret w)))"

definition findFileSysOperation :: "('s, 'h) Vfs \<Rightarrow> Path \<Rightarrow> 'r \<Rightarrow> ('s, 'h, 'r) visitor \<Rightarrow> fault + 'r \<times> ('s, 'h) Vfs" where
  "findFileSysOperation v path ret func =
     (let inPath = resolve path in
      if path_empty inPath \<and> v_secure v then Inr (ret, v)
      else let inPath = (if path_empty inPath then path else inPath) in
           bind_result (find_loop (v_secure v) (v_fileSystems v) inPath func (rev (v_mountPoints v)) ret (v_world v))
             (\<lambda>((ok, ret), w). Inr (ret, v\<lparr>v_world := w\<rparr>)))"

text \<open>An open file of the virtual file system knows its file system (\<^verbatim>\<open>setFileSystem\<close>).\<close>

definition doOpen :: "openmode \<Rightarrow> ('s, 'h, (('s, 'h) file_system \<times> 'h) option) visitor" where
  "doOpen mode mountId resolvedPath out fs w =
     bind_result (fs_open fs mountId resolvedPath mode w) (\<lambda>((st, pFile), w).
       case pFile of
         Some h \<Rightarrow> Inr ((True, Some (fs, h)), w)
       | None \<Rightarrow> Inr ((False, out), w))"

definition vfs_open :: "Path \<Rightarrow> openmode \<Rightarrow> ('s, 'h) Vfs \<Rightarrow> fault + (('s, 'h) file_system \<times> 'h) option \<times> ('s, 'h) Vfs" where
  "vfs_open path mode = with_lock (\<lambda>v. findFileSysOperation v path None (doOpen mode))"

definition vfs_close :: "('s, 'h) file_system \<times> 'h \<Rightarrow> ('s, 'h) Vfs \<Rightarrow> fault + bool \<times> ('s, 'h) Vfs" where
  "vfs_close file = with_lock (\<lambda>v. Inr (True, v\<lparr>v_world := fs_close (fst file) (snd file) (v_world v)\<rparr>))"

definition doStat :: "('s, 'h, FileStats) visitor" where
  "doStat mountId resolvedPath out fs w =
     (case fs_stat fs mountId resolvedPath out w of (st, out) \<Rightarrow> Inr ((status_ok st, out), w))"

definition vfs_stat :: "Path \<Rightarrow> ('s, 'h) Vfs \<Rightarrow> fault + FileStats \<times> ('s, 'h) Vfs" where
  "vfs_stat path = with_lock (\<lambda>v. findFileSysOperation v path FileStats_new doStat)"

definition doMkdir :: "('s, 'h, bool) visitor" where
  "doMkdir mountId resolvedPath out fs w =
     (case fs_mkdir fs mountId resolvedPath out w of ((st, out), w) \<Rightarrow> Inr ((status_ok st, out), w))"

text \<open>\<^verbatim>\<open>MkDir\<close> calls \<^verbatim>\<open>Stat\<close> while it holds the lock.\<close>

definition MkDir :: "Path \<Rightarrow> ('s, 'h) Vfs \<Rightarrow> fault + bool \<times> ('s, 'h) Vfs" where
  "MkDir path = with_lock (\<lambda>v.
     bind_result (vfs_stat path v) (\<lambda>(stats, v).
       if \<not> m_exists stats then findFileSysOperation v path False doMkdir
       else Inr (m_isDir stats, v)))"

definition doRmdir :: "('s, 'h, bool) visitor" where
  "doRmdir mountId resolvedPath out fs w =
     (case fs_rmdir fs mountId resolvedPath out w of ((st, out), w) \<Rightarrow> Inr ((status_ok st, out), w))"

definition RmDir :: "Path \<Rightarrow> ('s, 'h) Vfs \<Rightarrow> fault + bool \<times> ('s, 'h) Vfs" where
  "RmDir path = with_lock (\<lambda>v. findFileSysOperation v path False doRmdir)"

definition doRemove :: "('s, 'h, bool) visitor" where
  "doRemove mountId resolvedPath out fs w =
     (case fs_remove fs mountId resolvedPath out w of ((st, out), w) \<Rightarrow> Inr ((status_ok st, out), w))"

definition Remove :: "Path \<Rightarrow> ('s, 'h) Vfs \<Rightarrow> fault + bool \<times> ('s, 'h) Vfs" where
  "Remove path = with_lock (\<lambda>v. findFileSysOperation v path False doRemove)"

section \<open>The folder of temporary files\<close>

text \<open>\<^verbatim>\<open>getenv\<close> and the clock (the text of its reading number \<open>n\<close>) are parameters.\<close>

definition temp_dir :: "(string \<Rightarrow> string option) \<Rightarrow> string option" where
  "temp_dir getenv =
     List.fold (\<lambda>name p. case p of None \<Rightarrow> getenv name | Some d \<Rightarrow> Some d)
       [''TMPDIR'', ''TMP'', ''TEMP'', ''TEMPDIR'', ''USERPROFILE''] None"

fun temp_loop :: "nat \<Rightarrow> (nat \<Rightarrow> string) \<Rightarrow> nat \<Rightarrow> ('s, 'h) Vfs \<Rightarrow> fault + Path \<times> ('s, 'h) Vfs" where
  "temp_loop 0 ticks n v = Inl Diverges"
| "temp_loop (Suc fuel) ticks n v =
     (let tempPath = new_path (''fishy/'' @ ticks n @ ''/'') in
      bind_result (vfs_stat (path_append (Path ''ostmp/'') tempPath) v) (\<lambda>(stats, v).
        if m_exists stats then temp_loop fuel ticks (Suc n) v else Inr (tempPath, v)))"

definition mountTempFolder :: "nat \<Rightarrow> (string \<Rightarrow> string option) \<Rightarrow> (nat \<Rightarrow> string) \<Rightarrow> ('s, 'h) Vfs \<Rightarrow> fault + tMountId \<times> ('s, 'h) Vfs" where
  "mountTempFolder fuel getenv ticks = with_lock (\<lambda>v.
     case temp_dir getenv of
       None \<Rightarrow> Inr (INVALID_MOUNT_ID, v)
     | Some d \<Rightarrow>
         (let osRootTempPath = new_path (m_path (resolve (new_path d)) @ ''/'');
              fishy = path_append (Path ''ostmp/'') (Path ''fishy/'') in
          bind_result (vfs_mount osRootTempPath (Path ''ostmp/'') {Binary, Out} False v) (\<lambda>(tempMount, v).
          if tempMount = INVALID_MOUNT_ID then Inr (INVALID_MOUNT_ID, v)
          else bind_result (vfs_stat fishy v) (\<lambda>(stats, v).
          bind_result (if m_exists stats then Inr (True, v) else MkDir fishy v) (\<lambda>(ok, v).
          if \<not> ok then bind_result (vfs_unmount fuel tempMount v) (\<lambda>(_, v). Inr (INVALID_MOUNT_ID, v))
          else bind_result (temp_loop fuel ticks 0 v) (\<lambda>(tempPath, v).
          bind_result (MkDir (path_append (Path ''ostmp/'') tempPath) v) (\<lambda>(ok, v).
          bind_result (vfs_unmount fuel tempMount v) (\<lambda>(_, v).
          if \<not> ok then Inr (INVALID_MOUNT_ID, v)
          else vfs_mount (path_append osRootTempPath tempPath) (Path TMP_PATH) {Binary, In, Out} False v))))))))"

section \<open>Copying\<close>

definition COPY_BUFFER_SZ :: nat where
  "COPY_BUFFER_SZ = 1024"

text \<open>The loop of \<^verbatim>\<open>Copy\<close>, with fuel; it does not take the lock.\<close>

fun copy_loop :: "nat \<Rightarrow> ('s, 'h) file_system \<times> 'h \<Rightarrow> ('s, 'h) file_system \<times> 'h \<Rightarrow> 's \<Rightarrow> fault + (bool \<times> 'h \<times> 'h) \<times> 's" where
  "copy_loop 0 i out w = Inl Diverges"
| "copy_loop (Suc fuel) (fi, hi) (fo, ho) w =
     bind_result (fs_sgetn fi hi COPY_BUFFER_SZ w) (\<lambda>(buffer, hi).
       if buffer = [] then Inr ((True, hi, ho), w)
       else bind_result (fs_sputn fo ho buffer w) (\<lambda>(written, ho, w).
         if length buffer \<noteq> written then Inr ((False, hi, ho), w)
         else copy_loop fuel (fi, hi) (fo, ho) w))"

definition Copy :: "nat \<Rightarrow> Path \<Rightarrow> Path \<Rightarrow> ('s, 'h) Vfs \<Rightarrow> fault + bool \<times> ('s, 'h) Vfs" where
  "Copy fuel pathIn pathOut v =
     bind_result (vfs_open pathIn {In, Binary} v) (\<lambda>(inp, v).
       case inp of
         None \<Rightarrow> Inr (False, v)
       | Some (fi, hi) \<Rightarrow>
           bind_result (vfs_open pathOut {Out, Binary} v) (\<lambda>(out, v).
             case out of
               None \<Rightarrow> bind_result (vfs_close (fi, hi) v) (\<lambda>(_, v). Inr (False, v))
             | Some (fo, ho) \<Rightarrow>
                 bind_result (copy_loop fuel (fi, hi) (fo, ho) (v_world v)) (\<lambda>((rVal, hi, ho), w).
                 bind_result (vfs_close (fi, hi) (v\<lparr>v_world := w\<rparr>)) (\<lambda>(_, v).
                 bind_result (vfs_close (fo, ho) v) (\<lambda>(_, v). Inr (rVal, v))))))"

section \<open>Listing directories\<close>

text \<open>
  An iterator of a file system is the list of the nodes it still has, the current one first;
  \<^verbatim>\<open>VFSDirectoryIterator\<close> goes through those of the mount points, from the last.
\<close>

definition child_get :: "DirectoryNode list \<Rightarrow> DirectoryNode" where
  "child_get child = (case child of [] \<Rightarrow> DirectoryNode_new | n # _ \<Rightarrow> n)"

record VfsIterator =
  it_root :: Path
  it_recurse :: bool
  it_lastMount :: tMountId
  it_child :: "DirectoryNode list"
  it_node :: DirectoryNode

text \<open>The test is of the path given, not of the resolved one.\<close>

definition resolveOrDie :: "('s, 'h) Vfs \<Rightarrow> Path \<Rightarrow> fault + Path" where
  "resolveOrDie v path =
     (if path_empty path then (if v_secure v then Inl CheckFailed else Inr path) else Inr (resolve path))"

definition setTranslatedNode :: "('s, 'h) Vfs \<Rightarrow> DirectoryNode \<Rightarrow> VfsIterator \<Rightarrow> fault + VfsIterator" where
  "setTranslatedNode v node it =
     (case List.find (\<lambda>mp. mp_id mp = d_mountId node) (v_mountPoints v) of
        Some mp \<Rightarrow>
          Inr (it\<lparr>it_node := node\<lparr>d_path := path_append (mp_dest mp) (path_stripParent (d_path node) (mp_src mp))\<rparr>\<rparr>)
      | None \<Rightarrow> Inl CheckFailed)"

definition iterate_path :: "VfsIterator \<Rightarrow> MountPoint \<Rightarrow> Path" where
  "iterate_path it mp =
     (if path_isParent (mp_dest mp) (it_root it)
      then path_append (mp_src mp) (path_stripParent (it_root it) (mp_dest mp))
      else if it_recurse it \<and> path_isParent (it_root it) (mp_dest mp) then path_append (mp_src mp) (it_root it)
      else Path [])"

fun next_mount_loop :: "('s, 'h) Vfs \<Rightarrow> MountPoint list \<Rightarrow> VfsIterator \<Rightarrow> fault + bool \<times> VfsIterator" where
  "next_mount_loop v [] it = Inr (False, it)"
| "next_mount_loop v (mp # mps) it =
     (case nth_opt (v_fileSystems v) (mp_fileSys mp) of
        None \<Rightarrow> Inl OutOfBounds
      | Some fs \<Rightarrow>
          (let resolvedPath = iterate_path it mp in
           if path_empty resolvedPath then next_mount_loop v mps it
           else (let child = fs_iterate fs (mp_id mp) resolvedPath (it_recurse it) (v_world v);
                     it = it\<lparr>it_lastMount := mp_id mp, it_child := child\<rparr> in
                 if DirectoryNode_eq (child_get child) DirectoryNode_new then next_mount_loop v mps it
                 else bind_result (setTranslatedNode v (child_get child) it) (\<lambda>it.
                   Inr (m_exists (d_stats (child_get child)), it)))))"

definition findNextMount :: "('s, 'h) Vfs \<Rightarrow> VfsIterator \<Rightarrow> fault + bool \<times> VfsIterator" where
  "findNextMount v it =
     next_mount_loop v
       (if it_lastMount it \<noteq> INVALID_MOUNT_ID
        then tl (dropWhile (\<lambda>mp. mp_id mp \<noteq> it_lastMount it) (rev (v_mountPoints v)))
        else rev (v_mountPoints v)) it"

definition VFSDirectoryIterator :: "('s, 'h) Vfs \<Rightarrow> Path \<Rightarrow> bool \<Rightarrow> fault + VfsIterator" where
  "VFSDirectoryIterator v root recurse =
     bind_result (resolveOrDie v root) (\<lambda>root.
     bind_result (findNextMount v \<lparr>it_root = root, it_recurse = recurse, it_lastMount = INVALID_MOUNT_ID,
         it_child = [], it_node = DirectoryNode_new\<rparr>) (\<lambda>(_, it). Inr it))"

text \<open>
  \<^verbatim>\<open>next\<close>. When \<^verbatim>\<open>findNextMount\<close> succeeds the child has a node, so the body of its loop runs
  at most once.
\<close>

definition vfs_iterator_next :: "('s, 'h) Vfs \<Rightarrow> VfsIterator \<Rightarrow> fault + bool \<times> VfsIterator" where
  "vfs_iterator_next v it =
     (let it = it\<lparr>it_child := tl (it_child it)\<rparr> in
      bind_result
        (if DirectoryNode_eq (child_get (it_child it)) DirectoryNode_new then findNextMount v it else Inr (True, it))
        (\<lambda>(found, it).
           if \<not> found then Inr (False, it)
           else bind_result (setTranslatedNode v (child_get (it_child it)) it) (\<lambda>it. Inr (True, it))))"

end
