(* ===== verification/VfsSpec.thy ===== *)
theory VfsSpec
  imports Vfs
begin

text \<open>
  What the virtual file system guarantees: the table of mount points agrees with the file systems,
  unmounting ends, and with secure paths no path leaves its mount point, up to the cases shown.
\<close>

section \<open>The mount table and its file systems\<close>

text \<open>The table and the file systems agree; \<open>mounted w n i\<close>: file system \<open>n\<close> has a mount \<open>i\<close>.\<close>

definition table_ok :: "('s, 'h) file_system list \<Rightarrow> ('s \<Rightarrow> nat \<Rightarrow> tMountId \<Rightarrow> bool) \<Rightarrow> ('s, 'h) Vfs \<Rightarrow> bool" where
  "table_ok fss mounted v \<longleftrightarrow> v_fileSystems v = fss \<and> \<not> v_locked v \<and> distinct (map mp_id (v_mountPoints v)) \<and>
     (\<forall>mp \<in> set (v_mountPoints v). mp_fileSys mp < length fss \<and> mp_id mp < v_id v) \<and>
     (\<forall>n i. mounted (v_world v) n i \<longleftrightarrow> (\<exists>mp \<in> set (v_mountPoints v). mp_id mp = i \<and> mp_fileSys mp = n))"

lemma id_below: "(i :: u32) < n \<Longrightarrow> i \<noteq> INVALID_MOUNT_ID"
  by (auto simp: INVALID_MOUNT_ID_def word_order.extremum_strict)

lemma id_less_next: "(i :: u32) \<noteq> INVALID_MOUNT_ID \<Longrightarrow> i < i + 1"
proof -
  assume "i \<noteq> INVALID_MOUNT_ID"
  then have "1 + i \<noteq> 0" by (auto simp: INVALID_MOUNT_ID_def eq_neg_iff_add_eq_0 add.commute)
  then have "unat (1 + i) = Suc (unat i)" by (rule unatSuc)
  then show ?thesis by (simp add: word_less_nat_alt add.commute)
qed

text \<open>
  The contract of \<^verbatim>\<open>iFileSystem::mount\<close> and \<^verbatim>\<open>unmount\<close> that the table relies on: a mount
  that succeeds is remembered under its id, and an unmount succeeds exactly for what is mounted,
  and forgets it.
\<close>

locale mount_world =
  fixes fss :: "('s, 'h) file_system list"
    and mounted :: "'s \<Rightarrow> nat \<Rightarrow> tMountId \<Rightarrow> bool"
  assumes mount_contract:
      "n < length fss \<Longrightarrow> fs_mount (fss ! n) i p mode w = (st, w') \<Longrightarrow>
       mounted w' k j \<longleftrightarrow> mounted w k j \<or> (status_ok st \<and> k = n \<and> j = i)"
    and unmount_contract:
      "n < length fss \<Longrightarrow> fs_unmount (fss ! n) i w = (st, w') \<Longrightarrow>
       (status_ok st \<longleftrightarrow> mounted w n i) \<and> (mounted w' k j \<longleftrightarrow> mounted w k j \<and> (k, j) \<noteq> (n, i))"
begin

lemma mount_loop_spec:
  assumes "mount_loop (drop k fss) k i p mode w = (r, w')" "k \<le> length fss"
  shows "case r of
      None \<Rightarrow> \<forall>n j. mounted w' n j \<longleftrightarrow> mounted w n j
    | Some m \<Rightarrow> m < length fss \<and> (\<forall>n j. mounted w' n j \<longleftrightarrow> mounted w n j \<or> (n = m \<and> j = i))"
  using assms
proof (induction "length fss - k" arbitrary: k w)
  case 0
  then show ?case by simp
next
  case (Suc d)
  then have k: "k < length fss" by simp
  obtain st w1 where m: "fs_mount (fss ! k) i p mode w = (st, w1)" by (cases "fs_mount (fss ! k) i p mode w")
  have c: "mounted w1 n j \<longleftrightarrow> mounted w n j \<or> (status_ok st \<and> n = k \<and> j = i)" for n j
    by (rule mount_contract [OF k m])
  have d: "drop k fss = fss ! k # drop (Suc k) fss" using k by (simp add: Cons_nth_drop_Suc)
  show ?case
  proof (cases "status_ok st")
    case True
    with Suc.prems m d k have "r = Some k" "w' = w1" by auto
    with True c k show ?thesis by simp
  next
    case False
    with Suc.prems m d have "mount_loop (drop (Suc k) fss) (Suc k) i p mode w1 = (r, w')" by simp
    moreover from False c have "mounted w1 = mounted w" by (intro ext) simp
    moreover from Suc.hyps(2) k have "d = length fss - Suc k" "Suc k \<le> length fss" by simp_all
    ultimately show ?thesis using Suc.hyps(1) [of "Suc k" w1] by (simp only:)
  qed
qed

lemma unmount_loop_spec:
  assumes "distinct (map mp_id mps)"
    and "\<forall>mp \<in> set mps. mp_fileSys mp < length fss \<and> mounted w (mp_fileSys mp) (mp_id mp)"
  shows "\<exists>w'. unmount_loop fuel fss i don mps w =
      Inr (i \<in> mp_id ` set mps, don @ filter (\<lambda>mp. mp_id mp \<noteq> i) mps, w') \<and>
    (\<forall>n j. mounted w' n j \<longleftrightarrow> mounted w n j \<and> \<not> (\<exists>mp \<in> set mps. mp_id mp = i \<and> mp_fileSys mp = n \<and> j = i))"
  using assms
proof (induction mps arbitrary: don)
  case (Cons mp mps)
  show ?case
  proof (cases "mp_id mp = i")
    case True
    with Cons.prems have rest: "i \<notin> mp_id ` set mps" by auto
    then have filt: "filter (\<lambda>mp. mp_id mp \<noteq> i) mps = mps" by (auto intro: filter_True)
    have n: "mp_fileSys mp < length fss" "mounted w (mp_fileSys mp) i" using Cons.prems True by auto
    obtain st w' where u: "fs_unmount (fss ! mp_fileSys mp) i w = (st, w')"
      by (cases "fs_unmount (fss ! mp_fileSys mp) i w")
    have c: "status_ok st" "mounted w' k j \<longleftrightarrow> mounted w k j \<and> (k, j) \<noteq> (mp_fileSys mp, i)" for k j
      using unmount_contract [OF n(1) u] n(2) by auto
    have "unmount_loop fuel fss i don (mp # mps) w = Inr (True, don @ mps, w')"
      using True n(1) u c(1) by simp
    with True filt rest c(2) show ?thesis by (auto simp: image_iff)
  next
    case False
    with Cons.IH [of "don @ [mp]"] Cons.prems show ?thesis by auto
  qed
qed simp

lemma unmount_ok:
  assumes "table_ok fss mounted v"
  shows "\<exists>v'. vfs_unmount fuel i v = Inr (i = INVALID_MOUNT_ID \<or> i \<in> mp_id ` set (v_mountPoints v), v') \<and>
    table_ok fss mounted v' \<and> v_id v' = v_id v \<and>
    mp_id ` set (v_mountPoints v') = mp_id ` set (v_mountPoints v) - {i}"
proof (cases "i = INVALID_MOUNT_ID")
  case True
  then have "i \<notin> mp_id ` set (v_mountPoints v)"
    using assms id_below by (fastforce simp: table_ok_def)
  with True assms show ?thesis by (simp add: vfs_unmount_def with_lock_def table_ok_def)
next
  case False
  have ok: "distinct (map mp_id (v_mountPoints v))"
    "\<forall>mp \<in> set (v_mountPoints v). mp_fileSys mp < length fss \<and> mounted (v_world v) (mp_fileSys mp) (mp_id mp)"
    using assms by (auto simp: table_ok_def)
  obtain w' where w': "unmount_loop fuel fss i [] (v_mountPoints v) (v_world v) =
      Inr (i \<in> mp_id ` set (v_mountPoints v), [] @ filter (\<lambda>mp. mp_id mp \<noteq> i) (v_mountPoints v), w')"
    "\<And>n j. mounted w' n j \<longleftrightarrow> mounted (v_world v) n j \<and>
       \<not> (\<exists>mp \<in> set (v_mountPoints v). mp_id mp = i \<and> mp_fileSys mp = n \<and> j = i)"
    using unmount_loop_spec [OF ok, of fuel i "[]"] by blast
  let ?v = "v\<lparr>v_mountPoints := filter (\<lambda>mp. mp_id mp \<noteq> i) (v_mountPoints v), v_world := w', v_locked := False\<rparr>"
  have "vfs_unmount fuel i v = Inr (i \<in> mp_id ` set (v_mountPoints v), ?v)"
    using assms False w'(1) by (simp add: vfs_unmount_def with_lock_def table_ok_def)
  moreover have "table_ok fss mounted ?v"
    using assms w'(2) by (auto simp: table_ok_def distinct_map_filter)
  moreover have "mp_id ` set (v_mountPoints ?v) = mp_id ` set (v_mountPoints v) - {i}" by auto
  ultimately show ?thesis using False by (intro exI [of _ ?v]) simp
qed

lemma mount_ok:
  assumes "table_ok fss mounted v" "v_id v \<noteq> INVALID_MOUNT_ID" "\<not> (userChecks \<and> m_path dest = TMP_PATH)"
  shows "\<exists>r v'. vfs_mount src dest mode userChecks v = Inr (r, v') \<and> table_ok fss mounted v' \<and>
    (v_id v' = v_id v \<or> v_id v' = v_id v + 1)"
proof -
  let ?p = "if v_secure v then resolve src else src"
  let ?i = "v_id v"
  show ?thesis
  proof (cases "v_secure v \<and> path_empty ?p")
    case True
    with assms show ?thesis by (auto simp: vfs_mount_def with_lock_def table_ok_def)
  next
    case False
    obtain r w' where loop: "mount_loop fss 0 ?i ?p mode (v_world v) = (r, w')"
      by (cases "mount_loop fss 0 ?i ?p mode (v_world v)")
    have spec: "case r of None \<Rightarrow> \<forall>n j. mounted w' n j \<longleftrightarrow> mounted (v_world v) n j
      | Some m \<Rightarrow> m < length fss \<and> (\<forall>n j. mounted w' n j \<longleftrightarrow> mounted (v_world v) n j \<or> (n = m \<and> j = ?i))"
      using mount_loop_spec [of 0] loop by simp
    have less: "?i < ?i + 1"
      using assms(2) by (rule id_less_next)
    let ?v = "v\<lparr>v_id := ?i + 1, v_world := w', v_locked := False\<rparr>"
    show ?thesis
    proof (cases r)
      case None
      with loop False assms have "vfs_mount src dest mode userChecks v = Inr (INVALID_MOUNT_ID, ?v)"
        by (auto simp: vfs_mount_def with_lock_def table_ok_def NextMountId_def Let_def)
      moreover have "table_ok fss mounted ?v" using assms(1) spec None less by (auto simp: table_ok_def)
      ultimately show ?thesis by simp
    next
      case (Some m)
      let ?mp = "\<lparr>mp_id = ?i, mp_fileSys = m, mp_src = ?p, mp_dest = resolve dest\<rparr>"
      let ?v2 = "?v\<lparr>v_mountPoints := v_mountPoints v @ [?mp]\<rparr>"
      from Some loop False assms have "vfs_mount src dest mode userChecks v = Inr (?i, ?v2)"
        by (auto simp: vfs_mount_def with_lock_def table_ok_def NextMountId_def Let_def)
      moreover have "table_ok fss mounted ?v2" using assms(1) spec Some less by (auto simp: table_ok_def)
      ultimately show ?thesis by simp
    qed
  qed
qed

end

text \<open>The file system in memory keeps the contract.\<close>

definition mem_mounted :: "MemFileSystem \<times> heap \<Rightarrow> nat \<Rightarrow> tMountId \<Rightarrow> bool" where
  "mem_mounted w n i \<longleftrightarrow> n = 0 \<and> m_mounts (fst w) i \<noteq> None"

interpretation mw: mount_world "[mem_fs]" mem_mounted
proof unfold_locales
  fix n i p mode st k j and w w' :: "MemFileSystem \<times> heap"
  assume n: "n < length [mem_fs]" and e: "fs_mount ([mem_fs] ! n) i p mode w = (st, w')"
  obtain s m where w: "w = (s, m)" by (cases w)
  show "mem_mounted w' k j \<longleftrightarrow> mem_mounted w k j \<or> (status_ok st \<and> k = n \<and> j = i)"
    using n e by (auto simp: w mem_mounted_def mem_fs_def mem_mount_def status_ok_def split: if_splits)
next
  fix n i st k j and w w' :: "MemFileSystem \<times> heap"
  assume n: "n < length [mem_fs]" and e: "fs_unmount ([mem_fs] ! n) i w = (st, w')"
  obtain s m where w: "w = (s, m)" by (cases w)
  show "(status_ok st \<longleftrightarrow> mem_mounted w n i) \<and>
    (mem_mounted w' k j \<longleftrightarrow> mem_mounted w k j \<and> (k, j) \<noteq> (n, i))"
    using n e by (auto simp: w mem_mounted_def mem_fs_def mem_unmount_def status_ok_def split: if_splits)
qed

text \<open>The operations on the table, as a client calls them.\<close>

datatype vfs_op = OMount Path Path openmode | OUnmount tMountId | OSecure bool

fun vfs_exec :: "nat \<Rightarrow> vfs_op \<Rightarrow> ('s, 'h) Vfs \<Rightarrow> fault + ('s, 'h) Vfs" where
  "vfs_exec fuel (OMount src dest mode) v = bind_result (Mount src dest mode v) (\<lambda>(_, v). Inr v)"
| "vfs_exec fuel (OUnmount i) v = bind_result (vfs_unmount fuel i v) (\<lambda>(_, v). Inr v)"
| "vfs_exec fuel (OSecure b) v = bind_result (setSecurePathing b v) (\<lambda>(_, v). Inr v)"

fun vfs_run :: "nat \<Rightarrow> vfs_op list \<Rightarrow> ('s, 'h) Vfs \<Rightarrow> fault + ('s, 'h) Vfs" where
  "vfs_run fuel [] v = Inr v"
| "vfs_run fuel (f # fs) v = bind_result (vfs_exec fuel f v) (vfs_run fuel fs)"

definition not_tmp :: "vfs_op \<Rightarrow> bool" where
  "not_tmp f = (case f of OMount src dest mode \<Rightarrow> m_path dest \<noteq> TMP_PATH | _ \<Rightarrow> True)"

context mount_world begin

lemma exec_ok:
  assumes "table_ok fss mounted v" "not_tmp f" "v_id v \<noteq> INVALID_MOUNT_ID"
  shows "\<exists>v'. vfs_exec fuel f v = Inr v' \<and> table_ok fss mounted v' \<and> (v_id v' = v_id v \<or> v_id v' = v_id v + 1)"
proof (cases f)
  case (OMount src dest mode)
  with mount_ok [OF assms(1,3), of True dest src mode] assms(2) show ?thesis
    by (auto simp: not_tmp_def Mount_def)
next
  case (OUnmount i)
  with unmount_ok [OF assms(1), of fuel i] show ?thesis by auto
next
  case (OSecure b)
  with assms(1) show ?thesis by (auto simp: setSecurePathing_def with_lock_def table_ok_def)
qed

lemma run_ok:
  "table_ok fss mounted v \<Longrightarrow> list_all not_tmp ops \<Longrightarrow> unat (v_id v) + length ops < 2 ^ 32 \<Longrightarrow>
   \<exists>v'. vfs_run fuel ops v = Inr v' \<and> table_ok fss mounted v'"
proof (induction ops arbitrary: v)
  case (Cons f ops)
  have id: "v_id v \<noteq> INVALID_MOUNT_ID"
  proof
    assume "v_id v = INVALID_MOUNT_ID"
    then have "unat (v_id v) = 2 ^ 32 - 1" by (simp add: INVALID_MOUNT_ID_def unsigned_minus_1_eq_mask mask_eq_exp_minus_1)
    with Cons.prems(3) show False by simp
  qed
  with Cons.prems obtain v' where v': "vfs_exec fuel f v = Inr v'" "table_ok fss mounted v'"
    "v_id v' = v_id v \<or> v_id v' = v_id v + 1" using exec_ok [of v f fuel] by auto
  have "unat (v_id v') \<le> Suc (unat (v_id v))"
    using v'(3) by (auto simp: unat_plus_if')
  with Cons.prems(3) have "unat (v_id v') + length ops < 2 ^ 32" by simp
  with Cons.IH [OF v'(2)] Cons.prems(2) v'(1) show ?case by simp
qed simp

end

text \<open>
  C21. Mounting and unmounting over the file system in memory. After any sequence of fewer than
  \<open>2^32\<close> calls to mount, unmount and set the path mode, none of them for the folder of
  temporary files, every call has returned, the ids in the mount table are distinct and are
  exactly the mounts of the file system, and the lock is free; and unmounting any id ends,
  without a second round of its loop, and returns whether the id was in the table.
\<close>

theorem vfs_mounts_consistent:
  assumes "list_all not_tmp ops" "length ops < 2 ^ 32"
  shows "\<exists>v. vfs_run fuel ops (Vfs_new [mem_fs] (MemFileSystem_new, m)) = Inr v \<and>
    distinct (map mp_id (v_mountPoints v)) \<and> \<not> v_locked v \<and>
    {i. m_mounts (fst (v_world v)) i \<noteq> None} = mp_id ` set (v_mountPoints v) \<and>
    (\<exists>v'. vfs_unmount 0 i v = Inr (i = INVALID_MOUNT_ID \<or> i \<in> mp_id ` set (v_mountPoints v), v') \<and>
       {j. m_mounts (fst (v_world v')) j \<noteq> None} = mp_id ` set (v_mountPoints v) - {i})"
proof -
  let ?v = "Vfs_new [mem_fs] (MemFileSystem_new, m)"
  have "table_ok [mem_fs] mem_mounted ?v" by (simp add: table_ok_def Vfs_new_def MemFileSystem_new_def mem_mounted_def)
  moreover have "unat (v_id ?v) + length ops < 2 ^ 32" using assms(2) by (simp add: Vfs_new_def)
  ultimately obtain v where v: "vfs_run fuel ops ?v = Inr v" "table_ok [mem_fs] mem_mounted v"
    using mw.run_ok assms(1) by blast
  have mounts: "{i. m_mounts (fst (v_world u)) i \<noteq> None} = mp_id ` set (v_mountPoints u)"
    if u: "table_ok [mem_fs] mem_mounted u" for u
  proof -
    have "m_mounts (fst (v_world u)) i \<noteq> None \<longleftrightarrow> mem_mounted (v_world u) 0 i" for i by (simp add: mem_mounted_def)
    with u show ?thesis by (auto simp: table_ok_def image_iff)
  qed
  from mw.unmount_ok [OF v(2), of 0 i] obtain v' where v':
    "vfs_unmount 0 i v = Inr (i = INVALID_MOUNT_ID \<or> i \<in> mp_id ` set (v_mountPoints v), v')"
    "table_ok [mem_fs] mem_mounted v'" "mp_id ` set (v_mountPoints v') = mp_id ` set (v_mountPoints v) - {i}" by blast
  show ?thesis
    using v mounts [OF v(2)] v' mounts [OF v'(2)] by (intro exI [of _ v]) (auto simp: table_ok_def)
qed

theorem vfs_mounts_consistent_witness:
  "\<exists>v. vfs_run 5 [OMount (Path ''memfile/'') (Path ''data/'') {In}, OUnmount 3]
      (Vfs_new [mem_fs] (MemFileSystem_new, \<lambda>_. 0)) = Inr v \<and> distinct (map mp_id (v_mountPoints v)) \<and>
    {i. m_mounts (fst (v_world v)) i \<noteq> None} = mp_id ` set (v_mountPoints v)"
proof -
  have "list_all not_tmp [OMount (Path ''memfile/'') (Path ''data/'') {In}, OUnmount 3]"
    "length [OMount (Path ''memfile/'') (Path ''data/'') {In}, OUnmount 3] < 2 ^ 32"
    by (simp_all add: not_tmp_def TMP_PATH_def)
  from vfs_mounts_consistent [OF this, of 5 "\<lambda>_. 0" 0] show ?thesis
    by (elim exE conjE) (intro exI conjI, assumption+)
qed

section \<open>Secure paths\<close>

text \<open>No component of the path, up to its last separator, is \<^verbatim>\<open>.\<close> or \<^verbatim>\<open>..\<close>.\<close>

definition dot :: "string \<Rightarrow> bool" where
  "dot c \<longleftrightarrow> c = ''./'' \<or> c = ''../''"

definition dotless :: "string \<Rightarrow> bool" where
  "dotless s \<longleftrightarrow> list_all (\<lambda>c. \<not> dot c) (components s)"

lemma find_char_append: "find_char c xs = Some i \<Longrightarrow> find_char c (xs @ ys) = Some i"
  by (induction xs arbitrary: i) (auto split: if_splits)

lemma components_append: "d = [] \<or> last d = sep \<Longrightarrow> components (d @ r) = components d @ components r"
proof (induction d rule: components.induct)
  case (1 d)
  show ?case
  proof (cases "find_char sep d")
    case None
    then have "sep \<notin> set d" by (simp add: find_char_None)
    with "1.prems" have "d = []" by (metis last_in_set)
    then show ?thesis by (simp add: components.simps [of "[]"])
  next
    case (Some i)
    have i: "i < length d" by (rule find_char_less [OF Some])
    have "drop (i + 1) d = [] \<or> last (drop (i + 1) d) = sep"
      using "1.prems" by (cases "i + 1 < length d") (auto simp: last_drop)
    from "1.IH" [OF Some this] Some i show ?thesis
      by (subst components.simps, subst (2) components.simps) (simp add: find_char_append)
  qed
qed

lemma components_no_sep: "sep \<notin> set s \<Longrightarrow> components s = []"
  by (subst components.simps) (simp add: find_char_None [THEN iffD2])

lemma components_component: "component c \<Longrightarrow> components c = [c]"
proof -
  assume "component c"
  then obtain w where c: "c = w @ [sep]" "sep \<notin> set w" by (auto simp: component_def)
  have "find_char sep (w @ [sep]) = Some (length w)"
    using c(2) by (induction w) auto
  with c show ?thesis by (subst components.simps) (simp add: components_no_sep)
qed

lemma components_concat: "list_all component ds \<Longrightarrow> components (concat ds) = ds"
proof (induction ds)
  case (Cons c ds)
  then have "c = [] \<or> last c = sep" by (auto simp: component_def)
  with Cons show ?case by (simp add: components_append components_component)
qed (simp add: components_no_sep)

lemma concat_components_prefix: "prefix (concat (components s)) s"
proof (induction s rule: components.induct)
  case (1 s)
  show ?case
  proof (cases "find_char sep s")
    case (Some i)
    with 1 [OF Some] show ?thesis
      by (subst components.simps) (auto simp: prefix_def, metis append.assoc append_take_drop_id)
  qed (simp add: components.simps [of s])
qed

lemma normalise_dots:
  "normalise kept cs = Some ds \<Longrightarrow> list_all (\<lambda>c. \<not> dot c) kept \<Longrightarrow> list_all (\<lambda>c. \<not> dot c) ds"
proof (induction kept cs rule: normalise.induct)
  case (2 kept c cs)
  then show ?case by (cases kept) (auto simp: dot_def split: if_splits)
qed auto

lemma resolve_dotless:
  assumes "clean s"
  shows "dotless (m_path (resolve (Path s)))"
proof (cases "find_str ''./'' s = None")
  case True
  have "\<not> dot c" if c: "c \<in> set (components s)" for c
  proof
    assume "dot c"
    then have "sublist ''./'' c" by (auto simp: dot_def sublist_Cons_right)
    also have "sublist c (concat (components s))"
      using split_list [OF c] by (metis concat.simps(2) concat_append sublist_appendI)
    also have "sublist (concat (components s)) s" by (rule prefix_imp_sublist [OF concat_components_prefix])
    finally have "find_str ''./'' s \<noteq> None" by (simp only: find_str_None) simp
    with True show False by simp
  qed
  with True resolve_spec [OF assms] show ?thesis by (simp add: dotless_def list_all_iff)
next
  case False
  show ?thesis
  proof (cases "normalise [] (components (relative_dir s))")
    case None
    with False have "resolve (Path s) = Path []" by (simp only: resolve_spec [OF assms] if_False option.case)
    then show ?thesis by (simp add: dotless_def components_no_sep)
  next
    case (Some ds)
    have "set ds \<subseteq> set (components (relative_dir s))" using normalise_set [OF Some] by simp
    then have c: "list_all component ds" using components_spec [of "relative_dir s"] by (auto simp: list_all_iff)
    then have "concat ds = [] \<or> last (concat ds) = sep"
      by (cases ds rule: rev_cases) (auto simp: component_def)
    then have "components (concat ds @ path_file (Path s)) = ds"
      using components_concat [OF c] by (simp add: components_append components_no_sep file_no_sep)
    moreover have "resolve (Path s) = Path (concat ds @ path_file (Path s))"
      using False Some by (simp only: resolve_spec [OF assms] if_False option.case)
    ultimately show ?thesis using normalise_dots [OF Some] by (simp add: dotless_def)
  qed
qed

lemma resolve_clean: "clean s \<Longrightarrow> clean (m_path (resolve (Path s)))"
  using clean_new_path by (auto simp: resolve_def Let_def clean_def split: prod.splits)

text \<open>
  The specification of the search: the places where a path is looked for, and the visit of one
  after the other.
\<close>

definition secure_targets :: "('s, 'h) Vfs \<Rightarrow> Path \<Rightarrow> (MountPoint \<times> Path) list" where
  "secure_targets v inPath =
     map (\<lambda>mp. (mp, path_append (mp_src mp) (path_stripParent inPath (mp_dest mp))))
       (filter (\<lambda>mp. path_isParent (mp_dest mp) inPath) (rev (v_mountPoints v)))"

fun try_targets :: "('s, 'h) file_system list \<Rightarrow> ('s, 'h, 'r) visitor \<Rightarrow> (MountPoint \<times> Path) list \<Rightarrow> 'r \<Rightarrow> 's \<Rightarrow> fault + (bool \<times> 'r) \<times> 's" where
  "try_targets fss func [] ret w = Inr ((False, ret), w)"
| "try_targets fss func ((mp, p) # ts) ret w =
     bind_result (func (mp_id mp) p ret (fss ! mp_fileSys mp) w) (\<lambda>((ok, ret), w).
       if ok then Inr ((True, ret), w) else try_targets fss func ts ret w)"

definition below_mount :: "MountPoint \<Rightarrow> Path \<Rightarrow> bool" where
  "below_mount mp p \<longleftrightarrow> p = Path [] \<or>
     (\<exists>rest. dotless rest \<and> (p = Path (m_path (mp_src mp) @ rest) \<or> (m_path (mp_src mp) = ''./'' \<and> p = Path rest)))"

definition mount_dir :: "nat \<Rightarrow> MountPoint \<Rightarrow> bool" where
  "mount_dir n mp \<longleftrightarrow> mp_fileSys mp < n \<and> (m_path (mp_dest mp) = [] \<or> last (m_path (mp_dest mp)) = sep) \<and>
     clean (m_path (mp_src mp))"

lemma find_loop_targets:
  assumes "list_all (\<lambda>mp. mp_fileSys mp < length fss) mps"
  shows "find_loop True fss inPath func mps ret w =
    try_targets fss func (map (\<lambda>mp. (mp, path_append (mp_src mp) (path_stripParent inPath (mp_dest mp))))
      (filter (\<lambda>mp. path_isParent (mp_dest mp) inPath) mps)) ret w"
  using assms
  by (induction mps arbitrary: ret w) (auto intro!: arg_cong [where f = "bind_result _"] simp: fun_eq_iff)

lemma target_below:
  assumes "mount_dir n mp" "path_isParent (mp_dest mp) (Path s)" "dotless s" "clean s"
  shows "below_mount mp (path_append (mp_src mp) (path_stripParent (Path s) (mp_dest mp)))"
proof -
  let ?d = "m_path (mp_dest mp)"
  have f: "find_str ?d s = Some 0" using assms(2) by (simp add: path_isParent_def)
  then obtain rest where s: "s = ?d @ rest" by (auto simp: find_str_prefix prefix_def)
  have "components s = components ?d @ components rest"
    using assms(1) components_append [of ?d rest] s by (simp add: mount_dir_def)
  with assms(3) have "dotless rest" by (simp add: dotless_def)
  moreover have "clean rest" using assms(4) s by (metis clean_append)
  moreover have "path_stripParent (Path s) (mp_dest mp) = Path rest"
    using f \<open>clean rest\<close> s by (simp add: path_stripParent_def)
  moreover have "clean (m_path (mp_src mp))" using assms(1) by (simp add: mount_dir_def)
  ultimately show ?thesis
    by (cases "mp_src mp") (auto simp: below_mount_def path_append_def)
qed


text \<open>A virtual file system over the one in memory, with secure paths and one mount point.\<close>

definition sample_mount :: "string \<Rightarrow> string \<Rightarrow> tMountId \<Rightarrow> MountPoint" where
  "sample_mount src dest i = \<lparr>mp_id = i, mp_fileSys = 0, mp_src = Path src, mp_dest = Path dest\<rparr>"

definition sample_vfs :: "MountPoint list \<Rightarrow> MemFileSystem \<Rightarrow> (MemFileSystem \<times> heap, MemFileHandle) Vfs" where
  "sample_vfs mps s =
     \<lparr>v_mountPoints = mps, v_fileSystems = [mem_fs], v_id = 2, v_secure = True, v_locked = False, v_world = (s, \<lambda>_. 0)\<rparr>"


text \<open>An operation that accepts the first path it is given, and returns it.\<close>

definition first_path :: "('s, 'h, Path) visitor" where
  "first_path mountId resolvedPath out fs w = Inr ((True, resolvedPath), w)"


text \<open>
  \<^verbatim>\<open>open\<close> finds a file of the mount point below, but \<^verbatim>\<open>Stat\<close> and \<^verbatim>\<open>Remove\<close> stop at the
  first mount point whose file system returns without an error, and the one in memory does so
  for files that it does not have: \<^verbatim>\<open>Stat\<close> says that the file does not exist, and \<^verbatim>\<open>Remove\<close>
  leaves it there.
\<close>

theorem vfs_stat_shadowed:
  "let s = \<lparr>m_mounts = [0 \<mapsto> {In}, 1 \<mapsto> {In}], m_files = [''memfile/a/f'' \<mapsto> m_info sample_handle]\<rparr>;
       v = sample_vfs [sample_mount ''memfile/a/'' ''d/'' 0, sample_mount ''memfile/b/'' ''d/'' 1] s in
   vfs_open (Path ''d/f'') {In} v = Inr (Some (mem_fs, sample_handle), v) \<and>
   vfs_stat (Path ''d/f'') v = Inr (FileStats_new, v) \<and>
   Remove (Path ''d/f'') v = Inr (False, v)"
  by (simp add: Let_def vfs_open_def vfs_stat_def Remove_def with_lock_def findFileSysOperation_def resolve_def
    path_empty_def sample_vfs_def sample_mount_def path_isParent_def path_stripParent_def path_append_def path_file_def
    clean_def doOpen_def doStat_def doRemove_def mem_fs_def mem_open_def mem_stat_def mem_remove_def status_ok_def
    sample_handle_def open_base_def)

text \<open>
  \<^verbatim>\<open>MkDir\<close> never returns a result: it calls \<^verbatim>\<open>Stat\<close> while it holds the mutex, which \<^verbatim>\<open>Stat\<close>
  locks again. \<^verbatim>\<open>MountTempFolder\<close> calls \<^verbatim>\<open>mount\<close> under the mutex in the same way, and
  returns only where no folder for temporary files is configured.
\<close>

theorem mkdir_self_deadlock:
  "MkDir path v = Inl Undefined \<and>
   mountTempFolder fuel getenv ticks v =
     (if temp_dir getenv = None \<and> \<not> v_locked v then Inr (INVALID_MOUNT_ID, v) else Inl Undefined)"
  by (cases "temp_dir getenv")
    (simp_all add: MkDir_def vfs_stat_def mountTempFolder_def vfs_mount_def with_lock_def Let_def)

end
