(* ===== verification/GeneratedMessage.thy ===== *)
theory GeneratedMessage
  imports ProtoBuf
begin

text \<open>
  What the classes do that \<^verbatim>\<open>TOOLS/protoc\<close> generates for messages: for each statement that
  \<^verbatim>\<open>proto_printer_header.cpp\<close> and \<^verbatim>\<open>proto_printer_source.cpp\<close> print, an operation on objects, with the
  definition of the message that the printer has as an argument.
\<close>

section \<open>Field types\<close>

definition all_field_types :: "eFieldType list" where
  "all_field_types =
     [FIELD_INT64, FIELD_UINT64, FIELD_SINT64, FIELD_FIXED64, FIELD_SFIXED64, FIELD_DOUBLE,
      FIELD_FLOAT, FIELD_INT32, FIELD_UINT32, FIELD_SINT32, FIELD_FIXED32, FIELD_SFIXED32,
      FIELD_STRING, FIELD_BYTES, FIELD_BOOL, FIELD_ENUM, FIELD_MSG, FIELD_COUNT]"

text \<open>The constant of a number; other numbers are like the count, which no switch has a case for.\<close>

definition field_type :: "FieldDef \<Rightarrow> eFieldType" where
  "field_type fd =
     (case find (\<lambda>t. field_type_value t = f_type fd) all_field_types of Some t \<Rightarrow> t | None \<Rightarrow> FIELD_COUNT)"

fun getFieldTypeId :: "eFieldType \<Rightarrow> fault + u32" where
  "getFieldTypeId FIELD_FLOAT = Inr 5"
| "getFieldTypeId FIELD_FIXED32 = Inr 5"
| "getFieldTypeId FIELD_SFIXED32 = Inr 5"
| "getFieldTypeId FIELD_FIXED64 = Inr 1"
| "getFieldTypeId FIELD_SFIXED64 = Inr 1"
| "getFieldTypeId FIELD_DOUBLE = Inr 1"
| "getFieldTypeId FIELD_INT32 = Inr 0"
| "getFieldTypeId FIELD_INT64 = Inr 0"
| "getFieldTypeId FIELD_UINT32 = Inr 0"
| "getFieldTypeId FIELD_UINT64 = Inr 0"
| "getFieldTypeId FIELD_SINT32 = Inr 0"
| "getFieldTypeId FIELD_SINT64 = Inr 0"
| "getFieldTypeId FIELD_ENUM = Inr 0"
| "getFieldTypeId FIELD_BOOL = Inr 0"
| "getFieldTypeId FIELD_STRING = Inr 2"
| "getFieldTypeId FIELD_BYTES = Inr 2"
| "getFieldTypeId FIELD_MSG = Inr 2"
| "getFieldTypeId FIELD_COUNT = Inl CheckFailed"

text \<open>
  \<^verbatim>\<open>(m_fieldNum << 3) | getFieldTypeId(m_type)\<close>: the shift of a negative number is undefined, and so is
  one whose result does not fit in 32 bits.
\<close>

definition field_tag :: "FieldDef \<Rightarrow> fault + u32" where
  "field_tag fd =
     (if sint (f_fieldNum fd) < 0 \<or> 2 ^ 32 \<le> sint (f_fieldNum fd) * 8 then Inl Undefined
      else bind_result (getFieldTypeId (field_type fd)) (\<lambda>i. Inr (push_bit 3 (f_fieldNum fd) OR i)))"

section \<open>Messages\<close>

text \<open>
  An object of a member: an integer, enumeration value or floating point number of 32 or 64 bits, a
  \<^verbatim>\<open>bool\<close>, a string or a message. A message has the descriptor of its class and, for the number of each
  field, the flag \<^verbatim>\<open>m_has_\<close> and the object \<^verbatim>\<open>m_\<close> of the member, a list where the field is repeated. The
  flag is only used of messages; the constructors do not initialise it, which is \<open>None\<close>.
\<close>

datatype proto_value =
    V64 u64
  | V32 u32
  | VBool bool
  | VStr string
  | VMsg iProtoMessage
and iProtoMessage =
  Msg (getDescriptor: ProtoDescriptor) (m_members: "(s32 \<times> bool option \<times> proto_value list) list")

definition m_values :: "iProtoMessage \<Rightarrow> (s32 \<times> proto_value list) list" where
  "m_values msg = map (\<lambda>(num, has, vs). (num, vs)) (m_members msg)"

text \<open>
  The switches of \<^verbatim>\<open>getField\<close> have the fields that are not repeated, those with an index the others. A null
  pointer is \<open>None\<close>.
\<close>

definition getField :: "iProtoMessage \<Rightarrow> s32 \<Rightarrow> proto_value option" where
  "getField msg num =
     (if list_ex (\<lambda>fd. \<not> f_repeated fd \<and> f_fieldNum fd = num) (m_fields (m_self (getDescriptor msg)))
      then (case map_of (m_values msg) num of Some (v # vs) \<Rightarrow> Some v | _ \<Rightarrow> None)
      else None)"

definition repeated_values :: "iProtoMessage \<Rightarrow> s32 \<Rightarrow> proto_value list" where
  "repeated_values msg num =
     (if list_ex (\<lambda>fd. f_repeated fd \<and> f_fieldNum fd = num) (m_fields (m_self (getDescriptor msg)))
      then (case map_of (m_values msg) num of Some vs \<Rightarrow> vs | None \<Rightarrow> [])
      else [])"

definition getField_at :: "iProtoMessage \<Rightarrow> s32 \<Rightarrow> nat \<Rightarrow> proto_value option" where
  "getField_at msg num index = nth_opt (repeated_values msg num) index"

lemma member_size:
  assumes "map_of (m_members msg) num = Some (has, vs)"
  shows "size_list size vs < size msg" "v \<in> set vs \<Longrightarrow> size v < size msg"
proof -
  have elem: "x \<in> set xs \<Longrightarrow> f x \<le> size_list f xs" for f x and xs :: "'a list"
    by (induction xs) auto
  have "(num, has, vs) \<in> set (m_members msg)" by (rule map_of_SomeD [OF assms(1)])
  from elem [OF this, of "size_prod (\<lambda>_. 0) (size_prod (\<lambda>_. 0) (size_list size))"]
  have "size_list size vs < size_list (size_prod (\<lambda>_. 0) (size_prod (\<lambda>_. 0) (size_list size))) (m_members msg)" by simp
  then show l: "size_list size vs < size msg" by (cases msg) simp
  show "size v < size msg" if "v \<in> set vs"
  proof -
    have "size v \<le> size_list size vs" using that by (induction vs) auto
    then show ?thesis using l by simp
  qed
qed

lemma m_values_of: "map_of (m_values msg) num = map_option snd (map_of (m_members msg) num)"
proof -
  have "map_of (map (\<lambda>(num, has, vs). (num, vs)) ms) num = map_option snd (map_of ms num)"
    for ms :: "(s32 \<times> bool option \<times> proto_value list) list" by (induction ms) auto
  then show ?thesis by (simp add: m_values_def)
qed

lemma value_size: "map_of (m_values msg) num = Some vs \<Longrightarrow> v \<in> set vs \<Longrightarrow> size v < size msg"
  by (auto simp: m_values_of dest: member_size(2))

lemma getField_size: "getField msg num = Some v \<Longrightarrow> size v < size msg"
  by (auto simp: getField_def split: option.splits list.splits if_splits intro: value_size)

lemma getField_at_size: "getField_at msg num index = Some v \<Longrightarrow> size v < size msg"
  by (auto simp: getField_at_def repeated_values_def nth_opt_eq_Some_iff split: option.splits if_splits intro: value_size)

text \<open>Reading what a pointer points to, after it is cast to the type that goes with the field's.\<close>

definition deref64 :: "proto_value option \<Rightarrow> fault + u64" where
  "deref64 pField = (case pField of Some (V64 v) \<Rightarrow> Inr v | _ \<Rightarrow> Inl Undefined)"

definition deref32 :: "proto_value option \<Rightarrow> fault + u32" where
  "deref32 pField = (case pField of Some (V32 v) \<Rightarrow> Inr v | _ \<Rightarrow> Inl Undefined)"

definition deref_bool :: "proto_value option \<Rightarrow> fault + bool" where
  "deref_bool pField = (case pField of Some (VBool v) \<Rightarrow> Inr v | _ \<Rightarrow> Inl Undefined)"

definition deref_string :: "proto_value option \<Rightarrow> fault + string" where
  "deref_string pField = (case pField of Some (VStr v) \<Rightarrow> Inr v | _ \<Rightarrow> Inl Undefined)"

section \<open>Construction and setters\<close>

fun default_value :: "eFieldType \<Rightarrow> proto_value" where
  "default_value FIELD_STRING = VStr []"
| "default_value FIELD_BYTES = VStr []"
| "default_value FIELD_BOOL = VBool False"
| "default_value FIELD_FLOAT = V32 0"
| "default_value FIELD_INT32 = V32 0"
| "default_value FIELD_UINT32 = V32 0"
| "default_value FIELD_SINT32 = V32 0"
| "default_value FIELD_FIXED32 = V32 0"
| "default_value FIELD_SFIXED32 = V32 0"
| "default_value FIELD_ENUM = V32 0"
| "default_value _ = V64 0"

text \<open>\<^verbatim>\<open>obj.get_x() != \<close> the default: floating point zeros are equal whatever their signs.\<close>

fun is_default :: "eFieldType \<Rightarrow> proto_value \<Rightarrow> bool" where
  "is_default FIELD_DOUBLE (V64 v) \<longleftrightarrow> push_bit 1 v = 0"
| "is_default FIELD_FLOAT (V32 v) \<longleftrightarrow> push_bit 1 v = 0"
| "is_default t v \<longleftrightarrow> v = default_value t"

text \<open>
  The default constructor, of the class itself and its builder. A class that is not registered, or
  contains itself, does not compile; the nesting of members is bounded by \<open>depth\<close>.
\<close>

fun default_message :: "nat \<Rightarrow> ProtoDescriptor list \<Rightarrow> ProtoDescriptor \<Rightarrow> iProtoMessage option" where
  "default_message 0 db d = None"
| "default_message (Suc depth) db d =
     map_option (Msg d) (those (map (\<lambda>fd.
       if f_repeated fd then Some (f_fieldNum fd, None, [])
       else if field_type fd = FIELD_MSG
       then Option.bind (FindProtoByName db (f_msgType fd)) (\<lambda>sub.
              map_option (\<lambda>m. (f_fieldNum fd, None, [VMsg m])) (default_message depth db sub))
       else Some (f_fieldNum fd, None, [default_value (field_type fd)])) (m_fields (m_self d))))"

definition update_member ::
  "s32 \<Rightarrow> (bool option \<times> proto_value list \<Rightarrow> bool option \<times> proto_value list) \<Rightarrow> iProtoMessage \<Rightarrow> iProtoMessage" where
  "update_member num f msg =
     Msg (getDescriptor msg) (map (\<lambda>(n, member). (n, if n = num then f member else member)) (m_members msg))"

definition builder_add :: "FieldDef \<Rightarrow> proto_value \<Rightarrow> iProtoMessage \<Rightarrow> iProtoMessage" where
  "builder_add fd v = update_member (f_fieldNum fd) (\<lambda>(has, vs). (has, vs @ [v]))"

definition builder_set :: "FieldDef \<Rightarrow> proto_value \<Rightarrow> iProtoMessage \<Rightarrow> iProtoMessage" where
  "builder_set fd v =
     update_member (f_fieldNum fd) (\<lambda>(has, vs). (if field_type fd = FIELD_MSG then Some True else has, [v]))"

text \<open>The setter of an element of a repeated field.\<close>

definition builder_set_at :: "FieldDef \<Rightarrow> proto_value \<Rightarrow> nat \<Rightarrow> iProtoMessage \<Rightarrow> fault + iProtoMessage" where
  "builder_set_at fd v index msg =
     (case map_of (m_members msg) (f_fieldNum fd) of
        Some (has, vs) \<Rightarrow>
          if index < length vs
          then Inr (update_member (f_fieldNum fd) (\<lambda>(has, vs). (has, vs[index := v])) msg)
          else Inl CheckFailed
      | None \<Rightarrow> Inl Undefined)"

definition builder_clear :: "FieldDef \<Rightarrow> iProtoMessage \<Rightarrow> iProtoMessage" where
  "builder_clear fd =
     update_member (f_fieldNum fd) (\<lambda>(has, vs).
       if f_repeated fd then (has, [])
       else if field_type fd = FIELD_MSG then (Some False, vs)
       else (has, [default_value (field_type fd)]))"

text \<open>The builder's constructor from a message: it assigns the members \<^verbatim>\<open>m_\<close>, and not the flags.\<close>

definition builder_copy :: "iProtoMessage \<Rightarrow> iProtoMessage" where
  "builder_copy other = Msg (getDescriptor other) (map (\<lambda>(n, has, vs). (n, None, vs)) (m_members other))"

section \<open>Writing\<close>

text \<open>The count that the write of a string gives is not looked at.\<close>

definition write_string :: "sink \<Rightarrow> string \<Rightarrow> fault + sink" where
  "write_string s val =
     bind_result (oser_VarUInt s (word_of_nat (length val))) (\<lambda>s.
     bind_result (sink_write s (bytes_of val)) (\<lambda>(s, _). Inr s))"

fun oser_scalar :: "eFieldType \<Rightarrow> proto_value option \<Rightarrow> sink \<Rightarrow> fault + sink" where
  "oser_scalar FIELD_FLOAT p s = bind_result (deref32 p) (oser_pod s)"
| "oser_scalar FIELD_FIXED32 p s = bind_result (deref32 p) (oser_pod s)"
| "oser_scalar FIELD_SFIXED32 p s = bind_result (deref32 p) (oser_pod s)"
| "oser_scalar FIELD_FIXED64 p s = bind_result (deref64 p) (oser_pod s)"
| "oser_scalar FIELD_SFIXED64 p s = bind_result (deref64 p) (oser_pod s)"
| "oser_scalar FIELD_DOUBLE p s = bind_result (deref64 p) (oser_pod s)"
| "oser_scalar FIELD_INT32 p s = bind_result (deref32 p) (\<lambda>v. oser_VarInt s (scast v))"
| "oser_scalar FIELD_SINT32 p s = bind_result (deref32 p) (\<lambda>v. oser_VarInt s (scast v))"
| "oser_scalar FIELD_INT64 p s = bind_result (deref64 p) (oser_VarInt s)"
| "oser_scalar FIELD_SINT64 p s = bind_result (deref64 p) (oser_VarInt s)"
| "oser_scalar FIELD_BOOL p s = bind_result (deref_bool p) (\<lambda>v. oser_VarInt s (if v then 1 else 0))"
| "oser_scalar FIELD_UINT32 p s = bind_result (deref32 p) (\<lambda>v. oser_VarUInt s (ucast v))"
| "oser_scalar FIELD_UINT64 p s = bind_result (deref64 p) (oser_VarUInt s)"
| "oser_scalar FIELD_ENUM p s = bind_result (deref32 p) (\<lambda>v. oser_VarUInt s (ucast v))"
| "oser_scalar FIELD_STRING p s = bind_result (deref_string p) (write_string s)"
| "oser_scalar FIELD_BYTES p s = bind_result (deref_string p) (write_string s)"
| "oser_scalar FIELD_MSG p s = Inl Undefined"
| "oser_scalar FIELD_COUNT p s = Inl CheckFailed"

text \<open>
  The values of a repeated field, in a loop; the fields, each with its condition; the operator of the
  class. The size of a message is that of a sink that only counts.
\<close>

function oser_value :: "FieldDef \<Rightarrow> proto_value \<Rightarrow> sink \<Rightarrow> fault + sink"
  and oser_values :: "FieldDef \<Rightarrow> u32 \<Rightarrow> proto_value list \<Rightarrow> sink \<Rightarrow> fault + sink"
  and oser_fields :: "iProtoMessage \<Rightarrow> FieldDef list \<Rightarrow> sink \<Rightarrow> fault + sink"
  and oser_message :: "iProtoMessage \<Rightarrow> sink \<Rightarrow> fault + sink" where
  "oser_value fd v s =
     (if field_type fd = FIELD_MSG
      then (case v of
              VMsg m \<Rightarrow>
                bind_result (oser_message m (FakeSink 0 False)) (\<lambda>sink.
                bind_result (oser_VarUInt s (word_of_nat (the (sink_size sink)))) (\<lambda>s.
                oser_message m s))
            | _ \<Rightarrow> Inl Undefined)
      else oser_scalar (field_type fd) (Some v) s)"
| "oser_values fd tag [] s = Inr s"
| "oser_values fd tag (v # vs) s =
     bind_result (oser_VarUInt s (ucast tag)) (\<lambda>s.
     bind_result (oser_value fd v s) (\<lambda>s.
     oser_values fd tag vs s))"
| "oser_fields msg [] s = Inr s"
| "oser_fields msg (fd # fds) s =
     bind_result (field_tag fd) (\<lambda>tag.
     case map_of (m_members msg) (f_fieldNum fd) of
       None \<Rightarrow> Inl Undefined
     | Some (has, vs) \<Rightarrow>
         bind_result
           (if f_repeated fd then oser_values fd tag vs s
            else case vs of
                [] \<Rightarrow> Inl Undefined
              | v # _ \<Rightarrow>
                  if field_type fd = FIELD_MSG
                  then (case has of
                          None \<Rightarrow> Inl Undefined
                        | Some h \<Rightarrow> if h then oser_values fd tag [v] s else Inr s)
                  else if is_default (field_type fd) v then Inr s
                  else oser_values fd tag [v] s)
           (oser_fields msg fds))"
| "oser_message msg s = oser_fields msg (m_fields (m_self (getDescriptor msg))) s"
  by pat_completeness auto
termination
proof (relation "measures
    [\<lambda>x. case x of
        Inl (Inl (fd, v, s)) \<Rightarrow> size v
      | Inl (Inr (fd, tag, vs, s)) \<Rightarrow> size_list size vs
      | Inr (Inl (msg, fds, s)) \<Rightarrow> size msg
      | Inr (Inr (msg, s)) \<Rightarrow> size msg,
     \<lambda>x. case x of
        Inl (Inl _) \<Rightarrow> 0
      | Inl (Inr (fd, tag, vs, s)) \<Rightarrow> length vs
      | Inr (Inl (msg, fds, s)) \<Rightarrow> length fds
      | Inr (Inr (msg, s)) \<Rightarrow> Suc (length (m_fields (m_self (getDescriptor msg))))]")
qed (auto dest: member_size(1))

declare oser_value.simps [simp del] oser_values.simps(2) [simp del] oser_fields.simps(2) [simp del] oser_message.simps [simp del]

section \<open>Reading\<close>

text \<open>
  What the readers use besides their arguments: the registered descriptors, the nesting of default
  constructors, what memory holds uninitialised and the size of the largest array \<^verbatim>\<open>new\<close> gives.
\<close>

record gen_env =
  ge_db :: "ProtoDescriptor list"
  ge_depth :: nat
  ge_junk :: "nat \<Rightarrow> u8"
  ge_alloc :: nat

definition junk_word :: "gen_env \<Rightarrow> nat \<Rightarrow> 'a :: len word" where
  "junk_word env n = of_le_bytes (map (ge_junk env) [0..<n])"

text \<open>
  \<^verbatim>\<open>tmpSz.get() > (1 << 31)\<close>: the shift gives the least \<^verbatim>\<open>int\<close>, which is compared as an unsigned number of
  64 bits. The count that the read gives is not looked at. \<open>None\<close> is that no setter is called.
\<close>

definition iser_text :: "gen_env \<Rightarrow> sink \<Rightarrow> fault + sink \<times> proto_value option" where
  "iser_text env s =
     bind_result (iser_VarUInt (ge_junk env) s 0) (\<lambda>(s, tmpSz).
     if fail s then Inr (s, None)
     else if 0xFFFFFFFF80000000 < tmpSz then Inr (set_fail s, None)
     else if ge_alloc env < unat tmpSz then Inl Exception
     else bind_result (sink_read s (unat tmpSz)) (\<lambda>(s, bs).
       Inr (s, Some (VStr (string_of_bytes (bs @ map (ge_junk env) [length bs..<unat tmpSz]))))))"

definition iser_fixed32 :: "gen_env \<Rightarrow> sink \<Rightarrow> fault + sink \<times> proto_value option" where
  "iser_fixed32 env s = bind_result (iser_pod s (junk_word env 4)) (\<lambda>(s, tmp). Inr (s, Some (V32 tmp)))"

definition iser_fixed64 :: "gen_env \<Rightarrow> sink \<Rightarrow> fault + sink \<times> proto_value option" where
  "iser_fixed64 env s = bind_result (iser_pod s (junk_word env 8)) (\<lambda>(s, tmp). Inr (s, Some (V64 tmp)))"

definition iser_signed :: "gen_env \<Rightarrow> (u64 \<Rightarrow> proto_value) \<Rightarrow> sink \<Rightarrow> fault + sink \<times> proto_value option" where
  "iser_signed env f s = bind_result (iser_VarInt (ge_junk env) s 0) (\<lambda>(s, tmp). Inr (s, Some (f tmp)))"

definition iser_unsigned :: "gen_env \<Rightarrow> (u64 \<Rightarrow> proto_value) \<Rightarrow> sink \<Rightarrow> fault + sink \<times> proto_value option" where
  "iser_unsigned env f s = bind_result (iser_VarUInt (ge_junk env) s 0) (\<lambda>(s, tmp). Inr (s, Some (f tmp)))"

fun iser_scalar :: "gen_env \<Rightarrow> eFieldType \<Rightarrow> sink \<Rightarrow> fault + sink \<times> proto_value option" where
  "iser_scalar env FIELD_FLOAT s = iser_fixed32 env s"
| "iser_scalar env FIELD_FIXED32 s = iser_fixed32 env s"
| "iser_scalar env FIELD_SFIXED32 s = iser_fixed32 env s"
| "iser_scalar env FIELD_FIXED64 s = iser_fixed64 env s"
| "iser_scalar env FIELD_SFIXED64 s = iser_fixed64 env s"
| "iser_scalar env FIELD_DOUBLE s = iser_fixed64 env s"
| "iser_scalar env FIELD_INT32 s = iser_signed env (\<lambda>v. V32 (ucast v)) s"
| "iser_scalar env FIELD_SINT32 s = iser_signed env (\<lambda>v. V32 (ucast v)) s"
| "iser_scalar env FIELD_INT64 s = iser_signed env V64 s"
| "iser_scalar env FIELD_SINT64 s = iser_signed env V64 s"
| "iser_scalar env FIELD_BOOL s = iser_signed env (\<lambda>v. VBool (v \<noteq> 0)) s"
| "iser_scalar env FIELD_UINT32 s = iser_unsigned env (\<lambda>v. V32 (ucast v)) s"
| "iser_scalar env FIELD_UINT64 s = iser_unsigned env V64 s"
| "iser_scalar env FIELD_ENUM s = iser_unsigned env (\<lambda>v. V32 (ucast v)) s"
| "iser_scalar env FIELD_STRING s = iser_text env s"
| "iser_scalar env FIELD_BYTES s = iser_text env s"
| "iser_scalar env FIELD_MSG s = Inl Undefined"
| "iser_scalar env FIELD_COUNT s = Inl CheckFailed"

text \<open>
  The message of a field is read by the operator of its class (\<open>rd\<close>) from a range over the sink, whose
  failure is not looked at.
\<close>

definition iser_value ::
  "gen_env \<Rightarrow> (sink \<Rightarrow> iProtoMessage \<Rightarrow> fault + sink \<times> iProtoMessage) \<Rightarrow> FieldDef \<Rightarrow> sink \<Rightarrow>
   fault + sink \<times> proto_value option" where
  "iser_value env rd fd s =
     (if field_type fd = FIELD_MSG
      then bind_result (iser_VarUInt (ge_junk env) s 0) (\<lambda>(s, tmpSz).
        if fail s then Inr (s, None)
        else case Option.bind (FindProtoByName (ge_db env) (f_msgType fd)) (default_message (ge_depth env) (ge_db env)) of
          None \<Rightarrow> Inl Undefined
        | Some tmp \<Rightarrow>
            bind_result (rd (RangeSink s (unat tmpSz) False) tmp) (\<lambda>(sink, tmp).
            case sink of RangeSink s _ _ \<Rightarrow> Inr (s, Some (VMsg tmp)) | _ \<Rightarrow> Inl Undefined))
      else iser_scalar env (field_type fd) s)"

text \<open>Fields that the class does not have are skipped by the lowest bits of their tag.\<close>

definition iser_unknown :: "gen_env \<Rightarrow> u32 \<Rightarrow> sink \<Rightarrow> fault + sink" where
  "iser_unknown env fieldType s =
     (if fieldType = 0 then bind_result (iser_VarInt (ge_junk env) s 0) (\<lambda>(s, temp). Inr s)
      else if fieldType = 1 then Inr (sink_seek s 8)
      else if fieldType = 2
      then bind_result (iser_VarInt (ge_junk env) s 0) (\<lambda>(s, temp). Inr (sink_seek s (unat temp)))
      else if fieldType = 5 then Inr (sink_seek s 4)
      else Inr s)"

text \<open>The loop over the fields in the sink, by fuel, which also bounds the nesting.\<close>

fun iser_message :: "nat \<Rightarrow> gen_env \<Rightarrow> sink \<Rightarrow> iProtoMessage \<Rightarrow> fault + sink \<times> iProtoMessage" where
  "iser_message 0 env s obj = Inl Diverges"
| "iser_message (Suc n) env s obj =
     (if sink_avail s = 0 \<or> fail s then Inr (s, obj)
      else bind_result (iser_VarUInt (ge_junk env) s 0) (\<lambda>(s, tag).
        case findFieldByNum (getDescriptor obj) (drop_bit 3 (ucast tag)) of
          Some fd \<Rightarrow>
            bind_result (iser_value env (iser_message n env) fd s) (\<lambda>(s, tmp).
            iser_message n env s
              (case tmp of
                 None \<Rightarrow> obj
               | Some v \<Rightarrow> if f_repeated fd then builder_add fd v obj else builder_set fd v obj))
        | None \<Rightarrow>
            bind_result (iser_unknown env (ucast tag AND 7) s) (\<lambda>s. iser_message n env s obj)))"

declare iser_message.simps(2) [simp del]

text \<open>The member functions \<^verbatim>\<open>oserialize\<close>, \<^verbatim>\<open>byte_size\<close> and \<^verbatim>\<open>iserialize\<close>.\<close>

definition generated_oserialize :: "iProtoMessage \<Rightarrow> sink \<Rightarrow> fault + sink \<times> bool" where
  "generated_oserialize msg s = bind_result (oser_message msg s) (\<lambda>s. Inr (s, \<not> fail s))"

definition generated_byte_size :: "iProtoMessage \<Rightarrow> fault + nat" where
  "generated_byte_size msg = bind_result (oser_message msg (FakeSink 0 False)) (\<lambda>sink. Inr (the (sink_size sink)))"

definition generated_iserialize :: "nat \<Rightarrow> gen_env \<Rightarrow> sink \<Rightarrow> iProtoMessage \<Rightarrow> fault + bool \<times> iProtoMessage" where
  "generated_iserialize n env sink msg =
     (case default_message (ge_depth env) (ge_db env) (getDescriptor msg) of
        None \<Rightarrow> Inl Undefined
      | Some builder \<Rightarrow>
          bind_result (iser_message n env sink builder) (\<lambda>(sink, builder).
          if fail sink then Inr (False, msg) else Inr (True, builder)))"

end
