(* ===== verification/GeneratedSpec.thy ===== *)
theory GeneratedSpec
  imports GeneratedMessage
begin

text \<open>
  The binary form of messages, and that the generated classes write it and read it back; what they do
  with any bytes, and with fields they do not know.
\<close>

section \<open>Reading bytes that are there\<close>

text \<open>Sinks whose ranges lie inside the bytes of the sinks they refer to, and a sink some bytes later.\<close>

fun exact :: "sink \<Rightarrow> bool" where
  "exact (FakeSink n f) = False"
| "exact (RangeSink s n f) = (exact s \<and> n \<le> length (sink_rest s))"
| "exact (BlobSink d p f) = (p \<le> length d)"
| "exact (ConstBlobSink d p f) = (p \<le> length d)"

fun advance :: "sink \<Rightarrow> nat \<Rightarrow> sink" where
  "advance (FakeSink n f) k = FakeSink n f"
| "advance (RangeSink s n f) k = RangeSink (advance s k) (n - k) f"
| "advance (BlobSink d p f) k = BlobSink d (p + k) f"
| "advance (ConstBlobSink d p f) k = ConstBlobSink d (p + k) f"

lemma exact_readable: "exact s \<Longrightarrow> readable s"
  by (induction s) auto

lemma exact_avail: "exact s \<Longrightarrow> sink_avail s = length (sink_rest s)"
  by (induction s) auto

lemma advance_exact:
  "exact s \<Longrightarrow> k \<le> length (sink_rest s) \<Longrightarrow>
   exact (advance s k) \<and> sink_rest (advance s k) = drop k (sink_rest s) \<and> fail (advance s k) = fail s"
  by (induction s) (auto simp: drop_take add.commute)

lemma advance_advance: "advance (advance s j) k = advance s (j + k)"
  by (induction s) (auto simp: add.assoc)

lemma advance_zero [simp]: "advance s 0 = s"
  by (induction s) auto

lemma advance_set_fail: "advance (set_fail s) k = set_fail (advance s k)" "exact (set_fail s) = exact s"
  "set_fail (set_fail s) = set_fail s" "fail (set_fail s)"
  by (cases s; simp)+

lemma sink_read_exact:
  "exact s \<Longrightarrow> sink_read s k = Inr (advance s (min k (length (sink_rest s))), take k (sink_rest s))"
proof (induction s arbitrary: k)
  case (RangeSink s n f)
  then have m: "min (min k n) (length (sink_rest s)) = min k n" "min (length (sink_rest s)) n = n"
    "n - min k n = n - k" by auto
  have "sink_read s (min k n) = Inr (advance s (min k n), take (min k n) (sink_rest s))"
    using RangeSink.IH [of "min k n"] RangeSink.prems m(1) by simp
  then show ?case using m by (simp add: Let_def)
qed (auto simp: Let_def min_def)

text \<open>The sinks that calls leave behind.\<close>

definition descends :: "sink \<Rightarrow> fault + sink \<times> 'a \<Rightarrow> bool" where
  "descends s r \<longleftrightarrow> (\<forall>s' v. r = Inr (s', v) \<longrightarrow>
     (\<exists>k \<le> length (sink_rest s). s' = advance s k \<or> s' = set_fail (advance s k)))"

lemma descends_return: "descends s (Inr (s, v))"
  by (auto simp: descends_def intro: exI [of _ 0])

lemma descends_fault: "descends s (Inl e)"
  by (simp add: descends_def)

lemma descends_bind:
  assumes "exact s" "descends s m" "\<And>s' x. m = Inr (s', x) \<Longrightarrow> exact s' \<Longrightarrow> descends s' (g s' x)"
  shows "descends s (bind_result m (\<lambda>(s', x). g s' x))"
  unfolding descends_def
proof (intro allI impI)
  fix s' v assume "bind_result m (\<lambda>(s', x). g s' x) = Inr (s', v)"
  then obtain t x where t: "m = Inr (t, x)" "g t x = Inr (s', v)" by (auto simp: bind_result_eq_Inr)
  then obtain k where k: "k \<le> length (sink_rest s)" "t = advance s k \<or> t = set_fail (advance s k)"
    using assms(2) by (auto simp: descends_def)
  have e: "exact t" "sink_rest t = drop k (sink_rest s)"
    using k advance_exact [OF assms(1) k(1)] by (auto simp: advance_set_fail)
  obtain j where j: "j \<le> length (sink_rest t)" "s' = advance t j \<or> s' = set_fail (advance t j)"
    using assms(3) [OF t(1) e(1)] t(2) by (auto simp: descends_def)
  have "s' = advance s (k + j) \<or> s' = set_fail (advance s (k + j))"
    using k(2) j(2) by (auto simp: advance_set_fail advance_advance)
  moreover have "k + j \<le> length (sink_rest s)" using j(1) e(2) k(1) by simp
  ultimately show "\<exists>k \<le> length (sink_rest s). s' = advance s k \<or> s' = set_fail (advance s k)" by blast
qed

lemma descends_get_bytes: "exact s \<Longrightarrow> descends s (get_bytes s old)"
  by (auto simp: get_bytes_def sink_read_exact descends_def intro!: exI [of _ "min (length old) (length (sink_rest s))"])

lemma descends_u8: "exact s \<Longrightarrow> descends s (iser_u8 s v)"
  unfolding iser_u8_def by (rule descends_bind) (simp_all add: descends_get_bytes descends_return)

lemma descends_pod: "exact s \<Longrightarrow> descends s (iser_pod s v)"
  unfolding iser_pod_def by (rule descends_bind) (simp_all add: descends_get_bytes descends_return)

lemma descends_get_varuint: "exact s \<Longrightarrow> descends s (get_varuint s nv shift fragment)"
proof (induction s nv shift fragment rule: get_varuint.induct)
  case (1 s nv shift fragment)
  show ?case
    by (subst get_varuint.simps, rule descends_bind [OF 1(2) descends_u8 [OF 1(2)]])
      (use 1 in \<open>auto simp: Let_def descends_return descends_fault\<close>)
qed

lemma descends_VarUInt: "exact s \<Longrightarrow> descends s (iser_VarUInt junk s v)"
  by (simp add: iser_VarUInt_def descends_get_varuint)

lemma descends_VarInt: "exact s \<Longrightarrow> descends s (iser_VarInt junk s v)"
  unfolding iser_VarInt_def by (rule descends_bind) (simp_all add: descends_VarUInt descends_return)

text \<open>A reader that takes these bytes from any such sink, and gives \<open>v\<close>.\<close>

definition takes :: "(sink \<Rightarrow> fault + sink \<times> 'a) \<Rightarrow> 'a \<Rightarrow> u8 list \<Rightarrow> bool" where
  "takes f v bs \<longleftrightarrow> (\<forall>s r. exact s \<longrightarrow> \<not> fail s \<longrightarrow> sink_rest s = bs @ r \<longrightarrow> f s = Inr (advance s (length bs), v))"

lemma takesD:
  assumes "takes f v bs" "exact s" "\<not> fail s" "sink_rest s = bs @ r"
  shows "f s = Inr (advance s (length bs), v)" "exact (advance s (length bs))" "\<not> fail (advance s (length bs))"
    "sink_rest (advance s (length bs)) = r"
  using assms advance_exact [OF assms(2), of "length bs"] by (auto simp: takes_def)

lemma parses_takes:
  assumes "parses f v bs" "\<And>s. exact s \<Longrightarrow> descends s (f s old)"
  shows "takes (\<lambda>s. f s old) v bs"
  unfolding takes_def
proof (intro allI impI)
  fix s r assume s: "exact s" "\<not> fail s" "sink_rest s = bs @ r"
  obtain s' where s': "f s old = Inr (s', v)" "\<not> fail s'" "sink_rest s' = r"
    using parsesE [OF assms(1) exact_readable [OF s(1)] s(2,3)] by blast
  then obtain k where k: "k \<le> length (sink_rest s)" "s' = advance s k"
    using assms(2) [OF s(1)] by (auto simp: descends_def advance_set_fail)
  then have "length (bs @ r) - k = length r" using advance_exact [OF s(1) k(1)] s(3) s'(3) by (metis length_drop)
  then have "k = length bs" using k(1) s(3) by simp
  then show "f s old = Inr (advance s (length bs), v)" using s'(1) k(2) by simp
qed

lemmas takes_VarUInt = parses_takes [OF parses_VarUInt descends_VarUInt]
lemmas takes_VarInt = parses_takes [OF parses_VarInt descends_VarInt]

lemma takes_pod: "8 dvd LENGTH('a) \<Longrightarrow> takes (\<lambda>s. iser_pod s old) (w :: 'a :: len word) (le_bytes w)"
  by (rule parses_takes [OF parses_pod descends_pod])

lemma takes_bind:
  assumes "takes f v bs" "takes (\<lambda>s. g s v) w cs"
  shows "takes (\<lambda>s. bind_result (f s) (\<lambda>(s, x). g s x)) w (bs @ cs)"
  unfolding takes_def
proof (intro allI impI)
  fix s r assume s: "exact s" "\<not> fail s" "sink_rest s = (bs @ cs) @ r"
  then have r: "sink_rest s = bs @ cs @ r" by simp
  note t = takesD [OF assms(1) s(1,2) r]
  show "bind_result (f s) (\<lambda>(s, x). g s x) = Inr (advance s (length (bs @ cs)), w)"
    using t(1) takesD(1) [OF assms(2) t(2-4)] by (simp add: advance_advance)
qed

lemma takes_return: "takes (\<lambda>s. Inr (s, v)) v []"
  by (simp add: takes_def)

lemma takes_map:
  assumes "takes f v bs"
  shows "takes (\<lambda>s. bind_result (f s) (\<lambda>(s, x). Inr (s, h x))) (h v) bs"
  using assms by (simp add: takes_def)

section \<open>Reading fields\<close>

text \<open>The setter that a value read of a field goes to.\<close>

definition builder_step :: "iProtoMessage \<Rightarrow> FieldDef \<times> proto_value \<Rightarrow> iProtoMessage" where
  "builder_step obj fv = (if f_repeated (fst fv) then builder_add (fst fv) (snd fv) obj else builder_set (fst fv) (snd fv) obj)"

definition value_read :: "gen_env \<Rightarrow> FieldDef \<Rightarrow> proto_value \<Rightarrow> u8 list \<Rightarrow> bool" where
  "value_read env fd v b \<longleftrightarrow> (\<forall>n. length b \<le> n \<longrightarrow> takes (iser_value env (iser_message n env) fd) (Some v) b)"

text \<open>The bytes of fields with values, each with its tag.\<close>

inductive entries_bytes :: "gen_env \<Rightarrow> (FieldDef \<times> proto_value) list \<Rightarrow> u8 list \<Rightarrow> bool" for env where
  no_entries: "entries_bytes env [] []"
| next_entry: "field_tag fd = Inr tag \<Longrightarrow> value_read env fd v b \<Longrightarrow> entries_bytes env es bs \<Longrightarrow>
    entries_bytes env ((fd, v) # es) (varuint_bits (ucast tag) @ b @ bs)"

lemma entries_append:
  "entries_bytes env es bs \<Longrightarrow> entries_bytes env fs cs \<Longrightarrow> entries_bytes env (es @ fs) (bs @ cs)"
proof (induction rule: entries_bytes.induct)
  case (next_entry fd tag v b es bs)
  then have "entries_bytes env ((fd, v) # es @ fs) (varuint_bits (ucast tag) @ b @ bs @ cs)"
    by (intro entries_bytes.next_entry)
  then show ?case by simp
qed simp

lemma tag_number:
  assumes "field_tag fd = Inr tag"
  shows "drop_bit 3 (ucast (ucast tag :: u64) :: u32) = f_fieldNum fd"
proof -
  let ?n = "f_fieldNum fd"
  obtain i where n: "\<not> sint ?n < 0" "\<not> 2 ^ 32 \<le> sint ?n * 8"
    and i: "getFieldTypeId (field_type fd) = Inr i" "tag = push_bit 3 ?n OR i"
    using assms by (auto simp: field_tag_def bind_result_eq_Inr split: if_splits)
  have small: "drop_bit 3 i = 0" using i(1) by (cases "field_type fd") auto
  have "unat ?n * 8 < 2 ^ 32"
  proof -
    have "sint ?n < 2 ^ 32" using sint_range_size [of ?n] by (simp add: word_size)
    then have "uint ?n = sint ?n" using n(1) by (simp add: uint_sint take_bit_int_eq_self)
    then show ?thesis using n(2) by (simp add: unat_eq_nat_uint nat_less_iff)
  qed
  then have "unat (push_bit 3 ?n) = unat ?n * 8"
    using unat_mult_lem [of ?n 8] by (simp add: push_bit_eq_mult)
  then have "unat (drop_bit 3 (push_bit 3 ?n)) = unat ?n"
    by (simp add: unat_drop_bit_eq drop_bit_nat_def)
  then have "drop_bit 3 (push_bit 3 ?n) = ?n" by (simp only: word_unat_eq_iff)
  moreover have "ucast (ucast tag :: u64) = tag" by (rule bit_word_eqI) (simp add: bit_simps)
  ultimately show ?thesis using small i(2) by simp
qed

lemma entries_read:
  "entries_bytes env es bs \<Longrightarrow> \<forall>(fd, v) \<in> set es. findFieldByNum (getDescriptor obj) (f_fieldNum fd) = Some fd \<Longrightarrow>
   exact s \<Longrightarrow> \<not> fail s \<Longrightarrow> sink_rest s = bs @ r \<Longrightarrow> length (sink_rest s) < n \<Longrightarrow>
   \<exists>n'. length r < n' \<and> iser_message n env s obj = iser_message n' env (advance s (length bs)) (foldl builder_step obj es)"
proof (induction arbitrary: s obj n rule: entries_bytes.induct)
  case no_entries
  then show ?case by (intro exI [of _ n]) simp
next
  case (next_entry fd tag v b es bs)
  obtain m where n: "n = Suc m" using next_entry.prems(5) by (cases n) auto
  let ?t = "varuint_bits (ucast tag)"
  have r1: "sink_rest s = ?t @ (b @ bs @ r)" using next_entry.prems(4) by simp
  note t = takesD [OF takes_VarUInt [of "ge_junk env" 0 "ucast tag"] next_entry.prems(2,3) r1]
  have "0 < length ?t" by simp
  then have len: "length b \<le> m" "length (bs @ r) < m" using next_entry.prems(5) n unfolding r1 length_append by linarith+
  have "takes (iser_value env (iser_message m env) fd) (Some v) b"
    using next_entry.hyps(2) len(1) by (simp add: value_read_def)
  note v = takesD [OF this t(2-4)]
  have "sink_avail s \<noteq> 0" using exact_avail [OF next_entry.prems(2)] r1 by simp
  then have step: "iser_message n env s obj =
      iser_message m env (advance s (length ?t + length b)) (builder_step obj (fd, v))"
    using t(1) v(1) next_entry.prems(1,3) tag_number [OF next_entry.hyps(1)]
    by (simp add: n iser_message.simps(2) builder_step_def advance_advance)
  have d: "getDescriptor (builder_step obj (fd, v)) = getDescriptor obj"
    by (simp add: builder_step_def builder_add_def builder_set_def update_member_def)
  obtain n' where n': "length r < n'" "iser_message m env (advance (advance s (length ?t)) (length b)) (builder_step obj (fd, v)) =
      iser_message n' env (advance (advance (advance s (length ?t)) (length b)) (length bs)) (foldl builder_step (builder_step obj (fd, v)) es)"
    using next_entry.IH [OF _ v(2,3,4), of "builder_step obj (fd, v)" m] next_entry.prems(1) len(2) d v(4) by auto
  then show ?case using step by (intro exI [of _ n']) (simp add: advance_advance add.assoc)
qed

section \<open>Members\<close>

text \<open>What values are sent of a member, and of all members of a message.\<close>

inductive field_sent :: "FieldDef \<Rightarrow> bool option \<times> proto_value list \<Rightarrow> proto_value list \<Rightarrow> bool" where
  sent_repeated: "f_repeated fd \<Longrightarrow> field_sent fd (None, vs) vs"
| sent_single: "\<not> f_repeated fd \<Longrightarrow> has = (if field_type fd = FIELD_MSG then Some True else None) \<Longrightarrow>
    field_sent fd (has, [v]) [v]"
| sent_default: "\<not> f_repeated fd \<Longrightarrow> field_type fd \<noteq> FIELD_MSG \<Longrightarrow> v = default_value (field_type fd) \<Longrightarrow>
    field_sent fd (None, [v]) []"

inductive fields_sent ::
  "FieldDef list \<Rightarrow> (s32 \<times> bool option \<times> proto_value list) list \<Rightarrow> (FieldDef \<times> proto_value) list \<Rightarrow> bool" where
  sent_nil: "fields_sent [] [] []"
| sent_cons: "field_sent fd mem vs \<Longrightarrow> fields_sent fds ms es \<Longrightarrow>
    fields_sent (fd # fds) ((f_fieldNum fd, mem) # ms) (map (Pair fd) vs @ es)"

lemma fields_sent_subset: "fields_sent fds ms es \<Longrightarrow> fst ` set es \<subseteq> set fds"
  by (induction rule: fields_sent.induct) auto

definition default_member :: "FieldDef \<Rightarrow> s32 \<times> bool option \<times> proto_value list \<Rightarrow> bool" where
  "default_member fd m \<longleftrightarrow> fst m = f_fieldNum fd \<and> fst (snd m) = None \<and>
     (f_repeated fd \<longrightarrow> snd (snd m) = []) \<and>
     (\<not> f_repeated fd \<longrightarrow> field_type fd \<noteq> FIELD_MSG \<longrightarrow> snd (snd m) = [default_value (field_type fd)])"

lemma those_list_all2: "those (map f xs) = Some ys \<Longrightarrow> list_all2 (\<lambda>x y. f x = Some y) xs ys"
  by (induction xs arbitrary: ys) (auto split: option.splits)

lemma default_message_members:
  assumes "default_message depth db d = Some m0"
  obtains ms where "m0 = Msg d ms" "list_all2 default_member (m_fields (m_self d)) ms"
proof -
  obtain k where k: "depth = Suc k" using assms by (cases depth) auto
  obtain ms where ms: "m0 = Msg d ms" "those (map (\<lambda>fd.
       if f_repeated fd then Some (f_fieldNum fd, None, [])
       else if field_type fd = FIELD_MSG
       then Option.bind (FindProtoByName db (f_msgType fd)) (\<lambda>sub.
              map_option (\<lambda>m. (f_fieldNum fd, None, [VMsg m])) (default_message k db sub))
       else Some (f_fieldNum fd, None, [default_value (field_type fd)])) (m_fields (m_self d))) = Some ms"
    using assms unfolding k by auto
  have "list_all2 default_member (m_fields (m_self d)) ms"
    using those_list_all2 [OF ms(2)]
    by (rule list_all2_mono) (auto simp: default_member_def bind_eq_Some_conv split: if_splits)
  then show thesis using that ms(1) by blast
qed

text \<open>The setters change the member of their field, so the result can be taken member by member.\<close>

definition step_member :: "FieldDef \<times> proto_value \<Rightarrow> bool option \<times> proto_value list \<Rightarrow> bool option \<times> proto_value list" where
  "step_member fv mem =
     (if f_repeated (fst fv) then (fst mem, snd mem @ [snd fv])
      else (if field_type (fst fv) = FIELD_MSG then Some True else fst mem, [snd fv]))"

definition steps_of :: "s32 \<Rightarrow> (FieldDef \<times> proto_value) list \<Rightarrow> bool option \<times> proto_value list \<Rightarrow> bool option \<times> proto_value list" where
  "steps_of num es mem = foldl (\<lambda>mem fv. if f_fieldNum (fst fv) = num then step_member fv mem else mem) mem es"

lemma foldl_steps:
  "foldl builder_step obj es = Msg (getDescriptor obj) (map (\<lambda>(n, mem). (n, steps_of n es mem)) (m_members obj))"
proof (induction es arbitrary: obj)
  case Nil
  show ?case by (cases obj) (simp add: steps_of_def)
next
  case (Cons fv es)
  have "builder_step obj fv =
      Msg (getDescriptor obj) (map (\<lambda>(n, mem). (n, if f_fieldNum (fst fv) = n then step_member fv mem else mem)) (m_members obj))"
    by (auto simp: builder_step_def builder_add_def builder_set_def update_member_def step_member_def)
  then show ?case using Cons [of "builder_step obj fv"] by (auto simp: steps_of_def)
qed

lemma steps_of_others: "\<forall>fv \<in> set es. f_fieldNum (fst fv) \<noteq> num \<Longrightarrow> steps_of num es mem = mem"
  by (induction es arbitrary: mem) (auto simp: steps_of_def)

lemma steps_of_append: "steps_of num (es @ fs) mem = steps_of num fs (steps_of num es mem)"
  by (simp add: steps_of_def)

lemma steps_of_field:
  "field_sent fd mem vs \<Longrightarrow> default_member fd (f_fieldNum fd, mem0) \<Longrightarrow> steps_of (f_fieldNum fd) (map (Pair fd) vs) mem0 = mem"
proof (induction rule: field_sent.cases)
  case (sent_repeated fd' vs')
  have "steps_of (f_fieldNum fd) (map (Pair fd) ws) (None, us) = (None, us @ ws)" if "f_repeated fd" for ws us
    using that by (induction ws arbitrary: us) (simp_all add: steps_of_def step_member_def)
  then show ?thesis using sent_repeated by (cases mem0) (auto simp: default_member_def)
next
  case (sent_single fd' has v)
  then show ?thesis by (cases mem0) (auto simp: steps_of_def step_member_def default_member_def)
next
  case (sent_default fd' v)
  then show ?thesis by (cases mem0) (auto simp: steps_of_def default_member_def)
qed

lemma steps_of_fields:
  "fields_sent fds ms es \<Longrightarrow> distinct (map f_fieldNum fds) \<Longrightarrow> list_all2 default_member fds ms0 \<Longrightarrow>
   map (\<lambda>(n, mem). (n, steps_of n es mem)) ms0 = ms"
proof (induction arbitrary: ms0 rule: fields_sent.induct)
  case sent_nil
  then show ?case by simp
next
  case (sent_cons fd mem vs fds ms es)
  obtain z ms1 where z: "ms0 = z # ms1" "default_member fd z" "list_all2 default_member fds ms1"
    using sent_cons.prems(2) by (auto simp: list_all2_Cons1)
  then obtain mem0 where ms0: "ms0 = (f_fieldNum fd, mem0) # ms1" "default_member fd (f_fieldNum fd, mem0)"
    "list_all2 default_member fds ms1" by (cases z) (auto simp: default_member_def)
  have "\<forall>fv \<in> set es. f_fieldNum (fst fv) \<noteq> f_fieldNum fd"
    using subsetD [OF fields_sent_subset [OF sent_cons.hyps(2)]] sent_cons.prems(1)
    by (metis distinct.simps(2) image_eqI list.set_map list.simps(9))
  then have head: "steps_of (f_fieldNum fd) (map (Pair fd) vs @ es) mem0 = mem"
    using steps_of_field [OF sent_cons.hyps(1) ms0(2)] steps_of_others by (simp add: steps_of_append)
  have "map fst ms1 = map f_fieldNum fds"
    using ms0(3) by (induction rule: list_all2_induct) (auto simp: default_member_def)
  then have "f_fieldNum fd \<notin> fst ` set ms1" using sent_cons.prems(1) by (metis distinct.simps(2) list.set_map list.simps(9))
  then have "map (\<lambda>(n, m). (n, steps_of n (map (Pair fd) vs @ es) m)) ms1 = map (\<lambda>(n, m). (n, steps_of n es m)) ms1"
    by (intro map_cong) (auto simp: steps_of_append steps_of_others image_iff)
  also have "\<dots> = ms" using sent_cons.IH [OF _ ms0(3)] sent_cons.prems(1) by simp
  finally show ?case using head unfolding ms0(1) by (simp only: list.map prod.case)
qed

lemma find_field: "distinct (map f_fieldNum (m_fields (m_self d))) \<Longrightarrow> fd \<in> set (m_fields (m_self d)) \<Longrightarrow>
    findFieldByNum d (f_fieldNum fd) = Some fd"
proof -
  have "distinct (map f_fieldNum fds) \<Longrightarrow> fd \<in> set fds \<Longrightarrow> find (\<lambda>field. f_fieldNum field = f_fieldNum fd) fds = Some fd"
    for fds by (induction fds) auto
  then show "distinct (map f_fieldNum (m_fields (m_self d))) \<Longrightarrow> fd \<in> set (m_fields (m_self d)) \<Longrightarrow>
    findFieldByNum d (f_fieldNum fd) = Some fd" by (simp add: findFieldByNum_def)
qed

text \<open>The bytes of what is sent are read as the message.\<close>

lemma message_read:
  assumes "fields_sent (m_fields (m_self (getDescriptor m))) (m_members m) es" "entries_bytes env es bs"
    and "distinct (map f_fieldNum (m_fields (m_self (getDescriptor m))))"
    and "default_message depth db (getDescriptor m) = Some m0"
    and "exact s" "\<not> fail s" "sink_rest s = bs" "length bs < n"
  shows "iser_message n env s m0 = Inr (advance s (length bs), m)"
proof -
  obtain ms0 where m0: "m0 = Msg (getDescriptor m) ms0" "list_all2 default_member (m_fields (m_self (getDescriptor m))) ms0"
    using default_message_members [OF assms(4)] by blast
  have "foldl builder_step m0 es = m"
    using steps_of_fields [OF assms(1,3) m0(2)] by (cases m) (simp add: foldl_steps m0(1))
  moreover have "\<forall>(fd, v) \<in> set es. findFieldByNum (getDescriptor m0) (f_fieldNum fd) = Some fd"
    using fields_sent_subset [OF assms(1)] find_field [OF assms(3)] m0(1) by fastforce
  ultimately obtain n' where n': "0 < n'" "iser_message n env s m0 = iser_message n' env (advance s (length bs)) m"
    using entries_read [OF assms(2) _ assms(5,6), of m0 "[]" n] assms(7,8) by auto
  have "sink_rest (advance s (length bs)) = []" "exact (advance s (length bs))"
    using advance_exact [OF assms(5), of "length bs"] assms(7) by auto
  then show ?thesis using n' exact_avail by (cases n') (auto simp: iser_message.simps(2))
qed

end
