(* ===== verification/GeneratedWire.thy ===== *)
theory GeneratedWire
  imports GeneratedSpec
begin

text \<open>
  The binary form of messages: their bytes, which the generated classes write and read.
\<close>

section \<open>The bytes of a message\<close>

text \<open>
  Values that fit their field. A string must be one that \<^verbatim>\<open>new\<close> finds memory for.
\<close>

fun wire_scalar :: "gen_env \<Rightarrow> eFieldType \<Rightarrow> proto_value \<Rightarrow> u8 list option" where
  "wire_scalar env FIELD_DOUBLE (V64 v) = Some (le_bytes v)"
| "wire_scalar env FIELD_FIXED64 (V64 v) = Some (le_bytes v)"
| "wire_scalar env FIELD_SFIXED64 (V64 v) = Some (le_bytes v)"
| "wire_scalar env FIELD_FLOAT (V32 v) = Some (le_bytes v)"
| "wire_scalar env FIELD_FIXED32 (V32 v) = Some (le_bytes v)"
| "wire_scalar env FIELD_SFIXED32 (V32 v) = Some (le_bytes v)"
| "wire_scalar env FIELD_INT32 (V32 v) = Some (varuint_bits (encode_zigzag (scast v)))"
| "wire_scalar env FIELD_SINT32 (V32 v) = Some (varuint_bits (encode_zigzag (scast v)))"
| "wire_scalar env FIELD_INT64 (V64 v) = Some (varuint_bits (encode_zigzag v))"
| "wire_scalar env FIELD_SINT64 (V64 v) = Some (varuint_bits (encode_zigzag v))"
| "wire_scalar env FIELD_UINT32 (V32 v) = Some (varuint_bits (ucast v))"
| "wire_scalar env FIELD_UINT64 (V64 v) = Some (varuint_bits v)"
| "wire_scalar env FIELD_ENUM (V32 v) = Some (varuint_bits (ucast v))"
| "wire_scalar env FIELD_BOOL (VBool v) = Some (varuint_bits (encode_zigzag (if v then 1 else 0)))"
| "wire_scalar env FIELD_STRING (VStr v) =
     (if length v \<le> ge_alloc env \<and> length v < 2 ^ 63 then Some (varuint_bits (word_of_nat (length v)) @ bytes_of v) else None)"
| "wire_scalar env FIELD_BYTES (VStr v) =
     (if length v \<le> ge_alloc env \<and> length v < 2 ^ 63 then Some (varuint_bits (word_of_nat (length v)) @ bytes_of v) else None)"
| "wire_scalar env t v = None"

text \<open>
  The bytes of a message with all its fields, in their order and of their types: there are none for a
  negative zero that is not repeated, and if the flag of a message is not set.
\<close>

function wire_value :: "gen_env \<Rightarrow> FieldDef \<Rightarrow> proto_value \<Rightarrow> u8 list option"
  and wire_values :: "gen_env \<Rightarrow> FieldDef \<Rightarrow> u32 \<Rightarrow> proto_value list \<Rightarrow> u8 list option"
  and wire_fields :: "gen_env \<Rightarrow> iProtoMessage \<Rightarrow> FieldDef list \<Rightarrow> u8 list option"
  and wire_message :: "gen_env \<Rightarrow> iProtoMessage \<Rightarrow> u8 list option" where
  "wire_value env fd v =
     (if field_type fd = FIELD_MSG
      then (case v of
              VMsg m \<Rightarrow>
                if FindProtoByName (ge_db env) (f_msgType fd) = Some (getDescriptor m)
                then map_option (\<lambda>b. varuint_bits (word_of_nat (length b)) @ b) (wire_message env m)
                else None
            | _ \<Rightarrow> None)
      else wire_scalar env (field_type fd) v)"
| "wire_values env fd tag [] = Some []"
| "wire_values env fd tag (v # vs) =
     Option.bind (wire_value env fd v) (\<lambda>b.
     map_option (\<lambda>bs. varuint_bits (ucast tag) @ b @ bs) (wire_values env fd tag vs))"
| "wire_fields env msg [] = Some []"
| "wire_fields env msg (fd # fds) =
     (case field_tag fd of
        Inl e \<Rightarrow> None
      | Inr tag \<Rightarrow>
          (case map_of (m_members msg) (f_fieldNum fd) of
             None \<Rightarrow> None
           | Some (has, vs) \<Rightarrow>
               Option.bind
                 (if f_repeated fd then if has = None then wire_values env fd tag vs else None
                  else case vs of
                      [v] \<Rightarrow>
                        if has \<noteq> (if field_type fd = FIELD_MSG then Some True else None) then None
                        else if field_type fd = FIELD_MSG \<or> \<not> is_default (field_type fd) v
                        then wire_values env fd tag [v]
                        else if v = default_value (field_type fd) then Some [] else None
                    | _ \<Rightarrow> None)
                 (\<lambda>b. map_option (\<lambda>bs. b @ bs) (wire_fields env msg fds))))"
| "wire_message env msg =
     (let d = getDescriptor msg; fds = m_fields (m_self d) in
      if map fst (m_members msg) = map f_fieldNum fds \<and> distinct (map f_fieldNum fds) \<and>
        default_message (ge_depth env) (ge_db env) d \<noteq> None
      then wire_fields env msg fds else None)"
  by pat_completeness auto
termination
proof (relation "measures
    [\<lambda>x. case x of
        Inl (Inl (env, fd, v)) \<Rightarrow> size v
      | Inl (Inr (env, fd, tag, vs)) \<Rightarrow> size_list size vs
      | Inr (Inl (env, msg, fds)) \<Rightarrow> size msg
      | Inr (Inr (env, msg)) \<Rightarrow> size msg,
     \<lambda>x. case x of
        Inl (Inl _) \<Rightarrow> 0
      | Inl (Inr (env, fd, tag, vs)) \<Rightarrow> length vs
      | Inr (Inl (env, msg, fds)) \<Rightarrow> length fds
      | Inr (Inr (env, msg)) \<Rightarrow> Suc (length (m_fields (m_self (getDescriptor msg))))]")
qed (auto dest: member_size(1))

declare wire_value.simps [simp del] wire_values.simps(2) [simp del] wire_fields.simps(2) [simp del] wire_message.simps [simp del]

section \<open>Values\<close>

lemma writes_raw: "writes (\<lambda>s. bind_result (sink_write s bs) (\<lambda>(s, _). Inr s)) bs"
  by (simp add: writes_def dst.wr_fits)

lemma writes_write_string: "writes (\<lambda>s. write_string s v) (varuint_bits (word_of_nat (length v)) @ bytes_of v)"
  unfolding write_string_def by (rule writes_bind [OF writes_VarUInt writes_raw])

lemma takes_text:
  assumes "length v \<le> ge_alloc env" "length v < 2 ^ 63"
  shows "takes (iser_text env) (Some (VStr v)) (varuint_bits (word_of_nat (length v)) @ bytes_of v)"
  unfolding takes_def
proof (intro allI impI)
  fix s r
  let ?n = "word_of_nat (length v) :: u64"
  assume s: "exact s" "\<not> fail s" "sink_rest s = (varuint_bits ?n @ bytes_of v) @ r"
  then have r: "sink_rest s = varuint_bits ?n @ (bytes_of v @ r)" by simp
  note t = takesD [OF takes_VarUInt [of "ge_junk env" 0 ?n] s(1,2) r]
  have n: "unat ?n = length v" using assms(2) by (simp add: unat_of_nat)
  have "\<not> 0xFFFFFFFF80000000 < ?n"
  proof
    assume "0xFFFFFFFF80000000 < ?n"
    then have "unat (0xFFFFFFFF80000000 :: u64) < length v" unfolding word_less_nat_alt n .
    then show False using assms(2) by simp
  qed
  moreover have "sink_read (advance s (length (varuint_bits ?n))) (length v) =
      Inr (advance s (length (varuint_bits ?n) + length v), bytes_of v)"
    using sink_read_exact [OF t(2), of "length v"] t(4) by (simp add: advance_advance)
  ultimately show "iser_text env s = Inr (advance s (length (varuint_bits ?n @ bytes_of v)), Some (VStr v))"
    using t(1,3) n assms(1) by (simp add: iser_text_def)
qed

lemma takes_fixed:
  "takes (iser_fixed32 env) (Some (V32 v)) (le_bytes v)" "takes (iser_fixed64 env) (Some (V64 w)) (le_bytes w)"
  unfolding iser_fixed32_def iser_fixed64_def
  by (rule takes_map [of _ _ _ "\<lambda>tmp. Some (V32 tmp)"], rule takes_pod, simp)
    (rule takes_map [of _ _ _ "\<lambda>tmp. Some (V64 tmp)"], rule takes_pod, simp)

lemma takes_signed: "takes (iser_signed env f) (Some (f v)) (varuint_bits (encode_zigzag v))"
  unfolding iser_signed_def by (rule takes_map [where h = "\<lambda>tmp. Some (f tmp)", OF takes_VarInt])

lemma takes_unsigned: "takes (iser_unsigned env f) (Some (f v)) (varuint_bits v)"
  unfolding iser_unsigned_def by (rule takes_map [where h = "\<lambda>tmp. Some (f tmp)", OF takes_VarUInt])

lemma narrow_wide: "ucast (scast v :: u64) = (v :: u32)" "ucast (ucast v :: u64) = (v :: u32)"
  by (rule bit_word_eqI; simp add: bit_simps)+

text \<open>Integers of 32 bits are read from any number of 64 bits with the same low half.\<close>

lemma takes_signed32:
  "takes (iser_signed env (\<lambda>v. V32 (ucast v))) (Some (V32 v)) (varuint_bits (encode_zigzag (scast v)))"
  "takes (iser_signed env (\<lambda>v. V32 (ucast v))) (Some (V32 v)) (varuint_bits (encode_zigzag (ucast v)))"
  "takes (iser_unsigned env (\<lambda>v. V32 (ucast v))) (Some (V32 v)) (varuint_bits (ucast v))"
  using takes_signed [of env "\<lambda>v. V32 (ucast v)" "scast v"] takes_signed [of env "\<lambda>v. V32 (ucast v)" "ucast v"]
    takes_unsigned [of env "\<lambda>v. V32 (ucast v)" "ucast v"] by (simp_all add: narrow_wide)

lemma takes_bool: "takes (iser_signed env (\<lambda>v. VBool (v \<noteq> 0))) (Some (VBool b)) (varuint_bits (encode_zigzag (if b then 1 else 0)))"
  using takes_signed [of env "\<lambda>v. VBool (v \<noteq> 0)" "if b then 1 else 0"] by (cases b) simp_all

lemma iser_scalar_reader:
  "iser_scalar env FIELD_FLOAT = iser_fixed32 env" "iser_scalar env FIELD_FIXED32 = iser_fixed32 env"
  "iser_scalar env FIELD_SFIXED32 = iser_fixed32 env" "iser_scalar env FIELD_FIXED64 = iser_fixed64 env"
  "iser_scalar env FIELD_SFIXED64 = iser_fixed64 env" "iser_scalar env FIELD_DOUBLE = iser_fixed64 env"
  "iser_scalar env FIELD_INT32 = iser_signed env (\<lambda>v. V32 (ucast v))"
  "iser_scalar env FIELD_SINT32 = iser_signed env (\<lambda>v. V32 (ucast v))"
  "iser_scalar env FIELD_INT64 = iser_signed env V64" "iser_scalar env FIELD_SINT64 = iser_signed env V64"
  "iser_scalar env FIELD_BOOL = iser_signed env (\<lambda>v. VBool (v \<noteq> 0))"
  "iser_scalar env FIELD_UINT32 = iser_unsigned env (\<lambda>v. V32 (ucast v))"
  "iser_scalar env FIELD_UINT64 = iser_unsigned env V64"
  "iser_scalar env FIELD_ENUM = iser_unsigned env (\<lambda>v. V32 (ucast v))"
  "iser_scalar env FIELD_STRING = iser_text env" "iser_scalar env FIELD_BYTES = iser_text env"
  by (simp_all add: fun_eq_iff)

lemma scalar_wire:
  assumes "wire_scalar env t v = Some b"
  shows "writes (\<lambda>s. oser_scalar t (Some v) s) b" "takes (iser_scalar env t) (Some v) b"
proof -
  note [simp] = deref64_def deref32_def deref_bool_def deref_string_def
    writes_pod writes_VarUInt writes_VarInt writes_write_string takes_fixed takes_text takes_signed takes_unsigned
    takes_signed32 takes_bool [of env True, simplified] takes_bool [of env False, simplified] iser_scalar_reader
  show "writes (\<lambda>s. oser_scalar t (Some v) s) b"
    using assms by (cases t; cases v) (auto split: if_splits)
  show "takes (iser_scalar env t) (Some v) b"
    using assms by (cases t; cases v) (auto split: if_splits)
qed

section \<open>Messages\<close>

lemma writes_value_message:
  assumes "writes (oser_message m) c" "length c < 2 ^ 64" "field_type fd = FIELD_MSG"
  shows "writes (oser_value fd (VMsg m)) (varuint_bits (word_of_nat (length c)) @ c)"
proof -
  have "oser_message m (FakeSink 0 False) = Inr (FakeSink (length c) False)"
    using writesD [OF assms(1), of "FakeSink 0 False"] assms(2) by simp
  then have "oser_value fd (VMsg m) = (\<lambda>s. bind_result (oser_VarUInt s (word_of_nat (length c))) (oser_message m))"
    using assms(3) by (simp add: oser_value.simps fun_eq_iff)
  then show ?thesis using writes_bind [OF writes_VarUInt assms(1)] by simp
qed

lemma value_read_scalar: "field_type fd \<noteq> FIELD_MSG \<Longrightarrow> takes (iser_scalar env (field_type fd)) (Some v) b \<Longrightarrow> value_read env fd v b"
  by (simp add: value_read_def takes_def iser_value_def)

lemma value_read_message:
  assumes "field_type fd = FIELD_MSG" "FindProtoByName (ge_db env) (f_msgType fd) = Some (getDescriptor m)"
    and m0: "default_message (ge_depth env) (ge_db env) (getDescriptor m) = Some m0"
    and rd: "\<And>n s. exact s \<Longrightarrow> \<not> fail s \<Longrightarrow> sink_rest s = c \<Longrightarrow> length c < n \<Longrightarrow>
      iser_message n env s m0 = Inr (advance s (length c), m)"
    and len: "length c < 2 ^ 64"
  shows "value_read env fd (VMsg m) (varuint_bits (word_of_nat (length c)) @ c)"
  unfolding value_read_def takes_def
proof (intro allI impI)
  fix n s r
  let ?t = "varuint_bits (word_of_nat (length c))"
  assume n: "length (?t @ c) \<le> n" and s: "exact s" "\<not> fail s" "sink_rest s = (?t @ c) @ r"
  then have r: "sink_rest s = ?t @ (c @ r)" by simp
  note t = takesD [OF takes_VarUInt [of "ge_junk env" 0 "word_of_nat (length c)"] s(1,2) r]
  have u: "unat (word_of_nat (length c) :: u64) = length c" using len by (simp add: unat_of_nat)
  have "0 < length ?t" by simp
  then have "length c < n" using n unfolding length_append by linarith
  then have "iser_message n env (RangeSink (advance s (length ?t)) (length c) False) m0 =
      Inr (RangeSink (advance (advance s (length ?t)) (length c)) 0 False, m)"
    using rd [of "RangeSink (advance s (length ?t)) (length c) False" n] t(2,4) by simp
  then show "iser_value env (iser_message n env) fd s = Inr (advance s (length (?t @ c)), Some (VMsg m))"
    using assms(1,2) m0 t(1,3) u by (simp add: iser_value_def advance_advance)
qed

lemma wire_sound:
  "wire_value env fd v = Some b \<Longrightarrow> length b < 2 ^ 64 \<Longrightarrow> writes (oser_value fd v) b \<and> value_read env fd v b"
  "wire_values env fd tag vs = Some bs \<Longrightarrow> length bs < 2 ^ 64 \<Longrightarrow> field_tag fd = Inr tag \<Longrightarrow>
   writes (oser_values fd tag vs) bs \<and> entries_bytes env (map (Pair fd) vs) bs"
  "wire_fields env msg fds = Some cs \<Longrightarrow> length cs < 2 ^ 64 \<Longrightarrow>
   map fst ms = map f_fieldNum fds \<Longrightarrow> \<forall>(n, mem) \<in> set ms. map_of (m_members msg) n = Some mem \<Longrightarrow>
   writes (oser_fields msg fds) cs \<and> (\<exists>es. fields_sent fds ms es \<and> entries_bytes env es cs)"
  "wire_message env msg = Some ds \<Longrightarrow> length ds < 2 ^ 64 \<Longrightarrow>
   writes (oser_message msg) ds \<and>
   (\<forall>m0 n s. default_message (ge_depth env) (ge_db env) (getDescriptor msg) = Some m0 \<longrightarrow> exact s \<longrightarrow> \<not> fail s \<longrightarrow>
     sink_rest s = ds \<longrightarrow> length ds < n \<longrightarrow> iser_message n env s m0 = Inr (advance s (length ds), msg))"
proof (induction env fd v and env fd tag vs and env msg fds and env msg
    arbitrary: b and bs and cs ms and ds rule: wire_value_wire_values_wire_fields_wire_message.induct)
  case (1 env fd v)
  show ?case
  proof (cases "field_type fd = FIELD_MSG")
    case True
    then obtain m c where m: "v = VMsg m" "FindProtoByName (ge_db env) (f_msgType fd) = Some (getDescriptor m)"
      "wire_message env m = Some c" "b = varuint_bits (word_of_nat (length c)) @ c"
      using 1(2) by (auto simp: wire_value.simps split: proto_value.splits if_splits)
    have len: "length c < 2 ^ 64" using 1(3) m(4) by simp
    note IH = 1(1) [OF True m(1) m(2) m(3) len]
    obtain m0 where m0: "default_message (ge_depth env) (ge_db env) (getDescriptor m) = Some m0"
      using m(3) by (auto simp: wire_message.simps Let_def split: if_splits)
    show ?thesis
      unfolding m(1,4)
      using writes_value_message [of m c fd] value_read_message [OF True m(2) m0 _ len] IH len True m0 by blast
  next
    case False
    then have w: "wire_scalar env (field_type fd) v = Some b" using 1(2) by (simp add: wire_value.simps)
    have "oser_value fd v = (\<lambda>s. oser_scalar (field_type fd) (Some v) s)" using False by (simp add: fun_eq_iff oser_value.simps)
    then show ?thesis using scalar_wire [OF w] value_read_scalar [OF False] by simp
  qed
next
  case (2 env fd tag)
  then show ?case using writes_return no_entries by (simp add: fun_eq_iff)
next
  case (3 env fd tag v vs)
  obtain b cs where b: "wire_value env fd v = Some b" "wire_values env fd tag vs = Some cs"
    "bs = varuint_bits (ucast tag) @ b @ cs" using 3(3) by (auto simp: wire_values.simps(2) bind_eq_Some_conv)
  have len: "length b < 2 ^ 64" "length cs < 2 ^ 64" using 3(4) b(3) by auto
  note v = 3(1) [OF b(1) len(1)] and vs = 3(2) [OF b(1) b(2) len(2) 3(5)]
  have "oser_values fd tag (v # vs) = (\<lambda>s. bind_result (oser_VarUInt s (ucast tag)) (\<lambda>s.
      bind_result (oser_value fd v s) (oser_values fd tag vs)))"
    by (simp add: fun_eq_iff oser_values.simps(2))
  then show ?case using v vs writes_bind [OF writes_VarUInt writes_bind] next_entry [OF 3(5)] b(3) by simp
next
  case (4 env msg)
  then show ?case using writes_return sent_nil no_entries by (auto simp: fun_eq_iff)
next
  case (5 env msg fd fds)
  obtain tag where tag: "field_tag fd = Inr tag" using 5(4) by (auto simp: wire_fields.simps(2) split: sum.splits)
  obtain has vs where mem: "map_of (m_members msg) (f_fieldNum fd) = Some (has, vs)"
    using 5(4) tag by (auto simp: wire_fields.simps(2) split: option.splits)
  obtain ms' where ms: "ms = (f_fieldNum fd, has, vs) # ms'" "map fst ms' = map f_fieldNum fds"
    "\<forall>(n, mem) \<in> set ms'. map_of (m_members msg) n = Some mem"
    using 5(6,7) mem by (cases ms) auto
  let ?oser = "\<lambda>s. if f_repeated fd then oser_values fd tag vs s
            else case vs of
                [] \<Rightarrow> Inl Undefined
              | v # _ \<Rightarrow>
                  if field_type fd = FIELD_MSG
                  then (case has of
                          None \<Rightarrow> Inl Undefined
                        | Some h \<Rightarrow> if h then oser_values fd tag [v] s else Inr s)
                  else if is_default (field_type fd) v then Inr s
                  else oser_values fd tag [v] s"
  have oser: "oser_fields msg (fd # fds) = (\<lambda>s. bind_result (?oser s) (oser_fields msg fds))"
    using tag mem by (simp add: fun_eq_iff oser_fields.simps(2))
  let ?wire = "if f_repeated fd then if has = None then wire_values env fd tag vs else None
                  else case vs of
                      [v] \<Rightarrow>
                        if has \<noteq> (if field_type fd = FIELD_MSG then Some True else None) then None
                        else if field_type fd = FIELD_MSG \<or> \<not> is_default (field_type fd) v
                        then wire_values env fd tag [v]
                        else if v = default_value (field_type fd) then Some [] else None
                    | _ \<Rightarrow> None"
  obtain hb tb where w: "?wire = Some hb" "wire_fields env msg fds = Some tb" "cs = hb @ tb"
    using 5(4) tag mem by (auto simp: wire_fields.simps(2) bind_eq_Some_conv)
  have len: "length hb < 2 ^ 64" "length tb < 2 ^ 64" using 5(5) w(3) by auto
  obtain es where es: "writes (oser_fields msg fds) tb" "fields_sent fds ms' es" "entries_bytes env es tb"
    using 5(3) [OF tag mem refl w(1) w(2) len(2) ms(2,3)] by blast
  have "\<exists>ws. field_sent fd (has, vs) ws \<and> entries_bytes env (map (Pair fd) ws) hb \<and> writes ?oser hb"
  proof (cases "f_repeated fd")
    case True
    then have h: "has = None" "wire_values env fd tag vs = Some hb" using w(1) by (auto split: if_splits)
    from 5(1) [OF tag mem refl True h len(1) tag] True h(1) sent_repeated [OF True, of vs] show ?thesis
      by (intro exI [of _ vs]) simp
  next
    case False
    then obtain v where v: "vs = [v]" "has = (if field_type fd = FIELD_MSG then Some True else None)"
      using w(1) by (auto split: list.splits if_splits)
    show ?thesis
    proof (cases "field_type fd = FIELD_MSG \<or> \<not> is_default (field_type fd) v")
      case True
      then have h: "wire_values env fd tag [v] = Some hb" using w(1) False v by simp
      have "\<not> has \<noteq> (if field_type fd = FIELD_MSG then Some True else None)" using v(2) by simp
      from 5(2) [OF tag mem refl False v(1) refl this True h len(1) tag]
      show ?thesis using True False v sent_single [OF False v(2), of v]
        by (intro exI [of _ "[v]"]) auto
    next
      case d: False
      then have "v = default_value (field_type fd)" "hb = []" "has = None" using w(1) False v by (auto split: if_splits)
      then show ?thesis using d False v sent_default [OF False, of v] writes_return no_entries
        by (intro exI [of _ "[]"]) simp
    qed
  qed
  then obtain ws where ws: "field_sent fd (has, vs) ws" "entries_bytes env (map (Pair fd) ws) hb" "writes ?oser hb" by blast
  show ?case
    unfolding oser w(3) ms(1)
    using writes_bind [OF ws(3) es(1)] sent_cons [OF ws(1) es(2)] entries_append [OF ws(2) es(3)] by blast
next
  case (6 env msg)
  let ?d = "getDescriptor msg"
  let ?fds = "m_fields (m_self ?d)"
  have w: "map fst (m_members msg) = map f_fieldNum ?fds" "distinct (map f_fieldNum ?fds)"
    "default_message (ge_depth env) (ge_db env) ?d \<noteq> None" "wire_fields env msg ?fds = Some ds"
    using 6(2) by (auto simp: wire_message.simps Let_def split: if_splits)
  have "\<forall>(n, mem) \<in> set (m_members msg). map_of (m_members msg) n = Some mem"
    using w(1,2) by (auto intro: map_of_is_SomeI)
  from 6(1) [OF refl refl _ w(4) 6(3) w(1) this] w(1-3) obtain es where
    es: "writes (oser_fields msg ?fds) ds" "fields_sent ?fds (m_members msg) es" "entries_bytes env es ds" by blast
  have "oser_message msg = oser_fields msg ?fds" by (simp add: fun_eq_iff oser_message.simps)
  then show ?case using es(1) message_read [OF es(2,3) w(2)] by auto
qed

end
