(* ===== verification/TextFormat.thy ===== *)
theory TextFormat
  imports TokenPatterns GeneratedMessage LexicalCast
begin

text \<open>
  Reading messages from text: \<^verbatim>\<open>TextFormat::parse\<close> of \<^verbatim>\<open>CORE/UTIL/FILES/proto_text.cpp\<close>, which turns the
  text into the binary form by the definition of the message and leaves the rest to the generated
  \<^verbatim>\<open>iserialize\<close>. A range of the text from an iterator to another is the text cut off at its end and a
  position in it. Messages to the log are left out.
\<close>

section \<open>Tokens\<close>

datatype eTokens =
    IDENTIFIER
  | WS
  | EOL
  | EQUAL
  | NUMERIC
  | STRING
  | COLON
  | OBRACE
  | CBRACE
  | COMMENT
  | MISC

definition text_patterns :: "(eTokens \<times> string) list" where
  "text_patterns =
     [(STRING, [CHR 0x22, CHR ''['', CHR ''^'', CHR 0x22, CHR '']'', CHR ''*'', CHR 0x22]),
      (NUMERIC, [CHR ''['', CHR ''-'', CHR 0x5C, CHR ''+'', CHR '']'', CHR ''?'', CHR 0x5C, CHR ''d'', CHR ''+'',
        CHR 0x5C, CHR ''.'', CHR ''?'', CHR 0x5C, CHR ''d'', CHR ''*'']),
      (IDENTIFIER, [CHR 0x5C, CHR ''a'', CHR 0x5C, CHR ''w'', CHR ''*'']),
      (OBRACE, ''{''),
      (CBRACE, ''}''),
      (EQUAL, ''=''),
      (COLON, '':''),
      (EOL, [CHR 0x0A]),
      (WS, [CHR 0x5C, CHR ''s'']),
      (COMMENT, ''//.*'' @ [CHR 0x0A]),
      (MISC, ''.'')]"

definition text_tokenizer :: "nat \<Rightarrow> nat \<Rightarrow> fault + eTokens tokenizer_list" where
  "text_tokenizer fuel junk = compile_patterns fuel junk text_patterns"

text \<open>
  What the functions use besides their arguments: the tokenizer (with the fuel of its scans and what
  memory holds uninitialised), the registry of descriptors, the conversions of the C library to the
  bits of floating point numbers and what a stream writes for these bits, and the width of \<^verbatim>\<open>long\<close>.
\<close>

record text_env =
  te_fuel :: nat
  te_tokenizer :: "eTokens tokenizer_list"
  te_junk :: "eTokens Token"
  te_db :: "ProtoDescriptor list"
  te_atof64 :: "string \<Rightarrow> u64"
  te_atof32 :: "string \<Rightarrow> u32"
  te_show64 :: "u64 \<Rightarrow> string"
  te_show32 :: "u32 \<Rightarrow> string"
  te_long :: nat

definition next_token :: "text_env \<Rightarrow> string \<Rightarrow> nat \<Rightarrow> fault + bool \<times> eTokens Token" where
  "next_token env str pos = getNextToken (te_fuel env) (te_tokenizer env) (te_junk env) str pos"

lemma next_token_progress:
  "next_token env str pos = Inr (True, t) \<Longrightarrow> pos < m_tokenEnd t \<and> m_tokenEnd t \<le> length str \<and> m_valid t"
  using getNextToken_progress by (fastforce simp: next_token_def)

lemma next_token_measure:
  "next_token env str pos = Inr (True, t) \<Longrightarrow> length str - m_tokenEnd t < length str - pos"
  using next_token_progress [of env str pos t] by linarith

section \<open>Skipping fields\<close>

text \<open>
  The loop that skips blanks, which the constructor of \<^verbatim>\<open>FieldSkipper\<close> and the reader of values have:
  the token it stops at, which is not valid at the end of the range, and the position behind it.
\<close>

function skip_ws :: "text_env \<Rightarrow> string \<Rightarrow> nat \<Rightarrow> fault + eTokens Token \<times> nat" where
  "skip_ws env str pos =
     bind_result (next_token env str pos) (\<lambda>(found, token).
     if found
     then bind_result (Token_getId token) (\<lambda>i.
          if i \<noteq> WS then Inr (token, m_tokenEnd token) else skip_ws env str (m_tokenEnd token))
     else Inr (token, pos))"
  by auto
termination
  by (relation "measure (\<lambda>(env, str, pos). length str - pos)") (auto simp: next_token_measure)

declare skip_ws.simps [simp del]

record FieldSkipper =
  fs_token :: "eTokens Token"
  fs_itr :: nat

definition FieldSkipper_new :: "text_env \<Rightarrow> string \<Rightarrow> nat \<Rightarrow> fault + FieldSkipper" where
  "FieldSkipper_new env str begin_pos =
     bind_result (skip_ws env str begin_pos) (\<lambda>(token, itr). Inr \<lparr>fs_token = token, fs_itr = itr\<rparr>)"

text \<open>
  The results of the skippers: whether the field was skipped, and then the new position, which is
  assigned to \<^verbatim>\<open>m_begin\<close>.
\<close>

function skip_single_loop :: "text_env \<Rightarrow> string \<Rightarrow> nat \<Rightarrow> fault + nat option" where
  "skip_single_loop env str itr =
     bind_result (next_token env str itr) (\<lambda>(found, token).
     if found
     then bind_result (Token_getId token) (\<lambda>i.
          if i = NUMERIC \<or> i = STRING then Inr (Some (m_tokenEnd token))
          else if i = EOL then Inr None
          else if i = WS then skip_single_loop env str (m_tokenEnd token)
          else Inr None)
     else Inr None)"
  by auto
termination
  by (relation "measure (\<lambda>(env, str, pos). length str - pos)") (auto simp: next_token_measure)

declare skip_single_loop.simps [simp del]

definition skipFieldSingle :: "text_env \<Rightarrow> string \<Rightarrow> FieldSkipper \<Rightarrow> fault + nat option" where
  "skipFieldSingle env str fs =
     bind_result (Token_getId (fs_token fs)) (\<lambda>i.
     if i \<noteq> COLON then Inr None else skip_single_loop env str (fs_itr fs))"

function skip_group_loop :: "text_env \<Rightarrow> string \<Rightarrow> int \<Rightarrow> nat \<Rightarrow> fault + nat option" where
  "skip_group_loop env str depth itr =
     bind_result (next_token env str itr) (\<lambda>(found, token).
     if found
     then bind_result (Token_getId token) (\<lambda>i.
          if i = CBRACE
          then if depth = 0 then Inr (Some (m_tokenEnd token))
               else if depth > 0 then skip_group_loop env str (depth - 1) (m_tokenEnd token)
               else Inl CheckFailed
          else if i = OBRACE then skip_group_loop env str (depth + 1) (m_tokenEnd token)
          else skip_group_loop env str depth (m_tokenEnd token))
     else Inr None)"
  by auto
termination
  by (relation "measure (\<lambda>(env, str, depth, pos). length str - pos)") (auto simp: next_token_measure)

declare skip_group_loop.simps [simp del]

definition skipFieldGroup :: "text_env \<Rightarrow> string \<Rightarrow> FieldSkipper \<Rightarrow> fault + nat option" where
  "skipFieldGroup env str fs =
     bind_result (Token_getId (fs_token fs)) (\<lambda>i.
     if i \<noteq> OBRACE then Inr None else skip_group_loop env str 0 (fs_itr fs))"

definition skipField :: "text_env \<Rightarrow> string \<Rightarrow> FieldSkipper \<Rightarrow> fault + nat option" where
  "skipField env str fs =
     bind_result (Token_getId (fs_token fs)) (\<lambda>i.
     if i = OBRACE then skipFieldGroup env str fs
     else if i = COLON then skipFieldSingle env str fs
     else Inr None)"

section \<open>Values\<close>

text \<open>The tokens a field of a type may have as its value: the first switch.\<close>

fun value_token_ok :: "eFieldType \<Rightarrow> eTokens \<Rightarrow> fault + bool" where
  "value_token_ok FIELD_STRING i = Inr (i = STRING)"
| "value_token_ok FIELD_BYTES i = Inr (i = STRING)"
| "value_token_ok FIELD_ENUM i = Inr (i = NUMERIC \<or> i = IDENTIFIER)"
| "value_token_ok FIELD_BOOL i = Inr (i = IDENTIFIER)"
| "value_token_ok FIELD_MSG i = Inl CheckFailed"
| "value_token_ok FIELD_COUNT i = Inr True"
| "value_token_ok _ i = Inr (i = NUMERIC)"

text \<open>
  The second switch: the value is converted and written, or the result is false.
\<close>

definition put_option :: "('a \<Rightarrow> fault + sink) \<Rightarrow> sink \<Rightarrow> 'a option \<Rightarrow> fault + bool \<times> sink" where
  "put_option put s v =
     (case v of None \<Rightarrow> Inr (False, s) | Some x \<Rightarrow> bind_result (put x) (\<lambda>s. Inr (True, s)))"

definition write_enum :: "text_env \<Rightarrow> FieldDef \<Rightarrow> eTokens \<Rightarrow> string \<Rightarrow> sink \<Rightarrow> fault + bool \<times> sink" where
  "write_enum env fd i text s =
     (if i = IDENTIFIER
      then (case FindProtoEnumByName (te_db env) (f_msgType fd) of
              None \<Rightarrow> Inr (False, s)
            | Some e \<Rightarrow>
                (case find (\<lambda>v. f_name v = text) (e_values e) of
                   None \<Rightarrow> Inr (False, s)
                 | Some v \<Rightarrow> put_option (oser_VarUInt s) s (Some (scast (f_fieldNum v)))))
      else put_option (oser_VarUInt s) s (lexical_cast_u64 text))"

fun write_value :: "text_env \<Rightarrow> FieldDef \<Rightarrow> eFieldType \<Rightarrow> eTokens \<Rightarrow> string \<Rightarrow> sink \<Rightarrow> fault + bool \<times> sink" where
  "write_value env fd FIELD_DOUBLE i text s = put_option (oser_pod s) s (Some (te_atof64 env text))"
| "write_value env fd FIELD_FLOAT i text s = put_option (oser_pod s) s (Some (te_atof32 env text))"
| "write_value env fd FIELD_FIXED32 i text s =
     bind_result (lexical_cast_u32 (te_long env) text) (\<lambda>v. put_option (oser_pod s) s (Some v))"
| "write_value env fd FIELD_FIXED64 i text s = put_option (oser_pod s) s (lexical_cast_u64 text)"
| "write_value env fd FIELD_SFIXED32 i text s =
     bind_result (lexical_cast_s32 text) (\<lambda>v. put_option (oser_pod s) s (Some v))"
| "write_value env fd FIELD_SFIXED64 i text s = put_option (oser_pod s) s (lexical_cast_s64 text)"
| "write_value env fd FIELD_INT32 i text s = put_option (oser_VarInt s) s (lexical_cast_s64 text)"
| "write_value env fd FIELD_INT64 i text s = put_option (oser_VarInt s) s (lexical_cast_s64 text)"
| "write_value env fd FIELD_SINT32 i text s = put_option (oser_VarInt s) s (lexical_cast_s64 text)"
| "write_value env fd FIELD_SINT64 i text s = put_option (oser_VarInt s) s (lexical_cast_s64 text)"
| "write_value env fd FIELD_UINT32 i text s = put_option (oser_VarUInt s) s (lexical_cast_u64 text)"
| "write_value env fd FIELD_UINT64 i text s = put_option (oser_VarUInt s) s (lexical_cast_u64 text)"
| "write_value env fd FIELD_STRING i text s = put_option (write_string s) s (Some (Unescape (TrimQuotes text)))"
| "write_value env fd FIELD_BYTES i text s = put_option (write_string s) s (Some (Unescape (TrimQuotes text)))"
| "write_value env fd FIELD_ENUM i text s = write_enum env fd i text s"
| "write_value env fd FIELD_BOOL i text s =
     put_option (oser_VarUInt s) s
       (if text = ''true'' then Some 1 else if text = ''false'' then Some 0 else None)"
| "write_value env fd FIELD_MSG i text s = Inl CheckFailed"
| "write_value env fd FIELD_COUNT i text s = Inr (True, s)"

text \<open>
  The part of the loop for a field that is no message, from behind its name: the colon, the value and
  the position behind it; the result says whether the loop goes on.
\<close>

definition parse_single :: "text_env \<Rightarrow> FieldDef \<Rightarrow> string \<Rightarrow> nat \<Rightarrow> sink \<Rightarrow> fault + bool \<times> nat \<times> sink" where
  "parse_single env fd str pos buffer =
     bind_result (skip_ws env str pos) (\<lambda>(token, pos).
     bind_result (Token_getId token) (\<lambda>i.
     if i \<noteq> COLON then Inr (False, pos, buffer)
     else
     bind_result (skip_ws env str pos) (\<lambda>(token, pos).
     bind_result (Token_getId token) (\<lambda>i.
     bind_result (value_token_ok (field_type fd) i) (\<lambda>ok.
     if \<not> ok then Inr (False, pos, buffer)
     else
     bind_result (Token_getToken str token) (\<lambda>text.
     bind_result (write_value env fd (field_type fd) i text buffer) (\<lambda>(ok, buffer).
     Inr (ok, pos, buffer))))))))"

lemma skip_ws_progress:
  "skip_ws env str pos = Inr (token, pos') \<Longrightarrow> pos \<le> length str \<Longrightarrow> pos \<le> pos' \<and> pos' \<le> length str"
proof (induction env str pos rule: skip_ws.induct)
  case (1 env str pos)
  from 1(2) obtain found t where t: "next_token env str pos = Inr (found, t)"
    by (subst (asm) skip_ws.simps) (auto simp: bind_result_eq_Inr)
  show ?case
  proof (cases found)
    case True
    then obtain i where i: "Token_getId t = Inr i" using 1(2) t
      by (subst (asm) skip_ws.simps) (auto simp: bind_result_eq_Inr)
    have p: "pos < m_tokenEnd t" "m_tokenEnd t \<le> length str" using next_token_progress t True by simp_all
    show ?thesis
    proof (cases "i = WS")
      case True
      then have "skip_ws env str (m_tokenEnd t) = Inr (token, pos')"
        using 1(2) t i \<open>found\<close> by (subst (asm) skip_ws.simps) simp
      from 1(1) [OF t refl \<open>found\<close> i _ this p(2)] True p show ?thesis by simp
    next
      case False
      then show ?thesis using 1(2) t i \<open>found\<close> p by (subst (asm) skip_ws.simps) auto
    qed
  next
    case False
    then show ?thesis using 1(2,3) t by (subst (asm) skip_ws.simps) simp
  qed
qed

lemma skip_single_loop_progress:
  "skip_single_loop env str itr = Inr (Some pos') \<Longrightarrow> itr < pos' \<and> pos' \<le> length str"
proof (induction env str itr rule: skip_single_loop.induct)
  case (1 env str itr)
  from 1(2) obtain t where t: "next_token env str itr = Inr (True, t)"
    by (subst (asm) skip_single_loop.simps) (auto simp: bind_result_eq_Inr split: if_splits)
  then have p: "itr < m_tokenEnd t" "m_tokenEnd t \<le> length str" "m_valid t" using next_token_progress by blast+
  then have i: "Token_getId t = Inr (m_id t)" by (simp add: Token_getId_def)
  note step = 1(1) [OF t refl TrueI i]
  show ?case
    using 1(2) t i p step by (subst (asm) skip_single_loop.simps) (auto split: if_splits)
qed

lemma skip_group_loop_progress:
  "skip_group_loop env str depth itr = Inr (Some pos') \<Longrightarrow> itr < pos' \<and> pos' \<le> length str"
proof (induction env str depth itr rule: skip_group_loop.induct)
  case (1 env str depth itr)
  from 1(4) obtain t where t: "next_token env str itr = Inr (True, t)"
    by (subst (asm) skip_group_loop.simps) (auto simp: bind_result_eq_Inr split: if_splits)
  then have p: "itr < m_tokenEnd t" "m_tokenEnd t \<le> length str" "m_valid t" using next_token_progress by blast+
  then have i: "Token_getId t = Inr (m_id t)" by (simp add: Token_getId_def)
  note step = 1(1-3) [OF t refl TrueI i]
  show ?case
    using 1(4) t i p step by (subst (asm) skip_group_loop.simps) (auto split: if_splits)
qed

lemma skipper_progress:
  assumes "bind_result (FieldSkipper_new env str pos) (\<lambda>fs. f env str fs) = Inr (Some pos')"
    and "f = skipField \<or> f = skipFieldGroup" "pos \<le> length str"
  shows "pos < pos' \<and> pos' \<le> length str"
proof -
  from assms(1) obtain token itr where new: "skip_ws env str pos = Inr (token, itr)"
    and f: "f env str \<lparr>fs_token = token, fs_itr = itr\<rparr> = Inr (Some pos')"
    by (auto simp: FieldSkipper_new_def bind_result_eq_Inr)
  have p: "pos \<le> itr" using skip_ws_progress [OF new assms(3)] by simp
  have "itr < pos' \<and> pos' \<le> length str"
    using f assms(2) skip_single_loop_progress skip_group_loop_progress
    by (fastforce simp: skipField_def skipFieldGroup_def skipFieldSingle_def bind_result_eq_Inr split: if_splits)
  then show ?thesis using p by simp
qed

lemma parse_single_progress:
  "parse_single env fd str pos buffer = Inr (ok, pos', buffer') \<Longrightarrow> pos \<le> length str \<Longrightarrow>
   pos \<le> pos' \<and> pos' \<le> length str"
  by (auto simp: parse_single_def bind_result_eq_Inr split: if_splits dest!: skip_ws_progress)

section \<open>Messages\<close>

text \<open>What comes after the loop: the whole range must have been read, and a brace closed.\<close>

definition parse_finish :: "string \<Rightarrow> nat \<Rightarrow> bool \<Rightarrow> sink \<Rightarrow> fault + bool \<times> nat \<times> sink" where
  "parse_finish str pos openedMessage buffer = Inr (\<not> (pos \<noteq> length str \<or> openedMessage), pos, buffer)"

lemma skipper_measure:
  assumes "next_token env str pos = Inr (True, t)"
    and "bind_result (FieldSkipper_new env str (m_tokenEnd t)) (\<lambda>fs. f env str fs) = Inr (Some pos')"
    and "f = skipField \<or> f = skipFieldGroup"
  shows "length str - pos' < length str - pos" "min (length str) pos' - m_tokenEnd t < length str - pos"
  using next_token_progress [OF assms(1)] skipper_progress [OF assms(2,3)] by auto

text \<open>
  The loop over the tokens, which starts at \<open>pos\<close> with no message opened. A message field is parsed
  twice on the range of its braces, into a sink that only counts and into the buffer.
\<close>

function parseMessageToByteString ::
  "text_env \<Rightarrow> bool \<Rightarrow> ProtoDescriptor \<Rightarrow> string \<Rightarrow> nat \<Rightarrow> bool \<Rightarrow> sink \<Rightarrow> fault + bool \<times> nat \<times> sink" where
  "parseMessageToByteString env errorOnUnknown descriptor str pos openedMessage buffer =
     bind_result (next_token env str pos) (\<lambda>(found, token).
      if \<not> found then parse_finish str pos openedMessage buffer
      else bind_result (Token_getId token) (\<lambda>i.
      if i = WS \<or> i = COMMENT \<or> i = EOL
      then parseMessageToByteString env errorOnUnknown descriptor str (m_tokenEnd token) openedMessage buffer
      else if i = OBRACE \<and> \<not> openedMessage
      then parseMessageToByteString env errorOnUnknown descriptor str (m_tokenEnd token) True buffer
      else if i = CBRACE \<and> openedMessage
      then parse_finish str (m_tokenEnd token) False buffer
      else if i \<noteq> IDENTIFIER then Inr (False, m_tokenEnd token, buffer)
      else bind_result (Token_getToken str token) (\<lambda>name.
      case findFieldByName descriptor name of
        None \<Rightarrow>
          if errorOnUnknown then Inr (False, m_tokenEnd token, buffer)
          else bind_result
            (bind_result (FieldSkipper_new env str (m_tokenEnd token)) (\<lambda>fs. skipField env str fs)) (\<lambda>skipped.
            case skipped of
              Some pos' \<Rightarrow> parseMessageToByteString env errorOnUnknown descriptor str pos' openedMessage buffer
            | None \<Rightarrow> parse_finish str (m_tokenEnd token) openedMessage buffer)
      | Some fieldDef \<Rightarrow>
          bind_result (field_tag fieldDef) (\<lambda>tag.
          bind_result (oser_VarUInt buffer (ucast tag)) (\<lambda>buffer.
          if field_type fieldDef = FIELD_MSG
          then (case FindProtoByName (te_db env) (f_msgType fieldDef) of
              None \<Rightarrow> Inr (False, m_tokenEnd token, buffer)
            | Some msgDef \<Rightarrow>
                bind_result
                  (bind_result (FieldSkipper_new env str (m_tokenEnd token)) (\<lambda>fs. skipFieldGroup env str fs)) (\<lambda>skipped.
                  case skipped of
                    None \<Rightarrow> parse_finish str (m_tokenEnd token) openedMessage buffer
                  | Some pos' \<Rightarrow>
                      bind_result (parseMessageToByteString env errorOnUnknown msgDef (take pos' str) (m_tokenEnd token)
                        False (FakeSink 0 False)) (\<lambda>(ok, _, tempBuffer).
                      if \<not> ok then Inr (False, pos', buffer)
                      else
                      bind_result (oser_VarUInt buffer (word_of_nat (the (sink_size tempBuffer)))) (\<lambda>buffer.
                      bind_result (parseMessageToByteString env errorOnUnknown msgDef (take pos' str) (m_tokenEnd token)
                        False buffer) (\<lambda>(_, _, buffer).
                      parseMessageToByteString env errorOnUnknown descriptor str pos' openedMessage buffer)))))
          else
            bind_result (parse_single env fieldDef str (m_tokenEnd token) buffer) (\<lambda>(ok, pos', buffer).
            if \<not> ok then Inr (False, pos', buffer)
            else parseMessageToByteString env errorOnUnknown descriptor str pos' openedMessage buffer))))))"
  by auto

termination
proof (relation "measure (\<lambda>(env, err, d, str, pos, opened, buffer). length str - pos)", goal_cases)
  case 1
  then show ?case by simp
next
  case (2 env err d str pos opened buffer x found token i)
  then show ?case using next_token_measure by auto
next
  case (3 env err d str pos opened buffer x found token i)
  then show ?case using next_token_measure by auto
next
  case (4 env err d str pos opened buffer x found token i name skipped pos')
  then show ?case using skipper_measure(1) [of env str pos token skipField] by auto
next
  case (5 env err d str pos opened buffer x found token i name)
  then show ?case using skipper_measure(2) [of env str pos token skipFieldGroup] by auto
next
  case (6 env err d str pos opened buffer x found token i name)
  then show ?case using skipper_measure(2) [of env str pos token skipFieldGroup] by auto
next
  case (7 env err d str pos opened buffer x found token i name)
  then show ?case using skipper_measure(1) [of env str pos token skipFieldGroup] by auto
next
  case (8 env err d str pos opened buffer x found token i name)
  then show ?case using next_token_progress [of env str pos token] parse_single_progress by fastforce
qed

declare parseMessageToByteString.simps [simp del]

section \<open>Parsing into a message\<close>

text \<open>
  \<^verbatim>\<open>TextFormat::parse\<close>: the buffer has as many bytes as the text. The message's \<^verbatim>\<open>iserialize\<close> is
  generated for its type, and gets what was written.
\<close>

fun sink_data :: "sink \<Rightarrow> u8 list" where
  "sink_data (BlobSink d p f) = take p d"
| "sink_data s = []"

definition TextFormat_parse ::
  "text_env \<Rightarrow> (u8 list \<Rightarrow> 'm \<Rightarrow> bool \<times> 'm) \<Rightarrow> ProtoDescriptor \<Rightarrow> 'm \<Rightarrow> string \<Rightarrow> bool \<Rightarrow> fault + status \<times> 'm" where
  "TextFormat_parse env iserialize descriptor msg textProto errorOnUnknown =
     bind_result (parseMessageToByteString env errorOnUnknown descriptor textProto 0 False
       (BlobSink (replicate (length textProto) 0) 0 False)) (\<lambda>(ok, _, tempSink).
     if \<not> ok then Inr (BAD_INPUT, msg)
     else let (ok, msg) = iserialize (sink_data tempSink) msg in Inr (status_of_bool ok, msg))"

end
