(* ===== verification/TextFormatSpec.thy ===== *)
theory TextFormatSpec
  imports TextFormat
begin

text \<open>
  What reading a text as a message comes to: the tokens of a text are the same in any range that ends
  behind them, so the reader, which works on ranges and positions and parses messages twice, is
  equivalent to a reader of lists of tokens that gives the bytes (\<open>read_fields\<close>).
\<close>

section \<open>Tokens of a part of the text\<close>

lemma first_run_cong:
  assumes "first_run P n k" "k \<le> n'" "n' \<le> n" "\<And>j. j \<le> n' \<Longrightarrow> Q j = P j"
  shows "first_run Q n' k"
proof -
  from assms(1) obtain b where b: "1 \<le> b" "b \<le> k" "\<forall>j. 1 \<le> j \<longrightarrow> j < b \<longrightarrow> \<not> P j"
    "\<forall>j. b \<le> j \<longrightarrow> j \<le> k \<longrightarrow> P j" "k < n \<longrightarrow> \<not> P (k + 1)"
    by (auto simp: first_run_def)
  have "\<forall>j. 1 \<le> j \<longrightarrow> j < b \<longrightarrow> \<not> Q j" using b(2,3) assms(2,4) by simp
  moreover have "\<forall>j. b \<le> j \<longrightarrow> j \<le> k \<longrightarrow> Q j" using b(4) assms(2,4) by simp
  moreover have "k < n' \<longrightarrow> \<not> Q (k + 1)" using b(5) assms(3,4) by simp
  ultimately show ?thesis using b(1,2) assms(2) unfolding first_run_def by blast
qed

lemma scan_is_take:
  assumes "scan_is L input k" "k \<le> n"
  shows "scan_is L (take n input) k"
proof (cases "first_run (\<lambda>j. take j input \<in> L) (length input) k")
  case True
  then have "first_run (\<lambda>j. take j (take n input) \<in> L) (length (take n input)) k"
  proof (rule first_run_cong)
    show "k \<le> length (take n input)" using assms scan_is_bound by simp
  qed (simp_all add: min_absorb1)
  then show ?thesis by (simp add: scan_is_def scan_result_def)
next
  case False
  then have k: "k = 0" "\<And>j. 1 \<le> j \<Longrightarrow> j \<le> length input \<Longrightarrow> take j input \<notin> L"
    using assms(1) by (auto simp: scan_is_def scan_result_def)
  have "take j (take n input) \<notin> L" if "1 \<le> j" "j \<le> length (take n input)" for j
    using that k(2) [of j] by (simp add: min_absorb1)
  then show ?thesis using k(1) by (simp add: scan_is_def scan_result_def)
qed

lemma first_match_take:
  "tokenizer_is tf toks rs \<Longrightarrow> first_match (RegExPattern_scan tf) toks input = Inr (Some (i, k)) \<Longrightarrow> k \<le> n \<Longrightarrow>
   first_match (RegExPattern_scan tf) toks (take n input) = Inr (Some (i, k))"
proof (induction toks arbitrary: rs)
  case Nil
  then show ?case by simp
next
  case (Cons x toks)
  then obtain j p r rs' where x: "x = (j, p)" "pattern_scans tf p r" "tokenizer_is tf toks rs'"
    by (cases x) (auto simp: tokenizer_is_def list_all2_Cons1)
  obtain m where m: "RegExPattern_scan tf p input = Inr m" "scan_is (lang r) input m"
    using x(2) by (auto simp: pattern_scans_def)
  obtain m' where m': "RegExPattern_scan tf p (take n input) = Inr m'" "scan_is (lang r) (take n input) m'"
    using x(2) by (auto simp: pattern_scans_def)
  have "m \<le> n" using Cons.prems(2,3) m(1) x(1) by (auto split: if_splits)
  then have "m' = m" using scan_is_unique [OF m'(2) scan_is_take [OF m(2)]] by simp
  then show ?case using Cons.IH [OF x(3) _ Cons.prems(3)] Cons.prems(2) m(1) m'(1) x(1)
    by (auto split: if_splits)
qed

lemma getNextToken_take:
  assumes "tokenizer_is tf toks rs" "getNextToken tf toks jt str pos = Inr (True, t)" "m_tokenEnd t \<le> n"
  shows "getNextToken tf toks jt (take n str) pos = Inr (True, t)"
proof -
  from assms(2) obtain i k where m: "first_match (RegExPattern_scan tf) toks (drop pos str) = Inr (Some (i, k))"
    "t = Token_new i pos (pos + k)" by (auto simp: getNextToken_True)
  have "first_match (RegExPattern_scan tf) toks (take (n - pos) (drop pos str)) = Inr (Some (i, k))"
    by (rule first_match_take [OF assms(1) m(1)]) (use assms(3) m(2) in simp)
  then show ?thesis using m(2) by (auto simp: getNextToken_True drop_take)
qed

section \<open>The patterns\<close>

definition text_rexps :: "(eTokens \<times> rexp) list" where
  "text_rexps =
     [(STRING, Cat (Cat (lit_atom CHR 0x22) (Star (Atom (ReToken INV_LITERAL CHR 0x22)))) (lit_atom CHR 0x22)),
      (NUMERIC, Cat (Cat (Cat (Opt (Alt (lit_atom CHR ''-'') (lit_atom CHR ''+''))) (Plus (range_atom CHR ''d'')))
         (Opt (lit_atom CHR ''.''))) (Star (range_atom CHR ''d''))),
      (IDENTIFIER, Cat (range_atom CHR ''a'') (Star (range_atom CHR ''w''))),
      (OBRACE, lit_atom CHR ''{''),
      (CBRACE, lit_atom CHR ''}''),
      (EQUAL, lit_atom CHR ''=''),
      (COLON, lit_atom CHR '':''),
      (EOL, lit_atom CHR 0x0A),
      (WS, range_atom CHR ''s''),
      (COMMENT, Cat (Cat (Cat (lit_atom CHR ''/'') (lit_atom CHR ''/'')) (Star (range_atom CHR ''.''))) (lit_atom CHR 0x0A)),
      (MISC, range_atom CHR ''.'')]"

lemma text_patterns_are: "patterns_are 4 text_patterns text_rexps"
  by (simp add: patterns_are_def text_patterns_def text_rexps_def pattern_defs)

lemma text_tokenizer_exists:
  "\<exists>toks N. text_tokenizer 4 junk = Inr toks \<and> (\<forall>tf \<ge> N. tokenizer_is tf toks text_rexps)"
  unfolding text_tokenizer_def by (rule patterns_compile [OF text_patterns_are])

text \<open>The last pattern takes any character, so there is a token at every position but the last.\<close>

lemma text_token_exists:
  assumes "tokenizer_is tf toks text_rexps" "pos < length str"
  shows "\<exists>t. getNextToken tf toks jt str pos = Inr (True, t)"
proof -
  obtain c rest where d: "drop pos str = c # rest" using assms(2) by (metis Cons_nth_drop_Suc)
  obtain res where res: "first_match (RegExPattern_scan tf) toks (drop pos str) = Inr res"
    using first_match_total [OF assms(1)] by blast
  have "res \<noteq> None"
  proof
    assume "res = None"
    then have all: "list_all (\<lambda>(j, q). RegExPattern_scan tf q (c # rest) = Inr 0) toks"
      using res by (simp add: d rx.first_match_None)
    have l: "length toks = 11" "length text_rexps = 11"
      using assms(1) by (auto simp: tokenizer_is_def text_rexps_def dest: list_all2_lengthD)
    obtain j p where p: "toks ! 10 = (j, p)" by (cases "toks ! 10")
    have "pattern_scans tf p (range_atom CHR ''.'')"
      using list_all2_nthD2 [OF assms(1) [unfolded tokenizer_is_def], of 10] l p by (simp add: text_rexps_def)
    then obtain k where k: "RegExPattern_scan tf p (c # rest) = Inr k" "scan_is (lang (range_atom CHR ''.'')) (c # rest) k"
      unfolding pattern_scans_def by blast
    have "scan_is (lang (range_atom CHR ''.'')) (c # rest) 1" using scan_is_char [of "\<lambda>_. True" c rest] by simp
    then have "k = 1" using k(2) scan_is_unique by blast
    moreover have "RegExPattern_scan tf p (c # rest) = Inr 0"
      using spec [OF all [unfolded list_all_length], of 10] l p by simp
    ultimately show False using k(1) by simp
  qed
  then show ?thesis using res by (auto simp: getNextToken_True)
qed

section \<open>Reading lists of tokens\<close>

type_synonym text_tokens = "(eTokens \<times> string) list"

text \<open>The tokens of a text from a position to its end.\<close>

fun reads :: "text_env \<Rightarrow> string \<Rightarrow> nat \<Rightarrow> text_tokens \<Rightarrow> bool" where
  "reads env str pos [] \<longleftrightarrow> pos = length str"
| "reads env str pos ((i, x) # txs) \<longleftrightarrow>
     next_token env str pos = Inr (True, Token_new i pos (pos + length x)) \<and>
     x = take (length x) (drop pos str) \<and> reads env str (pos + length x) txs"

definition text_length :: "text_tokens \<Rightarrow> nat" where
  "text_length txs = length (concat (map snd txs))"

lemma text_length_simps [simp]:
  "text_length [] = 0" "text_length ((i, x) # txs) = length x + text_length txs"
  "text_length (us @ vs) = text_length us + text_length vs"
  by (simp_all add: text_length_def)

text \<open>
  Behind blanks; the group of tokens up to the brace that closes it, with those after it; the tokens
  of a message value with its braces, and those after it.
\<close>

definition after_ws :: "text_tokens \<Rightarrow> text_tokens" where
  "after_ws txs = dropWhile (\<lambda>(i, x). i = WS) txs"

fun read_group :: "nat \<Rightarrow> text_tokens \<Rightarrow> (text_tokens \<times> text_tokens) option" where
  "read_group depth [] = None"
| "read_group depth ((i, x) # txs) =
     (if i = CBRACE \<and> depth = 0 then Some ([(i, x)], txs)
      else map_option (\<lambda>(us, vs). ((i, x) # us, vs))
        (read_group (if i = CBRACE then depth - 1 else if i = OBRACE then depth + 1 else depth) txs))"

definition read_braces :: "text_tokens \<Rightarrow> fault + (text_tokens \<times> text_tokens) option" where
  "read_braces txs =
     (case after_ws txs of
        [] \<Rightarrow> Inl CheckFailed
      | (i, x) # ts \<Rightarrow>
          if i \<noteq> OBRACE then Inr None
          else Inr (map_option (\<lambda>(us, vs). (takeWhile (\<lambda>(i, x). i = WS) txs @ (i, x) # us, vs)) (read_group 0 ts)))"

definition read_unknown :: "text_tokens \<Rightarrow> fault + text_tokens option" where
  "read_unknown txs =
     (case after_ws txs of
        [] \<Rightarrow> Inl CheckFailed
      | (i, x) # ts \<Rightarrow>
          if i = OBRACE then Inr (map_option snd (read_group 0 ts))
          else if i = COLON
          then (case after_ws ts of
                  [] \<Rightarrow> Inr None
                | (j, y) # rest \<Rightarrow> Inr (if j = NUMERIC \<or> j = STRING then Some rest else None))
          else Inr None)"

text \<open>The bytes of a value.\<close>

definition enum_value :: "text_env \<Rightarrow> FieldDef \<Rightarrow> eTokens \<Rightarrow> string \<Rightarrow> u64 option" where
  "enum_value env fd i text =
     (if i = IDENTIFIER
      then Option.bind (FindProtoEnumByName (te_db env) (f_msgType fd)) (\<lambda>e.
           map_option (\<lambda>v. scast (f_fieldNum v)) (find (\<lambda>v. f_name v = text) (e_values e)))
      else lexical_cast_u64 text)"

definition bytes_of_string :: "string \<Rightarrow> u8 list" where
  "bytes_of_string val = varuint_bits (word_of_nat (length val)) @ bytes_of val"

fun value_bytes :: "text_env \<Rightarrow> FieldDef \<Rightarrow> eFieldType \<Rightarrow> eTokens \<Rightarrow> string \<Rightarrow> fault + u8 list option" where
  "value_bytes env fd FIELD_DOUBLE i text = Inr (Some (le_bytes (te_atof64 env text)))"
| "value_bytes env fd FIELD_FLOAT i text = Inr (Some (le_bytes (te_atof32 env text)))"
| "value_bytes env fd FIELD_FIXED32 i text =
     bind_result (lexical_cast_u32 (te_long env) text) (\<lambda>v. Inr (Some (le_bytes v)))"
| "value_bytes env fd FIELD_SFIXED32 i text =
     bind_result (lexical_cast_s32 text) (\<lambda>v. Inr (Some (le_bytes v)))"
| "value_bytes env fd FIELD_FIXED64 i text = Inr (map_option le_bytes (lexical_cast_u64 text))"
| "value_bytes env fd FIELD_SFIXED64 i text = Inr (map_option le_bytes (lexical_cast_s64 text))"
| "value_bytes env fd FIELD_UINT32 i text = Inr (map_option varuint_bits (lexical_cast_u64 text))"
| "value_bytes env fd FIELD_UINT64 i text = Inr (map_option varuint_bits (lexical_cast_u64 text))"
| "value_bytes env fd FIELD_STRING i text = Inr (Some (bytes_of_string (Unescape (TrimQuotes text))))"
| "value_bytes env fd FIELD_BYTES i text = Inr (Some (bytes_of_string (Unescape (TrimQuotes text))))"
| "value_bytes env fd FIELD_ENUM i text = Inr (map_option varuint_bits (enum_value env fd i text))"
| "value_bytes env fd FIELD_BOOL i text =
     Inr (if text = ''true'' then Some (varuint_bits 1)
          else if text = ''false'' then Some (varuint_bits 0) else None)"
| "value_bytes env fd FIELD_MSG i text = Inl CheckFailed"
| "value_bytes env fd FIELD_COUNT i text = Inr (Some [])"
| "value_bytes env fd _ i text = Inr (map_option (varuint_bits \<circ> encode_zigzag) (lexical_cast_s64 text))"

definition read_value :: "text_env \<Rightarrow> FieldDef \<Rightarrow> text_tokens \<Rightarrow> fault + (u8 list \<times> text_tokens) option" where
  "read_value env fd txs =
     (case after_ws txs of
        [] \<Rightarrow> Inl CheckFailed
      | (i, x) # ts \<Rightarrow>
          if i \<noteq> COLON then Inr None
          else (case after_ws ts of
                  [] \<Rightarrow> Inl CheckFailed
                | (j, y) # rest \<Rightarrow>
                    bind_result (value_token_ok (field_type fd) j) (\<lambda>ok.
                    if \<not> ok then Inr None
                    else bind_result (value_bytes env fd (field_type fd) j y) (\<lambda>b.
                      Inr (map_option (\<lambda>bs. (bs, rest)) b)))))"

lemma after_ws_simps [simp]:
  "after_ws [] = []" "after_ws ((WS, x) # ts) = after_ws ts" "i \<noteq> WS \<Longrightarrow> after_ws ((i, x) # ts) = (i, x) # ts"
  by (simp_all add: after_ws_def)

lemma after_ws_length: "length (after_ws txs) \<le> length txs"
  unfolding after_ws_def by (rule length_dropWhile_le)

lemma after_ws_split: "txs = takeWhile (\<lambda>(i, x). i = WS) txs @ after_ws txs"
  by (simp add: after_ws_def)

lemma read_group_split: "read_group depth txs = Some (us, vs) \<Longrightarrow> txs = us @ vs"
  by (induction depth txs arbitrary: us vs rule: read_group.induct) (auto split: if_splits)

lemma read_braces_split:
  assumes "read_braces txs = Inr (Some (us, vs))"
  shows "txs = us @ vs"
proof -
  from assms obtain i x ts where a: "after_ws txs = (i, x) # ts" by (auto simp: read_braces_def split: list.splits)
  with assms obtain gs where g: "read_group 0 ts = Some (gs, vs)" "us = takeWhile (\<lambda>(i, x). i = WS) txs @ (i, x) # gs"
    by (auto simp: read_braces_def split: if_splits)
  show ?thesis using after_ws_split [of txs] read_group_split [OF g(1)] g(2) a by simp
qed

lemma read_unknown_length: "read_unknown txs = Inr (Some vs) \<Longrightarrow> length vs \<le> length txs"
proof -
  assume r: "read_unknown txs = Inr (Some vs)"
  then obtain i x ts where a: "after_ws txs = (i, x) # ts" by (auto simp: read_unknown_def split: list.splits)
  then have l: "Suc (length ts) \<le> length txs" using after_ws_length [of txs] by simp
  have "length vs \<le> length ts" using r a after_ws_length [of ts]
    by (auto simp: read_unknown_def split: if_splits list.splits dest!: read_group_split)
  then show ?thesis using l by simp
qed

lemma read_value_length: "read_value env fd txs = Inr (Some (bs, vs)) \<Longrightarrow> length vs \<le> length txs"
proof -
  assume r: "read_value env fd txs = Inr (Some (bs, vs))"
  then obtain i x ts where a: "after_ws txs = (i, x) # ts" by (auto simp: read_value_def split: list.splits)
  with r obtain j y where b: "after_ws ts = (j, y) # vs"
    by (auto simp: read_value_def bind_result_eq_Inr split: if_splits list.splits)
  show ?thesis using a b after_ws_length [of txs] after_ws_length [of ts] by simp
qed

text \<open>
  The fields of a message, in braces or not: the bytes, or none where the result is false.
\<close>

definition add_bytes :: "u8 list \<Rightarrow> fault + u8 list option \<Rightarrow> fault + u8 list option" where
  "add_bytes b r = bind_result r (\<lambda>bs. Inr (map_option (\<lambda>bs. b @ bs) bs))"

function read_fields :: "text_env \<Rightarrow> bool \<Rightarrow> ProtoDescriptor \<Rightarrow> bool \<Rightarrow> text_tokens \<Rightarrow> fault + u8 list option" where
  "read_fields env err d opened [] = Inr (if opened then None else Some [])"
| "read_fields env err d opened ((i, x) # txs) =
     (if i = WS \<or> i = COMMENT \<or> i = EOL then read_fields env err d opened txs
      else if i = OBRACE \<and> \<not> opened then read_fields env err d True txs
      else if i = CBRACE \<and> opened then Inr (if txs = [] then Some [] else None)
      else if i \<noteq> IDENTIFIER then Inr None
      else case findFieldByName d x of
        None \<Rightarrow>
          if err then Inr None
          else bind_result (read_unknown txs) (\<lambda>r.
            case r of None \<Rightarrow> Inr None | Some rest \<Rightarrow> read_fields env err d opened rest)
      | Some fd \<Rightarrow>
          bind_result (field_tag fd) (\<lambda>tag.
          if field_type fd = FIELD_MSG
          then (case FindProtoByName (te_db env) (f_msgType fd) of
              None \<Rightarrow> Inr None
            | Some sub \<Rightarrow>
                bind_result (read_braces txs) (\<lambda>r.
                case r of
                  None \<Rightarrow> Inr None
                | Some (us, rest) \<Rightarrow>
                    bind_result (read_fields env err sub False us) (\<lambda>b.
                    case b of
                      None \<Rightarrow> Inr None
                    | Some bs \<Rightarrow>
                        add_bytes (varuint_bits (ucast tag) @ varuint_bits (word_of_nat (length bs)) @ bs)
                          (read_fields env err d opened rest))))
          else
            bind_result (read_value env fd txs) (\<lambda>r.
            case r of
              None \<Rightarrow> Inr None
            | Some (bs, rest) \<Rightarrow>
                add_bytes (varuint_bits (ucast tag) @ bs) (read_fields env err d opened rest))))"
  by pat_completeness auto
termination
proof (relation "measure (\<lambda>(env, err, d, opened, txs). length txs)", goal_cases)
  case (4 env err d opened i x txs r rest)
  then show ?case using read_unknown_length [of txs rest] by simp
next
  case (5 env err d opened i x txs fd tag sub r us rest)
  then show ?case using read_braces_split [of txs] by (cases us) auto
next
  case (6 env err d opened i x txs fd tag sub r us rest)
  then show ?case using read_braces_split [of txs] by auto
next
  case (7 env err d opened i x txs fd tag r bs rest)
  then show ?case using read_value_length [of env fd txs] by auto
qed auto

declare read_fields.simps(2) [simp del]

section \<open>Positions and tokens\<close>

definition env_ok :: "text_env \<Rightarrow> bool" where
  "env_ok env \<longleftrightarrow> tokenizer_is (te_fuel env) (te_tokenizer env) text_rexps"

lemma next_token_end: "env_ok env \<Longrightarrow> next_token env str (length str) = Inr (False, Token_empty (te_junk env))"
proof -
  assume e: "env_ok env"
  obtain res where res: "first_match (RegExPattern_scan (te_fuel env)) (te_tokenizer env) [] = Inr res"
    using first_match_total e unfolding env_ok_def by blast
  have "res = None"
  proof (cases res)
    case (Some ik)
    obtain i k where "ik = (i, k)" by (cases ik)
    then show ?thesis using rx.first_match_bounds [of "te_fuel env" "te_tokenizer env" "[]" i k] res Some by auto
  qed
  then show ?thesis using res by (simp add: next_token_def getNextToken_def)
qed

lemma next_token_new:
  assumes "next_token env str pos = Inr (True, t)"
  shows "t = Token_new (m_id t) pos (pos + length (take (m_tokenEnd t - pos) (drop pos str)))"
    "pos < m_tokenEnd t" "m_tokenEnd t \<le> length str"
proof -
  obtain i k where "t = Token_new i pos (pos + k)"
    using assms by (auto simp: next_token_def getNextToken_True)
  moreover show "pos < m_tokenEnd t" "m_tokenEnd t \<le> length str" using next_token_progress [OF assms] by simp_all
  ultimately show "t = Token_new (m_id t) pos (pos + length (take (m_tokenEnd t - pos) (drop pos str)))"
    by simp
qed

lemma reads_exists:
  assumes "env_ok env"
  shows "pos \<le> length str \<Longrightarrow> \<exists>txs. reads env str pos txs"
proof (induction "length str - pos" arbitrary: pos rule: less_induct)
  case less
  show ?case
  proof (cases "pos = length str")
    case True
    then show ?thesis by (intro exI [of _ "[]"]) simp
  next
    case False
    then obtain t where t: "next_token env str pos = Inr (True, t)"
      using text_token_exists [of "te_fuel env" "te_tokenizer env" pos str] assms less.prems
      unfolding env_ok_def next_token_def by fastforce
    define x where "x = take (m_tokenEnd t - pos) (drop pos str)"
    note n = next_token_new [OF t, folded x_def]
    have e: "pos + length x = m_tokenEnd t" using n(2,3) by (simp add: x_def)
    obtain txs where "reads env str (pos + length x) txs"
      using less.hyps [of "m_tokenEnd t", OF _ n(3)] n(2,3) unfolding e by (meson diff_less_mono2 less_le_trans)
    then have "reads env str pos ((m_id t, x) # txs)"
      using t n(1) e by (simp add: x_def)
    then show ?thesis by blast
  qed
qed

lemma reads_length: "reads env str pos txs \<Longrightarrow> pos + text_length txs = length str"
  by (induction env str pos txs rule: reads.induct) auto

lemma reads_unique: "reads env str pos us \<Longrightarrow> reads env str pos vs \<Longrightarrow> env_ok env \<Longrightarrow> us = vs"
proof (induction us arbitrary: pos vs)
  case Nil
  then show ?case by (cases vs) (auto simp: next_token_end)
next
  case (Cons u us)
  obtain i x where u: "u = (i, x)" by (cases u)
  then show ?case
  proof (cases vs)
    case Nil
    then show ?thesis using Cons.prems u by (auto simp: next_token_end)
  next
    case (Cons v vs')
    obtain j y where v: "v = (j, y)" by (cases v)
    have "Token_new i pos (pos + length x) = Token_new j pos (pos + length y)"
      using Cons.prems u v Cons by simp
    then have "i = j" "length x = length y" by (simp_all add: Token_new_def)
    moreover from this have "x = y" using Cons.prems u v Cons by (metis reads.simps(2))
    moreover have "us = vs'" using Cons.prems Cons.IH [of "pos + length y" vs'] u v Cons calculation by simp
    ultimately show ?thesis using u v Cons by simp
  qed
qed

lemma reads_append: "reads env str pos (us @ vs) \<Longrightarrow> reads env str (pos + text_length us) vs"
  by (induction us arbitrary: pos) (auto simp: add.assoc [symmetric])

lemma reads_take:
  assumes "env_ok env" "reads env str pos (us @ vs)"
  shows "reads env (take (pos + text_length us) str) pos us"
proof -
  have "reads env (take n str) pos us" if "reads env str pos (us @ vs)" "n = pos + text_length us" for n
    using that
  proof (induction us arbitrary: pos)
    case Nil
    then show ?case using reads_length [OF Nil(1)] by simp
  next
    case (Cons u us)
    obtain i x where u: "u = (i, x)" by (cases u)
    have n: "n = pos + length x + text_length us" using Cons.prems(2) u by simp
    have r: "next_token env str pos = Inr (True, Token_new i pos (pos + length x))"
      "x = take (length x) (drop pos str)" "reads env str (pos + length x) (us @ vs)"
      using Cons.prems(1) u by simp_all
    have "next_token env (take n str) pos = Inr (True, Token_new i pos (pos + length x))"
      using getNextToken_take [of "te_fuel env" "te_tokenizer env" text_rexps "te_junk env" str pos] assms(1) r(1) n
      unfolding env_ok_def next_token_def by simp
    moreover have "x = take (length x) (drop pos (take n str))"
      using r(2) n by (simp add: drop_take min_absorb1)
    ultimately show ?case using Cons.IH [OF r(3) n] u by simp
  qed
  then show ?thesis using assms(2) by blast
qed

lemma token_text_reads:
  "x = take (length x) (drop pos str) \<Longrightarrow> Token_getToken str (Token_new i pos (pos + length x)) = Inr x"
  by (simp add: Token_getToken_def Token_new_def)

section \<open>The loops on tokens\<close>

lemma skip_ws_reads:
  assumes "env_ok env"
  shows "reads env str pos txs \<Longrightarrow>
    (case after_ws txs of
       [] \<Rightarrow> skip_ws env str pos = Inr (Token_empty (te_junk env), length str)
     | (i, x) # ts \<Rightarrow>
         let b = pos + text_length (takeWhile (\<lambda>(i, x). i = WS) txs); e = b + length x in
         skip_ws env str pos = Inr (Token_new i b e, e) \<and> reads env str e ts \<and>
         Token_getToken str (Token_new i b e) = Inr x)"
proof (induction txs arbitrary: pos)
  case Nil
  then show ?case using next_token_end [OF assms]
    by (simp add: skip_ws.simps [of env str "length str"])
next
  case (Cons t txs)
  obtain i x where t: "t = (i, x)" by (cases t)
  have r: "next_token env str pos = Inr (True, Token_new i pos (pos + length x))"
    "x = take (length x) (drop pos str)" "reads env str (pos + length x) txs"
    using Cons.prems t by simp_all
  show ?case
  proof (cases "i = WS")
    case True
    have "skip_ws env str pos = skip_ws env str (pos + length x)"
      using r(1) True by (subst skip_ws.simps) simp
    moreover have "pos + text_length (takeWhile (\<lambda>(i, x). i = WS) (t # txs)) =
        pos + length x + text_length (takeWhile (\<lambda>(i, x). i = WS) txs)"
      using True t by simp
    ultimately show ?thesis using Cons.IH [OF r(3)] unfolding t True after_ws_simps by (simp only:)
  next
    case False
    have "skip_ws env str pos = Inr (Token_new i pos (pos + length x), pos + length x)"
      using r(1) False by (subst skip_ws.simps) simp
    then show ?thesis using False t r(3) token_text_reads [OF r(2)] by (simp add: Let_def)
  qed
qed

lemma skip_single_reads:
  assumes "env_ok env"
  shows "reads env str pos txs \<Longrightarrow>
    (case after_ws txs of
       [] \<Rightarrow> skip_single_loop env str pos = Inr None
     | (i, x) # ts \<Rightarrow>
         if i = NUMERIC \<or> i = STRING
         then \<exists>p. skip_single_loop env str pos = Inr (Some p) \<and> reads env str p ts
         else skip_single_loop env str pos = Inr None)"
proof (induction txs arbitrary: pos)
  case Nil
  then show ?case using next_token_end [OF assms]
    by (simp add: skip_single_loop.simps [of env str "length str"])
next
  case (Cons t txs)
  obtain i x where t: "t = (i, x)" by (cases t)
  have r: "next_token env str pos = Inr (True, Token_new i pos (pos + length x))"
    "reads env str (pos + length x) txs"
    using Cons.prems t by simp_all
  show ?case
  proof (cases "i = WS")
    case True
    have "skip_single_loop env str pos = skip_single_loop env str (pos + length x)"
      using r(1) True by (subst skip_single_loop.simps) simp
    then show ?thesis unfolding t True after_ws_simps using Cons.IH [OF r(2)] by (simp only:)
  next
    case False
    then show ?thesis using t r by (simp add: skip_single_loop.simps [of env str pos])
  qed
qed

lemma skip_group_reads:
  assumes "env_ok env"
  shows "reads env str pos txs \<Longrightarrow>
    (case read_group depth txs of
       None \<Rightarrow> skip_group_loop env str (int depth) pos = Inr None
     | Some (us, vs) \<Rightarrow>
         skip_group_loop env str (int depth) pos = Inr (Some (pos + text_length us)) \<and>
         reads env str (pos + text_length us) vs)"
proof (induction txs arbitrary: pos depth)
  case Nil
  then show ?case using next_token_end [OF assms]
    by (simp add: skip_group_loop.simps [of env str _ "length str"])
next
  case (Cons t txs)
  obtain i x where t: "t = (i, x)" by (cases t)
  have r: "next_token env str pos = Inr (True, Token_new i pos (pos + length x))"
    "reads env str (pos + length x) txs"
    using Cons.prems t by simp_all
  show ?case
  proof (cases "i = CBRACE \<and> depth = 0")
    case True
    then show ?thesis using t r by (subst skip_group_loop.simps) simp
  next
    case False
    let ?d = "if i = CBRACE then depth - 1 else if i = OBRACE then depth + 1 else depth"
    have "skip_group_loop env str (int depth) pos = skip_group_loop env str (int ?d) (pos + length x)"
      using r(1) False by (subst skip_group_loop.simps) (auto simp: of_nat_diff add.commute)
    then show ?thesis using Cons.IH [OF r(2), of ?d] False t
      by (auto simp: add.assoc split: option.splits)
  qed
qed

section \<open>Writing\<close>

text \<open>
  The sinks the reader is used with: one that counts, and a blob. What they have taken after bytes were
  written, in any number of writes: a blob keeps those it has room for.
\<close>

fun plain_sink :: "sink \<Rightarrow> bool" where
  "plain_sink (FakeSink n f) \<longleftrightarrow> n < 2 ^ 64"
| "plain_sink (BlobSink d p f) \<longleftrightarrow> p \<le> length d"
| "plain_sink s \<longleftrightarrow> False"

fun took :: "sink \<Rightarrow> u8 list \<Rightarrow> sink \<Rightarrow> bool" where
  "took (FakeSink n f) bs s' \<longleftrightarrow> (\<exists>f'. s' = FakeSink ((n + length bs) mod 2 ^ 64) f')"
| "took (BlobSink d p f) bs s' \<longleftrightarrow>
     (\<exists>f'. s' = BlobSink (take p d @ take (length d - p) bs @ drop (p + length bs) d) (min (length d) (p + length bs)) f')"
| "took s bs s' \<longleftrightarrow> False"

lemma took_nothing: "plain_sink s \<Longrightarrow> took s [] s"
  by (cases s) auto

lemma took_plain: "plain_sink s \<Longrightarrow> took s bs s' \<Longrightarrow> plain_sink s'"
  by (cases s) auto

lemma took_more:
  assumes "plain_sink s" "took s as s1" "took s1 bs s2"
  shows "took s (as @ bs) s2"
proof (cases s)
  case (FakeSink n f)
  then show ?thesis using assms by (auto simp: mod_add_left_eq add.assoc)
next
  case (BlobSink d p f)
  with assms(1) have p: "p \<le> length d" by simp
  obtain f1 where s1: "s1 = BlobSink (take p d @ take (length d - p) as @ drop (p + length as) d) (min (length d) (p + length as)) f1"
    using assms(2) BlobSink by auto
  show ?thesis
  proof (cases "p + length as \<le> length d")
    case True
    then show ?thesis using assms(3) BlobSink s1 p by (auto simp: ac_simps)
  next
    case False
    then show ?thesis using assms(3) BlobSink s1 p by auto
  qed
qed (use assms in auto)

lemma sink_write_took: "plain_sink s \<Longrightarrow> \<exists>s' n. sink_write s bs = Inr (s', n) \<and> took s bs s'"
  by (cases s) (auto simp: Let_def min_def)

lemma took_set_fail: "took s bs s' \<Longrightarrow> took s bs (set_fail s')"
  by (cases s) auto

lemma put_bytes_took: "plain_sink s \<Longrightarrow> \<exists>s'. put_bytes s bs = Inr s' \<and> took s bs s'"
  using sink_write_took [of s bs] took_set_fail by (fastforce simp: put_bytes_def)

lemma oser_took:
  assumes "plain_sink s"
  shows "\<exists>s'. oser_VarUInt s v = Inr s' \<and> took s (varuint_bits v) s'"
    "\<exists>s'. oser_VarInt s v = Inr s' \<and> took s (varuint_bits (encode_zigzag v)) s'"
    "\<exists>s'. oser_pod s w = Inr s' \<and> took s (le_bytes w) s'"
    "\<exists>s'. write_string s val = Inr s' \<and> took s (bytes_of_string val) s'"
proof -
  show v: "\<exists>s'. oser_VarUInt s v = Inr s' \<and> took s (varuint_bits v) s'" for v
    using put_bytes_took [OF assms] by (simp add: oser_VarUInt_def)
  then show "\<exists>s'. oser_VarInt s v = Inr s' \<and> took s (varuint_bits (encode_zigzag v)) s'"
    by (simp add: oser_VarInt_def encode_zigzag_def)
  show "\<exists>s'. oser_pod s w = Inr s' \<and> took s (le_bytes w) s'"
    using put_bytes_took [OF assms] by (simp add: oser_pod_def)
  obtain s1 where s1: "oser_VarUInt s (word_of_nat (length val)) = Inr s1"
    "took s (varuint_bits (word_of_nat (length val))) s1" using v by blast
  obtain s2 n where s2: "sink_write s1 (bytes_of val) = Inr (s2, n)" "took s1 (bytes_of val) s2"
    using sink_write_took took_plain [OF assms s1(2)] by blast
  show "\<exists>s'. write_string s val = Inr s' \<and> took s (bytes_of_string val) s'"
    using s1 s2 took_more [OF assms s1(2) s2(2)] by (simp add: write_string_def bytes_of_string_def)
qed

text \<open>A call that writes the bytes of an optional value, or fails as its specification does.\<close>

definition writes_option :: "sink \<Rightarrow> fault + u8 list option \<Rightarrow> fault + bool \<times> sink \<Rightarrow> bool" where
  "writes_option s spec r =
     (case spec of
        Inl e \<Rightarrow> r = Inl e
      | Inr None \<Rightarrow> \<exists>s'. r = Inr (False, s')
      | Inr (Some bs) \<Rightarrow> \<exists>s'. r = Inr (True, s') \<and> took s bs s')"

lemma put_option_writes:
  assumes "\<And>x. \<exists>s'. put x = Inr s' \<and> took s (f x) s'"
  shows "writes_option s (Inr (map_option f v)) (put_option put s v)"
proof (cases v)
  case (Some x)
  then show ?thesis using assms [of x] by (auto simp: writes_option_def put_option_def)
qed (simp add: writes_option_def put_option_def)

lemma write_enum_value: "write_enum env fd i text s = put_option (oser_VarUInt s) s (enum_value env fd i text)"
  by (auto simp: write_enum_def enum_value_def put_option_def split: option.splits)

lemma write_value_writes:
  assumes "plain_sink s"
  shows "writes_option s (value_bytes env fd t i text) (write_value env fd t i text s)"
proof -
  note o = oser_took [OF assms]
  have v: "writes_option s (Inr (map_option varuint_bits x)) (put_option (oser_VarUInt s) s x)" for x
    by (rule put_option_writes) (rule o(1))
  have z: "writes_option s (Inr (map_option (varuint_bits \<circ> encode_zigzag) x)) (put_option (oser_VarInt s) s x)" for x
    by (rule put_option_writes) (simp add: o(2))
  have p: "writes_option s (Inr (map_option le_bytes x)) (put_option (oser_pod s) s x)"
    for x :: "'b :: len word option" by (rule put_option_writes) (rule o(3))
  have w: "writes_option s (Inr (map_option bytes_of_string x)) (put_option (write_string s) s x)" for x
    by (rule put_option_writes) (rule o(4))
  have b: "writes_option s (bind_result m (\<lambda>v. Inr (Some (le_bytes v))))
      (bind_result m (\<lambda>v. put_option (oser_pod s) s (Some v)))" for m :: "fault + 'b :: len word"
    using p [of "Some _"] by (cases m) (simp_all add: writes_option_def)
  show ?thesis
  proof (cases t)
    case FIELD_BOOL
    then show ?thesis using v [of "Some 1"] v [of "Some 0"] v [of None] by simp
  next
    case FIELD_COUNT
    then show ?thesis using took_nothing [OF assms] by (simp add: writes_option_def)
  next
    case FIELD_MSG
    then show ?thesis by (simp add: writes_option_def)
  next
    case FIELD_ENUM
    then show ?thesis using v by (simp add: write_enum_value)
  next
    case FIELD_DOUBLE
    then show ?thesis using p [of "Some _"] by simp
  next
    case FIELD_FLOAT
    then show ?thesis using p [of "Some _"] by simp
  next
    case FIELD_STRING
    then show ?thesis using w [of "Some _"] by simp
  next
    case FIELD_BYTES
    then show ?thesis using w [of "Some _"] by simp
  qed (simp_all add: v z p b)
qed

section \<open>The reader of texts and the reader of tokens\<close>

lemma reads_not_end: "env_ok env \<Longrightarrow> reads env str pos txs \<Longrightarrow> txs \<noteq> [] \<Longrightarrow> pos \<noteq> length str"
  by (cases txs) (auto simp: next_token_end)

lemma skip_braces_reads:
  assumes "env_ok env" "reads env str pos txs"
  shows "case read_braces txs of
      Inl e \<Rightarrow> bind_result (FieldSkipper_new env str pos) (\<lambda>fs. skipFieldGroup env str fs) = Inl e
    | Inr None \<Rightarrow> bind_result (FieldSkipper_new env str pos) (\<lambda>fs. skipFieldGroup env str fs) = Inr None \<and> pos \<noteq> length str
    | Inr (Some (us, vs)) \<Rightarrow>
        bind_result (FieldSkipper_new env str pos) (\<lambda>fs. skipFieldGroup env str fs) = Inr (Some (pos + text_length us)) \<and>
        reads env str (pos + text_length us) vs"
proof (cases "after_ws txs")
  case Nil
  then show ?thesis using skip_ws_reads [OF assms]
    by (simp add: read_braces_def FieldSkipper_new_def skipFieldGroup_def Token_getId_def)
next
  case (Cons t ts)
  obtain i x where t: "t = (i, x)" by (cases t)
  let ?w = "takeWhile (\<lambda>(i, x). i = WS) txs"
  let ?e = "pos + text_length ?w + length x"
  have sk: "skip_ws env str pos = Inr (Token_new i (pos + text_length ?w) ?e, ?e)" "reads env str ?e ts"
    using skip_ws_reads [OF assms] Cons t by (simp_all add: Let_def)
  have ne: "pos \<noteq> length str" using reads_not_end [OF assms] Cons by (cases txs) auto
  show ?thesis
  proof (cases "i = OBRACE")
    case True
    have "skip_group_loop env str 0 ?e = (case read_group 0 ts of
        None \<Rightarrow> Inr None | Some (us, vs) \<Rightarrow> Inr (Some (?e + text_length us)))"
      "case read_group 0 ts of None \<Rightarrow> True | Some (us, vs) \<Rightarrow> reads env str (?e + text_length us) vs"
      using skip_group_reads [OF assms(1) sk(2), of 0] by (auto split: option.splits)
    then show ?thesis using Cons t sk True ne
      by (auto simp: read_braces_def FieldSkipper_new_def skipFieldGroup_def ac_simps split: option.splits)
  next
    case False
    then show ?thesis using Cons t sk ne
      by (simp add: read_braces_def FieldSkipper_new_def skipFieldGroup_def)
  qed
qed

lemma skip_unknown_reads:
  assumes "env_ok env" "reads env str pos txs"
  shows "case read_unknown txs of
      Inl e \<Rightarrow> bind_result (FieldSkipper_new env str pos) (\<lambda>fs. skipField env str fs) = Inl e
    | Inr None \<Rightarrow> bind_result (FieldSkipper_new env str pos) (\<lambda>fs. skipField env str fs) = Inr None \<and> pos \<noteq> length str
    | Inr (Some vs) \<Rightarrow>
        (\<exists>p. bind_result (FieldSkipper_new env str pos) (\<lambda>fs. skipField env str fs) = Inr (Some p) \<and> reads env str p vs)"
proof (cases "after_ws txs")
  case Nil
  then show ?thesis using skip_ws_reads [OF assms]
    by (simp add: read_unknown_def FieldSkipper_new_def skipField_def Token_getId_def)
next
  case (Cons t ts)
  obtain i x where t: "t = (i, x)" by (cases t)
  let ?w = "takeWhile (\<lambda>(i, x). i = WS) txs"
  let ?e = "pos + text_length ?w + length x"
  have sk: "skip_ws env str pos = Inr (Token_new i (pos + text_length ?w) ?e, ?e)" "reads env str ?e ts"
    using skip_ws_reads [OF assms] Cons t by (simp_all add: Let_def)
  have ne: "pos \<noteq> length str" using reads_not_end [OF assms] Cons by (cases txs) auto
  consider "i = OBRACE" | "i = COLON" | "i \<noteq> OBRACE" "i \<noteq> COLON" by blast
  then show ?thesis
  proof cases
    case 1
    then show ?thesis using Cons t sk ne skip_group_reads [OF assms(1) sk(2), of 0]
      by (auto simp: read_unknown_def FieldSkipper_new_def skipField_def skipFieldGroup_def split: option.splits)
  next
    case 2
    then show ?thesis using Cons t sk ne skip_single_reads [OF assms(1) sk(2)]
      by (auto simp: read_unknown_def FieldSkipper_new_def skipField_def skipFieldSingle_def split: list.splits if_splits)
  next
    case 3
    then show ?thesis using Cons t sk ne
      by (simp add: read_unknown_def FieldSkipper_new_def skipField_def)
  qed
qed

lemma parse_single_reads:
  assumes "env_ok env" "reads env str pos txs" "plain_sink buffer"
  shows "case read_value env fd txs of
      Inl e \<Rightarrow> parse_single env fd str pos buffer = Inl e
    | Inr None \<Rightarrow> (\<exists>p s. parse_single env fd str pos buffer = Inr (False, p, s))
    | Inr (Some (bs, rest)) \<Rightarrow>
        (\<exists>p s. parse_single env fd str pos buffer = Inr (True, p, s) \<and> took buffer bs s \<and> reads env str p rest)"
proof (cases "after_ws txs")
  case Nil
  then show ?thesis using skip_ws_reads [OF assms(1,2)]
    by (simp add: read_value_def parse_single_def Token_getId_def)
next
  case (Cons t ts)
  obtain i x where t: "t = (i, x)" by (cases t)
  let ?w = "takeWhile (\<lambda>(i, x). i = WS) txs"
  let ?e = "pos + text_length ?w + length x"
  have sk: "skip_ws env str pos = Inr (Token_new i (pos + text_length ?w) ?e, ?e)" "reads env str ?e ts"
    using skip_ws_reads [OF assms(1,2)] Cons t by (simp_all add: Let_def)
  show ?thesis
  proof (cases "i = COLON")
    case False
    then show ?thesis using Cons t sk by (simp add: read_value_def parse_single_def)
  next
    case colon: True
    show ?thesis
    proof (cases "after_ws ts")
      case Nil
      then show ?thesis using Cons t sk colon skip_ws_reads [OF assms(1) sk(2)]
        by (simp add: read_value_def parse_single_def Token_getId_def)
    next
      case (Cons u rest)
      obtain j y where u: "u = (j, y)" by (cases u)
      let ?b = "?e + text_length (takeWhile (\<lambda>(i, x). i = WS) ts)"
      have sl: "skip_ws env str ?e = Inr (Token_new j ?b (?b + length y), ?b + length y)"
        "reads env str (?b + length y) rest" "Token_getToken str (Token_new j ?b (?b + length y)) = Inr y"
        using skip_ws_reads [OF assms(1) sk(2)] Cons u by (simp_all add: Let_def)
      show ?thesis
        using write_value_writes [OF assms(3), of env fd "field_type fd" j y] sl sk colon
          \<open>after_ws txs = t # ts\<close> t Cons u
        by (cases "value_token_ok (field_type fd) j")
          (auto simp: read_value_def parse_single_def writes_option_def split: sum.splits option.splits)
    qed
  qed
qed

lemma parse_reads:
  assumes env: "env_ok env"
  shows "reads env str pos txs \<Longrightarrow> plain_sink buffer \<Longrightarrow>
    case read_fields env err d opened txs of
      Inl e \<Rightarrow> parseMessageToByteString env err d str pos opened buffer = Inl e
    | Inr None \<Rightarrow> (\<exists>p s. parseMessageToByteString env err d str pos opened buffer = Inr (False, p, s))
    | Inr (Some bs) \<Rightarrow>
        (\<exists>s. parseMessageToByteString env err d str pos opened buffer = Inr (True, length str, s) \<and> took buffer bs s)"
  using env
proof (induction env err d opened txs arbitrary: str pos buffer rule: read_fields.induct)
  case (1 env err d opened)
  then show ?case using next_token_end [of env str] took_nothing
    by (auto simp: parseMessageToByteString.simps [of env err d str "length str"] parse_finish_def)
next
  case (2 env err d opened i x txs)
  note env = 2(9)
  have r: "next_token env str pos = Inr (True, Token_new i pos (pos + length x))"
    "x = take (length x) (drop pos str)" "reads env str (pos + length x) txs"
    using 2(7) by simp_all
  note tx = token_text_reads [OF r(2), of i]
  note unfold = parseMessageToByteString.simps [of env err d str pos opened buffer] read_fields.simps(2) [of env err d opened i x txs]
  let ?pos = "pos + length x"
  consider "i = WS \<or> i = COMMENT \<or> i = EOL" | "i = OBRACE \<and> \<not> opened" | "i = CBRACE \<and> opened"
    | (ident) "i = IDENTIFIER"
    | "\<not> (i = WS \<or> i = COMMENT \<or> i = EOL)" "\<not> (i = OBRACE \<and> \<not> opened)" "\<not> (i = CBRACE \<and> opened)" "i \<noteq> IDENTIFIER"
    by blast
  then show ?case
  proof cases
    case 1
    have step: "parseMessageToByteString env err d str pos opened buffer =
        parseMessageToByteString env err d str ?pos opened buffer" using 1 r(1) unfolding unfold by auto
    have spec: "read_fields env err d opened ((i, x) # txs) = read_fields env err d opened txs"
      using 1 unfolding unfold by simp
    show ?thesis unfolding step spec by (rule "2.IH"(1) [OF 1 r(3) "2.prems"(2) env])
  next
    case 2
    have step: "parseMessageToByteString env err d str pos opened buffer =
        parseMessageToByteString env err d str ?pos True buffer" using 2 r(1) unfolding unfold by auto
    have spec: "read_fields env err d opened ((i, x) # txs) = read_fields env err d True txs"
      using 2 unfolding unfold by simp
    show ?thesis unfolding step spec by (rule "2.IH"(2) [OF _ 2 r(3) "2.prems"(2) env]) (use 2 in simp)
  next
    case 3
    then show ?thesis using r(1,3) reads_not_end [OF env r(3)] took_nothing [OF "2.prems"(2)]
      unfolding unfold by (cases "txs = []") (auto simp: parse_finish_def)
  next
    case 5
    then show ?thesis using r(1) unfolding unfold by auto
  next
    case ident
    show ?thesis
    proof (cases "findFieldByName d x")
      case None
      show ?thesis
      proof (cases err)
        case True
        then show ?thesis using None ident r(1) tx unfolding unfold by simp
      next
        case False
        note sk = skip_unknown_reads [OF env r(3)]
        show ?thesis
        proof (cases "read_unknown txs")
          case (Inl e)
          then show ?thesis using sk None False ident r(1) tx unfolding unfold by simp
        next
          case (Inr res)
          show ?thesis
          proof (cases res)
            case None
            then show ?thesis using sk Inr \<open>findFieldByName d x = None\<close> False ident r(1) tx
              unfolding unfold by (simp add: parse_finish_def)
          next
            case (Some rest)
            then obtain p where p: "bind_result (FieldSkipper_new env str ?pos) (\<lambda>fs. skipField env str fs) = Inr (Some p)"
              "reads env str p rest" using sk Inr by auto
            have step: "parseMessageToByteString env err d str pos opened buffer =
                parseMessageToByteString env err d str p opened buffer"
              using p(1) None False ident r(1) tx unfolding unfold by simp
            have spec: "read_fields env err d opened ((i, x) # txs) = read_fields env err d opened rest"
              using Inr Some None False ident unfolding unfold by simp
            show ?thesis unfolding step spec
              by (rule "2.IH"(3) [OF _ _ _ _ None False Inr Some p(2) "2.prems"(2) env]) (simp_all add: ident)
          qed
        qed
      qed
    next
      case (Some fd)
      show ?thesis
      proof (cases "field_tag fd")
        case (Inl e)
        then show ?thesis using Some ident r(1) tx unfolding unfold by simp
      next
        case (Inr tag)
        obtain b1 where b1: "oser_VarUInt buffer (ucast tag) = Inr b1" "took buffer (varuint_bits (ucast tag)) b1"
          using oser_took(1) [OF "2.prems"(2)] by blast
        have pb1: "plain_sink b1" using took_plain [OF "2.prems"(2) b1(2)] .
        show ?thesis
        proof (cases "field_type fd = FIELD_MSG")
          case msg: True
          show ?thesis
          proof (cases "FindProtoByName (te_db env) (f_msgType fd)")
            case None
            then show ?thesis using msg Some Inr ident r(1) tx b1(1) unfolding unfold by simp
          next
            case sub: (Some sub)
            note sk = skip_braces_reads [OF env r(3)]
            show ?thesis
            proof (cases "read_braces txs")
              case (Inl e)
              then show ?thesis using sk sub msg Some Inr ident r(1) tx b1(1) unfolding unfold by simp
            next
              case rb: (Inr res)
              show ?thesis
              proof (cases res)
                case None
                then show ?thesis using sk rb sub msg Some Inr ident r(1) tx b1(1)
                  unfolding unfold by (simp add: parse_finish_def)
              next
                case res: (Some y)
                obtain us rest where y: "y = (us, rest)" by (cases y)
                let ?p = "?pos + text_length us"
                have p: "bind_result (FieldSkipper_new env str ?pos) (\<lambda>fs. skipFieldGroup env str fs) = Inr (Some ?p)"
                  "reads env str ?p rest" using sk rb res y by simp_all
                have us: "reads env (take ?p str) ?pos us"
                  using reads_take [OF env] read_braces_split [of txs us rest] rb res y r(3) by simp
                have len: "length (take ?p str) = ?p" using reads_length [OF us] by simp
                note IH = "2.IH"(4) [OF _ _ _ _ Some Inr msg sub rb res y [symmetric] us _ env]
                have fake: "plain_sink (FakeSink 0 False)" by simp
                show ?thesis
                proof (cases "read_fields env err sub False us")
                  case (Inl e)
                  then show ?thesis using IH [OF _ _ _ _ fake] sub rb res y p(1) msg Some Inr ident r(1) tx b1(1)
                    unfolding unfold by simp
                next
                  case m: (Inr b)
                  show ?thesis
                  proof (cases b)
                    case None
                    then obtain q s where "parseMessageToByteString env err sub (take ?p str) ?pos False (FakeSink 0 False) =
                        Inr (False, q, s)" using IH [OF _ _ _ _ fake] m ident by auto
                    then show ?thesis using m None sub rb res y p(1) msg Some Inr ident r(1) tx b1(1)
                      unfolding unfold by simp
                  next
                    case b: (Some bs)
                    obtain f where c1: "parseMessageToByteString env err sub (take ?p str) ?pos False (FakeSink 0 False) =
                        Inr (True, ?p, FakeSink (length bs mod 2 ^ 64) f)"
                      using IH [OF _ _ _ _ fake] m b ident len by auto
                    have sz: "(word_of_nat (length bs mod 2 ^ 64) :: u64) = word_of_nat (length bs)"
                      by (simp add: unsigned_of_nat word_of_nat_eq_iff take_bit_eq_mod)
                    obtain b2 where b2: "oser_VarUInt b1 (word_of_nat (length bs)) = Inr b2"
                      "took b1 (varuint_bits (word_of_nat (length bs))) b2" using oser_took(1) [OF pb1] by blast
                    have pb2: "plain_sink b2" using took_plain [OF pb1 b2(2)] .
                    obtain b3 where b3: "parseMessageToByteString env err sub (take ?p str) ?pos False b2 = Inr (True, ?p, b3)"
                      "took b2 bs b3" using IH [OF _ _ _ _ pb2] m b ident len by auto
                    have pb3: "plain_sink b3" using took_plain [OF pb2 b3(2)] .
                    have t: "took buffer (varuint_bits (ucast tag) @ varuint_bits (word_of_nat (length bs)) @ bs) b3"
                      using took_more [OF "2.prems"(2) b1(2) took_more [OF pb1 b2(2) b3(2)]] .
                    have step: "parseMessageToByteString env err d str pos opened buffer =
                        parseMessageToByteString env err d str ?p opened b3"
                      using sub p(1) msg Some Inr ident r(1) tx b1(1) c1 sz b2(1) b3(1) unfolding unfold by simp
                    have spec: "read_fields env err d opened ((i, x) # txs) =
                        add_bytes (varuint_bits (ucast tag) @ varuint_bits (word_of_nat (length bs)) @ bs)
                          (read_fields env err d opened rest)"
                      using Some Inr msg sub rb res y m b ident unfolding unfold by simp
                    note IH2 = "2.IH"(5) [OF _ _ _ _ Some Inr msg sub rb res y [symmetric] m b p(2) pb3 env]
                    show ?thesis
                      using IH2 ident took_more [OF "2.prems"(2) t] unfolding step spec add_bytes_def
                      by (cases "read_fields env err d opened rest") (auto split: option.splits)
                  qed
                qed
              qed
            qed
          qed
        next
          case False
          note sg = parse_single_reads [OF env r(3) pb1, of fd]
          show ?thesis
          proof (cases "read_value env fd txs")
            case (Inl e)
            then show ?thesis using sg Some Inr False ident r(1) tx b1(1) unfolding unfold by simp
          next
            case v: (Inr res)
            show ?thesis
            proof (cases res)
              case None
              then obtain p s where "parse_single env fd str ?pos b1 = Inr (False, p, s)" using sg v by auto
              then show ?thesis using v None Some Inr False ident r(1) tx b1(1) unfolding unfold by simp
            next
              case res: (Some y)
              obtain bs rest where y: "y = (bs, rest)" by (cases y)
              obtain p s where p: "parse_single env fd str ?pos b1 = Inr (True, p, s)" "took b1 bs s" "reads env str p rest"
                using sg v res y by auto
              have ps: "plain_sink s" using took_plain [OF pb1 p(2)] .
              have t: "took buffer (varuint_bits (ucast tag) @ bs) s" using took_more [OF "2.prems"(2) b1(2) p(2)] .
              note IH = "2.IH"(6) [OF _ _ _ _ Some Inr False v res y [symmetric] p(3) ps env]
              have step: "parseMessageToByteString env err d str pos opened buffer =
                  parseMessageToByteString env err d str p opened s"
                using Some Inr False ident r(1) tx b1(1) p(1) unfolding unfold by simp
              have spec: "read_fields env err d opened ((i, x) # txs) =
                  add_bytes (varuint_bits (ucast tag) @ bs) (read_fields env err d opened rest)"
                using Some Inr False ident v res y unfolding unfold by simp
              show ?thesis
                using IH ident took_more [OF "2.prems"(2) t] unfolding step spec add_bytes_def
                by (cases "read_fields env err d opened rest") (auto split: option.splits)
            qed
          qed
        qed
      qed
    qed
  qed
qed

section \<open>Faults\<close>

text \<open>A token is asked for its id where there is none, or an operation of a number is not defined.\<close>

definition text_faults :: "fault set" where
  "text_faults = {CheckFailed, Undefined, NotRepresentable}"

lemma value_faults:
  "result_ok text_faults (\<lambda>_. True) (value_bytes env fd t i text)"
  "result_ok text_faults (\<lambda>_. True) (value_token_ok t i)"
  by (cases t; auto simp: text_faults_def lexical_cast_u32_def lexical_cast_s32_def)+

lemma tag_faults: "result_ok text_faults (\<lambda>_. True) (field_tag fd)"
  by (cases "field_type fd") (simp_all add: field_tag_def text_faults_def)

lemma read_value_faults: "result_ok text_faults (\<lambda>_. True) (read_value env fd txs)"
  unfolding read_value_def
  by (auto split: list.splits intro!: result_ok_bind [OF value_faults(1)] result_ok_bind [OF value_faults(2)])
    (simp_all add: text_faults_def)

lemma read_group_faults:
  "result_ok text_faults (\<lambda>_. True) (read_braces txs)" "result_ok text_faults (\<lambda>_. True) (read_unknown txs)"
  by (auto simp: read_braces_def read_unknown_def text_faults_def split: list.splits)

lemma add_bytes_faults:
  "result_ok text_faults (\<lambda>_. True) r \<Longrightarrow> result_ok text_faults (\<lambda>_. True) (add_bytes bs r)"
  unfolding add_bytes_def by (erule result_ok_bind) simp

lemma read_fields_faults: "result_ok text_faults (\<lambda>_. True) (read_fields env err d opened txs)"
proof (induction "length txs" arbitrary: err d opened txs rule: less_induct)
  case (less txs)
  show ?case
  proof (cases txs)
    case (Cons t us)
    obtain i x where t: "t = (i, x)" by (cases t)
    have IH: "result_ok text_faults (\<lambda>_. True) (read_fields env err d opened vs)" if "length vs \<le> length us" for err d opened vs
      using less that Cons by simp
    have unknown: "result_ok text_faults (\<lambda>_. True) (bind_result (read_unknown us) (\<lambda>r.
        case r of None \<Rightarrow> Inr None | Some rest \<Rightarrow> read_fields env err d opened rest))" for err
    proof (rule result_ok_bind [OF read_group_faults(2)])
      fix r assume "read_unknown us = Inr r"
      then show "result_ok text_faults (\<lambda>_. True) (case r of None \<Rightarrow> Inr None | Some rest \<Rightarrow> read_fields env err d opened rest)"
        using read_unknown_length [of us] by (cases r) (auto intro!: IH)
    qed
    have sub: "result_ok text_faults (\<lambda>_. True) (bind_result (read_braces us) (\<lambda>r.
        case r of
          None \<Rightarrow> Inr None
        | Some (ws, rest) \<Rightarrow>
            bind_result (read_fields env err e False ws) (\<lambda>b.
            case b of
              None \<Rightarrow> Inr None
            | Some bs \<Rightarrow>
                add_bytes (varuint_bits (ucast tag) @ varuint_bits (word_of_nat (length bs)) @ bs)
                  (read_fields env err d opened rest))))" for err e and tag :: u32
    proof (rule result_ok_bind [OF read_group_faults(1)], goal_cases)
      case (1 r)
      show ?case
      proof (cases r)
        case (Some y)
        obtain ws rest where y: "y = (ws, rest)" by (cases y)
        have len: "length ws \<le> length us" "length rest \<le> length us"
          using read_braces_split [of us ws rest] 1 Some y by auto
        have "result_ok text_faults (\<lambda>_. True) (bind_result (read_fields env err e False ws) (\<lambda>b.
            case b of
              None \<Rightarrow> Inr None
            | Some bs \<Rightarrow>
                add_bytes (varuint_bits (ucast tag) @ varuint_bits (word_of_nat (length bs)) @ bs)
                  (read_fields env err d opened rest)))"
          by (rule result_ok_bind [OF IH [OF len(1)]]) (simp add: add_bytes_faults IH [OF len(2)] split: option.splits)
        then show ?thesis using Some y by simp
      qed simp
    qed
    have single: "result_ok text_faults (\<lambda>_. True) (bind_result (read_value env fd us) (\<lambda>r.
        case r of
          None \<Rightarrow> Inr None
        | Some (bs, rest) \<Rightarrow> add_bytes (varuint_bits (ucast tag) @ bs) (read_fields env err d opened rest)))"
      for err fd and tag :: u32
    proof (rule result_ok_bind [OF read_value_faults], goal_cases)
      case (1 r)
      then show ?case
        using read_value_length [of env fd us] by (auto simp: add_bytes_faults IH split: option.splits)
    qed
    show ?thesis
      unfolding Cons t read_fields.simps(2)
      by (auto simp: IH split: option.splits intro!: result_ok_bind [OF tag_faults] unknown sub single)
  qed simp
qed

section \<open>Parsing\<close>

lemma took_blob:
  "took (BlobSink (replicate n 0) 0 False) bs s \<Longrightarrow> sink_data s = take n bs"
  by (auto simp: min_def)

lemma parse_text_reads:
  assumes "env_ok env" "reads env textProto 0 txs"
  shows "TextFormat_parse env iserialize descriptor msg textProto errorOnUnknown =
     bind_result (read_fields env errorOnUnknown descriptor False txs) (\<lambda>r.
     case r of
       None \<Rightarrow> Inr (BAD_INPUT, msg)
     | Some bs \<Rightarrow> let (ok, msg) = iserialize (take (length textProto) bs) msg in Inr (status_of_bool ok, msg))"
proof -
  let ?b = "BlobSink (replicate (length textProto) 0) 0 False"
  have "plain_sink ?b" by simp
  note p = parse_reads [OF assms this, of errorOnUnknown descriptor False]
  show ?thesis
  proof (cases "read_fields env errorOnUnknown descriptor False txs")
    case (Inl e)
    then show ?thesis using p by (simp add: TextFormat_parse_def)
  next
    case (Inr r)
    then show ?thesis using p by (cases r) (auto simp: TextFormat_parse_def min_def)
  qed
qed

end
