(* ===== verification/TextPrint.thy ===== *)
theory TextPrint
  imports TextFormatSpec TokenLayout
begin

text \<open>
  Writing messages as text: \<^verbatim>\<open>TextFormat::format\<close> of \<^verbatim>\<open>CORE/UTIL/FILES/proto_text.cpp\<close>, and what the
  parser makes of a text that it wrote.
\<close>

section \<open>Printing\<close>

text \<open>
  The cases of \<^verbatim>\<open>ConvertField\<close> but that of messages: whether the value was converted, and the string,
  which was \<open>ret\<close> before.
\<close>

definition convert_enum :: "text_env \<Rightarrow> string \<Rightarrow> proto_value option \<Rightarrow> FieldDef \<Rightarrow> fault + bool \<times> string" where
  "convert_enum env ret pField fd =
     (case FindProtoEnumByName (te_db env) (f_msgType fd) of
        None \<Rightarrow> Inr (False, ret)
      | Some pEnumDef \<Rightarrow>
          if e_values pEnumDef = [] then Inr (False, ret)
          else bind_result (deref32 pField) (\<lambda>v.
            case find (\<lambda>itr. f_fieldNum itr = v) (e_values pEnumDef) of
              None \<Rightarrow> Inr (False, ret)
            | Some itr \<Rightarrow> Inr (True, f_name itr)))"

fun convert_value :: "text_env \<Rightarrow> string \<Rightarrow> proto_value option \<Rightarrow> FieldDef \<Rightarrow> eFieldType \<Rightarrow> fault + bool \<times> string" where
  "convert_value env ret pField fd FIELD_UINT64 =
     bind_result (deref64 pField) (\<lambda>v. Inr (stream_word (decimal_int (uint v)) ret))"
| "convert_value env ret pField fd FIELD_FIXED64 =
     bind_result (deref64 pField) (\<lambda>v. Inr (stream_word (decimal_int (uint v)) ret))"
| "convert_value env ret pField fd FIELD_INT64 =
     bind_result (deref64 pField) (\<lambda>v. Inr (stream_word (decimal_int (uint v)) ret))"
| "convert_value env ret pField fd FIELD_SINT64 =
     bind_result (deref64 pField) (\<lambda>v. Inr (stream_word (decimal_int (sint v)) ret))"
| "convert_value env ret pField fd FIELD_SFIXED64 =
     bind_result (deref64 pField) (\<lambda>v. Inr (stream_word (decimal_int (sint v)) ret))"
| "convert_value env ret pField fd FIELD_DOUBLE =
     bind_result (deref64 pField) (\<lambda>v. Inr (stream_word (te_show64 env v) ret))"
| "convert_value env ret pField fd FIELD_FLOAT =
     bind_result (deref32 pField) (\<lambda>v. Inr (stream_word (te_show32 env v) ret))"
| "convert_value env ret pField fd FIELD_INT32 =
     bind_result (deref32 pField) (\<lambda>v. Inr (stream_word (decimal_int (uint v)) ret))"
| "convert_value env ret pField fd FIELD_UINT32 =
     bind_result (deref32 pField) (\<lambda>v. Inr (stream_word (decimal_int (uint v)) ret))"
| "convert_value env ret pField fd FIELD_FIXED32 =
     bind_result (deref32 pField) (\<lambda>v. Inr (stream_word (decimal_int (uint v)) ret))"
| "convert_value env ret pField fd FIELD_SINT32 =
     bind_result (deref32 pField) (\<lambda>v. Inr (stream_word (decimal_int (uint v)) ret))"
| "convert_value env ret pField fd FIELD_SFIXED32 =
     bind_result (deref32 pField) (\<lambda>v. Inr (stream_word (decimal_int (sint v)) ret))"
| "convert_value env ret pField fd FIELD_STRING = bind_result (deref_string pField) (\<lambda>v. Inr (True, v))"
| "convert_value env ret pField fd FIELD_BYTES = bind_result (deref_string pField) (\<lambda>v. Inr (True, v))"
| "convert_value env ret pField fd FIELD_ENUM = convert_enum env ret pField fd"
| "convert_value env ret pField fd FIELD_BOOL =
     bind_result (deref_bool pField) (\<lambda>v. Inr (stream_word (if v then ''1'' else ''0'') ret))"
| "convert_value env ret pField fd FIELD_MSG = Inr (False, ret)"
| "convert_value env ret pField fd FIELD_COUNT = Inr (False, ret)"

text \<open>What \<^verbatim>\<open>format\<close> appends for a value, in the same way in both branches.\<close>

definition format_entry :: "FieldDef \<Rightarrow> string \<Rightarrow> string" where
  "format_entry field val =
     (if field_type field = FIELD_MSG
      then f_name field @ '' {'' @ [CHR 0x0A] @ val @ ''}'' @ [CHR 0x0A]
      else if field_type field = FIELD_STRING \<or> field_type field = FIELD_BYTES
      then f_name field @ '': '' @ [CHR 0x22] @ Escape val @ [CHR 0x22] @ [CHR 0x0A]
      else f_name field @ '': '' @ val @ [CHR 0x0A])"

text \<open>
  The loop over the values of a repeated field, whose string \<open>val\<close> is declared before it, and ends
  where there is no value or a value is not converted; the loop over the fields.
\<close>

function ConvertField :: "text_env \<Rightarrow> string \<Rightarrow> proto_value option \<Rightarrow> FieldDef \<Rightarrow> fault + bool \<times> string"
  and format_repeated :: "text_env \<Rightarrow> iProtoMessage \<Rightarrow> FieldDef \<Rightarrow> nat \<Rightarrow> string \<Rightarrow> string \<Rightarrow> fault + string"
  and format_fields :: "text_env \<Rightarrow> iProtoMessage \<Rightarrow> FieldDef list \<Rightarrow> string \<Rightarrow> fault + string"
  and TextFormat_format :: "text_env \<Rightarrow> string \<Rightarrow> iProtoMessage \<Rightarrow> fault + string" where
  "ConvertField env ret pField field =
     (if field_type field = FIELD_MSG
      then (case pField of
              Some (VMsg pMsg) \<Rightarrow> bind_result (TextFormat_format env ret pMsg) (\<lambda>ret. Inr (True, ret))
            | _ \<Rightarrow> Inl Undefined)
      else convert_value env ret pField field (field_type field))"
| "format_repeated env msg field index val retVal =
     (case getField_at msg (f_fieldNum field) index of
        None \<Rightarrow> Inr retVal
      | Some v \<Rightarrow>
          bind_result (ConvertField env val (Some v) field) (\<lambda>(ok, val).
          if ok then format_repeated env msg field (index + 1) val (retVal @ format_entry field val)
          else Inr retVal))"
| "format_fields env msg [] retVal = Inr retVal"
| "format_fields env msg (field # fds) retVal =
     (if f_repeated field
      then bind_result (format_repeated env msg field 0 [] retVal) (\<lambda>retVal. format_fields env msg fds retVal)
      else bind_result (ConvertField env [] (getField msg (f_fieldNum field)) field) (\<lambda>(ok, val).
        format_fields env msg fds (if ok then retVal @ format_entry field val else retVal)))"
| "TextFormat_format env retVal msg =
     format_fields env msg (m_fields (m_self (getDescriptor msg))) retVal"
  by pat_completeness auto

termination
proof (relation "measures
    [\<lambda>x. case x of
        Inl (Inl (env, ret, pField, field)) \<Rightarrow> (case pField of Some v \<Rightarrow> size v | None \<Rightarrow> 0)
      | Inl (Inr (env, msg, field, index, val, retVal)) \<Rightarrow> size msg
      | Inr (Inl (env, msg, fds, retVal)) \<Rightarrow> size msg
      | Inr (Inr (env, retVal, msg)) \<Rightarrow> size msg,
     \<lambda>x. case x of
        Inl (Inl _) \<Rightarrow> 0
      | Inl (Inr _) \<Rightarrow> 0
      | Inr (Inl (env, msg, fds, retVal)) \<Rightarrow> length fds
      | Inr (Inr (env, retVal, msg)) \<Rightarrow> Suc (length (m_fields (m_self (getDescriptor msg)))),
     \<lambda>x. case x of
        Inl (Inr (env, msg, field, index, val, retVal)) \<Rightarrow>
          length (repeated_values msg (f_fieldNum field)) - index
      | _ \<Rightarrow> 0]", goal_cases)
  case 1
  then show ?case by simp
next
  case (2 env ret pField field msg)
  then show ?case by simp
next
  case (3 env msg field index val retVal v)
  then show ?case using getField_at_size by simp
next
  case (4 env msg field index val retVal v x ok val')
  then show ?case by (auto simp: getField_at_def nth_opt_eq_Some_iff split: option.splits)
qed (auto simp: getField_size split: option.splits)

declare ConvertField.simps [simp del] format_repeated.simps [simp del] TextFormat_format.simps [simp del]
  format_fields.simps(2) [simp del]

section \<open>Reading what was printed\<close>

definition word_char :: "char \<Rightarrow> bool" where
  "word_char c \<longleftrightarrow> is_alpha_ch c \<or> c = CHR ''_'' \<or> is_digit_ch c"

definition ident_text :: "string \<Rightarrow> bool" where
  "ident_text x \<longleftrightarrow> (case x of [] \<Rightarrow> False | c # v \<Rightarrow> is_alpha_ch c \<and> list_all word_char v)"

definition numeric_lang :: "string set" where
  "numeric_lang = {g @ u @ p @ v | g u p v. g \<in> {[], ''-'', ''+''} \<and> u \<noteq> [] \<and> list_all is_digit_ch u \<and>
     p \<in> {[], ''.''} \<and> list_all is_digit_ch v}"

definition later_langs :: "(eTokens \<times> string set) list" where
  "later_langs = langs (drop 9 text_rexps)"

lemma text_langs:
  "langs text_rexps =
    [(STRING, quoted_lang CHR 0x22), (NUMERIC, numeric_lang), (IDENTIFIER, word_lang is_alpha_ch word_char),
     (OBRACE, class_lang (\<lambda>c. c = CHR ''{'')), (CBRACE, class_lang (\<lambda>c. c = CHR ''}'')),
     (EQUAL, class_lang (\<lambda>c. c = CHR ''='')), (COLON, class_lang (\<lambda>c. c = CHR '':'')),
     (EOL, class_lang (\<lambda>c. c = CHR 0x0A)),
     (WS, class_lang (\<lambda>d. d = CHR '' '' \<or> d = CHR 0x0A \<or> d = CHR 0x09 \<or> d = CHR 0x0D))] @ later_langs"
proof -
  have num: "lang (Cat (Cat (Cat (Opt (Alt (lit_atom CHR ''-'') (lit_atom CHR ''+''))) (Plus (range_atom CHR ''d'')))
         (Opt (lit_atom CHR ''.''))) (Star (range_atom CHR ''d''))) = numeric_lang"
  proof -
    have plus: "{c # v | c v. is_digit_ch c \<and> list_all is_digit_ch v} = {u. u \<noteq> [] \<and> list_all is_digit_ch u}"
      by (auto simp: neq_Nil_conv)
    have four: "conc (conc (conc G U) P) V = {g @ u @ p @ v | g u p v. g \<in> G \<and> u \<in> U \<and> p \<in> P \<and> v \<in> V}"
      for G U P V :: "string set"
    proof (intro equalityI subsetI)
      fix w assume "w \<in> conc (conc (conc G U) P) V"
      then obtain g u p v where "w = ((g @ u) @ p) @ v" "g \<in> G" "u \<in> U" "p \<in> P" "v \<in> V" by (auto simp: conc_def)
      then show "w \<in> {g @ u @ p @ v | g u p v. g \<in> G \<and> u \<in> U \<and> p \<in> P \<and> v \<in> V}" by auto
    next
      fix w assume "w \<in> {g @ u @ p @ v | g u p v. g \<in> G \<and> u \<in> U \<and> p \<in> P \<and> v \<in> V}"
      then obtain g u p v where w: "w = g @ u @ p @ v" "g \<in> G" "u \<in> U" "p \<in> P" "v \<in> V" by blast
      have "((g @ u) @ p) @ v \<in> conc (conc (conc G U) P) V" by (intro concI w)
      then show "w \<in> conc (conc (conc G U) P) V" using w(1) by simp
    qed
    have "lang (Opt (Alt (lit_atom CHR ''-'') (lit_atom CHR ''+''))) = {[], ''-'', ''+''}"
      "lang (Plus (range_atom CHR ''d'')) = {u. u \<noteq> [] \<and> list_all is_digit_ch u}"
      "lang (Opt (lit_atom CHR ''.'')) = {[], ''.''}" "lang (Star (range_atom CHR ''d'')) = {v. list_all is_digit_ch v}"
      by (auto simp: star_class conc_class(1) plus)
    then show ?thesis unfolding lang.simps(2) [of "Cat _ _"] numeric_lang_def
      by (simp only: lang.simps four mem_Collect_eq conj_assoc)
  qed
  have ident: "lang (Cat (range_atom CHR ''a'') (Star (range_atom CHR ''w''))) = word_lang is_alpha_ch word_char"
    unfolding lang_word by (rule arg_cong2 [where f = word_lang]) (auto simp: word_char_def fun_eq_iff)
  have ws: "lang (range_atom CHR ''s'') = class_lang (\<lambda>d. d = CHR '' '' \<or> d = CHR 0x0A \<or> d = CHR 0x09 \<or> d = CHR 0x0D)"
    unfolding lang_class by (rule arg_cong [where f = class_lang]) (simp add: fun_eq_iff)
  show ?thesis
    unfolding later_langs_def langs_def
    by (simp add: text_rexps_def num ident ws lang_quoted del: lang.simps)
      (simp add: lang_class tok_matches_fun class_lang_def)
qed

lemma numeric_chars: "w \<in> numeric_lang \<Longrightarrow> c \<in> set w \<Longrightarrow> is_digit_ch c \<or> c \<in> set ''-+.''"
  by (auto simp: numeric_lang_def list_all_iff)

lemma scan_no_numeric: "\<not> is_digit_ch c \<Longrightarrow> c \<notin> set ''-+.'' \<Longrightarrow> scan_is numeric_lang (c # rest) 0"
  by (rule scan_is_zero) (use numeric_chars in \<open>force simp: neq_Nil_conv\<close>)

text \<open>Numbers, perhaps with a minus before them and a point in them.\<close>

definition numeric_text :: "string \<Rightarrow> bool" where
  "numeric_text x \<longleftrightarrow>
     (let u = (case x of c # r \<Rightarrow> if c = CHR ''-'' then r else x | [] \<Rightarrow> []);
          v = dropWhile is_digit_ch u
      in takeWhile is_digit_ch u \<noteq> [] \<and> (v = [] \<or> hd v = CHR ''.'' \<and> list_all is_digit_ch (tl v)))"

lemma numeric_textE:
  assumes "numeric_text x"
  obtains g u v where "x = g @ u @ v" "g \<in> {[], ''-''}" "u \<noteq> []" "list_all is_digit_ch u"
    "v = [] \<or> (\<exists>w. v = ''.'' @ w \<and> list_all is_digit_ch w)"
proof -
  define r where "r = (case x of c # r \<Rightarrow> if c = CHR ''-'' then r else x | [] \<Rightarrow> [])"
  have r: "takeWhile is_digit_ch r \<noteq> []"
    "dropWhile is_digit_ch r = [] \<or> hd (dropWhile is_digit_ch r) = CHR ''.'' \<and> list_all is_digit_ch (tl (dropWhile is_digit_ch r))"
    using assms unfolding numeric_text_def Let_def r_def by blast+
  have "x = r \<or> x = ''-'' @ r" using r(1) by (auto simp: r_def split: list.splits if_splits)
  then obtain g where g: "x = g @ r" "g \<in> {[], ''-''}" by auto
  show thesis
  proof (rule that [of g "takeWhile is_digit_ch r" "dropWhile is_digit_ch r"])
    show "x = g @ takeWhile is_digit_ch r @ dropWhile is_digit_ch r" using g(1) by simp
    show "list_all is_digit_ch (takeWhile is_digit_ch r)" by (auto simp: list_all_iff dest: set_takeWhileD)
    show "dropWhile is_digit_ch r = [] \<or> (\<exists>w. dropWhile is_digit_ch r = ''.'' @ w \<and> list_all is_digit_ch w)"
      using r(2) by (cases "dropWhile is_digit_ch r") auto
  qed (use g r in auto)
qed

lemma decimal_numeric: "numeric_text (decimal_int x)"
proof -
  have "dropWhile is_digit_ch (decimal n) = []" for n
    using decimal_digits(2) [of n] by (simp add: list_all_iff)
  moreover obtain c v where "decimal (nat x) = c # v" "is_digit_ch c" by (rule decimal_hd)
  ultimately show ?thesis
    using digit_no_space(2) [of c] decimal_take [of "nat x"]
    by (auto simp: numeric_text_def decimal_int_def decimal_digits(1) Let_def)
qed

lemma scan_numeric:
  assumes "numeric_text x" "\<not> is_digit_ch c" "c \<notin> set ''-+.''"
  shows "scan_is numeric_lang (x @ c # rest) (length x)"
proof -
  obtain g u v where x: "x = g @ u @ v" "g \<in> {[], ''-''}" "u \<noteq> []" "list_all is_digit_ch u"
    "v = [] \<or> (\<exists>w. v = ''.'' @ w \<and> list_all is_digit_ch w)"
    using numeric_textE [OF assms(1)] by blast
  have g: "g \<in> {[], ''-'', ''+''}" using x(2) by auto
  show ?thesis
  proof (rule scan_is_run [of "Suc (length g)"])
    show "Suc (length g) \<le> length x" using x(1,3) by (cases u) auto
    show "take j (x @ c # rest) \<notin> numeric_lang" if "1 \<le> j" "j < Suc (length g)" for j
    proof -
      have "j = 1" "g = ''-''" using that x(2) by auto
      then have "take j (x @ c # rest) = ''-''" using x(1) by simp
      moreover have "''-'' \<notin> numeric_lang"
        by (auto simp: numeric_lang_def append_eq_Cons_conv Cons_eq_append_conv is_digit_ch_def)
      ultimately show ?thesis by simp
    qed
    show "take j (x @ c # rest) \<in> numeric_lang" if j: "Suc (length g) \<le> j" "j \<le> length x" for j
    proof (cases "j \<le> length g + length u")
      case True
      then have "take j (x @ c # rest) = g @ take (j - length g) u @ [] @ []" using j x(1) by simp
      moreover have "take (j - length g) u \<noteq> []" using j(1) x(3) by (simp add: take_eq_Nil)
      moreover have "list_all is_digit_ch (take (j - length g) u)" using x(4) by (auto simp: list_all_iff dest: in_set_takeD)
      ultimately show ?thesis unfolding numeric_lang_def mem_Collect_eq using g
        by (intro exI [of _ g] exI [of _ "take (j - length g) u"] exI [of _ "[]"]) simp
    next
      case False
      then obtain w where w: "v = ''.'' @ w" "list_all is_digit_ch w" using j(2) x(1,5) by auto
      define k where "k = j - length g - length u - 1"
      have k: "j = length g + (length u + Suc k)" using False by (simp add: k_def)
      have "take j (x @ c # rest) = take j x" using j(2) by simp
      also have "\<dots> = g @ u @ ''.'' @ take k w" unfolding x(1) w(1) k by simp
      finally have "take j (x @ c # rest) = g @ u @ ''.'' @ take k w" .
      moreover have "list_all is_digit_ch (take k w)" using w(2) by (auto simp: list_all_iff dest: in_set_takeD)
      ultimately show ?thesis unfolding numeric_lang_def mem_Collect_eq using g x(3,4)
        by (intro exI [of _ g] exI [of _ u] exI [of _ "''.''"] exI [of _ "take k w"]) simp
    qed
    show "take (length x + 1) (x @ c # rest) \<notin> numeric_lang"
      using numeric_chars [of "x @ [c]" c] assms(2,3) by auto
  qed simp_all
qed

text \<open>The tokens of the patterns that a printed text is made of.\<close>

lemma char_class:
  "is_alpha_ch c \<Longrightarrow> \<not> is_digit_ch c \<and> c \<notin> set ''-+.'' \<and> c \<noteq> CHR 0x22"
  by (auto simp: is_alpha_ch_def is_digit_ch_def)

lemma next_text_char:
  "c \<noteq> CHR 0x22 \<Longrightarrow> \<not> is_digit_ch c \<Longrightarrow> c \<notin> set ''-+.'' \<Longrightarrow> \<not> is_alpha_ch c \<Longrightarrow>
   next_is text_rexps (c # rest) res \<longleftrightarrow>
     (if c = CHR ''{'' then res = Some (OBRACE, 1)
      else if c = CHR ''}'' then res = Some (CBRACE, 1)
      else if c = CHR ''='' then res = Some (EQUAL, 1)
      else if c = CHR '':'' then res = Some (COLON, 1)
      else if c = CHR 0x0A then res = Some (EOL, 1)
      else if c = CHR '' '' \<or> c = CHR 0x09 \<or> c = CHR 0x0D then res = Some (WS, 1)
      else next_in later_langs (c # rest) res)"
  by (simp add: next_is_def text_langs next_in_scan [OF scan_no_numeric])

lemma next_text_ident:
  assumes "ident_text x" "\<not> word_char c"
  shows "next_is text_rexps (x @ c # rest) (Some (IDENTIFIER, length x))"
proof -
  obtain d v where x: "x = d # v" "is_alpha_ch d" "list_all word_char v" using assms(1) by (cases x) (auto simp: ident_text_def)
  then show ?thesis using next_in_word [of is_alpha_ch d word_char v "c # rest"] assms(2) char_class [of d]
    by (simp add: next_is_def text_langs next_in_scan [OF scan_no_numeric])
qed

lemma next_text_numeric:
  assumes "numeric_text x" "\<not> is_digit_ch c" "c \<notin> set ''-+.''"
  shows "next_is text_rexps (x @ c # rest) (Some (NUMERIC, length x))"
proof -
  have "x \<noteq> [] \<and> hd x \<noteq> CHR 0x22"
    using assms(1) by (rule numeric_textE) (auto simp: neq_Nil_conv is_digit_ch_def)
  then obtain d v where x: "x = d # v" "d \<noteq> CHR 0x22" by (cases x) auto
  then show ?thesis using next_in_scan [OF scan_numeric [OF assms, of rest], of NUMERIC]
    by (simp add: next_is_def text_langs)
qed

lemma next_text_string:
  "list_all (\<lambda>c. c \<noteq> CHR 0x22) v \<Longrightarrow>
   next_is text_rexps (CHR 0x22 # v @ CHR 0x22 # rest) (Some (STRING, length v + 2))"
  using next_in_quoted by (simp add: next_is_def text_langs)

text \<open>Tokens that are read as they are, whatever text comes after them.\<close>

abbreviation text_of :: "text_tokens \<Rightarrow> string" where
  "text_of txs \<equiv> concat (map snd txs)"

fun lays :: "text_tokens \<Rightarrow> bool" where
  "lays [] \<longleftrightarrow> True"
| "lays ((i, x) # txs) \<longleftrightarrow> x \<noteq> [] \<and> next_is text_rexps (x @ text_of txs) (Some (i, length x)) \<and> lays txs"

lemma lays_reads:
  "env_ok env \<Longrightarrow> lays txs \<Longrightarrow> drop pos str = text_of txs \<Longrightarrow> pos \<le> length str \<Longrightarrow> reads env str pos txs"
proof (induction txs arbitrary: pos)
  case Nil
  then show ?case by simp
next
  case (Cons t txs)
  obtain i x where t: "t = (i, x)" by (cases t)
  have "getNextToken (te_fuel env) (te_tokenizer env) (te_junk env) str pos = Inr (True, Token_new i pos (pos + length x))"
    using Cons.prems t by (intro next_is_getNextToken(1)) (auto simp: env_ok_def)
  moreover have d: "drop (pos + length x) str = text_of txs"
    using arg_cong [OF Cons.prems(3), of "drop (length x)"] t by (simp add: add.commute)
  moreover have "pos + length x \<le> length str"
  proof (rule ccontr)
    assume "\<not> pos + length x \<le> length str"
    then have "length (drop pos str) < length x" using Cons.prems(4) unfolding length_drop by linarith
    then show False using Cons.prems(3) t by simp
  qed
  ultimately show ?case using Cons t by (simp add: next_token_def)
qed

text \<open>The tokens of a value, of an entry with a value and of an entry with a message.\<close>

definition value_token :: "eTokens \<Rightarrow> string \<Rightarrow> bool" where
  "value_token i x \<longleftrightarrow>
     i = NUMERIC \<and> numeric_text x \<or> i = IDENTIFIER \<and> ident_text x \<or>
     i = STRING \<and> (\<exists>v. x = CHR 0x22 # v @ [CHR 0x22] \<and> list_all (\<lambda>c. c \<noteq> CHR 0x22) v)"

definition entry_tokens :: "string \<Rightarrow> eTokens \<Rightarrow> string \<Rightarrow> text_tokens" where
  "entry_tokens name i x = [(IDENTIFIER, name), (COLON, '':''), (WS, '' ''), (i, x), (EOL, [CHR 0x0A])]"

definition group_tokens :: "string \<Rightarrow> text_tokens \<Rightarrow> text_tokens" where
  "group_tokens name us =
     [(IDENTIFIER, name), (WS, '' ''), (OBRACE, ''{''), (EOL, [CHR 0x0A])] @ us @ [(CBRACE, ''}''), (EOL, [CHR 0x0A])]"

lemma char_facts:
  "\<not> is_digit_ch CHR 0x0A" "\<not> is_alpha_ch CHR 0x0A" "\<not> is_digit_ch CHR '' ''" "\<not> is_alpha_ch CHR '' ''"
  "\<not> is_digit_ch CHR '':''" "\<not> is_alpha_ch CHR '':''" "\<not> is_digit_ch CHR ''{''" "\<not> is_alpha_ch CHR ''{''"
  "\<not> is_digit_ch CHR ''}''" "\<not> is_alpha_ch CHR ''}''"
  "\<not> word_char CHR 0x0A" "\<not> word_char CHR '' ''" "\<not> word_char CHR '':''"
  by (simp_all add: is_digit_ch_def is_alpha_ch_def word_char_def)

lemma value_token_next:
  "value_token i x \<Longrightarrow> x \<noteq> [] \<and> next_is text_rexps (x @ CHR 0x0A # rest) (Some (i, length x))"
  using next_text_ident [of x "CHR 0x0A" rest] next_text_numeric [of x "CHR 0x0A" rest] next_text_string [of _ "CHR 0x0A # rest"]
  by (auto simp: value_token_def char_facts ident_text_def elim: numeric_textE)

lemma ident_ne: "ident_text x \<Longrightarrow> x \<noteq> []"
  by (auto simp: ident_text_def)

lemma lays_entry: "ident_text name \<Longrightarrow> value_token i x \<Longrightarrow> lays txs \<Longrightarrow> lays (entry_tokens name i x @ txs)"
  by (simp add: entry_tokens_def value_token_next next_text_ident next_text_char char_facts ident_ne)

lemma lays_group:
  "ident_text name \<Longrightarrow> (\<And>txs. lays txs \<Longrightarrow> lays (us @ txs)) \<Longrightarrow> lays txs \<Longrightarrow> lays (group_tokens name us @ txs)"
  by (simp add: group_tokens_def next_text_ident next_text_char char_facts ident_ne)

section \<open>The bytes of a message's text\<close>

text \<open>
  The bytes that a printed value is read as. There are none for a value that is printed so that it is
  not read again: a \<^verbatim>\<open>bool\<close> (it is printed as a number and read as a word), a negative \<^verbatim>\<open>int64\<close> (it is
  printed as an unsigned number), a string with quotes, a floating point number that is printed with
  an exponent or not exactly.
\<close>

definition float_bytes :: "(string \<Rightarrow> 'a :: len word) \<Rightarrow> ('a word \<Rightarrow> string) \<Rightarrow> 'a word \<Rightarrow> u8 list option" where
  "float_bytes rd sh v = (if numeric_text (sh v) \<and> rd (sh v) = v then Some (le_bytes v) else None)"

definition enum_printed :: "text_env \<Rightarrow> FieldDef \<Rightarrow> u32 \<Rightarrow> FieldDef option" where
  "enum_printed env fd v =
     (case FindProtoEnumByName (te_db env) (f_msgType fd) of
        None \<Rightarrow> None
      | Some e \<Rightarrow> find (\<lambda>itr. f_fieldNum itr = v) (e_values e))"

definition enum_wire :: "text_env \<Rightarrow> FieldDef \<Rightarrow> u32 \<Rightarrow> u8 list option" where
  "enum_wire env fd v =
     (case enum_printed env fd v of
        None \<Rightarrow> None
      | Some itr \<Rightarrow>
          if ident_text (f_name itr) \<and> enum_value env fd IDENTIFIER (f_name itr) = Some (scast v)
          then Some (varuint_bits (scast v)) else None)"

fun value_wire :: "text_env \<Rightarrow> FieldDef \<Rightarrow> eFieldType \<Rightarrow> proto_value \<Rightarrow> u8 list option" where
  "value_wire env fd FIELD_UINT64 (V64 v) = Some (varuint_bits v)"
| "value_wire env fd FIELD_FIXED64 (V64 v) = Some (le_bytes v)"
| "value_wire env fd FIELD_INT64 (V64 v) = (if 0 \<le> sint v then Some (varuint_bits (encode_zigzag v)) else None)"
| "value_wire env fd FIELD_SINT64 (V64 v) = Some (varuint_bits (encode_zigzag v))"
| "value_wire env fd FIELD_SFIXED64 (V64 v) = Some (le_bytes v)"
| "value_wire env fd FIELD_DOUBLE (V64 v) = float_bytes (te_atof64 env) (te_show64 env) v"
| "value_wire env fd FIELD_FLOAT (V32 v) = float_bytes (te_atof32 env) (te_show32 env) v"
| "value_wire env fd FIELD_INT32 (V32 v) = Some (varuint_bits (encode_zigzag (ucast v)))"
| "value_wire env fd FIELD_SINT32 (V32 v) = Some (varuint_bits (encode_zigzag (ucast v)))"
| "value_wire env fd FIELD_UINT32 (V32 v) = Some (varuint_bits (ucast v))"
| "value_wire env fd FIELD_FIXED32 (V32 v) = (if uint v < 2 ^ (te_long env - 1) then Some (le_bytes v) else None)"
| "value_wire env fd FIELD_SFIXED32 (V32 v) = Some (le_bytes v)"
| "value_wire env fd FIELD_STRING (VStr v) = (if CHR 0x22 \<notin> set v then Some (bytes_of_string v) else None)"
| "value_wire env fd FIELD_BYTES (VStr v) = (if CHR 0x22 \<notin> set v then Some (bytes_of_string v) else None)"
| "value_wire env fd FIELD_ENUM (V32 v) = enum_wire env fd v"
| "value_wire env fd t v = None"

text \<open>Fields that are found by their names, which are identifiers, and have a tag.\<close>

definition field_ok :: "ProtoDescriptor \<Rightarrow> FieldDef \<Rightarrow> bool" where
  "field_ok d fd \<longleftrightarrow> ident_text (f_name fd) \<and> findFieldByName d (f_name fd) = Some fd"

text \<open>
  The bytes of the entry of a value, of those of a repeated field, of fields and of a message. What a
  message is printed to is appended to what the messages before it in the field were printed to, so
  \<open>got\<close> holds their bytes.
\<close>

inductive encodes_value :: "text_env \<Rightarrow> FieldDef \<Rightarrow> u8 list \<Rightarrow> proto_value \<Rightarrow> u8 list \<Rightarrow> u8 list \<Rightarrow> bool"
  and encodes_values :: "text_env \<Rightarrow> FieldDef \<Rightarrow> u8 list \<Rightarrow> proto_value list \<Rightarrow> u8 list \<Rightarrow> bool"
  and encodes_fields :: "text_env \<Rightarrow> iProtoMessage \<Rightarrow> FieldDef list \<Rightarrow> u8 list \<Rightarrow> bool"
  and encodes :: "text_env \<Rightarrow> iProtoMessage \<Rightarrow> u8 list \<Rightarrow> bool" for env where
  value_single:
    "value_wire env fd (field_type fd) v = Some b \<Longrightarrow> field_tag fd = Inr tag \<Longrightarrow>
     encodes_value env fd got v (varuint_bits (ucast tag) @ b) got"
| value_message:
    "field_type fd = FIELD_MSG \<Longrightarrow> field_tag fd = Inr tag \<Longrightarrow>
     FindProtoByName (te_db env) (f_msgType fd) = Some (getDescriptor m) \<Longrightarrow> encodes env m b \<Longrightarrow>
     encodes_value env fd got (VMsg m)
       (varuint_bits (ucast tag) @ varuint_bits (word_of_nat (length (got @ b))) @ got @ b) (got @ b)"
| values_none: "encodes_values env fd got [] []"
| values_next:
    "encodes_value env fd got v bs got' \<Longrightarrow> encodes_values env fd got' vs cs \<Longrightarrow>
     encodes_values env fd got (v # vs) (bs @ cs)"
| fields_none: "encodes_fields env m [] []"
| fields_single:
    "\<not> f_repeated fd \<Longrightarrow> field_ok (getDescriptor m) fd \<Longrightarrow> getField m (f_fieldNum fd) = Some v \<Longrightarrow>
     encodes_value env fd [] v bs got \<Longrightarrow> encodes_fields env m fds cs \<Longrightarrow>
     encodes_fields env m (fd # fds) (bs @ cs)"
| fields_unnamed:
    "\<not> f_repeated fd \<Longrightarrow> field_type fd = FIELD_ENUM \<Longrightarrow> getField m (f_fieldNum fd) = Some (V32 v) \<Longrightarrow>
     enum_printed env fd v = None \<Longrightarrow> encodes_fields env m fds cs \<Longrightarrow> encodes_fields env m (fd # fds) cs"
| fields_repeated:
    "f_repeated fd \<Longrightarrow> field_ok (getDescriptor m) fd \<Longrightarrow>
     encodes_values env fd [] (repeated_values m (f_fieldNum fd)) bs \<Longrightarrow>
     encodes_fields env m fds cs \<Longrightarrow> encodes_fields env m (fd # fds) (bs @ cs)"
| message: "encodes_fields env m (m_fields (m_self (getDescriptor m))) bs \<Longrightarrow> encodes env m bs"

section \<open>Values\<close>

lemma escape_no_quote: "CHR 0x22 \<notin> set v \<Longrightarrow> list_all (\<lambda>c. c \<noteq> CHR 0x22) (Escape v)"
proof (induction v)
  case (Cons c v)
  have "of_char c div 100 < (10 :: nat)" using of_char_less_256 [of c] by linarith
  then have "list_all isdigit (three_digits (of_char c))" by (simp add: three_digits_def isdigit_char_of)
  then have "list_all (\<lambda>c. c \<noteq> CHR 0x22) (three_digits (of_char c))"
    by (rule list.pred_mono_strong) (auto simp: isdigit_def)
  then show ?case using Cons by (auto simp: escape_char_def)
qed simp

lemma unescape_printed: "Unescape (Escape v) = v"
  by (induction v) (simp_all add: unescape_escape_char)

lemma stream_word_numeric: "numeric_text x \<Longrightarrow> stream_word x b = (True, x)"
proof -
  assume x: "numeric_text x"
  have "\<not> isspace CHR ''.''" by (simp add: isspace_def)
  then have c: "\<not> isspace c" if "c \<in> set x" for c
    using x that by (elim numeric_textE) (auto simp: list_all_iff digit_no_space no_sign_space)
  have ne: "x \<noteq> []" using x by (auto elim: numeric_textE)
  have d: "dropWhile isspace x = x" using c ne by (simp add: dropWhile_eq_self_iff)
  have t: "takeWhile (\<lambda>c. \<not> isspace c) x = x" using c by (simp add: takeWhile_eq_all_conv)
  show ?thesis using ne unfolding stream_word_def Let_def d t by simp
qed

text \<open>What is printed for a value that has bytes is one token, and it is read as these bytes.\<close>

definition quotes :: "FieldDef \<Rightarrow> string \<Rightarrow> string" where
  "quotes fd val =
     (if field_type fd = FIELD_STRING \<or> field_type fd = FIELD_BYTES then CHR 0x22 # Escape val @ [CHR 0x22] else val)"

definition prints_as :: "text_env \<Rightarrow> FieldDef \<Rightarrow> string \<Rightarrow> proto_value \<Rightarrow> u8 list \<Rightarrow> bool" where
  "prints_as env fd ret v b \<longleftrightarrow> (\<exists>val i.
     convert_value env ret (Some v) fd (field_type fd) = Inr (True, val) \<and> value_token i (quotes fd val) \<and>
     value_token_ok (field_type fd) i = Inr True \<and>
     value_bytes env fd (field_type fd) i (quotes fd val) = Inr (Some b))"

lemma number_prints:
  assumes "convert_value env ret (Some v) fd (field_type fd) = Inr (stream_word (decimal_int n) ret)"
    and "value_token_ok (field_type fd) NUMERIC = Inr True"
    and "value_bytes env fd (field_type fd) NUMERIC (decimal_int n) = Inr (Some b)"
    and "\<not> (field_type fd = FIELD_STRING \<or> field_type fd = FIELD_BYTES)"
  shows "prints_as env fd ret v b"
  unfolding prints_as_def
  by (intro exI [of _ "decimal_int n"] exI [of _ NUMERIC])
    (use assms in \<open>simp add: quotes_def value_token_def decimal_numeric\<close>)

lemma string_prints:
  assumes "field_type fd = FIELD_STRING \<or> field_type fd = FIELD_BYTES" "CHR 0x22 \<notin> set v"
  shows "prints_as env fd ret (VStr v) (bytes_of_string v)"
  unfolding prints_as_def
  by (intro exI [of _ v] exI [of _ STRING])
    (use assms escape_no_quote [OF assms(2)] in
      \<open>auto simp: quotes_def value_token_def deref_string_def TrimQuotes_quoted unescape_printed\<close>)

lemma float_printed:
  "field_type fd = FIELD_DOUBLE \<Longrightarrow> float_bytes (te_atof64 env) (te_show64 env) v = Some b \<Longrightarrow>
   prints_as env fd ret (V64 v) b"
  "field_type fd = FIELD_FLOAT \<Longrightarrow> float_bytes (te_atof32 env) (te_show32 env) w = Some b \<Longrightarrow>
   prints_as env fd ret (V32 w) b"
  by (auto simp: float_bytes_def stream_word_numeric prints_as_def quotes_def value_token_def deref64_def deref32_def
      split: if_splits)

lemma enum_prints:
  assumes "field_type fd = FIELD_ENUM" "enum_wire env fd v = Some b"
  shows "prints_as env fd ret (V32 v) b"
proof -
  obtain e itr where e: "FindProtoEnumByName (te_db env) (f_msgType fd) = Some e"
    "find (\<lambda>itr. f_fieldNum itr = v) (e_values e) = Some itr" "ident_text (f_name itr)"
    "enum_value env fd IDENTIFIER (f_name itr) = Some (scast v)" "b = varuint_bits (scast v)"
    using assms(2) by (auto simp: enum_wire_def enum_printed_def split: option.splits if_splits)
  then have "e_values e \<noteq> []" by auto
  then show ?thesis unfolding prints_as_def
    by (intro exI [of _ "f_name itr"] exI [of _ IDENTIFIER])
      (use e assms(1) in \<open>simp add: quotes_def value_token_def convert_enum_def deref32_def\<close>)
qed

lemma uint_32: "0 \<le> uint (v :: u32)" "uint (v :: u32) < 2 ^ 32" "- (2 ^ 31) \<le> sint (v :: u32)" "sint (v :: u32) < 2 ^ 31"
  using uint_range_size [of v] sint_range_size [of v] by (simp_all add: word_size)

lemma uint_64: "0 \<le> uint (v :: u64)" "uint (v :: u64) < 2 ^ 64" "- (2 ^ 63) \<le> sint (v :: u64)" "sint (v :: u64) < 2 ^ 63"
  using uint_range_size [of v] sint_range_size [of v] by (simp_all add: word_size)

lemma read_printed_word:
  fixes v :: u64 and w :: u32
  shows "lexical_cast_u64 (decimal_int (uint v)) = Some v"
    and "lexical_cast_s64 (decimal_int (sint v)) = Some v"
    and "0 \<le> sint v \<Longrightarrow> lexical_cast_s64 (decimal_int (uint v)) = Some v"
    and "lexical_cast_u64 (decimal_int (uint w)) = Some (ucast w)"
    and "lexical_cast_s64 (decimal_int (uint w)) = Some (ucast w)"
    and "lexical_cast_s32 (decimal_int (sint w)) = Inr w"
    and "uint w < 2 ^ (long - 1) \<Longrightarrow> lexical_cast_u32 long (decimal_int (uint w)) = Inr w"
proof -
  show "lexical_cast_u64 (decimal_int (uint v)) = Some v" using read_printed(1) [of "uint v"] uint_64 [of v] by simp
  show "lexical_cast_s64 (decimal_int (sint v)) = Some v" using read_printed(2) [of "sint v"] uint_64 [of v] by simp
  show "lexical_cast_s64 (decimal_int (uint v)) = Some v" if "0 \<le> sint v"
  proof -
    have "sint v = uint v" using that sint_bit_63 [of v] uint_64 [of v] by (auto split: if_splits)
    then show ?thesis using read_printed(2) [of "sint v"] uint_64 [of v] by simp
  qed
  have w: "word_of_int (uint w) = (ucast w :: u64)" by (rule ucast_eq [symmetric])
  show "lexical_cast_u64 (decimal_int (uint w)) = Some (ucast w)"
    using read_printed(1) [of "uint w"] uint_32 [of w] w by simp
  show "lexical_cast_s64 (decimal_int (uint w)) = Some (ucast w)"
    using read_printed(2) [of "uint w"] uint_32 [of w] w by simp
  show "lexical_cast_s32 (decimal_int (sint w)) = Inr w" using read_printed(3) [of "sint w"] uint_32 [of w] by simp
  show "lexical_cast_u32 long (decimal_int (uint w)) = Inr w" if "uint w < 2 ^ (long - 1)"
    using read_printed(4) [of long "uint w"] that uint_32(1) [of w] by (simp add: order_trans [OF _ uint_32(1)])
qed

lemma value_prints:
  assumes "value_wire env fd (field_type fd) v = Some b"
  shows "prints_as env fd ret v b" "field_type fd \<noteq> FIELD_MSG"
proof -
  note [simp] = read_printed_word deref64_def deref32_def deref_string_def
  show "field_type fd \<noteq> FIELD_MSG" using assms by (cases v) auto
  show "prints_as env fd ret v b"
  proof (cases v)
    case (V64 w)
    show ?thesis using assms V64 number_prints [of env ret v fd "uint w" b] number_prints [of env ret v fd "sint w" b]
      by (cases "field_type fd") (simp_all add: float_printed split: if_splits)
  next
    case (V32 w)
    show ?thesis using assms V32 number_prints [of env ret v fd "uint w" b] number_prints [of env ret v fd "sint w" b]
        enum_prints [of fd env w b ret]
      by (cases "field_type fd") (simp_all add: float_printed split: if_splits)
  next
    case (VStr x)
    then show ?thesis using assms string_prints [of fd x env ret] by (cases "field_type fd") (auto split: if_splits)
  qed (use assms in \<open>auto elim: value_wire.elims\<close>)
qed

section \<open>Entries\<close>

text \<open>
  Tokens that are read as they are, that leave groups as they are, and that the reader of a message's
  fields takes for these bytes.
\<close>

definition shown_as :: "text_env \<Rightarrow> ProtoDescriptor \<Rightarrow> text_tokens \<Rightarrow> u8 list \<Rightarrow> bool" where
  "shown_as env d us bs \<longleftrightarrow>
     (\<forall>txs. lays txs \<longrightarrow> lays (us @ txs)) \<and>
     (\<forall>depth txs. read_group depth (us @ txs) = map_option (\<lambda>(a, c). (us @ a, c)) (read_group depth txs)) \<and>
     (\<forall>err opened txs. read_fields env err d opened (us @ txs) = add_bytes bs (read_fields env err d opened txs))"

lemma shown_nothing: "shown_as env d [] []"
proof -
  have "add_bytes [] r = r" for r by (cases r) (simp_all add: add_bytes_def option.map_ident)
  then show ?thesis by (simp add: shown_as_def option.map_ident option.map_id)
qed

lemma shown_append: "shown_as env d us bs \<Longrightarrow> shown_as env d vs cs \<Longrightarrow> shown_as env d (us @ vs) (bs @ cs)"
proof -
  have "add_bytes bs (add_bytes cs r) = add_bytes (bs @ cs) r" for r
    by (cases r) (simp_all add: add_bytes_def option.map_comp comp_def)
  moreover have "map_option (\<lambda>(a, c). (us @ a, c)) (map_option (\<lambda>(a, c). (vs @ a, c)) g) =
      map_option (\<lambda>(a, c). (us @ vs @ a, c)) g" for g :: "(text_tokens \<times> text_tokens) option"
    by (cases g) auto
  moreover assume "shown_as env d us bs" "shown_as env d vs cs"
  ultimately show ?thesis by (simp add: shown_as_def)
qed

lemma shown_entry:
  assumes "field_ok d fd" "field_tag fd = Inr tag" "field_type fd \<noteq> FIELD_MSG" "value_token i x"
    "value_token_ok (field_type fd) i = Inr True" "value_bytes env fd (field_type fd) i x = Inr (Some b)"
  shows "shown_as env d (entry_tokens (f_name fd) i x) (varuint_bits (ucast tag) @ b)"
  unfolding shown_as_def
proof (intro conjI allI impI)
  have i: "i \<noteq> WS" "i \<noteq> CBRACE" "i \<noteq> OBRACE" using assms(4) by (auto simp: value_token_def)
  show "lays (entry_tokens (f_name fd) i x @ txs)" if "lays txs" for txs
    using lays_entry assms(1,4) that by (simp add: field_ok_def)
  show "read_group depth (entry_tokens (f_name fd) i x @ txs) =
      map_option (\<lambda>(a, c). (entry_tokens (f_name fd) i x @ a, c)) (read_group depth txs)" for depth txs
    using i by (cases "read_group depth txs") (auto simp: entry_tokens_def)
  show "read_fields env err d opened (entry_tokens (f_name fd) i x @ txs) =
      add_bytes (varuint_bits (ucast tag) @ b) (read_fields env err d opened txs)" for err opened txs
    using assms i by (simp add: entry_tokens_def read_fields.simps(2) field_ok_def read_value_def)
qed

lemma shown_group:
  assumes "field_ok d fd" "field_tag fd = Inr tag" "field_type fd = FIELD_MSG"
    "FindProtoByName (te_db env) (f_msgType fd) = Some sub" "shown_as env sub us b"
  shows "shown_as env d (group_tokens (f_name fd) us)
    (varuint_bits (ucast tag) @ varuint_bits (word_of_nat (length b)) @ b)"
  unfolding shown_as_def
proof (intro conjI allI impI)
  note us = assms(5) [unfolded shown_as_def]
  have group: "read_group depth (us @ txs) = map_option (\<lambda>(a, c). (us @ a, c)) (read_group depth txs)" for depth txs
    using us by blast
  show "lays (group_tokens (f_name fd) us @ txs)" if "lays txs" for txs
    using lays_group assms(1) us that by (simp add: field_ok_def)
  show "read_group depth (group_tokens (f_name fd) us @ txs) =
      map_option (\<lambda>(a, c). (group_tokens (f_name fd) us @ a, c)) (read_group depth txs)" for depth txs
    by (cases "read_group depth txs") (auto simp: group_tokens_def group)
  show "read_fields env err d opened (group_tokens (f_name fd) us @ txs) =
      add_bytes (varuint_bits (ucast tag) @ varuint_bits (word_of_nat (length b)) @ b) (read_fields env err d opened txs)"
    for err opened txs
  proof -
    have "read_fields env err sub False ((WS, '' '') # (OBRACE, ''{'') # (EOL, [CHR 0x0A]) # us @ [(CBRACE, ''}'')]) = Inr (Some b)"
      using us by (simp add: read_fields.simps(2) add_bytes_def)
    then show ?thesis using assms(1-4)
      by (simp add: group_tokens_def read_fields.simps(2) field_ok_def read_braces_def group)
  qed
qed

section \<open>Messages\<close>

text \<open>The string of the loop over a repeated field holds the text of the messages so far.\<close>

definition val_ok :: "text_env \<Rightarrow> FieldDef \<Rightarrow> string \<Rightarrow> u8 list \<Rightarrow> bool" where
  "val_ok env fd val got \<longleftrightarrow>
     (field_type fd = FIELD_MSG \<longrightarrow>
      (\<forall>sub. FindProtoByName (te_db env) (f_msgType fd) = Some sub \<longrightarrow>
        (\<exists>us. val = text_of us \<and> shown_as env sub us got)))"

lemma val_ok_start: "val_ok env fd [] []"
  using shown_nothing by (auto simp: val_ok_def intro: exI [of _ "[]"])

lemma entry_text:
  "field_type fd \<noteq> FIELD_MSG \<Longrightarrow> format_entry fd val = text_of (entry_tokens (f_name fd) i (quotes fd val))"
  "field_type fd = FIELD_MSG \<Longrightarrow> format_entry fd (text_of us) = text_of (group_tokens (f_name fd) us)"
  by (simp_all add: format_entry_def entry_tokens_def group_tokens_def quotes_def)

lemma drop_Cons_nth:
  assumes "v # vs = drop i xs"
  shows "i < length xs \<and> xs ! i = v \<and> vs = drop (i + 1) xs"
proof -
  have i: "i < length xs" using assms by (metis drop_eq_Nil list.discI not_le)
  from Cons_nth_drop_Suc [OF this] have "xs ! i # drop (Suc i) xs = v # vs" using assms by simp
  with i show ?thesis by simp
qed

lemma format_encodes:
  "encodes_value env fd got v bs got' \<Longrightarrow> val_ok env fd val got \<Longrightarrow>
   \<exists>us val'. ConvertField env val (Some v) fd = Inr (True, val') \<and> format_entry fd val' = text_of us \<and>
     (\<forall>d. field_ok d fd \<longrightarrow> shown_as env d us bs) \<and> val_ok env fd val' got'"
  "encodes_values env fd got vs cs \<Longrightarrow> val_ok env fd val got \<Longrightarrow>
   vs = drop index (repeated_values msg (f_fieldNum fd)) \<Longrightarrow>
   \<exists>us. format_repeated env msg fd index val retVal = Inr (retVal @ text_of us) \<and>
     (\<forall>d. field_ok d fd \<longrightarrow> shown_as env d us cs)"
  "encodes_fields env m fds ds \<Longrightarrow>
   \<exists>us. format_fields env m fds retVal = Inr (retVal @ text_of us) \<and> shown_as env (getDescriptor m) us ds"
  "encodes env m es \<Longrightarrow>
   \<exists>us. TextFormat_format env retVal m = Inr (retVal @ text_of us) \<and> shown_as env (getDescriptor m) us es"
proof (induction fd got v bs got' and fd got vs cs and m fds ds and m es
    arbitrary: val and val index retVal msg and retVal and retVal
    rule: encodes_value_encodes_values_encodes_fields_encodes.inducts)
  case (value_single fd v b tag got)
  note p = value_prints [OF value_single(1)]
  from p(1) [of val] obtain val' i where i:
    "convert_value env val (Some v) fd (field_type fd) = Inr (True, val')" "value_token i (quotes fd val')"
    "value_token_ok (field_type fd) i = Inr True"
    "value_bytes env fd (field_type fd) i (quotes fd val') = Inr (Some b)" by (auto simp: prints_as_def)
  show ?case
    using i p(2) entry_text(1) [OF p(2), of val' i] shown_entry [OF _ value_single(2) p(2) i(2-4)]
    by (intro exI [of _ "entry_tokens (f_name fd) i (quotes fd val')"] exI [of _ val'])
      (simp add: ConvertField.simps val_ok_def)
next
  case (value_message fd tag m b got)
  from value_message(6) obtain us where us: "val = text_of us" "shown_as env (getDescriptor m) us got"
    using value_message(1,3) by (auto simp: val_ok_def)
  from value_message(5) [of val] obtain vs where vs:
    "TextFormat_format env val m = Inr (val @ text_of vs)" "shown_as env (getDescriptor m) vs b" by blast
  have s: "shown_as env (getDescriptor m) (us @ vs) (got @ b)" by (rule shown_append [OF us(2) vs(2)])
  have ok: "val_ok env fd (val @ text_of vs) (got @ b)"
    unfolding val_ok_def using s us(1) value_message(3) by (intro impI allI exI [of _ "us @ vs"]) simp
  show ?case
    using value_message(1,3) us(1) vs(1) ok entry_text(2) [OF value_message(1), of "us @ vs"]
      shown_group [OF _ value_message(2,1,3) s]
    by (intro exI [of _ "group_tokens (f_name fd) (us @ vs)"] exI [of _ "val @ text_of vs"])
      (auto simp: ConvertField.simps)
next
  case (values_none fd got)
  then have "getField_at msg (f_fieldNum fd) index = None"
    by (auto simp: getField_at_def nth_opt_def split: option.splits)
  then show ?case using shown_nothing by (subst format_repeated.simps) (auto intro: exI [of _ "[]"])
next
  case (values_next fd got v bs got' vs cs)
  have v: "getField_at msg (f_fieldNum fd) index = Some v" "vs = drop (index + 1) (repeated_values msg (f_fieldNum fd))"
    using drop_Cons_nth [OF values_next.prems(2)] by (simp_all add: getField_at_def)
  from values_next.IH(2) [OF values_next.prems(1)] obtain us val' where us:
    "ConvertField env val (Some v) fd = Inr (True, val')" "format_entry fd val' = text_of us"
    "\<forall>d. field_ok d fd \<longrightarrow> shown_as env d us bs" "val_ok env fd val' got'" by blast
  from values_next.IH(4) [OF us(4) v(2), of "retVal @ text_of us"] obtain ws where ws:
    "format_repeated env msg fd (index + 1) val' (retVal @ text_of us) = Inr ((retVal @ text_of us) @ text_of ws)"
    "\<forall>d. field_ok d fd \<longrightarrow> shown_as env d ws cs" by blast
  then show ?case using v(1) us shown_append
    by (intro exI [of _ "us @ ws"], subst format_repeated.simps) auto
next
  case (fields_none m)
  then show ?case using shown_nothing by (auto intro: exI [of _ "[]"])
next
  case (fields_single fd m v bs got fds cs)
  from fields_single.IH(2) [OF val_ok_start] obtain us val' where us:
    "ConvertField env [] (Some v) fd = Inr (True, val')" "format_entry fd val' = text_of us"
    "shown_as env (getDescriptor m) us bs" using fields_single(2) by blast
  from fields_single.IH(4) [of "retVal @ text_of us"] obtain ws where ws:
    "format_fields env m fds (retVal @ text_of us) = Inr ((retVal @ text_of us) @ text_of ws)"
    "shown_as env (getDescriptor m) ws cs" by blast
  then show ?case using fields_single(1,3) us shown_append
    by (intro exI [of _ "us @ ws"]) (simp add: format_fields.simps(2))
next
  case (fields_unnamed fd m v fds cs)
  from fields_unnamed(4) have "ConvertField env [] (Some (V32 v)) fd = Inr (False, [])"
    using fields_unnamed(2)
    by (auto simp: ConvertField.simps convert_enum_def enum_printed_def deref32_def split: option.splits)
  then show ?case using fields_unnamed(1,3) fields_unnamed(6) by (simp add: format_fields.simps(2))
next
  case (fields_repeated fd m bs fds cs)
  from fields_repeated.IH(2) [OF val_ok_start, of 0 m retVal] obtain us where us:
    "format_repeated env m fd 0 [] retVal = Inr (retVal @ text_of us)" "shown_as env (getDescriptor m) us bs"
    using fields_repeated(2) by auto
  from fields_repeated.IH(4) [of "retVal @ text_of us"] obtain ws where ws:
    "format_fields env m fds (retVal @ text_of us) = Inr ((retVal @ text_of us) @ text_of ws)"
    "shown_as env (getDescriptor m) ws cs" by blast
  then show ?case using fields_repeated(1) us shown_append
    by (intro exI [of _ "us @ ws"]) (simp add: format_fields.simps(2))
next
  case (message m bs)
  then show ?case by (simp add: TextFormat_format.simps)
qed

lemma reads_text: "reads env str pos us \<Longrightarrow> text_of us = drop pos str"
proof (induction us arbitrary: pos)
  case (Cons u us)
  obtain i x where u: "u = (i, x)" by (cases u)
  have "text_of us = drop (pos + length x) str" using Cons u by simp
  moreover have "x = take (length x) (drop pos str)" using Cons.prems u by simp
  ultimately show ?case using u append_take_drop_id [of "length x" "drop pos str"] by (simp add: add.commute)
qed simp

text \<open>A text of tokens that are read as they are.\<close>

lemma parse_laid:
  assumes "env_ok env" "lays us"
  shows "TextFormat_parse env iserialize d msg (text_of us) err =
     bind_result (read_fields env err d False us) (\<lambda>r.
     case r of
       None \<Rightarrow> Inr (BAD_INPUT, msg)
     | Some bs \<Rightarrow> let (ok, msg) = iserialize (take (length (text_of us)) bs) msg in Inr (status_of_bool ok, msg))"
  by (rule parse_text_reads [OF assms(1)]) (rule lays_reads [OF assms], simp_all)

lemma env_ok_exists: "\<exists>N. \<forall>env. text_tokenizer 4 junk = Inr (te_tokenizer env) \<and> N \<le> te_fuel env \<longrightarrow> env_ok env"
proof -
  obtain toks N where toks: "text_tokenizer 4 junk = Inr toks" "\<forall>tf \<ge> N. tokenizer_is tf toks text_rexps"
    using text_tokenizer_exists by blast
  then show ?thesis by (intro exI [of _ N]) (auto simp: env_ok_def)
qed

section \<open>Parsing texts\<close>

text \<open>
  C12. With the tokenizer of the source, \<^verbatim>\<open>TextFormat::parse\<close> reads every text as the tokens it is made
  of: if \<open>read_fields\<close> gives bytes for them the message's \<^verbatim>\<open>iserialize\<close> gets these bytes, cut off at the
  length of the text, if it gives none the status is \<^verbatim>\<open>BAD_INPUT\<close>, and if it aborts so does the parser.
  The parser always ends, reads nothing outside the text and writes nothing outside its buffer: the only
  faults are a failed \<^verbatim>\<open>CHECK\<close>, an undefined shift of a field's number and a number that its type cannot
  hold.
\<close>

theorem text_parse_refines:
  "\<exists>N. \<forall>env \<in> {env. text_tokenizer 4 junk = Inr (te_tokenizer env) \<and> N \<le> te_fuel env}.
     \<exists>txs. reads env textProto 0 txs \<and> concat (map snd txs) = textProto \<and>
       TextFormat_parse env iserialize descriptor msg textProto errorOnUnknown =
         bind_result (read_fields env errorOnUnknown descriptor False txs) (\<lambda>r.
         case r of
           None \<Rightarrow> Inr (BAD_INPUT, msg)
         | Some bs \<Rightarrow> let (ok, msg) = iserialize (take (length textProto) bs) msg in Inr (status_of_bool ok, msg)) \<and>
       result_ok {CheckFailed, Undefined, NotRepresentable} (\<lambda>_. True)
         (TextFormat_parse env iserialize descriptor msg textProto errorOnUnknown)"
proof -
  obtain N where N: "\<forall>env. text_tokenizer 4 junk = Inr (te_tokenizer env) \<and> N \<le> te_fuel env \<longrightarrow> env_ok env"
    using env_ok_exists by blast
  show ?thesis
  proof (intro exI [of _ N] ballI)
    fix env :: text_env
    assume "env \<in> {env. text_tokenizer 4 junk = Inr (te_tokenizer env) \<and> N \<le> te_fuel env}"
    then have env: "env_ok env" using N by blast
    obtain txs where txs: "reads env textProto 0 txs" using reads_exists [OF env, of 0] by blast
    have "result_ok {CheckFailed, Undefined, NotRepresentable} (\<lambda>_. True)
        (TextFormat_parse env iserialize descriptor msg textProto errorOnUnknown)"
      unfolding parse_text_reads [OF env txs] text_faults_def [symmetric]
      by (rule result_ok_bind [OF read_fields_faults]) (simp split: option.splits prod.splits)
    then show "\<exists>txs. reads env textProto 0 txs \<and> concat (map snd txs) = textProto \<and>
       TextFormat_parse env iserialize descriptor msg textProto errorOnUnknown =
         bind_result (read_fields env errorOnUnknown descriptor False txs) (\<lambda>r.
         case r of
           None \<Rightarrow> Inr (BAD_INPUT, msg)
         | Some bs \<Rightarrow> let (ok, msg) = iserialize (take (length textProto) bs) msg in Inr (status_of_bool ok, msg)) \<and>
       result_ok {CheckFailed, Undefined, NotRepresentable} (\<lambda>_. True)
         (TextFormat_parse env iserialize descriptor msg textProto errorOnUnknown)"
      using txs reads_text [OF txs] parse_text_reads [OF env txs] by (intro exI [of _ txs]) simp
  qed
qed


text \<open>
  C40. A message with one field that holds a \<^verbatim>\<open>bool\<close>, or a negative \<^verbatim>\<open>int64\<close>, is printed to a text
  that \<^verbatim>\<open>TextFormat::parse\<close> rejects: the first is printed as a number and read as a word, the second is
  printed as an unsigned number that a signed one cannot hold.
\<close>

theorem text_not_read_back:
  "\<exists>N. \<forall>env \<in> {env. text_tokenizer 4 junk = Inr (te_tokenizer env) \<and> N \<le> te_fuel env}.
     \<forall>m fd v tag. m_fields (m_self (getDescriptor m)) = [fd] \<and> ident_text (f_name fd) \<and> \<not> f_repeated fd \<and>
       field_tag fd = Inr tag \<and> getField m (f_fieldNum fd) = Some v \<and>
       (field_type fd = FIELD_BOOL \<and> v \<in> range VBool \<or> field_type fd = FIELD_INT64 \<and> v \<in> V64 ` {w. sint w < 0}) \<longrightarrow>
       (\<exists>text. TextFormat_format env [] m = Inr text \<and>
         (\<forall>iserialize msg errorOnUnknown.
           TextFormat_parse env iserialize (getDescriptor m) msg text errorOnUnknown = Inr (BAD_INPUT, msg)))"
proof -
  obtain N where N: "\<forall>env. text_tokenizer 4 junk = Inr (te_tokenizer env) \<and> N \<le> te_fuel env \<longrightarrow> env_ok env"
    using env_ok_exists by blast
  show ?thesis
  proof (intro exI [of _ N] ballI allI impI)
    fix env :: text_env and m fd v tag
    assume "env \<in> {env. text_tokenizer 4 junk = Inr (te_tokenizer env) \<and> N \<le> te_fuel env}"
    then have env: "env_ok env" using N by blast
    assume a: "m_fields (m_self (getDescriptor m)) = [fd] \<and> ident_text (f_name fd) \<and> \<not> f_repeated fd \<and>
       field_tag fd = Inr tag \<and> getField m (f_fieldNum fd) = Some v \<and>
       (field_type fd = FIELD_BOOL \<and> v \<in> range VBool \<or> field_type fd = FIELD_INT64 \<and> v \<in> V64 ` {w. sint w < 0})"
    have "\<exists>x. ConvertField env [] (Some v) fd = Inr (True, x) \<and> numeric_text x \<and>
      read_value env fd (tl (entry_tokens (f_name fd) NUMERIC x)) = Inr None \<and> quotes fd x = x"
    proof (cases "field_type fd = FIELD_BOOL")
      case True
      then obtain b where v: "v = VBool b" using a by auto
      have "numeric_text (if b then ''1'' else ''0'')" by (auto simp: numeric_text_def is_digit_ch_def)
      then show ?thesis using True v
        by (intro exI [of _ "if b then ''1'' else ''0''"])
          (simp add: ConvertField.simps deref_bool_def stream_word_numeric read_value_def entry_tokens_def quotes_def)
    next
      case False
      then obtain w where w: "v = V64 w" "sint w < 0" "field_type fd = FIELD_INT64" using a by auto
      have "2 ^ 63 \<le> uint w" using w(2) sint_bit_63 [of w] uint_64 [of w] by (cases "bit w 63") auto
      then show ?thesis using w
        by (intro exI [of _ "decimal_int (uint w)"])
          (simp add: ConvertField.simps deref64_def read_value_def entry_tokens_def quotes_def
            read_printed_overflow decimal_numeric)
    qed
    then obtain x where x: "ConvertField env [] (Some v) fd = Inr (True, x)" "numeric_text x"
      "read_value env fd (tl (entry_tokens (f_name fd) NUMERIC x)) = Inr None" "quotes fd x = x" by blast
    have t: "field_type fd \<noteq> FIELD_MSG" using a by auto
    have "TextFormat_format env [] m = Inr (text_of (entry_tokens (f_name fd) NUMERIC x))"
      using a x t entry_text(1) [OF t, of x NUMERIC] by (simp add: TextFormat_format.simps format_fields.simps(2))
    moreover have "lays (entry_tokens (f_name fd) NUMERIC x)"
      using lays_entry [of "f_name fd" NUMERIC x "[]"] a x(2) by (simp add: value_token_def)
    moreover have "read_fields env err (getDescriptor m) False (entry_tokens (f_name fd) NUMERIC x) = Inr None" for err
      using a x(3) t by (auto simp: entry_tokens_def read_fields.simps(2) findFieldByName_def)
    ultimately show "\<exists>text. TextFormat_format env [] m = Inr text \<and>
         (\<forall>iserialize msg errorOnUnknown.
           TextFormat_parse env iserialize (getDescriptor m) msg text errorOnUnknown = Inr (BAD_INPUT, msg))"
      by (intro exI [of _ "text_of (entry_tokens (f_name fd) NUMERIC x)"]) (simp add: parse_laid [OF env])
  qed
qed

section \<open>Examples\<close>

text \<open>A message with a repeated field \<open>m\<close> of messages with a number \<open>a\<close>, and one with a flag \<open>b\<close>.\<close>

definition example_field :: "string \<Rightarrow> string \<Rightarrow> eFieldType \<Rightarrow> bool \<Rightarrow> FieldDef" where
  "example_field name msgType t repeated =
     \<lparr>f_name = name, f_msgType = msgType, f_type = field_type_value t, f_fieldNum = 1, f_repeated = repeated\<rparr>"

definition example_descriptor :: "string \<Rightarrow> FieldDef \<Rightarrow> ProtoDescriptor" where
  "example_descriptor name fd = ProtoDescriptor (MessageDef name [] [] [fd] []) []"

definition example_inner :: "u32 \<Rightarrow> iProtoMessage" where
  "example_inner w = Msg (example_descriptor ''T'' (example_field ''a'' [] FIELD_INT32 False)) [(1, None, [V32 w])]"

definition example_outer :: iProtoMessage where
  "example_outer = Msg (example_descriptor ''U'' (example_field ''m'' ''::T'' FIELD_MSG True))
     [(1, None, [VMsg (example_inner 1), VMsg (example_inner 2)])]"

definition example_flag :: iProtoMessage where
  "example_flag = Msg (example_descriptor ''B'' (example_field ''b'' [] FIELD_BOOL False)) [(1, None, [VBool True])]"

definition example_env :: "nat \<Rightarrow> eTokens tokenizer_list \<Rightarrow> text_env" where
  "example_env fuel toks =
     \<lparr>te_fuel = fuel, te_tokenizer = toks, te_junk = Token_new WS 0 0, te_db = [getDescriptor (example_inner 0)],
      te_atof64 = \<lambda>_. 0, te_atof32 = \<lambda>_. 0, te_show64 = \<lambda>_. [], te_show32 = \<lambda>_. [], te_long = 64\<rparr>"

lemma example_simps:
  "te_tokenizer (example_env fuel toks) = toks" "te_fuel (example_env fuel toks) = fuel"
  "te_db (example_env fuel toks) = [getDescriptor (example_inner 0)]"
  "f_name (example_field name mt t r) = name" "f_msgType (example_field name mt t r) = mt"
  "f_fieldNum (example_field name mt t r) = 1" "f_repeated (example_field name mt t r) = r"
  "m_fields (m_self (example_descriptor n fd)) = [fd]" "MessageDef.m_name (m_self (example_descriptor n fd)) = n"
  "m_package (m_self (example_descriptor n fd)) = []"
  by (simp_all add: example_env_def example_field_def example_descriptor_def)

lemma example_type: "field_type (example_field name mt t r) = t"
  by (cases t) (simp_all add: field_type_def example_field_def all_field_types_def)


lemma example_tag: "field_tag (example_field name mt t r) = (if t = FIELD_COUNT then Inl CheckFailed else bind_result (getFieldTypeId t) (\<lambda>i. Inr (8 OR i)))"
  by (simp add: field_tag_def example_type example_simps)

lemma example_bytes:
  "varuint_bits 8 = [8]" "varuint_bits 10 = [10]" "varuint_bits 2 = [2]" "varuint_bits 4 = [4]"
  "encode_zigzag 1 = 2" "encode_zigzag 2 = 4"
  by code_simp+

lemma example_encodes:
  "encodes (example_env fuel toks) example_outer [10, 2, 8, 2, 10, 4, 8, 2, 8, 4]"
proof -
  let ?env = "example_env fuel toks"
  have inner: "encodes ?env (example_inner w) (8 # varuint_bits (encode_zigzag (ucast w)))" for w
  proof -
    let ?fd = "example_field ''a'' [] FIELD_INT32 False"
    have "encodes_value ?env ?fd [] (V32 w) (varuint_bits (ucast (8 :: u32)) @ varuint_bits (encode_zigzag (ucast w))) []"
      by (rule value_single) (simp_all add: example_type example_tag)
    then have "encodes_fields ?env (example_inner w) [?fd] ((varuint_bits (ucast (8 :: u32)) @ varuint_bits (encode_zigzag (ucast w))) @ [])"
      by (intro fields_single fields_none)
        (simp_all add: example_simps example_inner_def getField_def m_values_def field_ok_def findFieldByName_def ident_text_def is_alpha_ch_def)
    then show ?thesis
      using message [of ?env "example_inner w"] by (simp add: example_inner_def example_simps example_bytes)
  qed
  let ?fd = "example_field ''m'' ''::T'' FIELD_MSG True"
  have v: "encodes_value ?env ?fd got (VMsg (example_inner w)) (varuint_bits (ucast (10 :: u32)) @
      varuint_bits (word_of_nat (length (got @ b))) @ got @ b) (got @ b)"
    if "encodes ?env (example_inner w) b" for got b w
    by (rule value_message)
      (use that in \<open>simp_all add: example_type example_tag example_simps FindProtoByName_def example_inner_def\<close>)
  have e: "encodes_value ?env ?fd [] (VMsg (example_inner 1)) [10, 2, 8, 2] [8, 2]"
    "encodes_value ?env ?fd [8, 2] (VMsg (example_inner 2)) [10, 4, 8, 2, 8, 4] [8, 2, 8, 4]"
    using v [OF inner, of "[]" 1] v [OF inner, of "[8, 2]" 2] by (simp_all add: example_bytes)
  have "encodes_values ?env ?fd [] [VMsg (example_inner 1), VMsg (example_inner 2)] ([10, 2, 8, 2] @ [10, 4, 8, 2, 8, 4] @ [])"
    by (intro values_next [OF e(1)] values_next [OF e(2)] values_none)
  then have "encodes_fields ?env example_outer [?fd] ([10, 2, 8, 2, 10, 4, 8, 2, 8, 4] @ [])"
    by (intro fields_repeated fields_none)
      (simp_all add: example_simps example_outer_def repeated_values_def m_values_def field_ok_def findFieldByName_def ident_text_def is_alpha_ch_def)
  then show ?thesis using message [of ?env example_outer] by (simp add: example_outer_def example_simps)
qed

definition example_text :: string where
  "example_text = concat (map (\<lambda>l. l @ [CHR 0x0A]) [''m {'', ''a: 1'', ''}'', ''m {'', ''a: 1'', ''a: 2'', ''}''])"

lemma example_decimal: "decimal_int 1 = ''1''" "decimal_int 2 = ''2''"
  by code_simp+

lemma example_format: "TextFormat_format (example_env fuel toks) [] example_outer = Inr example_text"
  by (simp add: example_text_def TextFormat_format.simps format_fields.simps(2) format_repeated.simps ConvertField.simps
      example_outer_def example_inner_def example_simps example_type getField_def getField_at_def repeated_values_def m_values_def nth_opt_def
      deref32_def example_decimal format_entry_def)


theorem text_not_read_back_witness:
  "\<exists>env. text_tokenizer 4 0 = Inr (te_tokenizer env) \<and> TextFormat_format env [] example_flag = Inr (''b: 1'' @ [CHR 0x0A]) \<and>
     TextFormat_parse env (\<lambda>bs msg. (True, bs)) (getDescriptor example_flag) [7] (''b: 1'' @ [CHR 0x0A]) True =
       Inr (BAD_INPUT, [7])"
proof -
  obtain toks where toks: "text_tokenizer 4 0 = Inr toks" using text_tokenizer_exists by blast
  obtain N where N: "\<forall>env \<in> {env. text_tokenizer 4 0 = Inr (te_tokenizer env) \<and> N \<le> te_fuel env}.
     \<forall>m fd v tag. m_fields (m_self (getDescriptor m)) = [fd] \<and> ident_text (f_name fd) \<and> \<not> f_repeated fd \<and>
       field_tag fd = Inr tag \<and> getField m (f_fieldNum fd) = Some v \<and>
       (field_type fd = FIELD_BOOL \<and> v \<in> range VBool \<or> field_type fd = FIELD_INT64 \<and> v \<in> V64 ` {w. sint w < 0}) \<longrightarrow>
       (\<exists>text. TextFormat_format env [] m = Inr text \<and>
         (\<forall>iserialize msg errorOnUnknown.
           TextFormat_parse env iserialize (getDescriptor m) (msg :: u8 list) text errorOnUnknown = Inr (BAD_INPUT, msg)))"
    using text_not_read_back [where junk = 0] by blast
  let ?env = "example_env N toks"
  let ?fd = "example_field ''b'' [] FIELD_BOOL False"
  have env: "?env \<in> {env. text_tokenizer 4 0 = Inr (te_tokenizer env) \<and> N \<le> te_fuel env}"
    using toks by (simp add: example_simps)
  have "m_fields (m_self (getDescriptor example_flag)) = [?fd] \<and> ident_text (f_name ?fd) \<and> \<not> f_repeated ?fd \<and>
       field_tag ?fd = Inr 8 \<and> getField example_flag (f_fieldNum ?fd) = Some (VBool True) \<and>
       (field_type ?fd = FIELD_BOOL \<and> VBool True \<in> range VBool \<or>
        field_type ?fd = FIELD_INT64 \<and> VBool True \<in> V64 ` {w. sint w < 0})"
    by (simp add: example_flag_def example_simps example_type example_tag getField_def m_values_def ident_text_def is_alpha_ch_def)
  from bspec [OF N env, rule_format, OF this] obtain out where t:
    "TextFormat_format ?env [] example_flag = Inr out"
    "TextFormat_parse ?env (\<lambda>bs msg. (True, bs)) (getDescriptor example_flag) ([7] :: u8 list) out True = Inr (BAD_INPUT, [7])"
    by auto
  have "TextFormat_format ?env [] example_flag = Inr (''b: 1'' @ [CHR 0x0A])"
    by (simp add: TextFormat_format.simps format_fields.simps(2) ConvertField.simps example_flag_def example_simps
        example_type getField_def m_values_def deref_bool_def stream_word_def isspace_def format_entry_def)
  then show ?thesis using t toks by (intro exI [of _ ?env]) (simp add: example_simps)
qed

theorem text_parse_refines_witness:
  "\<exists>env. text_tokenizer 4 0 = Inr (te_tokenizer env) \<and>
     TextFormat_parse env (\<lambda>bs msg. (True, bs)) (getDescriptor (example_inner 0)) [] (''a: 2'' @ [CHR 0x0A]) True =
       Inr (OK, [8, 4])"
proof -
  obtain toks where toks: "text_tokenizer 4 0 = Inr toks" using text_tokenizer_exists by blast
  let ?text = "''a: 2'' @ [CHR 0x0A]" and ?d = "getDescriptor (example_inner 0)"
  obtain N where N: "\<forall>env \<in> {env. text_tokenizer 4 0 = Inr (te_tokenizer env) \<and> N \<le> te_fuel env}.
     \<exists>txs. reads env ?text 0 txs \<and> concat (map snd txs) = ?text \<and>
       TextFormat_parse env (\<lambda>bs msg. (True, bs)) ?d ([] :: u8 list) ?text True =
         bind_result (read_fields env True ?d False txs) (\<lambda>r.
         case r of
           None \<Rightarrow> Inr (BAD_INPUT, [])
         | Some bs \<Rightarrow> let (ok, msg) = (True, take (length ?text) bs) in Inr (status_of_bool ok, msg)) \<and>
       result_ok {CheckFailed, Undefined, NotRepresentable} (\<lambda>_. True)
         (TextFormat_parse env (\<lambda>bs msg. (True, bs)) ?d ([] :: u8 list) ?text True)"
    using text_parse_refines [where junk = 0 and textProto = ?text and iserialize = "\<lambda>bs msg. (True, bs)" and
        msg = "[] :: u8 list" and descriptor = ?d and errorOnUnknown = True] by blast
  obtain M where M: "\<forall>env. text_tokenizer 4 0 = Inr (te_tokenizer env) \<and> M \<le> te_fuel env \<longrightarrow> env_ok env"
    using env_ok_exists by blast
  let ?env = "example_env (max M N) toks"
  have env: "env_ok ?env" using M toks by (simp add: example_simps)
  have "?env \<in> {env. text_tokenizer 4 0 = Inr (te_tokenizer env) \<and> N \<le> te_fuel env}"
    using toks by (simp add: example_simps)
  from bspec [OF N this] obtain txs where txs: "reads ?env ?text 0 txs"
    "TextFormat_parse ?env (\<lambda>bs msg. (True, bs)) ?d ([] :: u8 list) ?text True =
         bind_result (read_fields ?env True ?d False txs) (\<lambda>r.
         case r of
           None \<Rightarrow> Inr (BAD_INPUT, [])
         | Some bs \<Rightarrow> let (ok, msg) = (True, take (length ?text) bs) in Inr (status_of_bool ok, msg))" by blast
  let ?us = "entry_tokens ''a'' NUMERIC ''2''"
  have "lays (?us @ [])"
    by (rule lays_entry) (simp_all add: ident_text_def is_alpha_ch_def value_token_def numeric_text_def is_digit_ch_def)
  then have "reads ?env ?text 0 ?us" using env by (intro lays_reads) (simp_all add: entry_tokens_def)
  then have "txs = ?us" using reads_unique txs(1) env by blast
  moreover have "lexical_cast_s64 ''2'' = Some 2" by code_simp
  then have "read_fields ?env True ?d False ?us = Inr (Some [8, 4])"
    by (simp add: entry_tokens_def read_fields.simps(2) example_inner_def example_simps findFieldByName_def
        example_tag example_type read_value_def add_bytes_def example_bytes)
  ultimately show ?thesis using txs(2) toks
    by (intro exI [of _ ?env]) (simp add: example_simps status_of_bool_def)
qed

end
