(* ===== verification/TgaImage.thy ===== *)
theory TgaImage
  imports Endian
begin

text \<open>
  Targa images: \<^verbatim>\<open>CORE/UTIL/FILES/tga_parser.h\<close> and \<^verbatim>\<open>tga_parser.cpp\<close>. A file in memory is the
  list of its bytes, the target of a save is the list of the bytes it holds before. The header is
  a packed structure that is copied from memory as it is, so the bytes of its fields are those of
  the host. A product of dimensions is computed as an \<^verbatim>\<open>int\<close>: where it does not fit the fault is
  \<open>Undefined\<close>.
\<close>

section \<open>The code\<close>

type_synonym u16 = "16 word"

record TGAHeader =
  m_numIdChar :: u8
  m_paletteType :: u8
  m_imageType :: u8
  m_paletteOrigin :: u16
  m_paletteEntries :: u16
  m_paletteBitsPerEntry :: u8
  m_xPos :: u16
  m_yPos :: u16
  m_width :: u16
  m_height :: u16
  m_bitsPerPixel :: u8
  m_descriptor :: u8

text \<open>The format the code reads and writes, of \<^verbatim>\<open>enum Formats\<close>.\<close>

definition TGA_RGB :: u8 where
  "TGA_RGB = 2"

definition g_defaultHeader :: TGAHeader where
  "g_defaultHeader =
     \<lparr>m_numIdChar = 0, m_paletteType = 0, m_imageType = TGA_RGB, m_paletteOrigin = 0,
      m_paletteEntries = 0, m_paletteBitsPerEntry = 0, m_xPos = 0, m_yPos = 0, m_width = 0,
      m_height = 0, m_bitsPerPixel = 32, m_descriptor = 0\<rparr>"

record TGAImage =
  m_RGBA8_data :: "u8 list"
  m_header :: TGAHeader

definition TGAImage_new :: TGAImage where
  "TGAImage_new = \<lparr>m_RGBA8_data = [], m_header = g_defaultHeader\<rparr>"

definition sizeof_Header :: nat where
  "sizeof_Header = 18"

text \<open>The packed structure at an address, and the bytes of one.\<close>

definition of_mem :: "bool \<Rightarrow> u8 list \<Rightarrow> u16" where
  "of_mem host bs = of_le_bytes (if host then bs else rev bs)"

definition header_at :: "bool \<Rightarrow> u8 list \<Rightarrow> TGAHeader" where
  "header_at host d =
     \<lparr>m_numIdChar = d ! 0, m_paletteType = d ! 1, m_imageType = d ! 2,
      m_paletteOrigin = of_mem host [d ! 3, d ! 4], m_paletteEntries = of_mem host [d ! 5, d ! 6],
      m_paletteBitsPerEntry = d ! 7, m_xPos = of_mem host [d ! 8, d ! 9],
      m_yPos = of_mem host [d ! 10, d ! 11], m_width = of_mem host [d ! 12, d ! 13],
      m_height = of_mem host [d ! 14, d ! 15], m_bitsPerPixel = d ! 16, m_descriptor = d ! 17\<rparr>"

definition header_bytes :: "bool \<Rightarrow> TGAHeader \<Rightarrow> u8 list" where
  "header_bytes host h =
     [m_numIdChar h, m_paletteType h, m_imageType h] @ mem_bytes host (m_paletteOrigin h) @
     mem_bytes host (m_paletteEntries h) @ [m_paletteBitsPerEntry h] @ mem_bytes host (m_xPos h) @
     mem_bytes host (m_yPos h) @ mem_bytes host (m_width h) @ mem_bytes host (m_height h) @
     [m_bitsPerPixel h, m_descriptor h]"

text \<open>The conversions of the fields, the same in both directions.\<close>

definition swap_header :: "bool \<Rightarrow> TGAHeader \<Rightarrow> TGAHeader" where
  "swap_header host h =
     h\<lparr>m_paletteOrigin := endian_little host endianSwapBytes2 (m_paletteOrigin h),
       m_paletteEntries := endian_little host endianSwapBytes2 (m_paletteEntries h),
       m_xPos := endian_little host endianSwapBytes2 (m_xPos h),
       m_yPos := endian_little host endianSwapBytes2 (m_yPos h),
       m_width := endian_little host endianSwapBytes2 (m_width h),
       m_height := endian_little host endianSwapBytes2 (m_height h)\<rparr>"

text \<open>\<^verbatim>\<open>4 * m_width * m_height\<close>: the operands are promoted to \<^verbatim>\<open>int\<close>.\<close>

definition image_size :: "TGAHeader \<Rightarrow> fault + nat" where
  "image_size h =
     (let n = 4 * unat (m_width h) * unat (m_height h) in
      if n < 2 ^ 31 then Inr n else Inl Undefined)"

text \<open>\<^verbatim>\<open>memcpy\<close> between buffers, and \<^verbatim>\<open>std::vector::resize\<close>.\<close>

definition mem_read :: "u8 list \<Rightarrow> nat \<Rightarrow> nat \<Rightarrow> fault + u8 list" where
  "mem_read src ofs n = (if ofs + n \<le> length src then Inr (take n (drop ofs src)) else Inl OutOfBounds)"

definition mem_write :: "u8 list \<Rightarrow> nat \<Rightarrow> u8 list \<Rightarrow> fault + u8 list" where
  "mem_write dst ofs bs =
     (if ofs + length bs \<le> length dst then Inr (take ofs dst @ bs @ drop (ofs + length bs) dst)
      else Inl OutOfBounds)"

definition vec_resize :: "u8 list \<Rightarrow> nat \<Rightarrow> u8 list" where
  "vec_resize xs n = take n xs @ replicate (n - length xs) 0"

text \<open>The loop that copies the lines in the opposite order, from line \<open>i\<close>.\<close>

function flip_loop :: "u8 list \<Rightarrow> nat \<Rightarrow> nat \<Rightarrow> nat \<Rightarrow> u8 list \<Rightarrow> fault + u8 list" where
  "flip_loop src lineStride height i data =
     (if i < height
      then bind_result (mem_read src (lineStride * (height - 1 - i)) lineStride) (\<lambda>line.
           bind_result (mem_write data (lineStride * i) line) (\<lambda>data.
           flip_loop src lineStride height (i + 1) data))
      else Inr data)"
  by pat_completeness auto
termination by (relation "measure (\<lambda>(_, _, h, i, _). h - i)") auto

declare flip_loop.simps [simp del]

definition upper_left :: "TGAHeader \<Rightarrow> bool" where
  "upper_left h \<longleftrightarrow> m_descriptor h AND push_bit 5 1 \<noteq> 0"

definition loadFromMemory :: "bool \<Rightarrow> TGAImage \<Rightarrow> u8 list \<Rightarrow> fault + status \<times> TGAImage" where
  "loadFromMemory host img buffer =
     (if length buffer < sizeof_Header then Inr (BAD_INPUT, img)
      else
      let header = swap_header host (header_at host buffer) in
      if \<not> (0 < m_width header \<and> 0 < m_height header) then Inr (BAD_INPUT, img)
      else if m_bitsPerPixel header \<noteq> 32 then Inr (UNSUPPORTED, img)
      else if m_imageType header \<noteq> TGA_RGB then Inr (UNSUPPORTED, img)
      else bind_result (image_size header) (\<lambda>imageDataSz.
        if \<not> imageDataSz \<le> length buffer - sizeof_Header then Inr (BAD_INPUT, img)
        else
        let src = drop sizeof_Header buffer;
            data = vec_resize (m_RGBA8_data img) imageDataSz in
        bind_result
          (if upper_left header
           then flip_loop src (unat (m_width header) * 4) (unat (m_height header)) 0 data
           else bind_result (mem_read src 0 imageDataSz) (mem_write data 0)) (\<lambda>data.
        Inr (OK, img\<lparr>m_RGBA8_data := data, m_header := header\<rparr>))))"

definition getSaveSize :: "TGAImage \<Rightarrow> fault + nat" where
  "getSaveSize img = bind_result (image_size (m_header img)) (\<lambda>n. Inr (sizeof_Header + n))"

definition saveToMemory :: "bool \<Rightarrow> TGAImage \<Rightarrow> u8 list \<Rightarrow> fault + status \<times> u8 list" where
  "saveToMemory host img buffer =
     (if \<not> (m_width (m_header img) \<noteq> 0 \<and> m_height (m_header img) \<noteq> 0) then Inr (BAD_INPUT, buffer)
      else bind_result (getSaveSize img) (\<lambda>saveSize.
        if \<not> saveSize \<le> length buffer then Inr (BAD_ARGUMENT, buffer)
        else bind_result (image_size (m_header img)) (\<lambda>imageDataSz.
        if length (m_RGBA8_data img) \<noteq> imageDataSz then Inr (BAD_STATE, buffer)
        else bind_result
          (mem_write buffer 0 (header_bytes host (swap_header host (m_header img)))) (\<lambda>buffer.
        bind_result (mem_read (m_RGBA8_data img) 0 imageDataSz) (\<lambda>image.
        bind_result (mem_write buffer sizeof_Header image) (\<lambda>buffer.
        Inr (OK, buffer)))))))"

text \<open>The dimensions only grow; a \<^verbatim>\<open>CHECK\<close> keeps them below the largest 16-bit number.\<close>

definition getMutableDataRgba8 :: "TGAImage \<Rightarrow> nat \<Rightarrow> nat \<Rightarrow> fault + TGAImage" where
  "getMutableDataRgba8 img sx sy =
     (if \<not> sx < 65535 \<or> \<not> sy < 65535 then Inl CheckFailed
      else
      let h = (m_header img)\<lparr>m_width := max (of_nat sx) (m_width (m_header img)),
                             m_height := max (of_nat sy) (m_height (m_header img))\<rparr> in
      bind_result (image_size h) (\<lambda>n.
      Inr (img\<lparr>m_RGBA8_data := vec_resize (m_RGBA8_data img) n, m_header := h\<rparr>)))"

definition TGAImage_isValid :: "TGAImage \<Rightarrow> bool" where
  "TGAImage_isValid img \<longleftrightarrow> length (m_RGBA8_data img) \<noteq> 0"


section \<open>Headers in memory\<close>

lemma of_mem_mem_bytes: "of_mem host (mem_bytes host w) = w"
  by (simp add: of_mem_def mem_bytes_def of_le_bytes_le_bytes)

lemma mem_bytes_pair: obtains a b where "mem_bytes host (w :: u16) = [a, b]" "of_mem host [a, b] = w"
proof -
  have "length (mem_bytes host w) = 2" by (simp add: mem_bytes_def)
  then obtain a b where "mem_bytes host w = [a, b]"
    by (metis (no_types) One_nat_def Suc_1 length_0_conv length_Suc_conv)
  then show ?thesis using of_mem_mem_bytes [of host w] that by simp
qed

lemma length_header_bytes [simp]: "length (header_bytes host h) = 18"
  by (simp add: header_bytes_def mem_bytes_def)

lemma header_at_header_bytes: "header_at host (header_bytes host h @ rest) = h"
proof -
  obtain a0 b0 a1 b1 a2 b2 where
    "mem_bytes host (m_paletteOrigin h) = [a0, b0]" "of_mem host [a0, b0] = m_paletteOrigin h"
    "mem_bytes host (m_paletteEntries h) = [a1, b1]" "of_mem host [a1, b1] = m_paletteEntries h"
    "mem_bytes host (m_xPos h) = [a2, b2]" "of_mem host [a2, b2] = m_xPos h"
    by (meson mem_bytes_pair)
  moreover obtain a3 b3 a4 b4 a5 b5 where
    "mem_bytes host (m_yPos h) = [a3, b3]" "of_mem host [a3, b3] = m_yPos h"
    "mem_bytes host (m_width h) = [a4, b4]" "of_mem host [a4, b4] = m_width h"
    "mem_bytes host (m_height h) = [a5, b5]" "of_mem host [a5, b5] = m_height h"
    by (meson mem_bytes_pair)
  ultimately show ?thesis by (simp add: header_bytes_def header_at_def)
qed

lemma swap_header_twice: "swap_header host (swap_header host h) = h"
  by (simp add: swap_header_def endian_little_def swap_involution)

section \<open>Copying the lines in the opposite order\<close>

fun lines_of :: "nat \<Rightarrow> nat \<Rightarrow> u8 list \<Rightarrow> u8 list list" where
  "lines_of stride 0 xs = []"
| "lines_of stride (Suc n) xs = take stride xs # lines_of stride n (drop stride xs)"

definition flipped :: "nat \<Rightarrow> nat \<Rightarrow> u8 list \<Rightarrow> u8 list" where
  "flipped stride n xs = concat (rev (lines_of stride n xs))"

lemma length_lines_of [simp]: "length (lines_of stride n xs) = n"
  by (induction n arbitrary: xs) simp_all

lemma nth_lines_of: "i < n \<Longrightarrow> lines_of stride n xs ! i = take stride (drop (stride * i) xs)"
proof (induction n arbitrary: i xs)
  case 0
  then show ?case by simp
next
  case (Suc n)
  then show ?case by (cases i) (simp_all add: add.commute)
qed

lemma length_line: "stride * n \<le> length xs \<Longrightarrow> l \<in> set (lines_of stride n xs) \<Longrightarrow> length l = stride"
proof (induction n arbitrary: xs)
  case (Suc n)
  have "stride * n \<le> length (drop stride xs)" using Suc.prems(1) by simp
  from Suc.IH [OF this] Suc.prems show ?case by auto
qed simp

lemma length_concat_equal: "(\<And>l. l \<in> set ls \<Longrightarrow> length l = k) \<Longrightarrow> length (concat ls) = k * length ls"
  by (induction ls) simp_all

lemma length_flipped: "stride * n \<le> length xs \<Longrightarrow> length (flipped stride n xs) = stride * n"
  unfolding flipped_def by (subst length_concat_equal [of _ stride]) (auto dest: length_line)

lemma lines_of_concat:
  "(\<And>l. l \<in> set ls \<Longrightarrow> length l = stride) \<Longrightarrow> lines_of stride (length ls) (concat ls) = ls"
  by (induction ls) simp_all

lemma concat_lines_of: "length xs = stride * n \<Longrightarrow> concat (lines_of stride n xs) = xs"
proof (induction n arbitrary: xs)
  case (Suc n)
  have "length (drop stride xs) = stride * n" using Suc.prems by simp
  from Suc.IH [OF this] show ?case by simp
qed simp

lemma flipped_twice:
  assumes "length xs = stride * n"
  shows "flipped stride n (flipped stride n xs) = xs"
proof -
  have "lines_of stride n (concat (rev (lines_of stride n xs))) = rev (lines_of stride n xs)"
    using lines_of_concat [of "rev (lines_of stride n xs)" stride] length_line [of stride n xs] assms
    by simp
  then show ?thesis by (simp add: flipped_def concat_lines_of assms)
qed

text \<open>
  The loop, from line \<open>i\<close>: the lines before are the last ones of the source. All reads and
  writes are inside the buffers.
\<close>

lemma flip_loop_from:
  assumes "stride * n \<le> length src" "length data = stride * n" "i \<le> n"
    "take (stride * i) data = concat (take i (rev (lines_of stride n src)))"
  shows "flip_loop src stride n i data = Inr (flipped stride n src)"
  using assms
proof (induction "n - i" arbitrary: i data)
  case 0
  then show ?case by (simp add: flip_loop.simps [of _ _ _ i] flipped_def)
next
  case (Suc k)
  let ?l = "rev (lines_of stride n src) ! i"
  let ?d = "take (stride * i) data @ ?l @ drop (stride * i + stride) data"
  have i: "i < n" using Suc.hyps(2) by simp
  then have n: "n = i + Suc k" using Suc.hyps(2) by simp
  have l: "?l = take stride (drop (stride * (n - 1 - i)) src)"
    using i by (simp add: rev_nth nth_lines_of)
  have "stride * (n - 1 - i) + stride = stride * (n - i)" using i n by simp
  also have "\<dots> \<le> stride * n" by simp
  finally have r: "stride * (n - 1 - i) + stride \<le> length src" using Suc.prems(1) by linarith
  then have read: "mem_read src (stride * (n - 1 - i)) stride = Inr ?l"
    by (simp add: mem_read_def l)
  have len: "length ?l = stride" using r by (simp add: l)
  have w: "stride * i + stride \<le> length data" using Suc.prems(2) n by simp
  have wr: "mem_write data (stride * i) ?l = Inr ?d" using w len by (simp add: mem_write_def)
  have "take (stride * (i + 1)) ?d = take (stride * i) data @ ?l"
    using w len by simp
  also have "\<dots> = concat (take (i + 1) (rev (lines_of stride n src)))"
    using i Suc.prems(4) by (simp add: take_Suc_conv_app_nth)
  finally have t: "take (stride * (i + 1)) ?d = concat (take (i + 1) (rev (lines_of stride n src)))" .
  have "length ?d = stride * n" using w len Suc.prems(2) by simp
  moreover have "k = n - (i + 1)" "i + 1 \<le> n" using Suc.hyps(2) by simp_all
  ultimately have "flip_loop src stride n (i + 1) ?d = Inr (flipped stride n src)"
    using Suc.hyps(1) [of "i + 1" ?d] Suc.prems(1) t by blast
  then show ?case using i read wr by (simp add: flip_loop.simps [of _ _ _ i])
qed

lemma flip_loop_flips:
  "stride * n \<le> length src \<Longrightarrow> length data = stride * n \<Longrightarrow>
   flip_loop src stride n 0 data = Inr (flipped stride n src)"
  by (rule flip_loop_from) simp_all

section \<open>Loading\<close>

text \<open>The pixels a file with a header shows, in the order from the lower left.\<close>

definition pixels_of :: "TGAHeader \<Rightarrow> u8 list \<Rightarrow> u8 list" where
  "pixels_of h xs =
     (if upper_left h then flipped (unat (m_width h) * 4) (unat (m_height h)) xs
      else take (4 * unat (m_width h) * unat (m_height h)) xs)"

definition header_supported :: "TGAHeader \<Rightarrow> bool" where
  "header_supported h \<longleftrightarrow>
     0 < m_width h \<and> 0 < m_height h \<and> m_bitsPerPixel h = 32 \<and> m_imageType h = TGA_RGB"

lemma length_vec_resize [simp]: "length (vec_resize xs n) = n"
  by (simp add: vec_resize_def)

lemma length_pixels_of:
  "4 * unat (m_width h) * unat (m_height h) \<le> length xs \<Longrightarrow>
   length (pixels_of h xs) = 4 * unat (m_width h) * unat (m_height h)"
  by (simp add: pixels_of_def length_flipped mult.commute)

lemma pixels_of_prefix:
  assumes "length xs = 4 * unat (m_width h) * unat (m_height h)"
  shows "pixels_of h (xs @ ys) = (if upper_left h then flipped (unat (m_width h) * 4) (unat (m_height h)) xs else xs)"
proof -
  have "lines_of s n (xs @ ys) = lines_of s n xs" if "s * n = length xs" for s n and xs :: "u8 list"
    using that
  proof (induction n arbitrary: xs)
    case (Suc n)
    have "s * n = length (drop s xs)" using Suc.prems by simp
    from Suc.IH [OF this] show ?case using Suc.prems by simp
  qed simp
  then show ?thesis using assms by (simp add: pixels_of_def flipped_def mult.commute mult.left_commute)
qed

lemma copy_pixels:
  assumes "4 * unat (m_width h) * unat (m_height h) \<le> length src"
    and "length data = 4 * unat (m_width h) * unat (m_height h)"
  shows "(if upper_left h
          then flip_loop src (unat (m_width h) * 4) (unat (m_height h)) 0 data
          else bind_result (mem_read src 0 (4 * unat (m_width h) * unat (m_height h))) (mem_write data 0)) =
         Inr (pixels_of h src)"
  using assms by (simp add: pixels_of_def flip_loop_flips mem_read_def mem_write_def mult.commute)

text \<open>Loading a buffer that has a header: every outcome.\<close>

lemma loadFromMemory_eq:
  assumes "sizeof_Header \<le> length buffer"
    and h: "h = swap_header host (header_at host buffer)"
    and n: "n = 4 * unat (m_width h) * unat (m_height h)"
  shows "loadFromMemory host img buffer =
     (if \<not> header_supported h
      then Inr (if \<not> (0 < m_width h \<and> 0 < m_height h) then BAD_INPUT else UNSUPPORTED, img)
      else if 2 ^ 31 \<le> n then Inl Undefined
      else if length buffer < sizeof_Header + n then Inr (BAD_INPUT, img)
      else Inr (OK, \<lparr>m_RGBA8_data = pixels_of h (drop sizeof_Header buffer), m_header = h\<rparr>))"
proof -
  have c: "(if upper_left h
          then flip_loop src (unat (m_width h) * 4) (unat (m_height h)) 0 (vec_resize old n)
          else bind_result (mem_read src 0 n) (mem_write (vec_resize old n) 0)) =
         Inr (pixels_of h src)" if "n \<le> length src" for src old
    using copy_pixels [of h src "vec_resize old n"] that unfolding n by simp
  show ?thesis
    using assms(1) c [of "drop sizeof_Header buffer" "m_RGBA8_data img"]
    unfolding loadFromMemory_def Let_def h [symmetric] header_supported_def image_size_def n [symmetric]
    by (cases img) auto
qed

text \<open>
  C27. For any bytes: loading reads nothing outside them and saving writes nothing outside the
  target. Loading returns OK with the file's header and exactly the pixels of its dimensions,
  which the file has after the header, or an error with the image unchanged; saving leaves the
  target's length, and what it holds after the file, as they are. The only fault is the overflow
  of \<^verbatim>\<open>4 * width * height\<close>, which a file of 18 bytes can cause.
\<close>

theorem tga_bounds:
  "(case loadFromMemory host img buffer of
      Inl e \<Rightarrow> e = Undefined \<and> sizeof_Header \<le> length buffer \<and>
        2 ^ 31 \<le> 4 * unat (m_width (swap_header host (header_at host buffer))) *
                  unat (m_height (swap_header host (header_at host buffer)))
    | Inr (s, img') \<Rightarrow>
        s \<in> {BAD_INPUT, UNSUPPORTED} \<and> img' = img \<or>
        s = OK \<and> m_header img' = swap_header host (header_at host buffer) \<and>
        header_supported (m_header img') \<and>
        length (m_RGBA8_data img') = 4 * unat (m_width (m_header img')) * unat (m_height (m_header img')) \<and>
        sizeof_Header + length (m_RGBA8_data img') \<le> length buffer \<and>
        m_RGBA8_data img' = pixels_of (m_header img') (drop sizeof_Header buffer)) \<and>
   (case saveToMemory host img buffer of
      Inl e \<Rightarrow> e = Undefined \<and> getSaveSize img = Inl Undefined
    | Inr (s, buffer') \<Rightarrow>
        length buffer' = length buffer \<and>
        (s \<in> {BAD_INPUT, BAD_ARGUMENT, BAD_STATE} \<and> buffer' = buffer \<or>
         s = OK \<and> sizeof_Header + length (m_RGBA8_data img) \<le> length buffer \<and>
         drop (sizeof_Header + length (m_RGBA8_data img)) buffer' =
         drop (sizeof_Header + length (m_RGBA8_data img)) buffer))"
proof (rule conjI, goal_cases)
  case 1
  show ?case
  proof (cases "length buffer < sizeof_Header")
    case True
    then show ?thesis by (simp add: loadFromMemory_def)
  next
    case False
    then show ?thesis
      by (subst loadFromMemory_eq [OF _ refl refl]) (simp_all add: length_pixels_of)
  qed
next
  case 2
  show ?case
    by (simp add: saveToMemory_def getSaveSize_def image_size_def mem_write_def mem_read_def
        sizeof_Header_def Let_def add.commute [of 18])
qed

lemma load_saved:
  assumes "header_supported (m_header img)"
    and "length (m_RGBA8_data img) = 4 * unat (m_width (m_header img)) * unat (m_height (m_header img))"
    and "length (m_RGBA8_data img) < 2 ^ 31"
  shows "loadFromMemory host img0
       (header_bytes host (swap_header host (m_header img)) @ m_RGBA8_data img @ rest) =
     Inr (OK, \<lparr>m_RGBA8_data = pixels_of (m_header img) (m_RGBA8_data img @ rest), m_header = m_header img\<rparr>)"
  using assms
  by (subst loadFromMemory_eq [OF _ refl refl])
    (simp_all add: sizeof_Header_def header_at_header_bytes swap_header_twice)

text \<open>
  C14. An image of the supported kind whose data has the size of its dimensions, saved on a host of
  either byte order into a buffer that is large enough, is loaded back by any image object with
  the same header. The data is the same if the header says that the origin is the lower left; if it
  says upper left the lines come back in the opposite order, since they are written as they are
  kept but the header's flag is not cleared, and saving and loading once more restores them.
\<close>

theorem tga_roundtrip:
  assumes "header_supported (m_header img)"
    and "length (m_RGBA8_data img) = 4 * unat (m_width (m_header img)) * unat (m_height (m_header img))"
    and "length (m_RGBA8_data img) < 2 ^ 31"
    and "getSaveSize img = Inr saveSize" "saveSize \<le> length buffer"
  shows "\<exists>saved img'. saveToMemory host img buffer = Inr (OK, saved) \<and>
     loadFromMemory host img0 saved = Inr (OK, img') \<and> m_header img' = m_header img \<and>
     m_RGBA8_data img' =
       (if upper_left (m_header img)
        then flipped (unat (m_width (m_header img)) * 4) (unat (m_height (m_header img))) (m_RGBA8_data img)
        else m_RGBA8_data img) \<and>
     (\<exists>saved' img''. saveToMemory host img' buffer = Inr (OK, saved') \<and>
        loadFromMemory host img0 saved' = Inr (OK, img'') \<and>
        m_header img'' = m_header img \<and> m_RGBA8_data img'' = m_RGBA8_data img)"
proof -
  let ?h = "m_header img" and ?n = "4 * unat (m_width (m_header img)) * unat (m_height (m_header img))"
  let ?p = "if upper_left ?h then flipped (unat (m_width ?h) * 4) (unat (m_height ?h)) (m_RGBA8_data img)
            else m_RGBA8_data img"
  have sz: "sizeof_Header + ?n \<le> length buffer"
    using assms(2-5) by (simp add: getSaveSize_def image_size_def)
  have save: "saveToMemory host i buffer =
      Inr (OK, header_bytes host (swap_header host ?h) @ m_RGBA8_data i @ drop (sizeof_Header + ?n) buffer)"
    if "m_header i = ?h" "length (m_RGBA8_data i) = ?n" for i
    using that assms(1-3) sz
    by (simp add: saveToMemory_def getSaveSize_def image_size_def mem_write_def mem_read_def
        sizeof_Header_def Let_def header_supported_def word_gt_0 add.commute [of 18])
  have load: "loadFromMemory host img0
      (header_bytes host (swap_header host ?h) @ m_RGBA8_data i @ drop (sizeof_Header + ?n) buffer) =
      Inr (OK, \<lparr>m_RGBA8_data = (if upper_left ?h then flipped (unat (m_width ?h) * 4) (unat (m_height ?h)) (m_RGBA8_data i)
            else m_RGBA8_data i), m_header = ?h\<rparr>)"
    if "m_header i = ?h" "length (m_RGBA8_data i) = ?n" for i
    using load_saved [of i host img0 "drop (sizeof_Header + ?n) buffer"] that assms(1-3)
    by (simp add: pixels_of_prefix)
  have l: "length ?p = ?n" using assms(2) by (simp add: length_flipped)
  have "flipped (unat (m_width ?h) * 4) (unat (m_height ?h))
      (flipped (unat (m_width ?h) * 4) (unat (m_height ?h)) (m_RGBA8_data img)) = m_RGBA8_data img"
    by (rule flipped_twice) (simp add: assms(2))
  then show ?thesis
    using save [of img] load [of img] assms(2) l
      save [of "\<lparr>m_RGBA8_data = ?p, m_header = ?h\<rparr>"] load [of "\<lparr>m_RGBA8_data = ?p, m_header = ?h\<rparr>"]
    by simp
qed

text \<open>An image of one column and two lines, with its origin in the upper left.\<close>

definition example_image :: TGAImage where
  "example_image =
     \<lparr>m_RGBA8_data = [1, 2, 3, 4, 5, 6, 7, 8],
      m_header = g_defaultHeader\<lparr>m_width := 1, m_height := 2, m_descriptor := 32\<rparr>\<rparr>"

lemma tga_roundtrip_witness:
  "\<exists>saved img'. saveToMemory False example_image (replicate 30 0) = Inr (OK, saved) \<and>
     loadFromMemory False TGAImage_new saved = Inr (OK, img') \<and>
     m_RGBA8_data img' = [5, 6, 7, 8, 1, 2, 3, 4]"
proof -
  have h: "header_supported (m_header example_image)"
    by (simp add: example_image_def g_defaultHeader_def header_supported_def)
  have s: "getSaveSize example_image = Inr 26"
    by (simp add: example_image_def g_defaultHeader_def getSaveSize_def image_size_def sizeof_Header_def)
  have u: "upper_left (m_header example_image)"
    by (simp add: example_image_def g_defaultHeader_def upper_left_def)
  have f: "flipped 4 2 (m_RGBA8_data example_image) = [5, 6, 7, 8, 1, 2, 3, 4]"
    by (simp add: example_image_def flipped_def numeral_2_eq_2)
  show ?thesis
    using tga_roundtrip [OF h _ _ s, of "replicate 30 0" False TGAImage_new] u f
    by (auto simp: example_image_def)
qed

text \<open>A header alone, of an image of \<open>2\<^sup>1\<^sup>5\<close> columns and \<open>2\<^sup>1\<^sup>4\<close> lines, overflows the size.\<close>

theorem tga_size_overflow:
  "loadFromMemory host img
     (header_bytes host (swap_header host (g_defaultHeader\<lparr>m_width := 0x8000, m_height := 0x4000\<rparr>))) =
   Inl Undefined"
  using header_at_header_bytes [of host "swap_header host (g_defaultHeader\<lparr>m_width := 0x8000, m_height := 0x4000\<rparr>)" "[]"]
  by (subst loadFromMemory_eq [OF _ refl refl])
    (simp_all add: sizeof_Header_def swap_header_twice header_supported_def g_defaultHeader_def)

text \<open>
  \<^verbatim>\<open>getMutableDataRgba8\<close> keeps an image that can be saved: its data has the size of its dimensions,
  which are at least those asked for.
\<close>

lemma getMutableDataRgba8_sized:
  assumes "getMutableDataRgba8 img sx sy = Inr img'"
  shows "length (m_RGBA8_data img') = 4 * unat (m_width (m_header img')) * unat (m_height (m_header img'))"
    and "sx \<le> unat (m_width (m_header img'))" and "sy \<le> unat (m_height (m_header img'))"
proof -
  have "n \<le> unat (max (of_nat n) w)" if "n < 65535" for n and w :: u16
  proof -
    have "unat (of_nat n :: u16) = n" using that by (simp add: unat_of_nat take_bit_nat_eq_self_iff)
    then show ?thesis by (auto simp: max_def word_le_nat_alt)
  qed
  then show "length (m_RGBA8_data img') = 4 * unat (m_width (m_header img')) * unat (m_height (m_header img'))"
    and "sx \<le> unat (m_width (m_header img'))" and "sy \<le> unat (m_height (m_header img'))"
    using assms by (auto simp: getMutableDataRgba8_def image_size_def Let_def split: if_splits)
qed

end
