(* ===== verification/VirtualInput.thy ===== *)
theory VirtualInput
  imports Fishy_Prelude
begin

text \<open>
  The virtual input device: \<^verbatim>\<open>WRAPPERS/OS/virtual_input.cpp\<close> with the state of keys and axes and
  the names of keys, the remapping of controllers of \<^verbatim>\<open>raw_input.shared.cpp\<close>, and the numbering of
  devices of \<^verbatim>\<open>raw_input.win32.cpp\<close>. Devices, keys and axes are the numbers of the enumerations,
  which an array is indexed with; an index outside its array is the fault \<open>OutOfBounds\<close>.
\<close>

section \<open>Keys, axes and devices\<close>

text \<open>
  The enumerations of \<^verbatim>\<open>raw_input_cfg.proto\<close>: the constants have the numbers from 1 in this order.
  \<^verbatim>\<open>type_COUNT\<close> is one more than the last number.
\<close>

definition eKeyMap_names :: "string list" where
  "eKeyMap_names = [
    ''KEY_MOUSE_1'', ''KEY_MOUSE_2'', ''KEY_MOUSE_3'', ''KEY_MOUSE_4'', ''KEY_MOUSE_5'',
    ''KEY_ESC'', ''KEY_BACKSPACE'', ''KEY_TAB'', ''KEY_PAUSE'', ''KEY_PRINTSCREEN'',
    ''KEY_ENTER'', ''KEY_A'', ''KEY_B'', ''KEY_C'', ''KEY_D'', ''KEY_E'', ''KEY_F'', ''KEY_G'',
    ''KEY_H'', ''KEY_I'', ''KEY_J'', ''KEY_K'', ''KEY_L'', ''KEY_M'', ''KEY_N'', ''KEY_O'',
    ''KEY_P'', ''KEY_Q'', ''KEY_R'', ''KEY_S'', ''KEY_T'', ''KEY_U'', ''KEY_V'', ''KEY_W'',
    ''KEY_X'', ''KEY_Y'', ''KEY_Z'', ''KEY_a'', ''KEY_b'', ''KEY_c'', ''KEY_d'', ''KEY_e'',
    ''KEY_f'', ''KEY_g'', ''KEY_h'', ''KEY_i'', ''KEY_j'', ''KEY_k'', ''KEY_l'', ''KEY_m'',
    ''KEY_n'', ''KEY_o'', ''KEY_p'', ''KEY_q'', ''KEY_r'', ''KEY_s'', ''KEY_t'', ''KEY_u'',
    ''KEY_v'', ''KEY_w'', ''KEY_x'', ''KEY_y'', ''KEY_z'', ''KEY_0'', ''KEY_1'', ''KEY_2'',
    ''KEY_3'', ''KEY_4'', ''KEY_5'', ''KEY_6'', ''KEY_7'', ''KEY_8'', ''KEY_9'', ''KEY_NUM_0'',
    ''KEY_NUM_1'', ''KEY_NUM_2'', ''KEY_NUM_3'', ''KEY_NUM_4'', ''KEY_NUM_5'', ''KEY_NUM_6'',
    ''KEY_NUM_7'', ''KEY_NUM_8'', ''KEY_NUM_9'', ''KEY_NUM_MUL'', ''KEY_NUM_ADD'',
    ''KEY_NUM_SUB'', ''KEY_NUM_PERIOD'', ''KEY_NUM_DIV'', ''KEY_NUM_ENTER'', ''KEY_PLUS'',
    ''KEY_MINUS'', ''KEY_LBRACKET'', ''KEY_RBRACKET'', ''KEY_PIPE'', ''KEY_COLON'',
    ''KEY_PERIOD'', ''KEY_COMMA'', ''KEY_QUOTE'', ''KEY_QUESTION'', ''KEY_TILDE'', ''KEY_SPACE'',
    ''KEY_HOME'', ''KEY_END'', ''KEY_LEFT'', ''KEY_RIGHT'', ''KEY_UP'', ''KEY_DOWN'',
    ''KEY_INSERT'', ''KEY_DELETE'', ''KEY_PAGEUP'', ''KEY_PAGEDOWN'', ''KEY_F1'', ''KEY_F2'',
    ''KEY_F3'', ''KEY_F4'', ''KEY_F5'', ''KEY_F6'', ''KEY_F7'', ''KEY_F8'', ''KEY_F9'',
    ''KEY_F10'', ''KEY_F11'', ''KEY_F12'', ''KEY_F13'', ''KEY_F14'', ''KEY_F15'', ''KEY_F16'',
    ''KEY_F17'', ''KEY_F18'', ''KEY_F19'', ''KEY_F20'', ''KEY_F21'', ''KEY_F22'', ''KEY_F23'',
    ''KEY_F24'', ''KEY_SYS_WIN'', ''KEY_SYS_APP'', ''KEY_LSHIFT'', ''KEY_RSHIFT'', ''KEY_LCTRL'',
    ''KEY_RCTRL'', ''KEY_LALT'', ''KEY_RALT'', ''KEY_JOY_0'', ''KEY_JOY_1'', ''KEY_JOY_2'',
    ''KEY_JOY_3'', ''KEY_JOY_4'', ''KEY_JOY_5'', ''KEY_JOY_6'', ''KEY_JOY_7'', ''KEY_JOY_8'',
    ''KEY_JOY_9'', ''KEY_JOY_10'', ''KEY_JOY_11'', ''KEY_JOY_12'', ''KEY_JOY_13'',
    ''KEY_JOY_14'', ''KEY_JOY_15'', ''KEY_JOY_16'', ''KEY_JOY_17'', ''KEY_JOY_18'',
    ''KEY_JOY_19'', ''KEY_JOY_20'', ''KEY_JOY_21'', ''KEY_JOY_22'', ''KEY_JOY_23'',
    ''KEY_JOY_24'', ''KEY_JOY_25'', ''KEY_JOY_26'', ''KEY_JOY_27'', ''KEY_JOY_28'',
    ''KEY_JOY_29'', ''KEY_JOY_30'', ''KEY_JOY_31'', ''KEY_JOY_32'', ''KEY_JOY_33'',
    ''KEY_JOY_34'', ''KEY_JOY_35'', ''KEY_JOY_36'', ''KEY_JOY_37'', ''KEY_JOY_38'',
    ''KEY_JOY_39'', ''KEY_JOY_40'', ''KEY_JOY_41'', ''KEY_JOY_42'', ''KEY_JOY_43'',
    ''KEY_JOY_44'', ''KEY_JOY_45'', ''KEY_JOY_46'', ''KEY_JOY_47'', ''KEY_JOY_48'',
    ''KEY_JOY_49'', ''KEY_JOY_50'']"

definition eAxisMap_names :: "string list" where
  "eAxisMap_names = [
    ''AXIS_MOUSE_X'', ''AXIS_MOUSE_Y'', ''AXIS_MOUSE_Z'', ''AXIS_JOY_X'', ''AXIS_JOY_Y'',
    ''AXIS_JOY_Z'', ''AXIS_JOY_THROTTLE_1'', ''AXIS_JOY_THROTTLE_2'', ''AXIS_JOY_TRIM_1'',
    ''AXIS_JOY_TRIM_2'', ''AXIS_JOY_HAT_1'', ''AXIS_JOY_SECOND_X'', ''AXIS_JOY_SECOND_Y'']"

definition KEY_JOY_0 :: int where "KEY_JOY_0 = 144"
definition KEY_JOY_50 :: int where "KEY_JOY_50 = 194"
definition KEY_COUNT :: int where "KEY_COUNT = 195"
definition AXIS_COUNT :: int where "AXIS_COUNT = 14"
definition DEVICE_COUNT :: int where "DEVICE_COUNT = 9"

text \<open>An element of an array, and of a row of an array of arrays.\<close>

definition in_array :: "'a list \<Rightarrow> int \<Rightarrow> bool" where
  "in_array xs i \<longleftrightarrow> 0 \<le> i \<and> i < int (length xs)"

definition elem :: "'a list \<Rightarrow> int \<Rightarrow> fault + 'a" where
  "elem xs i = (if in_array xs i then Inr (xs ! nat i) else Inl OutOfBounds)"

definition cell :: "'a list list \<Rightarrow> int \<Rightarrow> int \<Rightarrow> fault + 'a" where
  "cell a d i = bind_result (elem a d) (\<lambda>row. elem row i)"

definition set_cell :: "'a list list \<Rightarrow> int \<Rightarrow> int \<Rightarrow> 'a \<Rightarrow> fault + 'a list list" where
  "set_cell a d i v =
     bind_result (elem a d) (\<lambda>row.
     if in_array row i then Inr (a[nat d := row[nat i := v]]) else Inl OutOfBounds)"

section \<open>The state of the keys and axes\<close>

record InputManager =
  m_keysdown :: "bool list list"
  m_keyspressed :: "bool list list"
  m_keysreleased :: "bool list list"
  m_axispos :: "s32 list list"
  m_lastPressedDevice :: int
  m_lastReleasedDevice :: int
  m_lastPressedKey :: int
  m_lastReleasedKey :: int

definition filled :: "int \<Rightarrow> 'a \<Rightarrow> 'a list list" where
  "filled n v = replicate (nat DEVICE_COUNT) (replicate (nat n) v)"

definition resetAll :: "InputManager \<Rightarrow> InputManager" where
  "resetAll im = im\<lparr>
     m_keysdown := filled KEY_COUNT False, m_keyspressed := filled KEY_COUNT False,
     m_keysreleased := filled KEY_COUNT False, m_axispos := filled AXIS_COUNT 0,
     m_lastPressedKey := KEY_COUNT, m_lastPressedDevice := DEVICE_COUNT,
     m_lastReleasedKey := KEY_COUNT, m_lastReleasedDevice := DEVICE_COUNT\<rparr>"

text \<open>The constructor resets the members, which memory holds uninitialised.\<close>

definition InputManager_new :: "InputManager \<Rightarrow> InputManager" where
  "InputManager_new junk = resetAll junk"

definition resetPress :: "InputManager \<Rightarrow> InputManager" where
  "resetPress im = im\<lparr>
     m_keyspressed := filled KEY_COUNT False, m_keysreleased := filled KEY_COUNT False,
     m_lastPressedKey := KEY_COUNT, m_lastPressedDevice := DEVICE_COUNT,
     m_lastReleasedKey := KEY_COUNT, m_lastReleasedDevice := DEVICE_COUNT\<rparr>"

definition updateKey :: "InputManager \<Rightarrow> int \<Rightarrow> int \<Rightarrow> bool \<Rightarrow> fault + InputManager" where
  "updateKey im device ident down =
     bind_result (cell (m_keysdown im) device ident) (\<lambda>was.
     bind_result
       (if down \<and> \<not> was
        then bind_result (set_cell (m_keyspressed im) device ident True) (\<lambda>a.
             Inr (im\<lparr>m_keyspressed := a, m_lastPressedDevice := device, m_lastPressedKey := ident\<rparr>))
        else Inr im) (\<lambda>im.
     bind_result
       (if \<not> down \<and> was
        then bind_result (set_cell (m_keysreleased im) device ident True) (\<lambda>a.
             Inr (im\<lparr>m_keysreleased := a, m_lastReleasedDevice := device, m_lastReleasedKey := ident\<rparr>))
        else Inr im) (\<lambda>im.
     bind_result (set_cell (m_keysdown im) device ident down) (\<lambda>a.
     Inr (im\<lparr>m_keysdown := a\<rparr>)))))"

definition updateAxis :: "InputManager \<Rightarrow> int \<Rightarrow> int \<Rightarrow> s32 \<Rightarrow> fault + InputManager" where
  "updateAxis im device ident pos =
     bind_result (set_cell (m_axispos im) device ident pos) (\<lambda>a. Inr (im\<lparr>m_axispos := a\<rparr>))"

definition keyWasPressed :: "InputManager \<Rightarrow> int \<Rightarrow> int \<Rightarrow> fault + bool" where
  "keyWasPressed im device ident = cell (m_keyspressed im) device ident"

definition keyWasReleased :: "InputManager \<Rightarrow> int \<Rightarrow> int \<Rightarrow> fault + bool" where
  "keyWasReleased im device ident = cell (m_keysreleased im) device ident"

definition keyIsDown :: "InputManager \<Rightarrow> int \<Rightarrow> int \<Rightarrow> fault + bool" where
  "keyIsDown im device ident = cell (m_keysdown im) device ident"

definition axisGetPos :: "InputManager \<Rightarrow> int \<Rightarrow> int \<Rightarrow> fault + s32" where
  "axisGetPos im device ident = cell (m_axispos im) device ident"

text \<open>The window's callbacks call these (\<^verbatim>\<open>iWindowCallback\<close>), one event after the other.\<close>

datatype input_event =
    ButtonInput int int bool
  | AxisInput int int s32
  | EndOfFrame
  | ResetAll

definition input_step :: "input_event \<Rightarrow> InputManager \<Rightarrow> fault + InputManager" where
  "input_step e im = (case e of
      ButtonInput device ident down \<Rightarrow> updateKey im device ident down
    | AxisInput device axis value \<Rightarrow> updateAxis im device axis value
    | EndOfFrame \<Rightarrow> Inr (resetPress im)
    | ResetAll \<Rightarrow> Inr (resetAll im))"

fun input_run :: "input_event list \<Rightarrow> InputManager \<Rightarrow> fault + InputManager" where
  "input_run [] im = Inr im"
| "input_run (e # es) im = bind_result (input_step e im) (input_run es)"

section \<open>The names of keys and axes\<close>

definition g_keyStrs :: "string list" where
  "g_keyStrs = [
    ''UNKNOWN'', ''KEY_MOUSE_1'', ''KEY_MOUSE_2'', ''KEY_MOUSE_3'', ''KEY_MOUSE_4'',
    ''KEY_MOUSE_5'', ''KEY_ESC'', ''KEY_BACKSPACE'', ''KEY_TAB'', ''KEY_PAUSE'',
    ''KEY_PRINTSCREEN'', ''KEY_ENTER'', ''KEY_A'', ''KEY_B'', ''KEY_C'', ''KEY_D'', ''KEY_E'',
    ''KEY_F'', ''KEY_G'', ''KEY_H'', ''KEY_I'', ''KEY_J'', ''KEY_K'', ''KEY_L'', ''KEY_M'',
    ''KEY_N'', ''KEY_O'', ''KEY_P'', ''KEY_Q'', ''KEY_R'', ''KEY_S'', ''KEY_T'', ''KEY_U'',
    ''KEY_V'', ''KEY_W'', ''KEY_X'', ''KEY_Y'', ''KEY_Z'', ''KEY_a'', ''KEY_b'', ''KEY_c'',
    ''KEY_d'', ''KEY_e'', ''KEY_f'', ''KEY_g'', ''KEY_h'', ''KEY_i'', ''KEY_j'', ''KEY_k'',
    ''KEY_l'', ''KEY_m'', ''KEY_n'', ''KEY_o'', ''KEY_p'', ''KEY_q'', ''KEY_r'', ''KEY_s'',
    ''KEY_t'', ''KEY_u'', ''KEY_v'', ''KEY_w'', ''KEY_x'', ''KEY_y'', ''KEY_z'', ''KEY_0'',
    ''KEY_1'', ''KEY_2'', ''KEY_3'', ''KEY_4'', ''KEY_5'', ''KEY_6'', ''KEY_7'', ''KEY_8'',
    ''KEY_9'', ''KEY_NUM_0'', ''KEY_NUM_1'', ''KEY_NUM_2'', ''KEY_NUM_3'', ''KEY_NUM_4'',
    ''KEY_NUM_5'', ''KEY_NUM_6'', ''KEY_NUM_7'', ''KEY_NUM_8'', ''KEY_NUM_9'', ''KEY_NUM_MUL'',
    ''KEY_NUM_ADD'', ''KEY_NUM_SUB'', ''KEY_NUM_PERIOD'', ''KEY_NUM_DIV'', ''KEY_NUM_ENTER'',
    ''KEY_PLUS'', ''KEY_MINUS'', ''KEY_LBRACKET'', ''KEY_RBRACKET'', ''KEY_PIPE'', ''KEY_COLON'',
    ''KEY_PERIOD'', ''KEY_COMMA'', ''KEY_QUOTE'', ''KEY_QUESTION'', ''KEY_TILDE'', ''KEY_SPACE'',
    ''KEY_HOME'', ''KEY_END'', ''KEY_LEFT'', ''KEY_RIGHT'', ''KEY_UP'', ''KEY_DOWN'',
    ''KEY_INSERT'', ''KEY_DELETE'', ''KEY_PAGEUP'', ''KEY_PAGEDOWN'', ''KEY_F1'', ''KEY_F2'',
    ''KEY_F3'', ''KEY_F4'', ''KEY_F5'', ''KEY_F6'', ''KEY_F7'', ''KEY_F8'', ''KEY_F9'',
    ''KEY_F10'', ''KEY_F11'', ''KEY_F12'', ''KEY_F13'', ''KEY_F14'', ''KEY_F15'', ''KEY_F16'',
    ''KEY_F17'', ''KEY_F18'', ''KEY_F19'', ''KEY_F20'', ''KEY_F21'', ''KEY_F22'', ''KEY_F23'',
    ''KEY_F24'', ''KEY_SYS_WIN'', ''KEY_SYS_APP'', ''KEY_LSHIFT'', ''KEY_RSHIFT'', ''KEY_LCTRL'',
    ''KEY_RCTRL'', ''KEY_LALT'', ''KEY_RALT'', ''KEY_JOY_0'', ''KEY_JOY_1'', ''KEY_JOY_2'',
    ''KEY_JOY_3'', ''KEY_JOY_4'', ''KEY_JOY_5'', ''KEY_JOY_6'', ''KEY_JOY_7'', ''KEY_JOY_8'',
    ''KEY_JOY_9'', ''KEY_JOY_10'', ''KEY_JOY_11'', ''KEY_JOY_12'', ''KEY_JOY_13'',
    ''KEY_JOY_14'', ''KEY_JOY_15'', ''KEY_JOY_16'', ''KEY_JOY_17'', ''KEY_JOY_18'',
    ''KEY_JOY_19'', ''KEY_JOY_20'', ''KEY_JOY_21'', ''KEY_JOY_22'', ''KEY_JOY_23'',
    ''KEY_JOY_24'', ''KEY_JOY_25'', ''KEY_JOY_26'', ''KEY_JOY_27'', ''KEY_JOY_28'',
    ''KEY_JOY_29'', ''KEY_JOY_30'', ''KEY_JOY_31'', ''KEY_JOY_32'', ''KEY_JOY_33'',
    ''KEY_JOY_34'', ''KEY_JOY_35'', ''KEY_JOY_36'', ''KEY_JOY_37'', ''KEY_JOY_38'',
    ''KEY_JOY_39'', ''KEY_JOY_40'', ''KEY_JOY_41'', ''KEY_JOY_42'', ''KEY_JOY_43'',
    ''KEY_JOY_44'', ''KEY_JOY_45'', ''KEY_JOY_46'', ''KEY_JOY_47'', ''KEY_JOY_48'',
    ''KEY_JOY_49'', ''KEY_JOY_50'', ''<UNKNOWN KEY>'']"

text \<open>The texts of keys, with the rows of letters.\<close>

definition small_letters :: "string list" where
  [simp]: "small_letters = map (\<lambda>c. [c]) ''abcdefghijklmnopqrstuvwxyz''"

definition capitals :: "string list" where
  [simp]: "capitals = map (\<lambda>c. [c]) ''ABCDEFGHIJKLMNOPQRSTUVWXYZ''"

definition g_keyTextStrs :: "string list" where
  "g_keyTextStrs = [
    '''', '''', '''', '''', '''', '''', '''', '''', [CHR 0x09], '''', '''', '''']
    @ small_letters @ small_letters @ [
    ''0'', ''1'',
    ''2'', ''3'', ''4'', ''5'', ''6'', ''7'', ''8'', ''9'', ''0'', ''1'', ''2'', ''3'', ''4'',
    ''5'', ''6'', ''7'', ''8'', ''9'', ''*'', ''+'', ''-'', ''.'', ''/'', '''', ''+'', ''-'',
    ''['', '']'', [CHR 0x5C], '';'', ''.'', '','', [CHR 0x27], ''/'', [CHR 0x60], '' '', '''',
    '''', '''', '''', '''', '''', '''', '''', '''', '''', '''', '''', '''', '''', '''', '''',
    '''', '''', '''', '''', '''', '''', '''', '''', '''', '''', '''', '''', '''', '''', '''',
    '''', '''', '''', '''', '''', '''', '''', '''', '''', '''', '''', '''', '''', '''', '''',
    '''', '''', '''', '''', '''', '''', '''', '''', '''', '''', '''', '''', '''', '''', '''',
    '''', '''', '''', '''', '''', '''', '''', '''', '''', '''', '''', '''', '''', '''', '''',
    '''', '''', '''', '''', '''', '''', '''', '''', '''', '''', '''', '''', '''', '''', '''',
    '''', '''', ''<UNKNOWN KEY>'']"

definition g_keyShiftedStrs :: "string list" where
  "g_keyShiftedStrs = [
    '''', '''', '''', '''', '''', '''', '''', '''', [CHR 0x09], '''', '''', '''']
    @ capitals @ capitals @ [
    ''!'', ''@'',
    ''#'', ''$'', ''%'', ''^'', ''&'', ''*'', ''('', '')'', ''0'', ''1'', ''2'', ''3'', ''4'',
    ''5'', ''6'', ''7'', ''8'', ''9'', ''*'', ''+'', ''-'', ''.'', ''/'', '''', ''+'', ''_'',
    ''{'', ''}'', ''|'', '':'', ''<'', ''>'', [CHR 0x22], ''?'', ''~'', '' '', '''', '''', '''',
    '''', '''', '''', '''', '''', '''', '''', '''', '''', '''', '''', '''', '''', '''', '''',
    '''', '''', '''', '''', '''', '''', '''', '''', '''', '''', '''', '''', '''', '''', '''',
    '''', '''', '''', '''', '''', '''', '''', '''', '''', '''', '''', '''', '''', '''', '''',
    '''', '''', '''', '''', '''', '''', '''', '''', '''', '''', '''', '''', '''', '''', '''',
    '''', '''', '''', '''', '''', '''', '''', '''', '''', '''', '''', '''', '''', '''', '''',
    '''', '''', '''', '''', '''', '''', '''', '''', '''', '''', '''', '''', '''', '''', '''',
    ''<UNKNOWN KEY>'']"

definition g_axisStrs :: "string list" where
  "g_axisStrs = [
    ''UNKNOWN'', ''AXIS_MOUSE_X'', ''AXIS_MOUSE_Y'', ''AXIS_MOUSE_Z'', ''AXIS_JOY_X'',
    ''AXIS_JOY_Y'', ''AXIS_JOY_Z'', ''AXIS_JOY_THROTTLE_1'', ''AXIS_JOY_THROTTLE_2'',
    ''AXIS_JOY_TRIM_1'', ''AXIS_JOY_TRIM_2'', ''AXIS_JOY_HAT_1'', ''AXIS_JOY_MOUSE_X'',
    ''AXIS_JOY_MOUSE_Y'', ''<UNKNOWN AXIS>'']"

definition GetKeyName :: "int \<Rightarrow> fault + string" where
  "GetKeyName key = elem g_keyStrs key"

definition GetKeyText :: "int \<Rightarrow> bool \<Rightarrow> fault + string" where
  "GetKeyText key shift = (if shift then elem g_keyShiftedStrs key else elem g_keyTextStrs key)"

definition GetAxisName :: "int \<Rightarrow> fault + string" where
  "GetAxisName axis = elem g_axisStrs axis"

section \<open>Arrays of rows\<close>

definition in_range :: "int \<Rightarrow> int \<Rightarrow> int \<Rightarrow> bool" where
  "in_range n d i \<longleftrightarrow> 0 \<le> d \<and> d < DEVICE_COUNT \<and> 0 \<le> i \<and> i < n"

definition holds_table :: "int \<Rightarrow> 'a list list \<Rightarrow> (int \<Rightarrow> int \<Rightarrow> 'a) \<Rightarrow> bool" where
  "holds_table n a f \<longleftrightarrow>
     length a = nat DEVICE_COUNT \<and> (\<forall>row \<in> set a. length row = nat n) \<and>
     (\<forall>d i. in_range n d i \<longrightarrow> a ! nat d ! nat i = f d i)"

lemma nat_less_of: "0 \<le> d \<Longrightarrow> d < n \<Longrightarrow> nat d < nat n"
  by simp

lemma holds_table_row:
  "holds_table n a f \<Longrightarrow> 0 \<le> d \<Longrightarrow> d < DEVICE_COUNT \<Longrightarrow> length (a ! nat d) = nat n"
  by (simp add: holds_table_def nat_less_of)

lemma cell_table:
  assumes "holds_table n a f"
  shows "cell a d i = (if in_range n d i then Inr (f d i) else Inl OutOfBounds)"
proof -
  have l: "length a = nat DEVICE_COUNT" using assms by (simp add: holds_table_def)
  show ?thesis
  proof (cases "0 \<le> d \<and> d < DEVICE_COUNT")
    case True
    then have "in_array a d" by (simp add: in_array_def l DEVICE_COUNT_def)
    moreover have "in_array (a ! nat d) i \<longleftrightarrow> 0 \<le> i \<and> i < n"
      using holds_table_row [OF assms] True by (auto simp: in_array_def)
    moreover have "in_range n d i \<longleftrightarrow> 0 \<le> i \<and> i < n" using True by (auto simp: in_range_def)
    ultimately show ?thesis using assms by (auto simp: cell_def elem_def holds_table_def)
  next
    case False
    then show ?thesis by (auto simp: cell_def elem_def in_array_def l in_range_def DEVICE_COUNT_def)
  qed
qed

lemma set_cell_out_of_range:
  assumes "holds_table n a f" "\<not> in_range n d i"
  shows "set_cell a d i v = Inl OutOfBounds"
  using cell_table [OF assms(1), of d i] assms(2)
  by (auto simp: set_cell_def cell_def elem_def split: if_splits)

lemma set_cell_table:
  assumes "holds_table n a f" "in_range n d i"
  obtains a' where "set_cell a d i v = Inr a'" "holds_table n a' (f(d := (f d)(i := v)))"
proof -
  let ?row = "a ! nat d"
  let ?a = "a[nat d := ?row[nat i := v]]"
  have r: "0 \<le> d" "d < DEVICE_COUNT" "0 \<le> i" "i < n" using assms(2) by (simp_all add: in_range_def)
  have l: "length a = nat DEVICE_COUNT" using assms(1) by (simp add: holds_table_def)
  have row: "length ?row = nat n" using holds_table_row [OF assms(1)] r by simp
  have d: "nat d < length a" using r l by simp
  have "set_cell a d i v = Inr ?a"
    using r row l by (simp add: set_cell_def elem_def in_array_def DEVICE_COUNT_def)
  moreover have "holds_table n ?a (f(d := (f d)(i := v)))"
    unfolding holds_table_def
  proof (intro conjI ballI allI impI)
    show "length ?a = nat DEVICE_COUNT" by (simp add: l)
    show "length r = nat n" if "r \<in> set ?a" for r
      using set_update_subset_insert [of a "nat d" "?row[nat i := v]"] that assms(1) row
      by (auto simp: holds_table_def)
    fix d' i' assume v: "in_range n d' i'"
    have old: "a ! nat d' ! nat i' = f d' i'" using assms(1) v by (simp add: holds_table_def)
    show "?a ! nat d' ! nat i' = (f(d := (f d)(i := v))) d' i'"
    proof (cases "d' = d")
      case True
      then show ?thesis using d row r v old by (auto simp: in_range_def nth_list_update)
    next
      case False
      then have "nat d' \<noteq> nat d" using v r by (simp add: in_range_def eq_nat_nat_iff)
      then show ?thesis using False old by simp
    qed
  qed
  ultimately show ?thesis using that by blast
qed

lemma holds_table_filled: "0 \<le> n \<Longrightarrow> (\<And>d i. f d i = v) \<Longrightarrow> holds_table n (filled n v) f"
  by (auto simp: holds_table_def filled_def in_range_def nat_less_of)

lemma holds_table_cong:
  "holds_table n a f \<Longrightarrow> (\<And>d i. in_range n d i \<Longrightarrow> f d i = g d i) \<Longrightarrow> holds_table n a g"
  by (simp add: holds_table_def)

section \<open>What a history of events makes of the keys\<close>

text \<open>
  A history has the latest event first. A key is down if its latest event since everything was
  reset says so; it was pressed in this frame if an event of this frame found it up and put it
  down.
\<close>

fun down_in :: "input_event list \<Rightarrow> int \<Rightarrow> int \<Rightarrow> bool" where
  "down_in [] d k = False"
| "down_in (ButtonInput d' k' down # h) d k = (if d' = d \<and> k' = k then down else down_in h d k)"
| "down_in (ResetAll # h) d k = False"
| "down_in (AxisInput _ _ _ # h) d k = down_in h d k"
| "down_in (EndOfFrame # h) d k = down_in h d k"

fun axis_in :: "input_event list \<Rightarrow> int \<Rightarrow> int \<Rightarrow> s32" where
  "axis_in [] d k = 0"
| "axis_in (AxisInput d' k' pos # h) d k = (if d' = d \<and> k' = k then pos else axis_in h d k)"
| "axis_in (ResetAll # h) d k = 0"
| "axis_in (ButtonInput _ _ _ # h) d k = axis_in h d k"
| "axis_in (EndOfFrame # h) d k = axis_in h d k"

definition same_frame :: "input_event list \<Rightarrow> bool" where
  "same_frame h \<longleftrightarrow> EndOfFrame \<notin> set h \<and> ResetAll \<notin> set h"

definition changed_in :: "bool \<Rightarrow> input_event list \<Rightarrow> int \<Rightarrow> int \<Rightarrow> bool" where
  "changed_in down h d k \<longleftrightarrow>
     (\<exists>new old. h = new @ ButtonInput d k down # old \<and> same_frame new \<and> down_in old d k \<noteq> down)"

text \<open>The latest such event of any key, or the counts.\<close>

fun last_change :: "bool \<Rightarrow> input_event list \<Rightarrow> int \<times> int" where
  "last_change down [] = (DEVICE_COUNT, KEY_COUNT)"
| "last_change down (ButtonInput d k down' # h) =
     (if down' = down \<and> down_in h d k \<noteq> down then (d, k) else last_change down h)"
| "last_change down (AxisInput _ _ _ # h) = last_change down h"
| "last_change down (EndOfFrame # h) = (DEVICE_COUNT, KEY_COUNT)"
| "last_change down (ResetAll # h) = (DEVICE_COUNT, KEY_COUNT)"

lemma changed_in_Cons:
  "changed_in down (e # h) d k \<longleftrightarrow>
     e = ButtonInput d k down \<and> down_in h d k \<noteq> down \<or>
     e \<noteq> EndOfFrame \<and> e \<noteq> ResetAll \<and> changed_in down h d k"
  (is "?l \<longleftrightarrow> ?r")
proof
  assume ?l
  then obtain new old where h: "e # h = new @ ButtonInput d k down # old" "same_frame new"
      "down_in old d k \<noteq> down"
    unfolding changed_in_def by blast
  then show ?r by (cases new) (auto simp: changed_in_def same_frame_def)
next
  assume ?r
  then show ?l
  proof
    assume "e = ButtonInput d k down \<and> down_in h d k \<noteq> down"
    then show ?l unfolding changed_in_def same_frame_def by (intro exI [of _ "[]"] exI [of _ h]) auto
  next
    assume r: "e \<noteq> EndOfFrame \<and> e \<noteq> ResetAll \<and> changed_in down h d k"
    then obtain new old where "h = new @ ButtonInput d k down # old" "same_frame new"
        "down_in old d k \<noteq> down"
      unfolding changed_in_def by blast
    then show ?l using r unfolding changed_in_def same_frame_def
      by (intro exI [of _ "e # new"] exI [of _ old]) auto
  qed
qed

lemma changed_in_simps [simp]:
  "changed_in down [] d k = False"
  "changed_in down (ButtonInput d' k' down' # h) d k \<longleftrightarrow>
     d' = d \<and> k' = k \<and> down' = down \<and> down_in h d k \<noteq> down \<or> changed_in down h d k"
  "changed_in down (AxisInput d' k' pos # h) d k \<longleftrightarrow> changed_in down h d k"
  "changed_in down (EndOfFrame # h) d k = False"
  "changed_in down (ResetAll # h) d k = False"
  by (simp_all add: changed_in_Cons) (simp add: changed_in_def)

definition input_rep :: "input_event list \<Rightarrow> InputManager \<Rightarrow> bool" where
  "input_rep h im \<longleftrightarrow>
     holds_table KEY_COUNT (m_keysdown im) (down_in h) \<and>
     holds_table KEY_COUNT (m_keyspressed im) (changed_in True h) \<and>
     holds_table KEY_COUNT (m_keysreleased im) (changed_in False h) \<and>
     holds_table AXIS_COUNT (m_axispos im) (axis_in h) \<and>
     (m_lastPressedDevice im, m_lastPressedKey im) = last_change True h \<and>
     (m_lastReleasedDevice im, m_lastReleasedKey im) = last_change False h"

fun valid_event :: "input_event \<Rightarrow> bool" where
  "valid_event (ButtonInput d k down) \<longleftrightarrow> in_range KEY_COUNT d k"
| "valid_event (AxisInput d k pos) \<longleftrightarrow> in_range AXIS_COUNT d k"
| "valid_event EndOfFrame \<longleftrightarrow> True"
| "valid_event ResetAll \<longleftrightarrow> True"

lemma input_rep_reset: "input_rep [] (resetAll im)" "input_rep (ResetAll # h) (resetAll im)"
  by (simp_all add: input_rep_def resetAll_def KEY_COUNT_def AXIS_COUNT_def holds_table_filled)

lemma input_rep_frame: "input_rep h im \<Longrightarrow> input_rep (EndOfFrame # h) (resetPress im)"
proof -
  have d: "down_in (EndOfFrame # h) = down_in h" "axis_in (EndOfFrame # h) = axis_in h" by (intro ext, simp)+
  assume "input_rep h im"
  then show ?thesis by (simp add: input_rep_def resetPress_def d holds_table_filled KEY_COUNT_def)
qed

lemma updateAxis_rep:
  assumes "input_rep h im" "in_range AXIS_COUNT d k"
  obtains im' where "updateAxis im d k pos = Inr im'" "input_rep (AxisInput d k pos # h) im'"
proof -
  have t: "holds_table AXIS_COUNT (m_axispos im) (axis_in h)" using assms(1) by (simp add: input_rep_def)
  obtain a where a: "set_cell (m_axispos im) d k pos = Inr a"
    "holds_table AXIS_COUNT a ((axis_in h)(d := (axis_in h d)(k := pos)))"
    using set_cell_table [OF t assms(2)] by blast
  moreover have "holds_table AXIS_COUNT a (axis_in (AxisInput d k pos # h))"
    using a(2) by (rule holds_table_cong) simp
  moreover have "down_in (AxisInput d k pos # h) = down_in h"
    "changed_in b (AxisInput d k pos # h) = changed_in b h" for b by (intro ext, simp)+
  ultimately have "input_rep (AxisInput d k pos # h) (im\<lparr>m_axispos := a\<rparr>)"
    using assms(1) by (simp add: input_rep_def)
  then show ?thesis using that a by (simp add: updateAxis_def)
qed

lemma updateKey_rep:
  assumes rep: "input_rep h im" and r: "in_range KEY_COUNT d k"
  obtains im' where "updateKey im d k down = Inr im'" "input_rep (ButtonInput d k down # h) im'"
proof -
  let ?h = "ButtonInput d k down # h"
  have t: "holds_table KEY_COUNT (m_keysdown im) (down_in h)"
    "holds_table KEY_COUNT (m_keyspressed im) (changed_in True h)"
    "holds_table KEY_COUNT (m_keysreleased im) (changed_in False h)"
    using rep by (simp_all add: input_rep_def)
  obtain a where a: "set_cell (m_keysdown im) d k down = Inr a"
    "holds_table KEY_COUNT a ((down_in h)(d := (down_in h d)(k := down)))"
    using set_cell_table [OF t(1) r] by blast
  obtain b where b: "set_cell (m_keyspressed im) d k True = Inr b"
    "holds_table KEY_COUNT b ((changed_in True h)(d := (changed_in True h d)(k := True)))"
    using set_cell_table [OF t(2) r] by blast
  obtain c where c: "set_cell (m_keysreleased im) d k True = Inr c"
    "holds_table KEY_COUNT c ((changed_in False h)(d := (changed_in False h d)(k := True)))"
    using set_cell_table [OF t(3) r] by blast
  have was: "cell (m_keysdown im) d k = Inr (down_in h d k)" using cell_table [OF t(1)] r by simp
  have a': "holds_table KEY_COUNT a (down_in ?h)" using a(2) by (rule holds_table_cong) simp
  have b': "holds_table KEY_COUNT b (changed_in True ?h)" if "down" "\<not> down_in h d k"
    using b(2) by (rule holds_table_cong) (use that in auto)
  have c': "holds_table KEY_COUNT c (changed_in False ?h)" if "\<not> down" "down_in h d k"
    using c(2) by (rule holds_table_cong) (use that in auto)
  have p: "holds_table KEY_COUNT (m_keyspressed im) (changed_in True ?h)" if "\<not> (down \<and> \<not> down_in h d k)"
    using t(2) by (rule holds_table_cong) (use that in auto)
  have q: "holds_table KEY_COUNT (m_keysreleased im) (changed_in False ?h)" if "\<not> (\<not> down \<and> down_in h d k)"
    using t(3) by (rule holds_table_cong) (use that in auto)
  have x: "axis_in ?h = axis_in h" by (intro ext) simp
  consider "down" "\<not> down_in h d k" | "\<not> down" "down_in h d k" | "down = down_in h d k" by blast
  then show ?thesis
  proof cases
    case 1
    then show ?thesis using rep a' b' q x a b was
      by (intro that [of "im\<lparr>m_keyspressed := b, m_lastPressedDevice := d, m_lastPressedKey := k, m_keysdown := a\<rparr>"])
        (simp_all add: updateKey_def input_rep_def)
  next
    case 2
    then show ?thesis using rep a' c' p x a c was
      by (intro that [of "im\<lparr>m_keysreleased := c, m_lastReleasedDevice := d, m_lastReleasedKey := k, m_keysdown := a\<rparr>"])
        (simp_all add: updateKey_def input_rep_def)
  next
    case 3
    then show ?thesis using rep a' p q x a was
      by (intro that [of "im\<lparr>m_keysdown := a\<rparr>"]) (simp_all add: updateKey_def input_rep_def)
  qed
qed

lemma input_step_rep:
  assumes "input_rep h im"
  shows "case input_step e im of Inl f \<Rightarrow> f = OutOfBounds \<and> \<not> valid_event e
     | Inr im' \<Rightarrow> valid_event e \<and> input_rep (e # h) im'"
proof (cases e)
  case (ButtonInput d k down)
  show ?thesis
  proof (cases "in_range KEY_COUNT d k")
    case True
    then obtain im' where "updateKey im d k down = Inr im'" "input_rep (ButtonInput d k down # h) im'"
      using updateKey_rep [OF assms True] by blast
    then show ?thesis using True ButtonInput by (simp add: input_step_def)
  next
    case False
    then show ?thesis using assms ButtonInput cell_table [of KEY_COUNT "m_keysdown im" "down_in h" d k]
      by (simp add: input_step_def updateKey_def input_rep_def)
  qed
next
  case (AxisInput d k pos)
  show ?thesis
  proof (cases "in_range AXIS_COUNT d k")
    case True
    then obtain im' where "updateAxis im d k pos = Inr im'" "input_rep (AxisInput d k pos # h) im'"
      using updateAxis_rep [OF assms True] by blast
    then show ?thesis using True AxisInput by (simp add: input_step_def)
  next
    case False
    then show ?thesis using assms AxisInput
        set_cell_out_of_range [of AXIS_COUNT "m_axispos im" "axis_in h" d k pos]
      by (simp add: input_step_def updateAxis_def input_rep_def)
  qed
qed (simp_all add: input_step_def input_rep_frame [OF assms] input_rep_reset)

lemma input_run_rep:
  "input_rep h im \<Longrightarrow> case input_run es im of Inl f \<Rightarrow> f = OutOfBounds \<and> \<not> list_all valid_event es
     | Inr im' \<Rightarrow> list_all valid_event es \<and> input_rep (rev es @ h) im'"
proof (induction es arbitrary: h im)
  case (Cons e es)
  show ?case
  proof (cases "input_step e im")
    case (Inl f)
    then show ?thesis using input_step_rep [OF Cons.prems, of e] by simp
  next
    case (Inr im')
    then have "valid_event e" "input_rep (e # h) im'" using input_step_rep [OF Cons.prems, of e] by simp_all
    then show ?thesis using Inr Cons.IH [of "e # h" im'] by (simp split: sum.splits)
  qed
qed simp

text \<open>
  C13. After any events since its construction the input manager answers for every device, key and
  axis what the history says: a key is down as its latest event left it, was pressed or released
  exactly if an event of the frame changed it so, an axis has its latest position, and the last key
  pressed or released is the latest one of the frame. The first event with a device, key or axis
  outside the tables, such as a key that a platform maps to \<^verbatim>\<open>type_COUNT\<close>, is an access out of
  bounds; there is no other fault.
\<close>

theorem input_manager_correct:
  "case input_run es (InputManager_new junk) of
     Inl f \<Rightarrow> f = OutOfBounds \<and> \<not> list_all valid_event es
   | Inr im \<Rightarrow> list_all valid_event es \<and>
       keyIsDown im d k = (if in_range KEY_COUNT d k then Inr (down_in (rev es) d k) else Inl OutOfBounds) \<and>
       keyWasPressed im d k =
         (if in_range KEY_COUNT d k then Inr (changed_in True (rev es) d k) else Inl OutOfBounds) \<and>
       keyWasReleased im d k =
         (if in_range KEY_COUNT d k then Inr (changed_in False (rev es) d k) else Inl OutOfBounds) \<and>
       axisGetPos im d k = (if in_range AXIS_COUNT d k then Inr (axis_in (rev es) d k) else Inl OutOfBounds) \<and>
       (m_lastPressedDevice im, m_lastPressedKey im) = last_change True (rev es) \<and>
       (m_lastReleasedDevice im, m_lastReleasedKey im) = last_change False (rev es)"
proof -
  have "input_rep [] (InputManager_new junk)" by (simp add: InputManager_new_def input_rep_reset)
  note run = input_run_rep [OF this, of es]
  show ?thesis
  proof (cases "input_run es (InputManager_new junk)")
    case (Inl f)
    then show ?thesis using run by simp
  next
    case (Inr im)
    then have v: "list_all valid_event es" and rep: "input_rep (rev es) im" using run by simp_all
    note t = rep [unfolded input_rep_def]
    show ?thesis
      unfolding Inr sum.case keyIsDown_def keyWasPressed_def keyWasReleased_def axisGetPos_def
      using v t cell_table [of KEY_COUNT "m_keysdown im" "down_in (rev es)" d k]
        cell_table [of KEY_COUNT "m_keyspressed im" "changed_in True (rev es)" d k]
        cell_table [of KEY_COUNT "m_keysreleased im" "changed_in False (rev es)" d k]
        cell_table [of AXIS_COUNT "m_axispos im" "axis_in (rev es)" d k]
      by blast
  qed
qed

section \<open>The tables of names\<close>

lemma g_keyStrs_eq: "g_keyStrs = ''UNKNOWN'' # eKeyMap_names @ [''<UNKNOWN KEY>'']"
  unfolding g_keyStrs_def eKeyMap_names_def append.simps by (rule refl)

lemma length_names [simp]:
  "length eKeyMap_names = 194" "length eAxisMap_names = 13" "length g_keyStrs = 196"
  "length g_keyTextStrs = 196" "length g_keyShiftedStrs = 196" "length g_axisStrs = 15"
  by (simp_all add: eKeyMap_names_def eAxisMap_names_def g_keyStrs_def g_keyTextStrs_def
      g_keyShiftedStrs_def g_axisStrs_def)

text \<open>
  The names and texts of keys and axes are read inside their tables for every constant and for
  \<^verbatim>\<open>type_COUNT\<close>, and for no other number but 0; the name of a key is that of its constant, and so
  is the name of an axis except for the last two.
\<close>

theorem names_in_bounds:
  "GetKeyName k =
     (if 1 \<le> k \<and> k < KEY_COUNT then Inr (eKeyMap_names ! nat (k - 1))
      else if k = 0 then Inr ''UNKNOWN'' else if k = KEY_COUNT then Inr ''<UNKNOWN KEY>''
      else Inl OutOfBounds) \<and>
   (GetKeyText k shift = Inl OutOfBounds \<longleftrightarrow> \<not> (0 \<le> k \<and> k \<le> KEY_COUNT)) \<and>
   GetAxisName a =
     (if 1 \<le> a \<and> a < 12 then Inr (eAxisMap_names ! nat (a - 1))
      else if a = 12 then Inr ''AXIS_JOY_MOUSE_X'' else if a = 13 then Inr ''AXIS_JOY_MOUSE_Y''
      else if a = 0 then Inr ''UNKNOWN'' else if a = AXIS_COUNT then Inr ''<UNKNOWN AXIS>''
      else Inl OutOfBounds)"
proof (intro conjI)
  show "GetKeyName k =
     (if 1 \<le> k \<and> k < KEY_COUNT then Inr (eKeyMap_names ! nat (k - 1))
      else if k = 0 then Inr ''UNKNOWN'' else if k = KEY_COUNT then Inr ''<UNKNOWN KEY>''
      else Inl OutOfBounds)"
  proof (cases "1 \<le> k \<and> k < KEY_COUNT")
    case True
    then have "nat k = Suc (nat (k - 1))" by linarith
    then show ?thesis using True
      by (simp add: GetKeyName_def elem_def in_array_def KEY_COUNT_def g_keyStrs_eq nth_append nat_less_iff)
  next
    case False
    then show ?thesis
      by (auto simp: GetKeyName_def elem_def in_array_def KEY_COUNT_def) (simp_all add: g_keyStrs_eq nth_append)
  qed
  show "GetKeyText k shift = Inl OutOfBounds \<longleftrightarrow> \<not> (0 \<le> k \<and> k \<le> KEY_COUNT)"
    by (auto simp: GetKeyText_def elem_def in_array_def KEY_COUNT_def)
  have ax: "g_axisStrs = ''UNKNOWN'' # take 11 eAxisMap_names @
      [''AXIS_JOY_MOUSE_X'', ''AXIS_JOY_MOUSE_Y'', ''<UNKNOWN AXIS>'']"
    by (simp add: g_axisStrs_def eAxisMap_names_def)
  show "GetAxisName a =
     (if 1 \<le> a \<and> a < 12 then Inr (eAxisMap_names ! nat (a - 1))
      else if a = 12 then Inr ''AXIS_JOY_MOUSE_X'' else if a = 13 then Inr ''AXIS_JOY_MOUSE_Y''
      else if a = 0 then Inr ''UNKNOWN'' else if a = AXIS_COUNT then Inr ''<UNKNOWN AXIS>''
      else Inl OutOfBounds)"
  proof (cases "1 \<le> a \<and> a < 12")
    case True
    then have "nat a = Suc (nat (a - 1))" by linarith
    then show ?thesis using True
      by (simp add: GetAxisName_def elem_def in_array_def ax nth_append nat_less_iff)
  next
    case False
    then show ?thesis
      by (auto simp: GetAxisName_def elem_def in_array_def AXIS_COUNT_def) (simp_all add: ax nth_append)
  qed
qed

text \<open>With shift the keys of the period and the comma give each other's character.\<close>

lemma shifted_period_comma:
  "GetKeyText 96 False = Inr ''.'' \<and> GetKeyText 96 True = Inr ''<'' \<and>
   GetKeyText 97 False = Inr '','' \<and> GetKeyText 97 True = Inr ''>'' \<and>
   GetKeyName 96 = Inr ''KEY_PERIOD'' \<and> GetKeyName 97 = Inr ''KEY_COMMA''"
  by (simp add: GetKeyText_def GetKeyName_def elem_def in_array_def)
    (simp add: g_keyTextStrs_def g_keyShiftedStrs_def g_keyStrs_def)

end
