(* ===== verification/InputRemap.thy ===== *)
theory InputRemap
  imports VirtualInput
begin

text \<open>
  The remapping of controllers, \<^verbatim>\<open>WRAPPERS/OS/raw_input.shared.cpp\<close>, and the numbering of the devices
  of raw input, \<^verbatim>\<open>AssignDevice\<close> of \<^verbatim>\<open>raw_input.win32.cpp\<close>. The type \<^verbatim>\<open>long\<close> has a width that depends on
  the platform (32 bits on Windows, 64 on Linux) and is a parameter; signed arithmetic that does
  not fit is the fault \<open>Undefined\<close>.
\<close>

section \<open>Signed arithmetic\<close>

definition INT_MAX :: int where
  "INT_MAX = 2 ^ 31 - 1"

definition signed_fit :: "nat \<Rightarrow> int \<Rightarrow> fault + int" where
  "signed_fit bits v = (if - (2 ^ (bits - 1)) \<le> v \<and> v < 2 ^ (bits - 1) then Inr v else Inl Undefined)"

text \<open>Division truncates; by zero it is undefined.\<close>

definition trunc_div :: "int \<Rightarrow> int \<Rightarrow> fault + int" where
  "trunc_div a b = (if b = 0 then Inl Undefined else Inr (sgn a * sgn b * (\<bar>a\<bar> div \<bar>b\<bar>)))"

text \<open>The conversion of a \<^verbatim>\<open>long\<close> to an \<^verbatim>\<open>int\<close>.\<close>

definition to_int :: "int \<Rightarrow> int" where
  "to_int v = sint (word_of_int v :: s32)"

section \<open>The maps of the controllers\<close>

text \<open>
  The maps and whether a handler for bad mappings is set. A call of a handler is recorded with its
  arguments.
\<close>

type_synonym device_id = "int \<times> int"

record RemapState =
  g_buttonMaps :: "device_id \<Rightarrow> (int \<Rightarrow> int option) option"
  g_axisMaps :: "device_id \<Rightarrow> (int \<Rightarrow> int option) option"
  g_axisRangeMaps :: "device_id \<Rightarrow> (int \<Rightarrow> (int \<times> int) option) option"
  g_badAxisHandler :: bool
  g_badButtonHandler :: bool

datatype bad_mapping = BadMapping int int int int int

definition RemapState_new :: RemapState where
  "RemapState_new = \<lparr>g_buttonMaps = \<lambda>_. None, g_axisMaps = \<lambda>_. None, g_axisRangeMaps = \<lambda>_. None,
     g_badAxisHandler = False, g_badButtonHandler = False\<rparr>"

definition SetBadAxisMapHandler :: "bool \<Rightarrow> RemapState \<Rightarrow> RemapState" where
  "SetBadAxisMapHandler handler st = st\<lparr>g_badAxisHandler := handler\<rparr>"

definition SetBadButtonMapHandler :: "bool \<Rightarrow> RemapState \<Rightarrow> RemapState" where
  "SetBadButtonMapHandler handler st = st\<lparr>g_badButtonHandler := handler\<rparr>"

definition Platform_AddControllerButtonRemap ::
  "RemapState \<Rightarrow> int \<Rightarrow> int \<Rightarrow> int \<Rightarrow> (int \<Rightarrow> int option) \<Rightarrow> bool \<times> RemapState" where
  "Platform_AddControllerButtonRemap st vendor product version mapping =
     (case g_buttonMaps st (vendor, product) of
        Some _ \<Rightarrow> (False, st)
      | None \<Rightarrow> (True, st\<lparr>g_buttonMaps := (g_buttonMaps st)((vendor, product) \<mapsto> mapping)\<rparr>))"

definition Platform_AddControllerAxisRemap ::
  "RemapState \<Rightarrow> int \<Rightarrow> int \<Rightarrow> int \<Rightarrow> (int \<Rightarrow> int option) \<Rightarrow> bool \<times> RemapState" where
  "Platform_AddControllerAxisRemap st vendor product version mapping =
     (case g_axisMaps st (vendor, product) of
        Some _ \<Rightarrow> (False, st)
      | None \<Rightarrow> (True, st\<lparr>g_axisMaps := (g_axisMaps st)((vendor, product) \<mapsto> mapping)\<rparr>))"

definition Platform_AddControllerAxisRangeRemap ::
  "RemapState \<Rightarrow> int \<Rightarrow> int \<Rightarrow> int \<Rightarrow> (int \<Rightarrow> (int \<times> int) option) \<Rightarrow> bool \<times> RemapState" where
  "Platform_AddControllerAxisRangeRemap st vendor product version mapping =
     (case g_axisRangeMaps st (vendor, product) of
        Some _ \<Rightarrow> (False, st)
      | None \<Rightarrow> (True, st\<lparr>g_axisRangeMaps := (g_axisRangeMaps st)((vendor, product) \<mapsto> mapping)\<rparr>))"

text \<open>
  A number is cast to the enumeration of keys, whose values have 8 bits. The default is computed
  before the maps are looked at.
\<close>

definition key_cast :: "int \<Rightarrow> fault + int" where
  "key_cast v = (if 0 \<le> v \<and> v < 256 then Inr v else Inl Undefined)"

definition Platform_RemapControllerButton ::
  "RemapState \<Rightarrow> int \<Rightarrow> int \<Rightarrow> int \<Rightarrow> int \<Rightarrow> fault + int \<times> bad_mapping list" where
  "Platform_RemapControllerButton st vendor product version ident =
     bind_result
       (if ident \<le> KEY_JOY_50 - KEY_JOY_0 then key_cast (KEY_JOY_0 + ident) else Inr KEY_COUNT)
       (\<lambda>defaultKey.
     let bad = (if g_badButtonHandler st then [BadMapping vendor product version ident 1] else []) in
     case g_buttonMaps st (vendor, product) of
       None \<Rightarrow> Inr (defaultKey, bad)
     | Some mapping \<Rightarrow>
        (case mapping ident of
           None \<Rightarrow> Inr (defaultKey, bad)
         | Some key \<Rightarrow> Inr (key, [])))"

text \<open>The handler is told the smallest \<^verbatim>\<open>long\<close> where there is no value.\<close>

definition Platform_RemapControllerAxis ::
  "nat \<Rightarrow> RemapState \<Rightarrow> int \<Rightarrow> int \<Rightarrow> int \<Rightarrow> int \<Rightarrow> int \<times> bad_mapping list" where
  "Platform_RemapControllerAxis long st vendor product version ident =
     (let bad = (if g_badAxisHandler st then [BadMapping vendor product version ident (- (2 ^ (long - 1)))]
                 else []) in
      case g_axisMaps st (vendor, product) of
        None \<Rightarrow> (AXIS_COUNT, bad)
      | Some mapping \<Rightarrow>
         (case mapping ident of None \<Rightarrow> (AXIS_COUNT, bad) | Some axis \<Rightarrow> (axis, [])))"

definition Platform_RemapControllerAxisRange ::
  "nat \<Rightarrow> RemapState \<Rightarrow> int \<Rightarrow> int \<Rightarrow> int \<Rightarrow> int \<Rightarrow> int \<Rightarrow> fault + int \<times> bad_mapping list" where
  "Platform_RemapControllerAxisRange long st vendor product version ident value =
     (let bad = (if g_badAxisHandler st then [BadMapping vendor product version ident value] else []) in
      case g_axisRangeMaps st (vendor, product) of
        None \<Rightarrow> Inr (value, bad)
      | Some mapping \<Rightarrow>
         (case mapping ident of
            None \<Rightarrow> Inr (value, bad)
          | Some (first, second) \<Rightarrow>
              bind_result (signed_fit 32 (second - first)) (\<lambda>range.
              bind_result (trunc_div INT_MAX range) (\<lambda>quotient.
              bind_result (signed_fit long (quotient * 2)) (\<lambda>stride.
              bind_result (signed_fit 32 (value - first)) (\<lambda>valueAbs.
              bind_result (signed_fit long (valueAbs * stride)) (\<lambda>scaled.
              bind_result (signed_fit long (scaled - INT_MAX)) (\<lambda>valueFinal.
              Inr (to_int valueFinal, [])))))))))"

section \<open>Numbering devices\<close>

text \<open>Handles are numbers, 0 is none. The loop goes over the controllers from device 1.\<close>

fun assign_loop :: "int list \<Rightarrow> int \<Rightarrow> int \<Rightarrow> int \<times> int list" where
  "assign_loop [] hDevice i = (DEVICE_COUNT, [])"
| "assign_loop (d # ds) hDevice i =
     (if d = 0 then (i, hDevice # ds)
      else if d = hDevice then (i, d # ds)
      else let (r, ds') = assign_loop ds hDevice (i + 1) in (r, d # ds'))"

definition AssignDevice :: "int list \<Rightarrow> bool \<Rightarrow> int \<Rightarrow> int \<times> int list" where
  "AssignDevice m_inputDevices keyboardOrMouse hDevice =
     (if keyboardOrMouse then (0, m_inputDevices)
      else let (r, ds) = assign_loop (tl m_inputDevices) hDevice 1 in (r, hd m_inputDevices # ds))"

section \<open>Remapping\<close>

text \<open>The first map that is added for a device stays.\<close>

lemma add_button_remap_once:
  assumes "Platform_AddControllerButtonRemap st v p ver mapping = (ok, st')"
  shows "Platform_AddControllerButtonRemap st' v p ver' mapping' = (False, st')"
    and "ok \<longleftrightarrow> g_buttonMaps st (v, p) = None"
    and "g_buttonMaps st' (v, p) = Some (if ok then mapping else the (g_buttonMaps st (v, p)))"
  using assms by (auto simp: Platform_AddControllerButtonRemap_def split: option.splits)

text \<open>
  A button that is not mapped is the one of its number. Numbers below zero, which the test does
  not exclude, give keys that are no buttons of a controller.
\<close>

lemma button_default:
  assumes "g_buttonMaps st (v, p) = None \<or> (\<exists>m. g_buttonMaps st (v, p) = Some m \<and> m ident = None)"
  shows "map_sum id fst (Platform_RemapControllerButton st v p ver ident) =
     (if ident < - KEY_JOY_0 then Inl Undefined
      else if ident \<le> 50 then Inr (KEY_JOY_0 + ident) else Inr KEY_COUNT)"
  using assms
  by (auto simp: Platform_RemapControllerButton_def key_cast_def KEY_JOY_0_def KEY_JOY_50_def Let_def
      split: option.splits)

lemma button_negative:
  "g_buttonMaps st (v, p) = None \<Longrightarrow>
   map_sum id (GetKeyName \<circ> fst) (Platform_RemapControllerButton st v p ver (- 144 + 12)) = Inr (Inr ''KEY_A'')"
  by (simp add: Platform_RemapControllerButton_def key_cast_def KEY_JOY_0_def KEY_JOY_50_def Let_def
      GetKeyName_def elem_def in_array_def) (simp add: g_keyStrs_def)

lemma trunc_div_pos: "0 \<le> a \<Longrightarrow> 0 < b \<Longrightarrow> trunc_div a b = Inr (a div b)"
  by (cases "a = 0") (simp_all add: trunc_div_def)

lemma to_int_fits: "- (2 ^ 31) \<le> v \<Longrightarrow> v < 2 ^ 31 \<Longrightarrow> to_int v = v"
  by (simp add: to_int_def sint_sbintrunc' signed_take_bit_int_eq_self_iff)

text \<open>The result for a calibrated range, as the arithmetic of unbounded numbers has it.\<close>

definition scaled_axis :: "int \<Rightarrow> int \<Rightarrow> int \<Rightarrow> int" where
  "scaled_axis first second value = 2 * ((value - first) * (INT_MAX div (second - first))) - INT_MAX"

lemma scaled_axis_bounds:
  assumes "first < second" "first \<le> value" "value \<le> second"
  shows "- INT_MAX \<le> scaled_axis first second value" "scaled_axis first second value \<le> INT_MAX"
proof -
  let ?q = "INT_MAX div (second - first)"
  have q: "0 \<le> ?q" using assms(1) by (simp add: INT_MAX_def pos_imp_zdiv_nonneg_iff)
  then show "- INT_MAX \<le> scaled_axis first second value" using assms(2) by (simp add: scaled_axis_def)
  have "(value - first) * ?q \<le> (second - first) * ?q" using assms(3) q by (intro mult_right_mono) simp_all
  also have "\<dots> \<le> INT_MAX" using assms(1) by (simp add: minus_mod_eq_mult_div [symmetric])
  finally show "scaled_axis first second value \<le> INT_MAX" by (simp add: scaled_axis_def)
qed

lemma scaled_axis_top:
  "scaled_axis first second second = INT_MAX - 2 * (INT_MAX mod (second - first))"
  unfolding scaled_axis_def minus_mod_eq_mult_div [symmetric] by simp

lemma scaled_axis_mono:
  assumes "first < second" "value \<le> value'"
  shows "scaled_axis first second value \<le> scaled_axis first second value'"
proof -
  have "0 \<le> INT_MAX div (second - first)" using assms(1) by (simp add: INT_MAX_def pos_imp_zdiv_nonneg_iff)
  then have "(value - first) * (INT_MAX div (second - first)) \<le> (value' - first) * (INT_MAX div (second - first))"
    using assms(2) by (intro mult_right_mono) simp_all
  then show ?thesis by (simp add: scaled_axis_def)
qed

text \<open>
  C25. A value of an axis inside its calibrated range is mapped, with a 64-bit \<^verbatim>\<open>long\<close>, into
  \<open>[-INT_MAX, INT_MAX]\<close> without a fault: monotonically, the lower end to \<open>-INT_MAX\<close>, the upper end
  to \<open>INT_MAX\<close> less twice the remainder of \<open>INT_MAX\<close> by the range. With a 32-bit \<^verbatim>\<open>long\<close> the product
  overflows as soon as the value is beyond the middle.
\<close>

theorem axis_range_bounds:
  assumes "g_axisRangeMaps st (vendor, product) = Some mapping" "mapping ident = Some (first, second)"
    and "first < second" "second - first \<le> INT_MAX" "first \<le> value" "value \<le> second"
  shows "Platform_RemapControllerAxisRange 64 st vendor product version ident value =
      Inr (scaled_axis first second value, []) \<and>
     - INT_MAX \<le> scaled_axis first second value \<and> scaled_axis first second value \<le> INT_MAX \<and>
     scaled_axis first second first = - INT_MAX \<and>
     scaled_axis first second second = INT_MAX - 2 * (INT_MAX mod (second - first)) \<and>
     Platform_RemapControllerAxisRange 32 st vendor product version ident value =
       (if 2 * (INT_MAX div (second - first)) \<le> INT_MAX \<and> scaled_axis first second value \<le> 0
        then Inr (scaled_axis first second value, []) else Inl Undefined)"
proof -
  let ?q = "INT_MAX div (second - first)" and ?s = "scaled_axis first second value"
  have "0 \<le> ?q" using assms(3) by (simp_all add: INT_MAX_def pos_imp_zdiv_nonneg_iff)
  moreover have "?q \<le> INT_MAX div 1" using assms(3) by (intro zdiv_mono2) (simp_all add: INT_MAX_def)
  ultimately have q: "0 \<le> ?q" "?q \<le> INT_MAX" by simp_all
  have b: "- INT_MAX \<le> ?s" "?s \<le> INT_MAX" using scaled_axis_bounds assms(3,5,6) by simp_all
  have p: "(value - first) * (?q * 2) = ?s + INT_MAX" by (simp add: scaled_axis_def)
  have fits: "signed_fit 32 (second - first) = Inr (second - first)"
    "signed_fit 32 (value - first) = Inr (value - first)"
    using assms(3-6) by (simp_all add: signed_fit_def INT_MAX_def)
  have d: "trunc_div INT_MAX (second - first) = Inr ?q"
    using assms(3) by (simp add: trunc_div_pos INT_MAX_def)
  have t: "to_int ?s = ?s" using b by (intro to_int_fits) (simp_all add: INT_MAX_def)
  have l64: "signed_fit 64 (?q * 2) = Inr (?q * 2)" "signed_fit 64 (?s + INT_MAX) = Inr (?s + INT_MAX)"
    "signed_fit 64 ?s = Inr ?s"
    using q b by (simp_all add: signed_fit_def INT_MAX_def)
  have l32: "signed_fit 32 (?q * 2) = (if 2 * ?q \<le> INT_MAX then Inr (?q * 2) else Inl Undefined)"
    "signed_fit 32 (?s + INT_MAX) = (if ?s \<le> 0 then Inr (?s + INT_MAX) else Inl Undefined)"
    "signed_fit 32 ?s = Inr ?s"
    using q b by (auto simp: signed_fit_def INT_MAX_def)
  have "Platform_RemapControllerAxisRange 64 st vendor product version ident value = Inr (?s, [])"
    using assms(1,2) by (simp add: Platform_RemapControllerAxisRange_def Let_def fits d p l64 t)
  moreover have "Platform_RemapControllerAxisRange 32 st vendor product version ident value =
       (if 2 * ?q \<le> INT_MAX \<and> ?s \<le> 0 then Inr (?s, []) else Inl Undefined)"
    using assms(1,2) by (simp add: Platform_RemapControllerAxisRange_def Let_def fits d p l32 t)
  moreover have "scaled_axis first second first = - INT_MAX" by (simp add: scaled_axis_def)
  ultimately show ?thesis using b scaled_axis_top by blast
qed

text \<open>A pad whose axis has the values from 0 to 255.\<close>

definition example_remap :: RemapState where
  "example_remap = RemapState_new\<lparr>g_axisRangeMaps := [(1, 2) \<mapsto> [4 \<mapsto> (0, 255)]]\<rparr>"

lemma axis_range_bounds_witness:
  "Platform_RemapControllerAxisRange 64 example_remap 1 2 0 4 255 = Inr (INT_MAX - 2 * 127, []) \<and>
   Platform_RemapControllerAxisRange 32 example_remap 1 2 0 4 255 = Inl Undefined"
  using axis_range_bounds [of example_remap 1 2 "[4 \<mapsto> (0, 255)]" 4 0 255 255 0]
  by (simp add: example_remap_def INT_MAX_def scaled_axis_def)

text \<open>One more than the calibrated maximum is mapped to nearly the other end.\<close>

lemma axis_beyond_range:
  "Platform_RemapControllerAxisRange 64 example_remap 1 2 0 4 256 = Inr (- 2130640895, [])"
  by (simp add: Platform_RemapControllerAxisRange_def example_remap_def signed_fit_def trunc_div_def
      INT_MAX_def to_int_def sint_sbintrunc' signed_take_bit_eq_take_bit_shift Let_def take_bit_eq_mod)

text \<open>An axis with no extent divides by zero.\<close>

lemma axis_no_range:
  "Platform_RemapControllerAxisRange long (RemapState_new\<lparr>g_axisRangeMaps := [(1, 2) \<mapsto> [4 \<mapsto> (7, 7)]]\<rparr>) 1 2 0 4 7 =
   Inl Undefined"
  by (simp add: Platform_RemapControllerAxisRange_def signed_fit_def trunc_div_def)

section \<open>Devices keep their numbers\<close>

text \<open>The table holds the handles seen so far in order, and zeros after them.\<close>

definition device_table :: "int list \<Rightarrow> int list \<Rightarrow> bool" where
  "device_table ds used \<longleftrightarrow>
     ds = hd ds # used @ replicate (8 - length used) 0 \<and> length used \<le> 8 \<and> distinct used \<and> 0 \<notin> set used"

lemma assign_loop_known:
  "0 \<notin> set (us @ [h]) \<Longrightarrow> h \<notin> set us \<Longrightarrow> assign_loop (us @ h # vs) h i = (i + int (length us), us @ h # vs)"
  by (induction us arbitrary: i) auto

lemma assign_loop_new:
  "0 \<notin> set us \<Longrightarrow> h \<notin> set us \<Longrightarrow>
   assign_loop (us @ replicate n 0) h i =
     (case n of 0 \<Rightarrow> (DEVICE_COUNT, us) | Suc m \<Rightarrow> (i + int (length us), us @ h # replicate m 0))"
  by (induction us arbitrary: i) (auto split: nat.splits)

text \<open>
  A controller gets the number after those of the handles seen before it, and keeps it; when eight
  are known any other controller gets \<^verbatim>\<open>DEVICE_COUNT\<close>, and its input is dropped.
\<close>

theorem assign_device_correct:
  assumes "device_table ds used" "h \<noteq> 0"
  shows "\<exists>ds' used'. AssignDevice ds False h =
       (if h \<in> set used' then 1 + int (length (takeWhile (\<lambda>x. x \<noteq> h) used')) else DEVICE_COUNT, ds') \<and>
     device_table ds' used' \<and>
     used' = (if h \<in> set used \<or> length used = 8 then used else used @ [h])"
proof -
  have t: "tl ds = used @ replicate (8 - length used) 0" and u: "length used \<le> 8" "distinct used" "0 \<notin> set used"
    using assms(1) unfolding device_table_def by (metis list.sel(3), simp_all)
  show ?thesis
  proof (cases "h \<in> set used")
    case True
    then obtain us vs where used: "used = us @ h # vs" "h \<notin> set us" by (meson split_list_first)
    have "assign_loop (us @ h # vs @ replicate (8 - length used) 0) h 1 =
        (1 + int (length us), us @ h # vs @ replicate (8 - length used) 0)"
      using assms(2) used u by (intro assign_loop_known) simp_all
    moreover have "takeWhile (\<lambda>x. x \<noteq> h) used = us" using used takeWhile_append2 [of us "\<lambda>x. x \<noteq> h" "h # vs"] by fastforce
    ultimately show ?thesis using t used u True
      by (intro exI [of _ "hd ds # used @ replicate (8 - length used) 0"] exI [of _ used])
        (simp add: AssignDevice_def device_table_def)
  next
    case False
    show ?thesis
    proof (cases "length used = 8")
      case True
      then have "AssignDevice ds False h = (DEVICE_COUNT, hd ds # used)"
        using assign_loop_new [OF u(3) False, of 0 1] t by (simp add: AssignDevice_def)
      then show ?thesis using False True u
        by (intro exI [of _ "hd ds # used"] exI [of _ used]) (simp add: device_table_def)
    next
      case l: False
      then obtain m where m: "8 - length used = Suc m" using u(1) by (metis Suc_diff_Suc le_neq_implies_less)
      then have "AssignDevice ds False h = (1 + int (length used), hd ds # used @ h # replicate m 0)"
        using assign_loop_new [OF u(3) False, of "Suc m" 1] t by (simp add: AssignDevice_def)
      moreover have "takeWhile (\<lambda>x. x \<noteq> h) (used @ [h]) = used"
        using False by (simp add: takeWhile_append)
      moreover have "8 - Suc (length used) = m" "Suc (length used) \<le> 8" using m by simp_all
      ultimately show ?thesis using False l u assms(2)
        by (intro exI [of _ "hd ds # used @ h # replicate m 0"] exI [of _ "used @ [h]"])
          (simp add: device_table_def)
    qed
  qed
qed

end
