(* ===== verification/Config.thy ===== *)
theory Config
  imports LexicalCast
begin

text \<open>
  Flags set from the command line and from a file: \<^verbatim>\<open>CORE/BASE/config.cpp\<close> and \<^verbatim>\<open>config.inl\<close>. The
  global map from names to flag objects is the state, with the objects' values in it. The value of
  a flag of a type that has no cast of its own goes through a stringstream: that cast is a
  parameter, which gives whether it succeeded and what it left in the value. The files are a
  parameter, from names to contents. Messages to the log are left out.
\<close>

section \<open>Flags\<close>

text \<open>
  A value with its type: a string, a Boolean, an enumeration with the names of its constants, which
  \<^verbatim>\<open>FlagEnum\<close> holds, or another type.
\<close>

datatype 'v flag_value =
    StringV string
  | BoolV bool
  | EnumV "string list" nat
  | OtherV 'v

record 'v Flag =
  m_value :: "'v flag_value"
  m_set :: bool

type_synonym 'v flags = "string \<Rightarrow> 'v Flag option"
type_synonym 'v caster = "string \<Rightarrow> 'v \<Rightarrow> bool \<times> 'v"
type_synonym files = "string \<Rightarrow> string option"

text \<open>\<^verbatim>\<open>stream >> name\<close>: the characters up to white space, after white space; it fails at the end.\<close>

definition read_word :: "string \<Rightarrow> string option" where
  "read_word s =
     (let w = takeWhile (\<lambda>c. \<not> isspace c) (dropWhile isspace s) in if w = [] then None else Some w)"

text \<open>The loop over the names of the constants, from the constant \<open>i\<close>.\<close>

fun enum_find :: "string \<Rightarrow> string list \<Rightarrow> nat \<Rightarrow> nat option" where
  "enum_find name [] i = None"
| "enum_find name (n # enumNames) i = (if name = n then Some i else enum_find name enumNames (i + 1))"

text \<open>
  Reading an enumeration: the stream has failed if there was no word. No word is compared with the
  names as the empty name then; a name that no constant has leaves the value as it was.
\<close>

definition FlagEnum_read :: "string list \<Rightarrow> nat \<Rightarrow> string \<Rightarrow> bool \<times> nat" where
  "FlagEnum_read enumNames m s =
     (let name = (case read_word s of Some w \<Rightarrow> w | None \<Rightarrow> []);
          found = enum_find name enumNames 0
      in (read_word s \<noteq> None, case found of Some i \<Rightarrow> i | None \<Rightarrow> m))"

fun lexical_cast :: "'v caster \<Rightarrow> string \<Rightarrow> 'v flag_value \<Rightarrow> bool \<times> 'v flag_value" where
  "lexical_cast cast s (StringV _) = (True, StringV s)"
| "lexical_cast cast s (BoolV _) = (True, BoolV (lexical_cast_bool s))"
| "lexical_cast cast s (EnumV names m) = (let (ok, m') = FlagEnum_read names m s in (ok, EnumV names m'))"
| "lexical_cast cast s (OtherV v) = (let (ok, v') = cast s v in (ok, OtherV v'))"

definition fromString :: "'v caster \<Rightarrow> string \<Rightarrow> 'v Flag \<Rightarrow> bool \<times> 'v Flag" where
  "fromString cast value f =
     (let (ok, v) = lexical_cast cast value (m_value f) in
      if ok then (True, f\<lparr>m_value := v, m_set := True\<rparr>) else (False, f\<lparr>m_value := v\<rparr>))"

section \<open>The global flags\<close>

definition RegisterFlag :: "'v flags \<Rightarrow> string \<Rightarrow> 'v Flag \<Rightarrow> bool \<times> 'v flags" where
  "RegisterFlag flags name f =
     (if flags name \<noteq> None then (False, flags) else (True, flags(name \<mapsto> f)))"

definition Flag_new :: "'v flags \<Rightarrow> string \<Rightarrow> 'v flag_value \<Rightarrow> fault + 'v flags" where
  "Flag_new flags name defaultValue =
     (let (ok, flags') = RegisterFlag flags name \<lparr>m_value = defaultValue, m_set = False\<rparr> in
      if ok then Inr flags' else Inl CheckFailed)"

definition g_configFile :: string where
  "g_configFile = ''config_file''"

text \<open>The flags with only the one this file defines.\<close>

definition flags_init :: "'v flags" where
  "flags_init = [g_configFile \<mapsto> \<lparr>m_value = StringV ''./settings.txt'', m_set = False\<rparr>]"

text \<open>A flag is found by its name and set; the error is given when it is unknown or cannot be cast.\<close>

definition set_flag :: "'v caster \<Rightarrow> status \<Rightarrow> 'v flags \<Rightarrow> string \<Rightarrow> string \<Rightarrow> status \<times> 'v flags" where
  "set_flag cast err flags name value =
     (case flags name of
        None \<Rightarrow> (err, flags)
      | Some f \<Rightarrow> (let (ok, f') = fromString cast value f in (if ok then OK else err, flags(name \<mapsto> f'))))"

section \<open>The file\<close>

text \<open>\<^verbatim>\<open>std::getline\<close> until it fails: a last line needs no line feed.\<close>

fun split_lines :: "string \<Rightarrow> string \<Rightarrow> string list" where
  "split_lines line [] = (if line = [] then [] else [line])"
| "split_lines line (c # s) =
     (if c = CHR 0x0A then line # split_lines [] s else split_lines (line @ [c]) s)"

fun config_loop :: "'v caster \<Rightarrow> string list \<Rightarrow> 'v flags \<Rightarrow> fault + status \<times> 'v flags" where
  "config_loop cast [] flags = Inr (OK, flags)"
| "config_loop cast (line # lines) flags =
     (if line = [] then config_loop cast lines flags
      else bind_result (Splitter_split CHR ''='' True line 2) (\<lambda>argstr.
        if length argstr \<noteq> 2 then Inr (BAD_INPUT, flags)
        else let (s, flags') = set_flag cast BAD_INPUT flags (argstr ! 0) (TrimQuotes (argstr ! 1)) in
             if s = OK then config_loop cast lines flags' else Inr (s, flags')))"

text \<open>The flag is an object of its own, of strings, that is registered under its name.\<close>

definition ParseConfigFile :: "'v caster \<Rightarrow> files \<Rightarrow> 'v flags \<Rightarrow> fault + status \<times> 'v flags" where
  "ParseConfigFile cast fs flags =
     (case flags g_configFile of
        None \<Rightarrow> Inr (OK, flags)
      | Some f \<Rightarrow>
          if \<not> m_set f then Inr (OK, flags)
          else case m_value f of
            StringV filename \<Rightarrow>
              (case fs filename of
                 None \<Rightarrow> Inr (NOT_FOUND, flags)
               | Some text \<Rightarrow> config_loop cast (split_lines [] text) flags)
          | _ \<Rightarrow> Inr (OK, flags))"

section \<open>The command line\<close>

text \<open>A character of a string that a null ends.\<close>

definition cstr_at :: "string \<Rightarrow> nat \<Rightarrow> char" where
  "cstr_at s i = (if i < length s then s ! i else CHR 0x00)"

text \<open>The loop, on the arguments from \<open>i\<close> on.\<close>

fun flags_loop :: "'v caster \<Rightarrow> string list \<Rightarrow> 'v flags \<Rightarrow> fault + status \<times> 'v flags" where
  "flags_loop cast [] flags = Inr (OK, flags)"
| "flags_loop cast (arg # args) flags =
     (if cstr_at arg 0 \<noteq> CHR ''-'' \<or> (cstr_at arg 0 \<noteq> CHR 0x00 \<and> cstr_at arg 1 \<noteq> CHR ''-'')
      then Inr (BAD_ARGUMENT, flags)
      else bind_result (Splitter_split CHR ''='' True (drop 2 arg) 2) (\<lambda>argstr.
        if argstr = [] then Inr (BAD_ARGUMENT, flags)
        else if flags (argstr ! 0) = None then Inr (BAD_ARGUMENT, flags)
        else if length argstr = 2
        then (let (s, flags') = set_flag cast BAD_ARGUMENT flags (argstr ! 0) (argstr ! 1) in
              if s = OK then flags_loop cast args flags' else Inr (s, flags'))
        else (case args of
                value # args' \<Rightarrow>
                  (let (s, flags') = set_flag cast BAD_ARGUMENT flags (argstr ! 0) value in
                   if s = OK then flags_loop cast args' flags' else Inr (s, flags'))
              | [] \<Rightarrow> Inr (BAD_ARGUMENT, flags))))"

definition ParseFlags :: "'v caster \<Rightarrow> files \<Rightarrow> string list \<Rightarrow> 'v flags \<Rightarrow> fault + status \<times> 'v flags" where
  "ParseFlags cast fs argv flags =
     bind_result (flags_loop cast (tl argv) flags) (\<lambda>(s, flags').
     if s \<noteq> OK then Inr (s, flags') else ParseConfigFile cast fs flags')"

section \<open>Faults and statuses\<close>

lemma trim_faults: "result_ok {Exception} (\<lambda>_. True) (TrimWhitespace s)"
  by (simp add: trim_whitespace_cases)

text \<open>Splitting at the first equals sign.\<close>

lemma split_at_equals:
  "Splitter_split c True s 2 =
     (if c \<in> set s
      then bind_result (TrimWhitespace (takeWhile (\<lambda>x. x \<noteq> c) s)) (\<lambda>a.
           bind_result (TrimWhitespace (tl (dropWhile (\<lambda>x. x \<noteq> c) s))) (\<lambda>b. Inr [a, b]))
      else bind_result (TrimWhitespace s) (\<lambda>a. Inr [a]))"
proof (cases "find_char c s")
  case None
  then have "c \<notin> set s" by (simp add: find_char_None)
  then show ?thesis using None
    by (simp add: Splitter_split_def split_loop.simps [of c True 2 "[]" s] Let_def)
next
  case (Some i)
  from find_char_Some [OF Some] have s: "s = take i s @ c # drop (i + 1) s" "c \<notin> set (take i s)" by auto
  then have c: "c \<in> set s" by (metis in_set_conv_decomp)
  have "takeWhile (\<lambda>x. x \<noteq> c) (take i s @ c # drop (i + 1) s) = take i s"
    "dropWhile (\<lambda>x. x \<noteq> c) (take i s @ c # drop (i + 1) s) = c # drop (i + 1) s"
    using s(2) by (auto simp: takeWhile_append dropWhile_append)
  then have t: "takeWhile (\<lambda>x. x \<noteq> c) s = take i s" "dropWhile (\<lambda>x. x \<noteq> c) s = c # drop (i + 1) s"
    using s(1) by metis+
  have "Splitter_split c True s 2 = bind_result (TrimWhitespace (take i s)) (\<lambda>a. split_loop c True 2 [a] (drop (i + 1) s))"
    using Some by (simp add: Splitter_split_def split_loop.simps [of c True 2 "[]" s] Let_def)
  moreover have "split_loop c True 2 [a] x = bind_result (TrimWhitespace x) (\<lambda>b. Inr [a, b])" for a x
    by (simp add: split_loop.simps [of c True 2 "[a]" x] Let_def)
  ultimately show ?thesis using c t by simp
qed

lemma split_faults:
  "result_ok {Exception} (\<lambda>ps. length ps \<in> {1, 2}) (Splitter_split c True s 2)"
  unfolding split_at_equals
  by (auto intro!: result_ok_bind [OF trim_faults])

lemma set_flag_dom: "set_flag cast err flags name value = (s, flags') \<Longrightarrow> dom flags' = dom flags \<and> s \<in> {OK, err}"
  by (auto simp: set_flag_def split: option.splits prod.splits if_splits)

definition settled :: "'v flags \<Rightarrow> status \<times> 'v flags \<Rightarrow> bool" where
  "settled flags r \<longleftrightarrow> dom (snd r) = dom flags \<and> fst r \<in> {OK, NOT_FOUND, BAD_ARGUMENT, BAD_INPUT}"

lemma settled_now [simp]: "settled flags (BAD_INPUT, flags)" "settled flags (BAD_ARGUMENT, flags)"
    "settled flags (OK, flags)"
  by (simp_all add: settled_def)

lemma settled_cong: "dom flags' = dom flags \<Longrightarrow> settled flags' = settled flags"
  by (rule ext) (simp add: settled_def)

lemma config_loop_total: "result_ok {Exception} (settled flags) (config_loop cast ls flags)"
proof (induction ls arbitrary: flags)
  case (Cons line ls)
  have "result_ok {Exception} (settled flags)
      (let (s, flags') = set_flag cast BAD_INPUT flags n v in
       if s = OK then config_loop cast ls flags' else Inr (s, flags'))" for n v
  proof (cases "set_flag cast BAD_INPUT flags n v")
    case (Pair s flags')
    then have d: "dom flags' = dom flags" "s \<in> {OK, BAD_INPUT}" using set_flag_dom by blast+
    have "result_ok {Exception} (settled flags) (config_loop cast ls flags')"
      using Cons.IH [of flags'] settled_cong [OF d(1)] by simp
    then show ?thesis using Pair d by (auto simp: settled_def)
  qed
  then show ?case using Cons.IH by (auto intro!: result_ok_bind [OF split_faults])
qed simp

lemma flags_loop_total: "result_ok {Exception} (settled flags) (flags_loop cast args flags)"
proof (induction args arbitrary: flags rule: length_induct)
  case (1 args)
  show ?case
  proof (cases args)
    case (Cons arg rest)
    have "result_ok {Exception} (settled flags)
        (let (s, flags') = set_flag cast BAD_ARGUMENT flags n v in
         if s = OK then flags_loop cast as flags' else Inr (s, flags'))"
      if "length as < length args" for n v as
    proof (cases "set_flag cast BAD_ARGUMENT flags n v")
      case (Pair s flags')
      then have d: "dom flags' = dom flags" "s \<in> {OK, BAD_ARGUMENT}" using set_flag_dom by blast+
      have "result_ok {Exception} (settled flags) (flags_loop cast as flags')"
        using 1 that settled_cong [OF d(1)] by metis
      then show ?thesis using Pair d by (auto simp: settled_def)
    qed
    then show ?thesis
      using Cons by (auto intro!: result_ok_bind [OF split_faults] split: list.splits)
  qed simp
qed

text \<open>
  Parsing the command line and the file returns with one of four statuses and the same names of
  flags, whatever the arguments, the file and the casts; the only other way it ends is the
  exception of trimming a name or value of blanks.
\<close>

theorem parse_flags_total:
  "result_ok {Exception}
     (\<lambda>(s, flags'). dom flags' = dom flags \<and> s \<in> {OK, NOT_FOUND, BAD_ARGUMENT, BAD_INPUT})
     (ParseFlags cast fs argv flags)"
proof -
  have rest: "result_ok {Exception} (settled flags) (ParseConfigFile cast fs flags)" for flags
    using config_loop_total by (auto simp: ParseConfigFile_def settled_def split: option.splits flag_value.splits)
  have "result_ok {Exception} (settled flags) (ParseFlags cast fs argv flags)"
    unfolding ParseFlags_def
  proof (rule result_ok_bind [OF flags_loop_total])
    fix r assume r: "settled flags r"
    show "result_ok {Exception} (settled flags)
       (case r of (s, flags') \<Rightarrow> if s \<noteq> OK then Inr (s, flags') else ParseConfigFile cast fs flags')"
      using r result_ok_mono [OF rest [of "snd r"], of "settled flags"]
      by (cases r) (auto simp: settled_def)
  qed
  then show ?thesis by (rule result_ok_mono) (simp add: settled_def case_prod_beta)
qed

section \<open>What the flags are set to\<close>

text \<open>An assignment of a name as an argument with an equals sign, or as two arguments.\<close>

datatype cli_arg = Joined string string | Separate string string

fun cli_text :: "cli_arg \<Rightarrow> string list" where
  "cli_text (Joined n v) = [''--'' @ n @ ''='' @ v]"
| "cli_text (Separate n v) = [''--'' @ n, v]"

fun cli_pair :: "cli_arg \<Rightarrow> string \<times> string" where
  "cli_pair (Joined n v) = (n, v)"
| "cli_pair (Separate n v) = (n, v)"

definition trimmed :: "string \<Rightarrow> bool" where
  "trimmed s \<longleftrightarrow> s = [] \<or> \<not> blank (hd s) \<and> last s \<noteq> CHR '' ''"

definition plain_name :: "string \<Rightarrow> bool" where
  "plain_name n \<longleftrightarrow> trimmed n \<and> CHR ''='' \<notin> set n"

fun cli_ok :: "cli_arg \<Rightarrow> bool" where
  "cli_ok (Joined n v) \<longleftrightarrow> plain_name n \<and> trimmed v"
| "cli_ok (Separate n v) \<longleftrightarrow> plain_name n"

text \<open>A line of the file: empty, or a name, an equals sign and a value that may be in quotes.\<close>

datatype config_line = Blank | Setting string string

fun line_text :: "config_line \<Rightarrow> string" where
  "line_text Blank = []"
| "line_text (Setting n v) = n @ ''='' @ v"

fun line_pairs :: "config_line \<Rightarrow> (string \<times> string) list" where
  "line_pairs Blank = []"
| "line_pairs (Setting n v) = [(n, TrimQuotes v)]"

fun line_ok :: "config_line \<Rightarrow> bool" where
  "line_ok Blank \<longleftrightarrow> True"
| "line_ok (Setting n v) \<longleftrightarrow> plain_name n \<and> trimmed v \<and> CHR 0x0A \<notin> set n \<union> set v"

definition file_text :: "config_line list \<Rightarrow> string" where
  "file_text ls = concat (map (\<lambda>l. line_text l @ [CHR 0x0A]) ls)"

text \<open>Assignments in order; none if a flag is unknown or a value cannot be cast.\<close>

fun assign_all :: "'v caster \<Rightarrow> (string \<times> string) list \<Rightarrow> 'v flags \<Rightarrow> 'v flags option" where
  "assign_all cast [] flags = Some flags"
| "assign_all cast ((n, v) # xs) flags =
     (case flags n of
        None \<Rightarrow> None
      | Some f \<Rightarrow> (case fromString cast v f of
                    (True, f') \<Rightarrow> assign_all cast xs (flags(n \<mapsto> f'))
                  | (False, _) \<Rightarrow> None))"

lemma trim_trimmed [simp]: "trimmed s \<Longrightarrow> TrimWhitespace s = Inr s"
proof (cases "s = []")
  case False
  assume "trimmed s"
  then have h: "\<not> blank (hd s)" "last s \<noteq> CHR '' ''" using False by (simp_all add: trimmed_def)
  have d: "dropWhile blank s = s" using h(1) False by (cases s) simp_all
  have "hd (rev s) \<noteq> CHR '' ''" using h(2) False by (simp add: hd_rev)
  then have e: "dropWhile (\<lambda>c. c = CHR '' '') (rev s) = rev s" using False by (cases "rev s") simp_all
  have "\<not> list_all blank s" using h(1) False by (cases s) simp_all
  then show ?thesis by (simp add: trim_whitespace_cases False d e)
qed (simp add: trim_whitespace_cases)

lemma split_joined: "plain_name n \<Longrightarrow> trimmed v \<Longrightarrow> Splitter_split CHR ''='' True (n @ CHR ''='' # v) 2 = Inr [n, v]"
proof -
  assume n: "plain_name n" and v: "trimmed v"
  then have "takeWhile (\<lambda>x. x \<noteq> CHR ''='') (n @ CHR ''='' # v) = n"
    "dropWhile (\<lambda>x. x \<noteq> CHR ''='') (n @ CHR ''='' # v) = CHR ''='' # v"
    by (auto simp: plain_name_def takeWhile_append dropWhile_append)
  then show ?thesis using n v by (simp add: split_at_equals plain_name_def)
qed

lemma split_alone: "plain_name n \<Longrightarrow> Splitter_split CHR ''='' True n 2 = Inr [n]"
  by (simp add: split_at_equals plain_name_def)

lemma set_flag_assign:
  "assign_all cast ((n, v) # xs) flags = Some flags' \<Longrightarrow>
   \<exists>flags1. flags n \<noteq> None \<and> set_flag cast err flags n v = (OK, flags1) \<and> assign_all cast xs flags1 = Some flags'"
  by (auto simp: set_flag_def split: option.splits prod.splits bool.splits)

lemma flags_loop_assigns:
  "list_all cli_ok as \<Longrightarrow> assign_all cast (map cli_pair as) flags = Some flags' \<Longrightarrow>
   flags_loop cast (concat (map cli_text as)) flags = Inr (OK, flags')"
proof (induction as arbitrary: flags)
  case (Cons a as)
  show ?case
  proof (cases a)
    case (Joined n v)
    then have a: "assign_all cast ((n, v) # map cli_pair as) flags = Some flags'" using Cons.prems(2) by simp
    from set_flag_assign [OF this, of BAD_ARGUMENT] obtain flags1 where
      "flags n \<noteq> None" "set_flag cast BAD_ARGUMENT flags n v = (OK, flags1)"
      "assign_all cast (map cli_pair as) flags1 = Some flags'" by blast
    then show ?thesis using Joined Cons by (simp add: cstr_at_def split_joined)
  next
    case (Separate n v)
    then have a: "assign_all cast ((n, v) # map cli_pair as) flags = Some flags'" using Cons.prems(2) by simp
    from set_flag_assign [OF this, of BAD_ARGUMENT] obtain flags1 where
      "flags n \<noteq> None" "set_flag cast BAD_ARGUMENT flags n v = (OK, flags1)"
      "assign_all cast (map cli_pair as) flags1 = Some flags'" by blast
    then show ?thesis using Separate Cons by (simp add: cstr_at_def split_alone)
  qed
qed simp

lemma split_lines_line:
  "CHR 0x0A \<notin> set l \<Longrightarrow> split_lines acc (l @ CHR 0x0A # s) = (acc @ l) # split_lines [] s"
  by (induction l arbitrary: acc) auto

lemma split_lines_file: "list_all line_ok ls \<Longrightarrow> split_lines [] (file_text ls) = map line_text ls"
proof (induction ls)
  case (Cons l ls)
  have "CHR 0x0A \<notin> set (line_text l)" using Cons.prems by (cases l) auto
  then show ?case using Cons by (simp add: file_text_def split_lines_line)
qed (simp add: file_text_def)

lemma config_loop_assigns:
  "list_all line_ok ls \<Longrightarrow> assign_all cast (concat (map line_pairs ls)) flags = Some flags' \<Longrightarrow>
   config_loop cast (map line_text ls) flags = Inr (OK, flags')"
proof (induction ls arbitrary: flags)
  case (Cons l ls)
  show ?case
  proof (cases l)
    case Blank
    then show ?thesis using Cons by simp
  next
    case (Setting n v)
    then have "assign_all cast ((n, TrimQuotes v) # concat (map line_pairs ls)) flags = Some flags'"
      using Cons.prems(2) by simp
    from set_flag_assign [OF this, of BAD_INPUT] obtain flags1 where
      "set_flag cast BAD_INPUT flags n (TrimQuotes v) = (OK, flags1)"
      "assign_all cast (concat (map line_pairs ls)) flags1 = Some flags'" by blast
    then show ?thesis using Setting Cons by (simp add: split_joined)
  qed
qed simp

text \<open>
  C24. A command line that writes assignments of known flags, each with an equals sign or as two
  arguments, sets the flags in their order; then, if it set \<^verbatim>\<open>config_file\<close> to the name of a file,
  the assignments of the lines of the file follow, so that they override those of the command
  line, and the flags are as after all of them.
\<close>

theorem parse_flags_assigns:
  assumes "list_all cli_ok as" "assign_all cast (map cli_pair as) flags = Some flags1"
    and "flags1 g_configFile = Some \<lparr>m_value = StringV filename, m_set = True\<rparr>"
    and "fs filename = Some (file_text ls)" "list_all line_ok ls"
    and "assign_all cast (concat (map line_pairs ls)) flags1 = Some flags2"
  shows "ParseFlags cast fs (program # concat (map cli_text as)) flags = Inr (OK, flags2)"
  using flags_loop_assigns [OF assms(1,2)] config_loop_assigns [OF assms(5,6)] split_lines_file [OF assms(5)]
    assms(3,4)
  by (simp add: ParseFlags_def ParseConfigFile_def)

text \<open>A flag that the command line and the file set has the value of the file.\<close>

lemma parse_flags_assigns_witness:
  "\<exists>flags. ParseFlags (\<lambda>_ v. (True, v)) [''f.txt'' \<mapsto> ''n=\"x y\"'' @ [CHR 0x0A, CHR 0x0A]]
      [''app'', ''--n=1'', ''--config_file'', ''f.txt'']
      ((flags_init :: unit flags)(''n'' \<mapsto> \<lparr>m_value = StringV [], m_set = False\<rparr>)) = Inr (OK, flags) \<and>
    flags ''n'' = Some \<lparr>m_value = StringV ''x y'', m_set = True\<rparr>"
proof -
  let ?as = "[Joined ''n'' ''1'', Separate ''config_file'' ''f.txt'']"
    and ?ls = "[Setting ''n'' ''\"x y\"'', Blank]"
    and ?fl = "flags_init(''n'' \<mapsto> \<lparr>m_value = StringV [], m_set = False\<rparr>) :: unit flags"
  have ok: "list_all cli_ok ?as" "list_all line_ok ?ls"
    by (simp_all add: plain_name_def trimmed_def blank_def)
  obtain fl1 where a: "assign_all (\<lambda>_ v. (True, v)) (map cli_pair ?as) ?fl = Some fl1"
    and c: "fl1 g_configFile = Some \<lparr>m_value = StringV ''f.txt'', m_set = True\<rparr>"
    and n: "fl1 ''n'' = Some \<lparr>m_value = StringV ''1'', m_set = True\<rparr>"
    by (simp add: flags_init_def fromString_def g_configFile_def)
  obtain fl2 where b: "assign_all (\<lambda>_ v. (True, v)) (concat (map line_pairs ?ls)) fl1 = Some fl2"
    and m: "fl2 ''n'' = Some \<lparr>m_value = StringV ''x y'', m_set = True\<rparr>"
    using n by (simp add: fromString_def TrimQuotes_def substr_def)
  show ?thesis
    using parse_flags_assigns [OF ok(1) a c _ ok(2) b, of "[''f.txt'' \<mapsto> ''n=\"x y\"'' @ [CHR 0x0A, CHR 0x0A]]" "''app''"] m
    by (auto simp: file_text_def)
qed

text \<open>The name of no constant is accepted and leaves the enumeration's value.\<close>

lemma enum_unknown_accepted:
  "lexical_cast cast ''blue'' (EnumV [''UNKNOWN'', ''red''] 1) = (True, EnumV [''UNKNOWN'', ''red''] 1)"
  by (simp add: FlagEnum_read_def read_word_def isspace_def)

text \<open>A value of blanks ends the program with an exception.\<close>

lemma blank_value_throws:
  "ParseFlags cast fs [''app'', ''--config_file= ''] flags_init = Inl Exception"
  by (simp add: ParseFlags_def cstr_at_def split_at_equals trim_whitespace_cases blank_def)

end
