(* ===== verification/ComparisonChain.thy ===== *)
theory ComparisonChain
  imports Main
begin

text \<open>
  Chains of comparisons: \<^verbatim>\<open>CORE/UTIL/comparisonchain.inl\<close>. The state of a chain is the number
  \<^verbatim>\<open>m_value\<close>; the operators \<open>>\<close> and \<open><\<close> of the compared type are parameters. The calls return the
  chain they are called on.
\<close>

section \<open>The code\<close>

record ComparisonChain =
  m_value :: int

definition ComparisonChain_new :: ComparisonChain where
  "ComparisonChain_new = \<lparr>m_value = 0\<rparr>"

definition buildInt :: "ComparisonChain \<Rightarrow> int" where
  "buildInt c = m_value c"

definition buildEqual :: "ComparisonChain \<Rightarrow> bool" where
  "buildEqual c \<longleftrightarrow> m_value c = 0"

definition buildLessThan :: "ComparisonChain \<Rightarrow> bool" where
  "buildLessThan c \<longleftrightarrow> m_value c < 0"

definition buildGreaterThan :: "ComparisonChain \<Rightarrow> bool" where
  "buildGreaterThan c \<longleftrightarrow> m_value c > 0"

definition compare :: "('a \<Rightarrow> 'a \<Rightarrow> bool) \<Rightarrow> ('a \<Rightarrow> 'a \<Rightarrow> bool) \<Rightarrow> 'a \<Rightarrow> 'a \<Rightarrow> int" where
  "compare gt lt lhs rhs = (if gt lhs rhs then 1 else if lt lhs rhs then -1 else 0)"

definition andOne ::
  "('a \<Rightarrow> 'a \<Rightarrow> bool) \<Rightarrow> ('a \<Rightarrow> 'a \<Rightarrow> bool) \<Rightarrow> 'a \<Rightarrow> 'a \<Rightarrow> ComparisonChain \<Rightarrow> ComparisonChain" where
  "andOne gt lt lhs rhs c = (if buildEqual c then c\<lparr>m_value := compare gt lt lhs rhs\<rparr> else c)"

definition orOne ::
  "('a \<Rightarrow> 'a \<Rightarrow> bool) \<Rightarrow> ('a \<Rightarrow> 'a \<Rightarrow> bool) \<Rightarrow> 'a \<Rightarrow> 'a \<Rightarrow> ComparisonChain \<Rightarrow> ComparisonChain" where
  "orOne gt lt lhs rhs c = (if \<not> buildEqual c then c\<lparr>m_value := compare gt lt lhs rhs\<rparr> else c)"

definition andInt :: "int \<Rightarrow> ComparisonChain \<Rightarrow> ComparisonChain" where
  "andInt child c = (if buildEqual c then c\<lparr>m_value := child\<rparr> else c)"

definition orInt :: "int \<Rightarrow> ComparisonChain \<Rightarrow> ComparisonChain" where
  "orInt child c = (if \<not> buildEqual c then c\<lparr>m_value := child\<rparr> else c)"

definition andChain :: "ComparisonChain \<Rightarrow> ComparisonChain \<Rightarrow> ComparisonChain" where
  "andChain child c = andInt (buildInt child) c"

definition orChain :: "ComparisonChain \<Rightarrow> ComparisonChain \<Rightarrow> ComparisonChain" where
  "orChain child c = orInt (buildInt child) c"

text \<open>The loops give the chain and what is left of the two ranges.\<close>

fun andAll_loop ::
  "('a \<Rightarrow> 'a \<Rightarrow> bool) \<Rightarrow> ('a \<Rightarrow> 'a \<Rightarrow> bool) \<Rightarrow> 'a list \<Rightarrow> 'a list \<Rightarrow> ComparisonChain \<Rightarrow>
   ComparisonChain \<times> 'a list \<times> 'a list" where
  "andAll_loop gt lt (x # lhs) (y # rhs) c =
     (if buildEqual c then andAll_loop gt lt lhs rhs (andOne gt lt x y c) else (c, x # lhs, y # rhs))"
| "andAll_loop gt lt lhs rhs c = (c, lhs, rhs)"

fun orAny_loop ::
  "('a \<Rightarrow> 'a \<Rightarrow> bool) \<Rightarrow> ('a \<Rightarrow> 'a \<Rightarrow> bool) \<Rightarrow> 'a list \<Rightarrow> 'a list \<Rightarrow> ComparisonChain \<Rightarrow>
   ComparisonChain \<times> 'a list \<times> 'a list" where
  "orAny_loop gt lt (x # lhs) (y # rhs) c = orAny_loop gt lt lhs rhs (orOne gt lt x y c)"
| "orAny_loop gt lt lhs rhs c = (c, lhs, rhs)"

definition andAll ::
  "('a \<Rightarrow> 'a \<Rightarrow> bool) \<Rightarrow> ('a \<Rightarrow> 'a \<Rightarrow> bool) \<Rightarrow> 'a list \<Rightarrow> 'a list \<Rightarrow> ComparisonChain \<Rightarrow> ComparisonChain" where
  "andAll gt lt lhs rhs c =
     (let (c', lhs', rhs') = andAll_loop gt lt lhs rhs c in
      andOne (>) (<) (int (length lhs')) (int (length rhs')) c')"

definition orAny ::
  "('a \<Rightarrow> 'a \<Rightarrow> bool) \<Rightarrow> ('a \<Rightarrow> 'a \<Rightarrow> bool) \<Rightarrow> 'a list \<Rightarrow> 'a list \<Rightarrow> ComparisonChain \<Rightarrow> ComparisonChain" where
  "orAny gt lt lhs rhs c =
     (let (c', lhs', rhs') = orAny_loop gt lt lhs rhs c in
      andOne (>) (<) (int (length lhs')) (int (length rhs')) c')"

section \<open>Lexicographic comparison\<close>

abbreviation lt_rel :: "('a :: linorder \<times> 'a) set" where
  "lt_rel \<equiv> {(x, y). x < y}"

definition lex_compare :: "'a :: linorder list \<Rightarrow> 'a list \<Rightarrow> int" where
  "lex_compare xs ys = (if (xs, ys) \<in> lexord lt_rel then -1 else if xs = ys then 0 else 1)"

lemma lex_compare_simps:
  "lex_compare [] [] = 0"
  "lex_compare [] (y # ys) = -1"
  "lex_compare (x # xs) [] = 1"
  "lex_compare (x # xs) (y # ys) = (if x < y then -1 else if x = y then lex_compare xs ys else 1)"
  by (auto simp: lex_compare_def)

lemma andAll_decided: "m_value c \<noteq> 0 \<Longrightarrow> andAll gt lt xs ys c = c"
  by (cases "(gt, lt, xs, ys, c)" rule: andAll_loop.cases) (auto simp: andAll_def andOne_def buildEqual_def)

lemma andAll_equal:
  "m_value c = 0 \<Longrightarrow> andAll (>) (<) xs ys c = c\<lparr>m_value := lex_compare xs ys\<rparr>"
proof (induction xs arbitrary: ys c)
  case Nil
  then show ?case
    by (cases ys) (simp_all add: andAll_def andOne_def buildEqual_def compare_def lex_compare_simps)
next
  case (Cons x xs)
  show ?case
  proof (cases ys)
    case Nil
    then show ?thesis using Cons.prems
      by (simp add: andAll_def andOne_def buildEqual_def compare_def lex_compare_simps)
  next
    case (Cons y ys')
    have step: "andAll (>) (<) (x # xs) (y # ys') c = andAll (>) (<) xs ys' (andOne (>) (<) x y c)"
      using Cons.prems by (simp add: andAll_def buildEqual_def)
    show ?thesis
    proof (cases "x = y")
      case True
      have "andOne (>) (<) y y c = c" using Cons.prems
        by (simp add: andOne_def buildEqual_def compare_def)
      then show ?thesis using Cons.IH [OF Cons.prems, of ys'] True step Cons by (simp add: lex_compare_simps)
    next
      case False
      then show ?thesis using Cons.prems step Cons
        by (subst (asm) andAll_decided)
          (auto simp: andOne_def buildEqual_def compare_def lex_compare_simps)
    qed
  qed
qed

text \<open>
  On an undecided chain \<^verbatim>\<open>andAll\<close> decides the lexicographic comparison of two ranges of a linearly
  ordered type, with -1, 0 and 1, equal only for equal ranges; a decided chain stays as it is. So a
  chain of \<^verbatim>\<open>andAll\<close> and \<^verbatim>\<open>andOne\<close> is decided by the first of its comparisons that finds a difference.
\<close>

theorem comparison_chain_lexicographic:
  "buildInt (andAll (>) (<) xs ys c) = (if buildEqual c then lex_compare xs ys else buildInt c) \<and>
   buildInt (andOne (>) (<) x y c) = (if buildEqual c then lex_compare [x] [y] else buildInt c) \<and>
   buildInt (andChain child c) = (if buildEqual c then buildInt child else buildInt c) \<and>
   buildEqual (andAll (>) (<) xs ys ComparisonChain_new) = (xs = ys) \<and>
   buildLessThan (andAll (>) (<) xs ys ComparisonChain_new) = ((xs, ys) \<in> lexord lt_rel) \<and>
   buildGreaterThan (andAll (>) (<) xs ys ComparisonChain_new) = ((ys, xs) \<in> lexord lt_rel)"
proof -
  have "asym (lt_rel :: ('a \<times> 'a) set)" by (auto simp: asym_on_def)
  then have asym: "(xs, ys) \<in> lexord lt_rel \<Longrightarrow> (ys, xs) \<notin> lexord lt_rel"
    using lexord_asymmetric [of lt_rel xs ys] by blast
  have irr: "(xs, xs) \<notin> lexord lt_rel" by (simp add: lexord_irreflexive)
  have tot: "(xs, ys) \<in> lexord lt_rel \<or> xs = ys \<or> (ys, xs) \<in> lexord lt_rel"
    by (rule lexord_linear) auto
  show ?thesis
    using asym irr tot andAll_equal [of c xs ys] andAll_decided [of c "(>)" "(<)" xs ys]
      andAll_equal [of ComparisonChain_new xs ys]
    by (auto simp: buildInt_def buildEqual_def buildLessThan_def buildGreaterThan_def andChain_def
        andInt_def andOne_def compare_def lex_compare_def ComparisonChain_new_def)
qed

section \<open>Alternatives\<close>

text \<open>
  A chain starts out equal, and an alternative is not looked at while it is: \<^verbatim>\<open>orOne\<close> does nothing on a
  new chain, and \<^verbatim>\<open>orAny\<close> on one compares lengths only.
\<close>

lemma orAny_loop_equal:
  "buildEqual c \<Longrightarrow> orAny_loop gt lt xs ys c = (c, drop (length ys) xs, drop (length xs) ys)"
  by (induction gt lt xs ys c rule: orAny_loop.induct) (simp_all add: orOne_def)

theorem or_chain_inert:
  "orOne gt lt x y ComparisonChain_new = ComparisonChain_new \<and>
   buildInt (orAny gt lt xs ys ComparisonChain_new) = sgn (int (length xs) - int (length ys))"
  by (auto simp: orOne_def orAny_def orAny_loop_equal buildEqual_def ComparisonChain_new_def buildInt_def
      andOne_def compare_def sgn_if)

end
